(* ===== verification/Prelude.thy ===== *)
theory Prelude
  imports Main "HOL-Library.Word"
begin

text \<open>
  Shared vocabulary of the development: the machine types of the Rust sources, the
  big-endian byte layout of \<^verbatim>\<open>bytes::BufMut::put_uN\<close>, the error-propagation operator
  \<^verbatim>\<open>?\<close>, and the generic lemmas on words, lists and sums that the component theories use.

  A \<^verbatim>\<open>u8\<close> is an \<^typ>\<open>8 word\<close>, a \<^verbatim>\<open>u64\<close> a \<^typ>\<open>64 word\<close>. A \<^verbatim>\<open>usize\<close> that is the length of
  a buffer or a count of bytes still to come is a \<^typ>\<open>nat\<close>: the sources never let one
  wrap, and where a bound matters it is a lemma.
\<close>

unbundle bit_operations_syntax

type_synonym byte = "8 word"
type_synonym bytes = "byte list"
type_synonym u16 = "16 word"
type_synonym u32 = "32 word"
type_synonym u64 = "64 word"

section \<open>Errors as values\<close>

text \<open>The operator \<^verbatim>\<open>?\<close>: go on with the value, or return the error at once.\<close>

definition and_then :: "'e + 'a \<Rightarrow> ('a \<Rightarrow> 'e + 'b) \<Rightarrow> 'e + 'b" where
  "and_then r f = (case r of Inl e \<Rightarrow> Inl e | Inr a \<Rightarrow> f a)"

definition ok_or :: "'a option \<Rightarrow> 'e \<Rightarrow> 'e + 'a" where
  "ok_or x e = (case x of None \<Rightarrow> Inl e | Some a \<Rightarrow> Inr a)"

lemma and_then_simps [simp]:
  "and_then (Inl e) f = Inl e"
  "and_then (Inr a) f = f a"
  by (simp_all add: and_then_def)

lemma ok_or_simps [simp]:
  "ok_or None e = Inl e"
  "ok_or (Some a) e = Inr a"
  by (simp_all add: ok_or_def)

lemma and_then_Inr_iff: "and_then r f = Inr b \<longleftrightarrow> (\<exists>a. r = Inr a \<and> f a = Inr b)"
  by (cases r) auto

lemma and_then_Inl_iff:
  "and_then r f = Inl e \<longleftrightarrow> r = Inl e \<or> (\<exists>a. r = Inr a \<and> f a = Inl e)"
  by (cases r) auto

lemma ok_or_Inr_iff: "ok_or x e = Inr a \<longleftrightarrow> x = Some a"
  by (cases x) auto

lemma ok_or_Inl_iff: "ok_or x e = Inl e' \<longleftrightarrow> x = None \<and> e' = e"
  by (cases x) auto

lemmas question_mark_iffs = and_then_Inr_iff and_then_Inl_iff ok_or_Inr_iff ok_or_Inl_iff

section \<open>Saturating arithmetic\<close>

text \<open>\<^verbatim>\<open>saturating_add\<close>: the sum, or the largest value of the type when it does not fit.\<close>

definition saturating_add :: "'a::len word \<Rightarrow> 'a word \<Rightarrow> 'a word" where
  "saturating_add a b = (if unat a + unat b < 2 ^ LENGTH('a) then a + b else - 1)"

lemma unat_saturating_add:
  "unat (saturating_add a b) = min (unat a + unat b) (2 ^ LENGTH('a) - 1)" for a b :: "'a::len word"
  by (auto simp: saturating_add_def unat_word_ariths unsigned_minus_1_eq_mask mask_eq_exp_minus_1)

section \<open>Words as numbers\<close>

lemma drop_bit_nat_eq: "drop_bit k (n :: nat) = n div 2 ^ k"
  by (rule drop_bit_eq_div)

lemma take_bit_nat_eq: "take_bit k (n :: nat) = n mod 2 ^ k"
  by (rule take_bit_eq_mod)

lemma push_bit_nat_eq: "push_bit k (n :: nat) = n * 2 ^ k"
  by (rule push_bit_eq_mult)

lemma byte_less: "unat (b :: byte) < 256"
  using unsigned_less[of b] by simp

lemma u16_less: "unat (s :: u16) < 65536"
  using unsigned_less[of s] by simp

text \<open>A property of bytes, by trying them all.\<close>

lemma all_bytes:
  assumes "list_all (\<lambda>n. P (of_nat n)) [0..<256]"
  shows "P (b :: byte)"
proof -
  have "unat b \<in> set [0..<256]" using byte_less[of b] by simp
  with assms have "P (of_nat (unat b))" by (simp only: list_all_iff)
  then show ?thesis by simp
qed

lemma unat_drop_bit_div: "unat (drop_bit k (w :: 'a::len word)) = unat w div 2 ^ k"
  by (simp only: unat_drop_bit_eq drop_bit_nat_eq)

lemma unat_take_bit_mod: "unat (take_bit k (w :: 'a::len word)) = unat w mod 2 ^ k"
  by (simp only: unsigned_take_bit_eq take_bit_nat_eq)

lemma unat_push_bit_mult:
  "unat (w :: 'a::len word) * 2 ^ k < 2 ^ LENGTH('a) \<Longrightarrow> unat (push_bit k w) = unat w * 2 ^ k"
  by (simp only: unsigned_push_bit_eq push_bit_nat_eq take_bit_nat_eq mod_less)

section \<open>Big-endian bytes\<close>

text \<open>
  \<open>be_bytes k w\<close> is the \<open>k\<close> low bytes of \<open>w\<close>, most significant first: what
  \<^verbatim>\<open>put_u8\<close>, \<^verbatim>\<open>put_u16\<close>, \<^verbatim>\<open>put_u32\<close> and \<^verbatim>\<open>put_u64\<close> append for \<open>k = 1, 2, 4, 8\<close>.
\<close>

fun be_bytes :: "nat \<Rightarrow> 'a::len word \<Rightarrow> bytes" where
  "be_bytes 0 w = []"
| "be_bytes (Suc k) w = ucast (drop_bit (8 * k) w) # be_bytes k w"

text \<open>\<open>be_fold v bs\<close> shifts \<open>bs\<close> into \<open>v\<close>, as the loop \<^verbatim>\<open>value = (value << 8) | byte\<close> does.\<close>

fun be_fold :: "u64 \<Rightarrow> bytes \<Rightarrow> u64" where
  "be_fold v [] = v"
| "be_fold v (b # bs) = be_fold (push_bit 8 v OR ucast b) bs"

lemma length_be_bytes [simp]: "length (be_bytes k w) = k"
  by (induction k) auto

lemma be_fold_append: "be_fold v (xs @ ys) = be_fold (be_fold v xs) ys"
  by (induction xs arbitrary: v) auto

lemma take_bit_word_self_iff: "take_bit n (w :: 'a::len word) = w \<longleftrightarrow> unat w < 2 ^ n"
proof -
  have "take_bit n w = w \<longleftrightarrow> unat (take_bit n w) = unat w"
    by (simp add: word_unat_eq_iff)
  also have "\<dots> \<longleftrightarrow> take_bit n (unat w) = unat w"
    by (simp add: unsigned_take_bit_eq)
  finally show ?thesis by (simp add: take_bit_nat_eq_self_iff)
qed

lemma shift_in_byte:
  "push_bit (8 * k) (push_bit 8 v OR ucast (ucast (drop_bit (8 * k) w) :: byte)) OR take_bit (8 * k) w
   = push_bit (8 * Suc k) v OR take_bit (8 * Suc k) (w :: u64)" (is "?l = ?r")
proof (rule bit_eqI)
  fix n
  assume "possible_bit TYPE(u64) n"
  then have n: "n < 64" by simp
  show "bit ?l n = bit ?r n"
  proof (cases "n < 8 * k")
    case True
    then show ?thesis
      using n by (simp add: bit_simps not_le)
  next
    case ge: False
    show ?thesis
    proof (cases "n < 8 * Suc k")
      case True
      with ge have "n - 8 * k < 8" by simp
      with True ge n show ?thesis
        by (auto simp: bit_simps)
    next
      case False
      then have "8 \<le> n - 8 * k" "n - 8 * k - 8 = n - 8 * Suc k" by simp_all
      with False ge n show ?thesis
        by (auto simp: bit_simps)
    qed
  qed
qed

lemma be_fold_be_bytes:
  "be_fold v (be_bytes k (w :: u64)) = push_bit (8 * k) v OR take_bit (8 * k) w"
proof (induction k arbitrary: v)
  case 0
  then show ?case by simp
next
  case (Suc k)
  then show ?case
    by (simp only: be_bytes.simps be_fold.simps Suc.IH shift_in_byte)
qed

lemma ucast_be_bytes:
  "8 * k \<le> LENGTH('a) \<Longrightarrow> 8 * k \<le> 64 \<Longrightarrow> be_bytes k (w :: 'a::len word) = be_bytes k (ucast w :: u64)"
proof (induction k)
  case (Suc k)
  have "(ucast (drop_bit (8 * k) w) :: byte) = ucast (drop_bit (8 * k) (ucast w :: u64))"
    using Suc.prems by (intro bit_eqI) (auto simp: bit_simps)
  with Suc show ?case by simp
qed simp

section \<open>Searching slices\<close>

text \<open>\<^verbatim>\<open>iter().position(p)\<close>: where the first element that satisfies \<open>p\<close> is.\<close>

fun position :: "('a \<Rightarrow> bool) \<Rightarrow> 'a list \<Rightarrow> nat option" where
  "position p [] = None"
| "position p (x # xs) = (if p x then Some 0 else map_option Suc (position p xs))"

lemma position_None: "position p xs = None \<longleftrightarrow> list_all (\<lambda>x. \<not> p x) xs"
  by (induction xs) auto

lemma position_Some:
  "position p xs = Some i \<longleftrightarrow> i < length xs \<and> p (xs ! i) \<and> list_all (\<lambda>x. \<not> p x) (take i xs)"
proof (induction xs arbitrary: i)
  case (Cons x xs)
  then show ?case by (cases i) auto
qed simp

section \<open>Byte strings\<close>

text \<open>The literal \<^verbatim>\<open>b"..."\<close>, and the ASCII classes and case folding of \<^verbatim>\<open>u8\<close>.\<close>

definition byte_string :: "string \<Rightarrow> bytes" where
  "byte_string s = map of_char s"

definition is_ascii_digit :: "byte \<Rightarrow> bool" where
  "is_ascii_digit b \<longleftrightarrow> 0x30 \<le> b \<and> b \<le> 0x39"

definition is_ascii_uppercase :: "byte \<Rightarrow> bool" where
  "is_ascii_uppercase b \<longleftrightarrow> 0x41 \<le> b \<and> b \<le> 0x5a"

definition is_ascii_lowercase :: "byte \<Rightarrow> bool" where
  "is_ascii_lowercase b \<longleftrightarrow> 0x61 \<le> b \<and> b \<le> 0x7a"

definition is_ascii_alphabetic :: "byte \<Rightarrow> bool" where
  "is_ascii_alphabetic b \<longleftrightarrow> is_ascii_uppercase b \<or> is_ascii_lowercase b"

definition is_ascii_alphanumeric :: "byte \<Rightarrow> bool" where
  "is_ascii_alphanumeric b \<longleftrightarrow> is_ascii_alphabetic b \<or> is_ascii_digit b"

definition to_ascii_lowercase :: "byte \<Rightarrow> byte" where
  "to_ascii_lowercase b = (if is_ascii_uppercase b then b + 32 else b)"

definition eq_ignore_ascii_case :: "bytes \<Rightarrow> bytes \<Rightarrow> bool" where
  "eq_ignore_ascii_case a b \<longleftrightarrow> map to_ascii_lowercase a = map to_ascii_lowercase b"

lemmas ascii_defs = is_ascii_digit_def is_ascii_uppercase_def is_ascii_lowercase_def is_ascii_alphabetic_def
  is_ascii_alphanumeric_def

lemma is_ascii_alphanumeric_ascii: "is_ascii_alphanumeric b \<Longrightarrow> b < 0x80"
  by (auto simp: ascii_defs word_le_nat_alt word_less_nat_alt)

lemma map_lowercase_id: "\<not> list_ex is_ascii_uppercase a \<Longrightarrow> map to_ascii_lowercase a = a"
  by (induction a) (simp_all add: to_ascii_lowercase_def)

lemma eq_ignore_ascii_case_lower:
  "\<not> list_ex is_ascii_uppercase a \<Longrightarrow> \<not> list_ex is_ascii_uppercase b \<Longrightarrow> eq_ignore_ascii_case a b \<longleftrightarrow> a = b"
  by (simp add: eq_ignore_ascii_case_def map_lowercase_id)

end
