(* ===== verification/Datagram.thy ===== *)
theory Datagram
  imports Prelude
begin

text \<open>
  \<^verbatim>\<open>src/src/datagram.rs\<close>: QUIC variable-length integers and HTTP Datagrams (RFC 9297).

  \<^verbatim>\<open>put_varint\<close> asserts that its value fits; the panic is \<^const>\<open>None\<close> here. \<^verbatim>\<open>peek_varint\<close>
  and \<^verbatim>\<open>take_varint\<close> answer \<^const>\<open>None\<close> on a buffer that ends too early, as they do in Rust.
  The locale \<open>varint_codec\<close> states what the capsule, frame and datagram layers rely on,
  and is interpreted on these definitions.
\<close>

section \<open>Constants and data\<close>

definition CONTEXT_ID_UDP_PAYLOAD :: u64 where
  "CONTEXT_ID_UDP_PAYLOAD = 0"

definition MAX_UDP_PAYLOAD :: nat where
  "MAX_UDP_PAYLOAD = 65527"

definition VARINT_MAX :: u64 where
  "VARINT_MAX = push_bit 62 1 - 1"

definition MAX_QUARTER_STREAM_ID :: u64 where
  "MAX_QUARTER_STREAM_ID = push_bit 60 1 - 1"

datatype decode_error =
    MissingQuarterStreamId
  | QuarterStreamIdTooLarge u64
  | MissingContextId

fun is_connection_error :: "decode_error \<Rightarrow> bool" where
  "is_connection_error MissingQuarterStreamId = True"
| "is_connection_error (QuarterStreamIdTooLarge _) = True"
| "is_connection_error MissingContextId = False"

record datagram =
  quarter_stream_id :: u64
  context_id :: u64
  payload :: bytes

definition quarter_stream_id_of :: "u64 \<Rightarrow> u64" where
  "quarter_stream_id_of stream_id = drop_bit 2 stream_id"

section \<open>Varints\<close>

definition varint_len :: "u64 \<Rightarrow> nat" where
  "varint_len value =
     (if value \<le> 0x3f then 1
      else if value \<le> 0x3fff then 2
      else if value \<le> 0x3fffffff then 4
      else 8)"

definition put_varint :: "bytes \<Rightarrow> u64 \<Rightarrow> bytes option" where
  "put_varint buf value =
     (if value \<le> VARINT_MAX then
        (if varint_len value = 1 then Some (buf @ be_bytes 1 (ucast value :: byte))
         else if varint_len value = 2 then Some (buf @ be_bytes 2 (0x4000 OR (ucast value :: u16)))
         else if varint_len value = 4 then Some (buf @ be_bytes 4 (0x80000000 OR (ucast value :: u32)))
         else Some (buf @ be_bytes 8 (0xc000000000000000 OR value)))
      else None)"

definition peek_varint :: "bytes \<Rightarrow> (u64 \<times> nat) option" where
  "peek_varint buf =
     (case buf of
        [] \<Rightarrow> None
      | first # _ \<Rightarrow>
          (let len = push_bit (unat (drop_bit 6 first)) (1 :: nat)
           in if length buf < len then None
              else Some (be_fold (ucast (first AND 0x3f)) (drop 1 (take len buf)), len)))"

definition take_varint :: "bytes \<Rightarrow> (u64 \<times> bytes) option" where
  "take_varint buf =
     (case peek_varint buf of
        None \<Rightarrow> None
      | Some (value, len) \<Rightarrow> Some (value, drop len buf))"

section \<open>Datagrams\<close>

definition encode :: "u64 \<Rightarrow> u64 \<Rightarrow> bytes \<Rightarrow> bytes option" where
  "encode qsid ctx pay =
     (case put_varint [] qsid of
        None \<Rightarrow> None
      | Some buf \<Rightarrow>
          (case put_varint buf ctx of
             None \<Rightarrow> None
           | Some buf' \<Rightarrow> Some (buf' @ pay)))"

definition encode_udp_payload :: "u64 \<Rightarrow> bytes \<Rightarrow> bytes option" where
  "encode_udp_payload qsid pay = encode qsid CONTEXT_ID_UDP_PAYLOAD pay"

definition encoded_len :: "u64 \<Rightarrow> u64 \<Rightarrow> nat \<Rightarrow> nat" where
  "encoded_len qsid ctx payload_len = varint_len qsid + varint_len ctx + payload_len"

definition decode :: "bytes \<Rightarrow> decode_error + datagram" where
  "decode dgram =
     and_then (ok_or (take_varint dgram) MissingQuarterStreamId) (\<lambda>(qsid, rest).
       if qsid > MAX_QUARTER_STREAM_ID then Inl (QuarterStreamIdTooLarge qsid)
       else and_then (ok_or (take_varint rest) MissingContextId) (\<lambda>(ctx, rest').
         Inr \<lparr>quarter_stream_id = qsid, context_id = ctx, payload = rest'\<rparr>))"

section \<open>Facts about the varint codec\<close>

definition enc_varint :: "u64 \<Rightarrow> bytes" where
  "enc_varint v = the (put_varint [] v)"

lemma VARINT_MAX_eq: "VARINT_MAX = 0x3fffffffffffffff"
  by (simp add: VARINT_MAX_def)

lemma MAX_QUARTER_STREAM_ID_eq: "MAX_QUARTER_STREAM_ID = 0x0fffffffffffffff"
  by (simp add: MAX_QUARTER_STREAM_ID_def)

lemma put_varint_enc: "put_varint buf v = (if v \<le> VARINT_MAX then Some (buf @ enc_varint v) else None)"
  by (simp add: put_varint_def enc_varint_def)

lemma enc_varint_def':
  "v \<le> VARINT_MAX \<Longrightarrow> enc_varint v =
     (if v \<le> 0x3f then be_bytes 1 (ucast v :: byte)
      else if v \<le> 0x3fff then be_bytes 2 (0x4000 OR (ucast v :: u16))
      else if v \<le> 0x3fffffff then be_bytes 4 (0x80000000 OR (ucast v :: u32))
      else be_bytes 8 (0xc000000000000000 OR v))"
  by (simp add: enc_varint_def put_varint_def varint_len_def)

lemma length_enc_varint: "v \<le> VARINT_MAX \<Longrightarrow> length (enc_varint v) = varint_len v"
  by (simp add: enc_varint_def' varint_len_def)

lemma tagged_low:
  fixes t v :: u64
  assumes "take_bit (8 * m + 6) v = v"
  shows "push_bit (8 * m) (ucast ((ucast (drop_bit (8 * m) (push_bit (8 * m + 6) t OR v)) :: byte) AND mask 6))
           OR take_bit (8 * m) (push_bit (8 * m + 6) t OR v) = v" (is "?l = v")
proof (rule bit_eqI)
  fix n
  assume "possible_bit TYPE(u64) n"
  then have n: "n < 64" by simp
  have v: "bit v n \<longleftrightarrow> n < 8 * m + 6 \<and> bit v n"
    using assms by (metis bit_take_bit_iff)
  consider "n < 8 * m" | "8 * m \<le> n" "n < 8 * m + 6" | "8 * m + 6 \<le> n" by linarith
  then show "bit ?l n = bit v n"
  proof cases
    case 1
    then show ?thesis using n by (simp add: bit_simps not_le)
  next
    case 2
    then have "n - 8 * m < 6" by simp
    with 2 n show ?thesis by (auto simp: bit_simps)
  next
    case 3
    then have "\<not> bit v n" using v by linarith
    with 3 n show ?thesis by (auto simp: bit_simps)
  qed
qed

lemma tagged_high:
  fixes t v :: u64
  assumes v: "take_bit (8 * m + 6) v = v" and m: "8 * m + 8 \<le> 64" and t: "take_bit 2 t = t"
  shows "drop_bit 6 (ucast (drop_bit (8 * m) (push_bit (8 * m + 6) t OR v)) :: byte) = ucast t" (is "?l = ?r")
proof (rule bit_eqI)
  fix n
  assume "possible_bit TYPE(byte) n"
  then have n: "n < 8" by simp
  have vn: "\<not> bit v (8 * m + (6 + n))"
    using v by (metis bit_take_bit_iff add.assoc not_add_less1)
  have tn: "bit t n \<longleftrightarrow> n < 2 \<and> bit t n"
    using t by (metis bit_take_bit_iff)
  show "bit ?l n = bit ?r n"
  using n m vn tn  by (auto simp: bit_simps ac_simps)
qed

lemma peek_tagged:
  fixes t v :: u64
  assumes v: "take_bit (8 * m + 6) v = v" and m: "8 * m + 8 \<le> 64" and t: "take_bit 2 t = t"
    and len: "Suc m = 2 ^ unat t"
  shows "peek_varint (be_bytes (Suc m) (push_bit (8 * m + 6) t OR v) @ rest) = Some (v, Suc m)"
proof -
  have ut: "unat (ucast t :: byte) = unat t"
    using t by (simp add: take_bit_word_self_iff unsigned_ucast_eq take_bit_nat_eq_self)
  let ?W = "push_bit (8 * m + 6) t OR v"
  have hi: "unat (drop_bit 6 (ucast (drop_bit (8 * m) ?W) :: byte)) = unat t"
    using tagged_high[OF v m t] ut by simp
  have low6: "(0x3f :: byte) = mask 6" by (simp add: mask_eq_exp_minus_1)
  have lo: "be_fold (ucast ((ucast (drop_bit (8 * m) ?W) :: byte) AND 0x3f)) (be_bytes m ?W) = v"
    using tagged_low[OF v, of t] by (simp only: be_fold_be_bytes low6)
  have "push_bit (unat t) (1::nat) = Suc m" using len by (simp add: push_bit_eq_mult)
  then show ?thesis
    using hi lo by (simp add: peek_varint_def Let_def)
qed

lemma peek_tagged_at:
  fixes t v :: u64
  assumes "n = Suc m" and "j = 8 * m + 6" and "n = 2 ^ unat t" and "take_bit 2 t = t"
    and "take_bit j v = v" and "n \<le> 8"
  shows "peek_varint (be_bytes n (push_bit j t OR v) @ rest) = Some (v, n)"
  using assms peek_tagged[of m v t rest] by simp

lemma peek_enc_varint:
  assumes "v \<le> VARINT_MAX"
  shows "peek_varint (enc_varint v @ rest) = Some (v, length (enc_varint v))"
proof -
  consider (1) "v \<le> 0x3f" | (2) "\<not> v \<le> 0x3f" "v \<le> 0x3fff" | (4) "\<not> v \<le> 0x3fff" "v \<le> 0x3fffffff"
    | (8) "\<not> v \<le> 0x3fffffff" by auto
  then show ?thesis
  proof cases
    case 1
    then have tv: "take_bit 6 v = v" by (simp add: take_bit_word_self_iff word_le_nat_alt)
    have "enc_varint v = be_bytes 1 (push_bit 6 0 OR v)"
      using 1 assms by (simp add: enc_varint_def')
    moreover have "peek_varint (be_bytes 1 (push_bit 6 0 OR v) @ rest) = Some (v, 1)"
      by (rule peek_tagged_at[of _ 0]) (simp_all add: tv)
    ultimately show ?thesis by (simp only: length_be_bytes)
  next
    case 2
    then have tv: "take_bit 14 v = v" by (simp add: take_bit_word_self_iff word_le_nat_alt)
    moreover from 2 have "take_bit 16 v = v" by (simp add: take_bit_word_self_iff word_le_nat_alt)
    ultimately have "ucast (0x4000 OR ucast v :: u16) = push_bit 14 1 OR v"
      by (simp add: unsigned_or_eq unsigned_ucast_eq)
    then have "enc_varint v = be_bytes 2 (push_bit 14 1 OR v)"
      using 2 assms by (simp add: enc_varint_def' ucast_be_bytes[where 'a = 16])
    moreover have "peek_varint (be_bytes 2 (push_bit 14 1 OR v) @ rest) = Some (v, 2)"
      by (rule peek_tagged_at[of _ 1]) (simp_all add: tv)
    ultimately show ?thesis by (simp only: length_be_bytes)
  next
    case 4
    then have tv: "take_bit 30 v = v" by (simp add: take_bit_word_self_iff word_le_nat_alt)
    moreover from 4 have "take_bit 32 v = v" by (simp add: take_bit_word_self_iff word_le_nat_alt)
    ultimately have "ucast (0x80000000 OR ucast v :: u32) = push_bit 30 2 OR v"
      by (simp add: unsigned_or_eq unsigned_ucast_eq)
    then have "enc_varint v = be_bytes 4 (push_bit 30 2 OR v)"
      using 4 assms by (simp add: enc_varint_def' ucast_be_bytes[where 'a = 32] word_le_nat_alt)
    moreover have "peek_varint (be_bytes 4 (push_bit 30 2 OR v) @ rest) = Some (v, 4)"
      by (rule peek_tagged_at[of _ 3]) (simp_all add: tv)
    ultimately show ?thesis by (simp only: length_be_bytes)
  next
    case 8
    with assms have tv: "take_bit 62 v = v" by (simp add: take_bit_word_self_iff word_le_nat_alt VARINT_MAX_eq)
    have "enc_varint v = be_bytes 8 (push_bit 62 3 OR v)"
      using 8 assms by (simp add: enc_varint_def' word_le_nat_alt)
    moreover have "peek_varint (be_bytes 8 (push_bit 62 3 OR v) @ rest) = Some (v, 8)"
      by (rule peek_tagged_at[of _ 7]) (simp_all add: tv)
    ultimately show ?thesis by (simp only: length_be_bytes)
  qed
qed


lemma peek_varint_append: "peek_varint bs = Some r \<Longrightarrow> peek_varint (bs @ rest) = Some r"
proof -
  assume a: "peek_varint bs = Some r"
  then obtain b bs' where bs: "bs = b # bs'"
    by (auto simp: peek_varint_def split: list.splits)
  let ?n = "push_bit (unat (drop_bit 6 b)) (1 :: nat)"
  have n: "?n \<le> length bs" using a bs by (simp add: peek_varint_def Let_def split: if_splits)
  then have "take ?n (bs @ rest) = take ?n bs" by simp
  with a n show ?thesis by (simp add: peek_varint_def Let_def bs del: take_append)
qed

lemma two_bit_tag: "unat (drop_bit 6 (b :: byte)) < 4"
proof -
  have "unat b < 2 ^ 8" using unsigned_less[of b] by simp
  then have "unat b div 2 ^ 6 < 4" by simp
  then have "drop_bit 6 (unat b) < 4" by (simp only: drop_bit_eq_div)
  then show ?thesis by (simp only: unat_drop_bit_eq)
qed

lemma be_fold_bound:
  "unat v < 2 ^ j \<Longrightarrow> j + 8 * length bs \<le> 64 \<Longrightarrow> unat (be_fold v bs) < 2 ^ (j + 8 * length bs)"
proof (induction bs arbitrary: v j)
  case (Cons b bs)
  have "take_bit (j + 8) (push_bit 8 v OR ucast b) = push_bit 8 v OR ucast b"
  proof (rule bit_eqI)
    fix n assume "possible_bit TYPE(u64) n"
    then have n: "n < 64" by simp
    have "bit v (n - 8) \<Longrightarrow> n - 8 < j"
      using Cons.prems(1) by (metis bit_take_bit_iff take_bit_word_self_iff)
    then show "bit (take_bit (j + 8) (push_bit 8 v OR ucast b)) n = bit (push_bit 8 v OR ucast b) n"
      using n Cons.prems bit_imp_le_length[of b n] by (auto simp: bit_simps)
  qed
  then have "unat (push_bit 8 v OR ucast b) < 2 ^ (j + 8)"
    by (simp only: take_bit_word_self_iff)
  from Cons.IH[OF this] Cons.prems(2) show ?case
    by (simp add: algebra_simps)
qed simp

lemma peek_varint_shape:
  assumes "peek_varint bs = Some (v, n)"
  shows "n \<in> {1, 2, 4, 8} \<and> n \<le> length bs \<and> unat v < 2 ^ (8 * n - 2)"
proof -
  from assms obtain b bs' where bs: "bs = b # bs'"
    by (auto simp: peek_varint_def split: list.splits)
  have n: "n = 2 ^ unat (drop_bit 6 b)" and len: "n \<le> length bs"
    and v: "v = be_fold (ucast (b AND 0x3f)) (drop 1 (take n bs))"
    using assms bs by (auto simp: peek_varint_def Let_def push_bit_eq_mult split: if_splits)
  have "unat (drop_bit 6 b) \<in> {0, 1, 2, 3}"
    using two_bit_tag[of b] by auto
  then have shape: "n \<in> {1, 2, 4, 8}" using n by auto
  have "unat (b AND 0x3f) \<le> unat (0x3f :: byte)"
    by (rule word_and_le1 [THEN word_le_nat_alt [THEN iffD1]])
  then have lo: "unat (ucast (b AND 0x3f) :: u64) < 2 ^ 6"
    by (simp add: unsigned_ucast_eq take_bit_nat_eq_self)
  have l: "length (drop 1 (take n bs)) = n - 1" using len by simp
  have "unat v < 2 ^ (6 + 8 * (n - 1))"
    using be_fold_bound[OF lo, of "drop 1 (take n bs)"] shape v l by auto
  with shape len show ?thesis by auto
qed

lemma peek_varint_None: "peek_varint bs = None \<Longrightarrow> length bs < 8"
proof (cases bs)
  case (Cons b bs')
  assume "peek_varint bs = None"
  with Cons have "length bs < 2 ^ unat (drop_bit 6 b)"
    by (simp add: peek_varint_def Let_def push_bit_eq_mult split: if_splits)
  moreover have "(2 :: nat) ^ unat (drop_bit 6 b) \<le> 2 ^ 3"
    using two_bit_tag[of b] by (intro power_increasing) auto
  ultimately show ?thesis by simp
qed simp

lemma peek_varint_le_max: "peek_varint bs = Some (v, n) \<Longrightarrow> v \<le> VARINT_MAX"
  using peek_varint_shape[of bs v n] by (auto simp: VARINT_MAX_eq word_le_nat_alt)

lemma varint_len_minimal: "peek_varint bs = Some (v, n) \<Longrightarrow> varint_len v \<le> n"
  using peek_varint_shape[of bs v n] by (auto simp: varint_len_def word_le_nat_alt)

lemma unat_of_nat_u64: "n \<le> unat VARINT_MAX \<Longrightarrow> unat (of_nat n :: u64) = n"
  by (simp add: VARINT_MAX_eq unsigned_of_nat take_bit_nat_eq_self)

lemma of_nat_le_VARINT_MAX: "n \<le> unat VARINT_MAX \<Longrightarrow> (of_nat n :: u64) \<le> VARINT_MAX"
  by (simp add: word_le_nat_alt unat_of_nat_u64)

lemma put_varint_None_iff: "put_varint buf v = None \<longleftrightarrow> v > VARINT_MAX"
  by (auto simp: put_varint_enc)

section \<open>The interface of the varint codec\<close>

locale varint_codec =
  fixes put :: "bytes \<Rightarrow> u64 \<Rightarrow> bytes option"
    and peek :: "bytes \<Rightarrow> (u64 \<times> nat) option"
    and limit :: u64
  assumes put_Some: "v \<le> limit \<Longrightarrow> \<exists>enc. put buf v = Some (buf @ enc) \<and>
      (\<forall>rest. peek (enc @ rest) = Some (v, length enc))"
    and peek_stable: "peek bs = Some r \<Longrightarrow> peek (bs @ rest) = Some r"
    and peek_used: "peek bs = Some (v, n) \<Longrightarrow> 0 < n \<and> n \<le> length bs"
    and peek_limit: "peek bs = Some (v, n) \<Longrightarrow> v \<le> limit"
begin

text \<open>
  The shape the datagram, capsule and frame headers share: two varints in a row. Written
  one after the other, they are read back one after the other, whatever follows.
\<close>

lemma put_pair:
  assumes "a \<le> limit" "b \<le> limit"
  shows "\<exists>e1 e2. put buf a = Some (buf @ e1) \<and> put (buf @ e1) b = Some (buf @ e1 @ e2) \<and>
    (\<forall>rest. peek (e1 @ e2 @ rest) = Some (a, length e1) \<and> peek (e2 @ rest) = Some (b, length e2))"
proof -
  obtain e1 where e1: "put buf a = Some (buf @ e1)" "\<And>rest. peek (e1 @ rest) = Some (a, length e1)"
    using put_Some[OF assms(1)] by blast
  obtain e2 where e2: "put (buf @ e1) b = Some ((buf @ e1) @ e2)" "\<And>rest. peek (e2 @ rest) = Some (b, length e2)"
    using put_Some[OF assms(2)] by blast
  from e1 e2 show ?thesis by auto
qed

text \<open>A pair that has arrived is read the same way however many bytes follow it.\<close>

lemma peek_pair_stable:
  assumes "peek bs = Some (a, m)" "peek (drop m bs) = Some (b, n)"
  shows "peek (bs @ rest) = Some (a, m) \<and> peek (drop m bs @ rest) = Some (b, n) \<and>
    m \<le> length bs \<and> m + n \<le> length bs"
  using assms peek_stable[of bs "(a, m)" rest] peek_stable[of "drop m bs" "(b, n)" rest]
    peek_used[of bs a m] peek_used[of "drop m bs" b n] by auto

end

lemma put_varint_Some:
  "v \<le> VARINT_MAX \<Longrightarrow> \<exists>enc. put_varint buf v = Some (buf @ enc) \<and>
     (\<forall>rest. peek_varint (enc @ rest) = Some (v, length enc))"
  by (intro exI[of _ "enc_varint v"]) (simp add: put_varint_enc peek_enc_varint)

lemma peek_varint_used: "peek_varint bs = Some (v, n) \<Longrightarrow> 0 < n \<and> n \<le> length bs"
  using peek_varint_shape[of bs v n] by auto

interpretation vi: varint_codec put_varint peek_varint VARINT_MAX
  by unfold_locales (fact put_varint_Some peek_varint_append peek_varint_used peek_varint_le_max)+

lemma take_varint_enc [simp]:
  "v \<le> VARINT_MAX \<Longrightarrow> take_varint (enc_varint v @ rest) = Some (v, rest)"
  by (simp add: take_varint_def peek_enc_varint)

lemma take_varint_Some:
  "take_varint bs = Some (v, rest) \<Longrightarrow> \<exists>n. peek_varint bs = Some (v, n) \<and> rest = drop n bs"
  by (auto simp: take_varint_def split: option.splits)

lemma take_varint_Nil [simp]: "take_varint [] = None"
  by (simp add: take_varint_def peek_varint_def)

section \<open>Properties\<close>

text \<open>
  What \<^verbatim>\<open>put_varint\<close> writes, \<^verbatim>\<open>peek_varint\<close> reads back: for every value a QUIC varint
  can hold the write succeeds, appends exactly \<^verbatim>\<open>varint_len\<close> bytes to the buffer, and those
  bytes, whatever follows them, are read as the value and that length.
\<close>

theorem varint_roundtrip:
  assumes "v \<le> VARINT_MAX"
  shows "\<exists>enc. put_varint buf v = Some (buf @ enc) \<and> length enc = varint_len v \<and>
    (\<forall>rest. peek_varint (enc @ rest) = Some (v, varint_len v) \<and> take_varint (enc @ rest) = Some (v, rest))"
  using assms
  by (intro exI[of _ "enc_varint v"])
    (simp add: put_varint_enc length_enc_varint peek_enc_varint)

theorem varint_roundtrip_witness:
  "\<exists>enc. put_varint [7] 15293 = Some ([7] @ enc) \<and> length enc = varint_len 15293 \<and>
    (\<forall>rest. peek_varint (enc @ rest) = Some (15293, varint_len 15293) \<and>
      take_varint (enc @ rest) = Some (15293, rest))"
  by (rule varint_roundtrip) (simp add: VARINT_MAX_eq)

text \<open>
  \<^verbatim>\<open>varint_len\<close> is the shortest width: any byte sequence that \<^verbatim>\<open>peek_varint\<close> reads as
  a value, minimal encoding or not, is at least as long as the encoding \<^verbatim>\<open>put_varint\<close> picks.
  A value read is always writable, and the bytes used are 1, 2, 4 or 8 and all present.
\<close>

theorem varint_read_bounds:
  assumes "peek_varint bs = Some (v, n)"
  shows "n \<in> {1, 2, 4, 8} \<and> n \<le> length bs \<and> v \<le> VARINT_MAX \<and> varint_len v \<le> n"
  using assms peek_varint_shape[of bs v n] peek_varint_le_max varint_len_minimal by blast

theorem varint_read_bounds_witness:
  "(2 :: nat) \<in> {1, 2, 4, 8} \<and> 2 \<le> length [0x40, 0x25 :: byte] \<and> (0x25 :: u64) \<le> VARINT_MAX \<and> varint_len 0x25 \<le> 2"
  by (rule varint_read_bounds) (simp add: peek_varint_def)

text \<open>
  An HTTP Datagram is decoded to exactly what was encoded, in exactly
  \<^verbatim>\<open>encoded_len\<close> bytes, for every quarter stream id and context id the protocol allows.
\<close>

theorem datagram_roundtrip:
  assumes "q \<le> MAX_QUARTER_STREAM_ID" "c \<le> VARINT_MAX"
  shows "\<exists>w. encode q c p = Some w \<and> length w = encoded_len q c (length p) \<and>
    decode w = Inr \<lparr>quarter_stream_id = q, context_id = c, payload = p\<rparr>"
proof -
  have q: "q \<le> VARINT_MAX"
    using assms(1) by (simp add: VARINT_MAX_eq MAX_QUARTER_STREAM_ID_eq word_le_nat_alt)
  show ?thesis
    using assms q
    by (intro exI[of _ "enc_varint q @ enc_varint c @ p"])
      (simp add: encode_def put_varint_enc encoded_len_def length_enc_varint decode_def not_less)
qed

theorem datagram_roundtrip_witness:
  "\<exists>w. encode 1000 0 [1, 2, 3] = Some w \<and> length w = encoded_len 1000 0 (length [1, 2, 3 :: byte]) \<and>
    decode w = Inr \<lparr>quarter_stream_id = 1000, context_id = 0, payload = [1, 2, 3]\<rparr>"
  by (rule datagram_roundtrip) (simp_all add: VARINT_MAX_eq MAX_QUARTER_STREAM_ID_eq)

text \<open>
  Decoding never accepts more than was sent and classifies every failure: an accepted
  datagram has a legal quarter stream id and its payload is a suffix of the input; a missing
  or oversized quarter stream id closes the connection, a missing context id does not.
\<close>

theorem decode_outcome:
  "case decode w of
     Inr d \<Rightarrow> datagram.quarter_stream_id d \<le> MAX_QUARTER_STREAM_ID \<and>
       (\<exists>h. w = h @ datagram.payload d \<and> encoded_len (datagram.quarter_stream_id d) (datagram.context_id d) 0 \<le> length h)
   | Inl e \<Rightarrow> is_connection_error e \<longleftrightarrow>
       (case take_varint w of None \<Rightarrow> True | Some (q, _) \<Rightarrow> q > MAX_QUARTER_STREAM_ID)"
proof (cases "take_varint w")
  case None
  then show ?thesis by (simp add: decode_def)
next
  case (Some r)
  then obtain q rest where t1: "take_varint w = Some (q, rest)" by (cases r) auto
  obtain n1 where p1: "peek_varint w = Some (q, n1)" and rest: "rest = drop n1 w"
    using take_varint_Some[OF t1] by blast
  show ?thesis
  proof (cases "q > MAX_QUARTER_STREAM_ID \<or> take_varint rest = None")
    case True
    then show ?thesis by (auto simp: decode_def t1)
  next
    case False
    then obtain c rest' where t2: "take_varint rest = Some (c, rest')" by auto
    obtain n2 where p2: "peek_varint rest = Some (c, n2)" and rest': "rest' = drop n2 rest"
      using take_varint_Some[OF t2] by blast
    have "w = take (n1 + n2) w @ rest'"
      by (simp add: rest rest' add.commute)
    moreover have "encoded_len q c 0 \<le> length (take (n1 + n2) w)"
      using varint_len_minimal[OF p1] varint_len_minimal[OF p2] peek_varint_used[OF p1] peek_varint_used[OF p2]
      by (auto simp: encoded_len_def rest)
    ultimately show ?thesis
      using False by (auto simp: decode_def t1 t2)
  qed
qed

end
