(* ===== verification/Stream_Decoder.thy ===== *)
theory Stream_Decoder
  imports Prelude "HOL-Library.Monad_Syntax"
begin

text \<open>
  The interface both incremental decoders of the program offer to their readers: bytes are
  pushed in whatever chunks the transport delivers, and a \<^verbatim>\<open>next\<close> operation is called until
  it asks for more. The readers are the loops around \<^verbatim>\<open>CapsuleDecoder::next_capsule\<close>
  (\<^verbatim>\<open>src/src/tunnel/udp.rs\<close>) and \<^verbatim>\<open>FrameDecoder::next_item\<close> (\<^verbatim>\<open>src/src/h3/frame.rs\<close>).

  \<open>drain\<close> is that loop for one chunk and \<open>feed_chunks\<close> the loop over chunks; both stop at the
  first error. The locale \<open>decoder_loop\<close> states what it takes for the loops to return, and
  \<open>chunk_decoder\<close> extends it with what a decoder promises about chunks: there it is proved once
  that what the loops produce does not depend on where the transport cut the byte stream.
\<close>

text \<open>
  One run of the loop: the events of the items produced, the state left behind, and the
  error that stopped it, if one did. \<open>ev\<close> maps an item to its events; a loop that never
  asked for more would be \<^const>\<open>None\<close>.
\<close>

type_synonym ('s, 'e, 'v) run = "('v list \<times> 's \<times> 'e option) option"

partial_function (option) drain ::
  "('s \<Rightarrow> 's \<times> ('e + 'i option)) \<Rightarrow> ('i \<Rightarrow> 'v list) \<Rightarrow> 's \<Rightarrow> ('v list \<times> 's \<times> 'e option) option" where
  "drain nxt ev s =
     (case nxt s of
        (s', Inl e) \<Rightarrow> Some ([], s', Some e)
      | (s', Inr None) \<Rightarrow> Some ([], s', None)
      | (s', Inr (Some x)) \<Rightarrow>
          do { (vs, r) \<leftarrow> drain nxt ev s'; Some (ev x @ vs, r) })"

definition emit :: "'v list \<Rightarrow> ('s, 'e, 'v) run \<Rightarrow> ('s, 'e, 'v) run" where
  "emit vs r = map_option (\<lambda>(ws, t). (vs @ ws, t)) r"

fun feed_chunks ::
  "('s \<Rightarrow> 's \<times> ('e + 'i option)) \<Rightarrow> ('i \<Rightarrow> 'v list) \<Rightarrow> ('s \<Rightarrow> bytes \<Rightarrow> 's) \<Rightarrow> 's \<Rightarrow> bytes list \<Rightarrow>
     ('v list \<times> 's \<times> 'e option) option" where
  "feed_chunks nxt ev psh s [] = Some ([], s, None)"
| "feed_chunks nxt ev psh s (c # cs) =
     (case drain nxt ev (psh s c) of
        None \<Rightarrow> None
      | Some (vs, s', Some e) \<Rightarrow> Some (vs, s', Some e)
      | Some (vs, s', None) \<Rightarrow> emit vs (feed_chunks nxt ev psh s' cs))"

text \<open>What a caller sees of a run: the events, and the error or the state to go on from.\<close>

definition outcome :: "('s, 'e, 'v) run \<Rightarrow> ('v list \<times> ('e + 's)) option" where
  "outcome r = map_option (\<lambda>(vs, s, e). (vs, case e of None \<Rightarrow> Inr s | Some e \<Rightarrow> Inl e)) r"

lemma emit_simps [simp]:
  "emit vs None = None"
  "emit vs (Some (ws, t)) = Some (vs @ ws, t)"
  by (simp_all add: emit_def)

lemma emit_Nil [simp]: "emit [] r = r"
  by (cases r) (auto simp: emit_def)

lemma emit_emit [simp]: "emit vs (emit ws r) = emit (vs @ ws) r"
  by (cases r) (auto simp: emit_def)

lemma emit_eq_None [simp]: "emit vs r = None \<longleftrightarrow> r = None"
  by (simp add: emit_def)

lemma outcome_emit: "outcome (emit vs r) = map_option (\<lambda>(ws, t). (vs @ ws, t)) (outcome r)"
  by (cases r) (auto simp: outcome_def emit_def)

lemma drain_error: "nxt s = (s', Inl e) \<Longrightarrow> drain nxt ev s = Some ([], s', Some e)"
  by (simp add: drain.simps)

lemma drain_more: "nxt s = (s', Inr None) \<Longrightarrow> drain nxt ev s = Some ([], s', None)"
  by (simp add: drain.simps)

lemma drain_item: "nxt s = (s', Inr (Some x)) \<Longrightarrow> drain nxt ev s = emit (ev x) (drain nxt ev s')"
  by (subst drain.simps) (cases "drain nxt ev s'"; auto)

lemma drain_cong: "nxt s = nxt t \<Longrightarrow> drain nxt ev s = drain nxt ev t"
  by (subst (1 2) drain.simps) simp

lemmas drain_cases = drain_error drain_more drain_item

text \<open>What it takes for the loops to return: an item costs something.\<close>

locale decoder_loop =
  fixes nxt :: "'s \<Rightarrow> 's \<times> ('e + 'i option)"
    and ev :: "'i \<Rightarrow> 'v list"
    and weight :: "'s \<Rightarrow> nat"
  assumes next_decreases: "nxt s = (s', Inr (Some x)) \<Longrightarrow> weight s' < weight s"
begin

text \<open>The loop returns: every item costs weight, so there are finitely many.\<close>

lemma drain_returns: "\<exists>r. drain nxt ev s = Some r"
proof (induction "weight s" arbitrary: s rule: less_induct)
  case less
  obtain s' r where n: "nxt s = (s', r)" by (cases "nxt s")
  show ?case
  proof (cases r)
    case (Inl e)
    with n show ?thesis by (auto intro: drain_error)
  next
    case (Inr i)
    show ?thesis
    proof (cases i)
      case None
      with n Inr show ?thesis by (auto intro: drain_more)
    next
      case (Some x)
      with n Inr have nx: "nxt s = (s', Inr (Some x))" by simp
      from less[OF next_decreases[OF nx]] obtain t where "drain nxt ev s' = Some t" by blast
      with drain_item[of nxt s s' x ev, OF nx] show ?thesis by (cases t) auto
    qed
  qed
qed

text \<open>The loop ends where \<^verbatim>\<open>next\<close> asked for more or failed.\<close>

lemma drain_end:
  "drain nxt ev s = Some (vs, s', e) \<Longrightarrow> \<exists>t. nxt t = (s', case e of None \<Rightarrow> Inr None | Some e \<Rightarrow> Inl e)"
proof (induction "weight s" arbitrary: s vs rule: less_induct)
  case less
  obtain t r where n: "nxt s = (t, r)" by (cases "nxt s")
  consider (error) x where "r = Inl x" | (wait) "r = Inr None" | (item) x where "r = Inr (Some x)"
    by (cases r) auto
  then show ?case
  proof cases
    case (item x)
    with n have nx: "nxt s = (t, Inr (Some x))" by simp
    with less.prems drain_item[of nxt, OF nx, of ev] obtain ws where "drain nxt ev t = Some (ws, s', e)"
      by (auto simp: emit_def)
    from less.hyps[OF next_decreases[OF nx] this] show ?thesis .
  qed (use n less.prems drain_error[of nxt s t _ ev] drain_more[of nxt s t ev] in auto)
qed

lemma feed_chunks_returns: "\<exists>r. feed_chunks nxt ev psh s cs = Some r"
proof (induction cs arbitrary: s)
  case (Cons c cs)
  obtain vs s' e where d: "drain nxt ev (psh s c) = Some (vs, s', e)"
    using drain_returns[of "psh s c"] by auto
  show ?case
  proof (cases e)
    case None
    from Cons.IH[of s'] obtain r where "feed_chunks nxt ev psh s' cs = Some r" by blast
    with d None show ?thesis by (cases r) simp
  qed (simp add: d)
qed simp

end

text \<open>A decoder that does not care where the transport cut the stream.\<close>

locale chunk_decoder = decoder_loop nxt ev weight
  for nxt :: "'s \<Rightarrow> 's \<times> ('e + 'i option)" and ev :: "'i \<Rightarrow> 'v list" and weight :: "'s \<Rightarrow> nat" +
  fixes push :: "'s \<Rightarrow> bytes \<Rightarrow> 's"
    and feed :: "'s \<Rightarrow> bytes \<Rightarrow> 's"
    and idle :: "'s \<Rightarrow> bool"
  assumes feed_Nil: "feed s [] = s"
    and feed_feed: "feed (feed s a) b = feed s (a @ b)"
    and next_item: "nxt s = (s', Inr (Some x)) \<Longrightarrow>
      drain nxt ev (feed s c) = emit (ev x) (drain nxt ev (feed s' c))"
    and next_more: "nxt s = (s', Inr None) \<Longrightarrow> drain nxt ev (feed s' c) = drain nxt ev (feed s c)"
    and next_fails: "nxt s = (s', Inl e) \<Longrightarrow> \<exists>s''. drain nxt ev (feed s c) = Some ([], s'', Some e)"
    and next_idle: "nxt s = (s', Inr None) \<Longrightarrow> idle s'"
    and push_idle: "idle s \<Longrightarrow> push s c = feed s c"
begin

text \<open>
  Draining one chunk and then another is draining both at once: the items of the first, then
  what the state left behind makes of the second. An error in the first is the error of both.
\<close>

lemma drain_feed:
  assumes "drain nxt ev s = Some (vs, s', e)"
  shows "case e of
      None \<Rightarrow> idle s' \<and> drain nxt ev (feed s c) = emit vs (drain nxt ev (feed s' c))
    | Some err \<Rightarrow> \<exists>s''. drain nxt ev (feed s c) = Some (vs, s'', Some err)"
  using assms
proof (induction "weight s" arbitrary: s vs rule: less_induct)
  case less
  obtain t r where n: "nxt s = (t, r)" by (cases "nxt s")
  show ?case
  proof (cases r)
    case (Inl err)
    with n less.prems next_fails[of s t err c] show ?thesis by (auto simp: drain_error)
  next
    case (Inr i)
    show ?thesis
    proof (cases i)
      case None
      with n Inr less.prems have "nxt s = (s', Inr None)" "vs = []" "e = None"
        by (auto simp: drain_more)
      with next_more[of s s' c] next_idle[of s s'] show ?thesis by simp
    next
      case (Some x)
      with n Inr have nx: "nxt s = (t, Inr (Some x))" by simp
      from less.prems drain_item[of nxt s t x ev, OF nx] obtain ws
        where ws: "drain nxt ev t = Some (ws, s', e)" "vs = ev x @ ws"
        by (cases "drain nxt ev t") auto
      from less.hyps[OF next_decreases[OF nx] ws(1)] next_item[OF nx, of c] ws(2)
      show ?thesis by (auto split: option.splits)
    qed
  qed
qed

text \<open>
  Where the transport cuts the stream does not matter: feeding the chunks one by one has the
  outcome of feeding their concatenation at once.
\<close>

lemma feed_chunks_concat:
  assumes "idle s" "cs \<noteq> []"
  shows "outcome (feed_chunks nxt ev push s cs) = outcome (drain nxt ev (feed s (concat cs)))"
  using assms
proof (induction cs arbitrary: s)
  case (Cons c cs)
  from Cons.prems have p: "push s c = feed s c" by (simp add: push_idle)
  obtain vs s' e where d: "drain nxt ev (feed s c) = Some (vs, s', e)"
    using drain_returns[of "feed s c"] by auto
  note step = drain_feed[OF d, of "concat cs"]
  show ?case
  proof (cases e)
    case (Some err)
    with step obtain s'' where "drain nxt ev (feed s (concat (c # cs))) = Some (vs, s'', Some err)"
      by (auto simp: feed_feed)
    with Some d p show ?thesis by (simp add: outcome_def)
  next
    case None
    with step have i: "idle s'"
      and r: "drain nxt ev (feed s (concat (c # cs))) = emit vs (drain nxt ev (feed s' (concat cs)))"
      by (auto simp: feed_feed)
    show ?thesis
    proof (cases "cs = []")
      case True
      with d p None show ?thesis by simp
    next
      case False
      from Cons.IH[OF i this] d p None r show ?thesis by (simp add: outcome_emit)
    qed
  qed
qed simp

text \<open>
  A limit on one kind of event: if every item that shows one advances a counter, which no item
  takes past the limit, then a whole stream shows no more of them than the limit.
\<close>

lemma drain_limit:
  assumes item: "\<And>s s' x. nxt s = (s', Inr (Some x)) \<Longrightarrow> I s \<Longrightarrow>
      I s' \<and> length (filter P (ev x)) + m s \<le> m s' \<and> m s' \<le> max B (m s)"
    and more: "\<And>s s'. nxt s = (s', Inr None) \<Longrightarrow> I s \<Longrightarrow> I s' \<and> m s' = m s"
    and "I s" "drain nxt ev s = Some (vs, s', e)"
  shows "length (filter P vs) + m s \<le> max B (m s) \<and>
    (e = None \<longrightarrow> I s' \<and> length (filter P vs) + m s \<le> m s' \<and> m s' \<le> max B (m s))"
  using assms(3,4)
proof (induction "weight s" arbitrary: s vs rule: less_induct)
  case less
  obtain t r where n: "nxt s = (t, r)" by (cases "nxt s")
  consider (fails) err where "r = Inl err" | (more) "r = Inr None" | (item) x where "r = Inr (Some x)"
    by (cases r) (auto simp: option.exhaust_sel)
  then show ?case
  proof cases
    case fails
    with n less.prems(2) show ?thesis by (auto simp: drain_error)
  next
    case more
    with n less.prems assms(2)[of s t] show ?thesis by (auto simp: drain_more)
  next
    case (item x)
    with n have nx: "nxt s = (t, Inr (Some x))" by simp
    from less.prems(2) drain_item[of nxt s t x ev, OF nx] obtain ws
      where ws: "drain nxt ev t = Some (ws, s', e)" "vs = ev x @ ws"
      by (cases "drain nxt ev t") auto
    from assms(1)[OF nx less.prems(1)] less.hyps[OF next_decreases[OF nx] _ ws(1)] ws(2)
    show ?thesis by auto
  qed
qed

lemma feed_chunks_limit:
  assumes item: "\<And>s s' x. nxt s = (s', Inr (Some x)) \<Longrightarrow> I s \<Longrightarrow>
      I s' \<and> length (filter P (ev x)) + m s \<le> m s' \<and> m s' \<le> max B (m s)"
    and more: "\<And>s s'. nxt s = (s', Inr None) \<Longrightarrow> I s \<Longrightarrow> I s' \<and> m s' = m s"
    and psh: "\<And>s c. I s \<Longrightarrow> I (push s c) \<and> m (push s c) = m s"
    and "I s" "feed_chunks nxt ev push s cs = Some (vs, s', e)"
  shows "length (filter P vs) + m s \<le> max B (m s)"
  using assms(4,5)
proof (induction cs arbitrary: s vs)
  case (Cons c cs)
  obtain ws t f where d: "drain nxt ev (push s c) = Some (ws, t, f)"
    using drain_returns[of "push s c"] by auto
  note lim = drain_limit[of I P m B, OF item more _ d]
  show ?case
  proof (cases f)
    case (Some err)
    with Cons.prems d lim psh[of s c] show ?thesis by auto
  next
    case None
    with Cons.prems(2) d obtain us where us: "feed_chunks nxt ev push t cs = Some (us, s', e)" "vs = ws @ us"
      by (cases "feed_chunks nxt ev push t cs") auto
    from lim psh[of s c] Cons.prems(1) None Cons.IH[OF _ us(1)] us(2) show ?thesis by auto
  qed
qed auto

end

end
