(* ===== verification/Capsule.thy ===== *)
theory Capsule
  imports Datagram Stream_Decoder
begin

text \<open>
  \<^verbatim>\<open>src/src/capsule.rs\<close>: the incremental decoder of the Capsule Protocol (RFC 9297) that a
  CONNECT-UDP session reads its request stream with, and the encoder of the DATAGRAM
  capsule. The decoder's loop is a total function; it is an instance of the locale
  \<open>chunk_decoder\<close>.
\<close>

section \<open>Data\<close>

definition CAPSULE_TYPE_DATAGRAM :: u64 where
  "CAPSULE_TYPE_DATAGRAM = 0"

definition MAX_DATAGRAM_CAPSULE_VALUE :: u64 where
  "MAX_DATAGRAM_CAPSULE_VALUE = 8 + of_nat MAX_UDP_PAYLOAD"

datatype capsule_error =
    Truncated
  | DatagramTooLarge u64
  | MalformedDatagram

datatype capsule = CapsuleDatagram (capsule_context_id: u64) (capsule_payload: bytes)

datatype capsule_state =
    CapHeader
  | CapValue nat
  | CapSkip nat

record capsule_decoder =
  buffer :: bytes
  cap_state :: capsule_state

section \<open>Operations\<close>

definition capsule_new :: capsule_decoder where
  "capsule_new = \<lparr>buffer = [], cap_state = CapHeader\<rparr>"

definition capsule_push :: "capsule_decoder \<Rightarrow> bytes \<Rightarrow> capsule_decoder" where
  "capsule_push d chunk = d\<lparr>buffer := buffer d @ chunk\<rparr>"

definition at_capsule_boundary :: "capsule_decoder \<Rightarrow> bool" where
  "at_capsule_boundary d =
     (case cap_state d of
        CapHeader \<Rightarrow> buffer d = []
      | CapSkip 0 \<Rightarrow> buffer d = []
      | _ \<Rightarrow> False)"

function next_capsule :: "capsule_decoder \<Rightarrow> capsule_decoder \<times> (capsule_error + capsule option)" where
  "next_capsule d =
     (case cap_state d of
        CapSkip remaining \<Rightarrow>
          (if remaining = 0 then next_capsule (d\<lparr>cap_state := CapHeader\<rparr>)
           else if buffer d = [] then (d, Inr None)
           else
             (let discard = min remaining (length (buffer d))
              in next_capsule (d\<lparr>buffer := drop discard (buffer d), cap_state := CapSkip (remaining - discard)\<rparr>)))
      | CapHeader \<Rightarrow>
          (case peek_varint (buffer d) of
             None \<Rightarrow> (d, Inr None)
           | Some (capsule_type, type_len) \<Rightarrow>
               (case peek_varint (drop type_len (buffer d)) of
                  None \<Rightarrow> (d, Inr None)
                | Some (len, length_len) \<Rightarrow>
                    (let d' = d\<lparr>buffer := drop (type_len + length_len) (buffer d)\<rparr>
                     in if capsule_type = CAPSULE_TYPE_DATAGRAM then
                          (if len > MAX_DATAGRAM_CAPSULE_VALUE then (d', Inl (DatagramTooLarge len))
                           else next_capsule (d'\<lparr>cap_state := CapValue (unat len)\<rparr>))
                        else next_capsule (d'\<lparr>cap_state := CapSkip (unat len)\<rparr>))))
      | CapValue len \<Rightarrow>
          (if length (buffer d) < len then (d, Inr None)
           else
             (let d' = d\<lparr>buffer := drop len (buffer d), cap_state := CapHeader\<rparr>
              in case take_varint (take len (buffer d)) of
                   None \<Rightarrow> (d', Inl MalformedDatagram)
                 | Some (ctx, pay) \<Rightarrow> (d', Inr (Some (CapsuleDatagram ctx pay))))))"
  by pat_completeness auto

text \<open>Every turn of the loop consumes buffered bytes, or leaves a skip that is over.\<close>

fun skipping :: "capsule_state \<Rightarrow> nat" where
  "skipping (CapSkip _) = 1"
| "skipping _ = 0"

termination next_capsule
  by (relation "measure (\<lambda>d. 2 * length (buffer d) + skipping (cap_state d))")
    (auto dest!: peek_varint_used)

definition encode_datagram :: "u64 \<Rightarrow> bytes \<Rightarrow> bytes option" where
  "encode_datagram ctx pay =
     (let value_len = varint_len ctx + length pay;
          wire_len = (of_nat value_len :: u64)
      in case put_varint [] CAPSULE_TYPE_DATAGRAM of
           None \<Rightarrow> None
         | Some b1 \<Rightarrow>
             (case put_varint b1 wire_len of
                None \<Rightarrow> None
              | Some b2 \<Rightarrow>
                  (case put_varint b2 ctx of
                     None \<Rightarrow> None
                   | Some b3 \<Rightarrow> Some (b3 @ pay))))"

declare next_capsule.simps [simp del]

section \<open>The decoder is a chunk decoder\<close>

lemma push_simps [simp]:
  "buffer (capsule_push d c) = buffer d @ c"
  "cap_state (capsule_push d c) = cap_state d"
  "capsule_push d [] = d"
  "capsule_push (capsule_push d a) b = capsule_push d (a @ b)"
  by (simp_all add: capsule_push_def)

text \<open>One equation per state: the loop's own case split, without the loop.\<close>

lemma next_skip_over:
  "cap_state d = CapSkip 0 \<Longrightarrow> next_capsule d = next_capsule (d\<lparr>cap_state := CapHeader\<rparr>)"
  by (simp add: next_capsule.simps[of d])

lemma next_skip_wait:
  "cap_state d = CapSkip (Suc r) \<Longrightarrow> buffer d = [] \<Longrightarrow> next_capsule d = (d, Inr None)"
  by (simp add: next_capsule.simps[of d])

lemma next_skip_some:
  "cap_state d = CapSkip (Suc r) \<Longrightarrow> buffer d \<noteq> [] \<Longrightarrow>
   next_capsule d = next_capsule (d\<lparr>buffer := drop (min (Suc r) (length (buffer d))) (buffer d),
     cap_state := CapSkip (Suc r - min (Suc r) (length (buffer d)))\<rparr>)"
  by (simp add: next_capsule.simps[of d] Let_def)

lemma next_skip_all:
  assumes "cap_state d = CapSkip r" "r \<le> length (buffer d)"
  shows "next_capsule d = next_capsule (d\<lparr>buffer := drop r (buffer d), cap_state := CapHeader\<rparr>)"
proof (cases r)
  case 0
  with assms show ?thesis by (simp add: next_skip_over[of d])
next
  case (Suc r')
  with assms have "buffer d \<noteq> []" by auto
  with assms Suc have "next_capsule d = next_capsule (d\<lparr>buffer := drop r (buffer d), cap_state := CapSkip 0\<rparr>)"
    by (simp add: next_skip_some[of d r'] min_absorb1)
  then show ?thesis
    by (simp add: next_skip_over[of "d\<lparr>buffer := drop r (buffer d), cap_state := CapSkip 0\<rparr>"])
qed

lemma next_skip_part:
  assumes "cap_state d = CapSkip r" "length (buffer d) < r"
  shows "next_capsule d = (d\<lparr>buffer := [], cap_state := CapSkip (r - length (buffer d))\<rparr>, Inr None)"
proof (cases "buffer d = []")
  case True
  with assms obtain r' where "r = Suc r'" by (cases r) auto
  with True assms show ?thesis by (cases d) (simp add: next_skip_wait[of _ r'])
next
  case False
  let ?d = "d\<lparr>buffer := [], cap_state := CapSkip (r - length (buffer d))\<rparr>"
  from assms obtain r' where "r = Suc r'" by (cases r) auto
  with False assms have "next_capsule d = next_capsule ?d"
    by (simp add: next_skip_some[of d r'] min_absorb2)
  also have "\<dots> = (?d, Inr None)"
    using assms by (intro next_skip_wait[of ?d "r - length (buffer d) - 1"]) auto
  finally show ?thesis .
qed

lemma next_header_wait:
  "cap_state d = CapHeader \<Longrightarrow>
   \<nexists>t m l n. peek_varint (buffer d) = Some (t, m) \<and> peek_varint (drop m (buffer d)) = Some (l, n) \<Longrightarrow>
   next_capsule d = (d, Inr None)"
  by (auto simp: next_capsule.simps[of d] split: option.splits)

lemma next_header:
  "cap_state d = CapHeader \<Longrightarrow> peek_varint (buffer d) = Some (t, m) \<Longrightarrow>
   peek_varint (drop m (buffer d)) = Some (l, n) \<Longrightarrow>
   next_capsule d =
     (if t = CAPSULE_TYPE_DATAGRAM \<and> l > MAX_DATAGRAM_CAPSULE_VALUE
      then (d\<lparr>buffer := drop (m + n) (buffer d)\<rparr>, Inl (DatagramTooLarge l))
      else next_capsule (d\<lparr>buffer := drop (m + n) (buffer d),
        cap_state := (if t = CAPSULE_TYPE_DATAGRAM then CapValue (unat l) else CapSkip (unat l))\<rparr>))"
  by (simp add: next_capsule.simps[of d] Let_def)

lemma next_value:
  "cap_state d = CapValue l \<Longrightarrow> next_capsule d =
     (if length (buffer d) < l then (d, Inr None)
      else (d\<lparr>buffer := drop l (buffer d), cap_state := CapHeader\<rparr>,
        case take_varint (take l (buffer d)) of
          None \<Rightarrow> Inl MalformedDatagram
        | Some (ctx, pay) \<Rightarrow> Inr (Some (CapsuleDatagram ctx pay))))"
  by (simp add: next_capsule.simps[of d] Let_def split: option.splits)

text \<open>
  The loop as an induction rule: one case for each way a turn can end, and one for each way it
  goes round again. The facts about \<open>next_capsule\<close> below are all by this rule.
\<close>

definition after_header :: "u64 \<Rightarrow> u64 \<Rightarrow> capsule_state" where
  "after_header t l = (if t = CAPSULE_TYPE_DATAGRAM then CapValue (unat l) else CapSkip (unat l))"

definition value_result :: "bytes \<Rightarrow> capsule_error + capsule option" where
  "value_result v = (case take_varint v of None \<Rightarrow> Inl MalformedDatagram
     | Some (ctx, pay) \<Rightarrow> Inr (Some (CapsuleDatagram ctx pay)))"

lemma value_result_cases: "value_result v \<noteq> Inr None" "value_result [] = Inl MalformedDatagram"
  by (auto simp: value_result_def split: option.splits)

lemma next_capsule_turns [case_names header_wait too_large header value_wait whole_value skip_part skip_all]:
  assumes header_wait: "\<And>d. cap_state d = CapHeader \<Longrightarrow>
      \<nexists>t m l n. peek_varint (buffer d) = Some (t, m) \<and> peek_varint (drop m (buffer d)) = Some (l, n) \<Longrightarrow>
      next_capsule d = (d, Inr None) \<Longrightarrow> P d"
    and too_large: "\<And>d m l n. cap_state d = CapHeader \<Longrightarrow> peek_varint (buffer d) = Some (CAPSULE_TYPE_DATAGRAM, m) \<Longrightarrow>
      peek_varint (drop m (buffer d)) = Some (l, n) \<Longrightarrow> l > MAX_DATAGRAM_CAPSULE_VALUE \<Longrightarrow>
      next_capsule d = (d\<lparr>buffer := drop (m + n) (buffer d)\<rparr>, Inl (DatagramTooLarge l)) \<Longrightarrow> P d"
    and header: "\<And>d t m l n d'. cap_state d = CapHeader \<Longrightarrow> peek_varint (buffer d) = Some (t, m) \<Longrightarrow>
      peek_varint (drop m (buffer d)) = Some (l, n) \<Longrightarrow>
      \<not> (t = CAPSULE_TYPE_DATAGRAM \<and> l > MAX_DATAGRAM_CAPSULE_VALUE) \<Longrightarrow>
      d' = d\<lparr>buffer := drop (m + n) (buffer d), cap_state := after_header t l\<rparr> \<Longrightarrow>
      next_capsule d = next_capsule d' \<Longrightarrow> P d' \<Longrightarrow> P d"
    and value_wait: "\<And>d l. cap_state d = CapValue l \<Longrightarrow> length (buffer d) < l \<Longrightarrow>
      next_capsule d = (d, Inr None) \<Longrightarrow> P d"
    and whole_value: "\<And>d l. cap_state d = CapValue l \<Longrightarrow> l \<le> length (buffer d) \<Longrightarrow>
      next_capsule d = (d\<lparr>buffer := drop l (buffer d), cap_state := CapHeader\<rparr>, value_result (take l (buffer d))) \<Longrightarrow> P d"
    and skip_part: "\<And>d n. cap_state d = CapSkip n \<Longrightarrow> length (buffer d) < n \<Longrightarrow>
      next_capsule d = (d\<lparr>buffer := [], cap_state := CapSkip (n - length (buffer d))\<rparr>, Inr None) \<Longrightarrow> P d"
    and skip_all: "\<And>d n d'. cap_state d = CapSkip n \<Longrightarrow> n \<le> length (buffer d) \<Longrightarrow>
      d' = d\<lparr>buffer := drop n (buffer d), cap_state := CapHeader\<rparr> \<Longrightarrow>
      next_capsule d = next_capsule d' \<Longrightarrow> P d' \<Longrightarrow> P d"
  shows "P d"
proof (induction "2 * length (buffer d) + skipping (cap_state d)" arbitrary: d rule: less_induct)
  case less
  show ?case
  proof (cases "cap_state d")
    case CapHeader
    show ?thesis
    proof (cases "\<exists>t m l n. peek_varint (buffer d) = Some (t, m) \<and> peek_varint (drop m (buffer d)) = Some (l, n)")
      case False
      with CapHeader header_wait[of d] next_header_wait[of d] show ?thesis by auto
    next
      case True
      then obtain t m l n where p: "peek_varint (buffer d) = Some (t, m)"
        "peek_varint (drop m (buffer d)) = Some (l, n)" by blast
      let ?d = "d\<lparr>buffer := drop (m + n) (buffer d), cap_state := after_header t l\<rparr>"
      have "2 * length (buffer ?d) + skipping (cap_state ?d) < 2 * length (buffer d)"
        using peek_varint_used[OF p(1)] peek_varint_used[OF p(2)] by (auto simp: after_header_def)
      with less[of ?d] have "P ?d" by simp
      with p CapHeader next_header[OF CapHeader p] too_large[of d m l n] header[of d t m l n]
      show ?thesis by (auto simp: after_header_def split: if_splits)
    qed
  next
    case (CapValue l)
    with value_wait[of d l] whole_value[of d l] next_value[of d l] show ?thesis
      by (cases "length (buffer d) < l") (auto simp: value_result_def)
  next
    case (CapSkip n)
    show ?thesis
    proof (cases "n \<le> length (buffer d)")
      case True
      with CapSkip less[of "d\<lparr>buffer := drop n (buffer d), cap_state := CapHeader\<rparr>"]
        skip_all[of d n] next_skip_all[of d n] show ?thesis by simp
    next
      case False
      with CapSkip skip_part[of d n] next_skip_part[of d n] show ?thesis by simp
    qed
  qed
qed

text \<open>The bytes that follow change neither an item nor an error, and a wait only continues.\<close>

lemma next_push:
  "if snd (next_capsule d) = Inr None
   then next_capsule (capsule_push (fst (next_capsule d)) c) = next_capsule (capsule_push d c)
   else next_capsule (capsule_push d c) = (capsule_push (fst (next_capsule d)) c, snd (next_capsule d))"
proof (induction d rule: next_capsule_turns)
  case (too_large d m l n)
  with vi.peek_pair_stable[of "buffer d" CAPSULE_TYPE_DATAGRAM m l n c] show ?case
    by (cases d) (simp add: next_header[of _ CAPSULE_TYPE_DATAGRAM m l n] capsule_push_def)
next
  case (header d t m l n d')
  have "next_capsule (capsule_push d c) = next_capsule (capsule_push d' c)"
    using vi.peek_pair_stable[OF header.hyps(2,3), of c] header.hyps(1,4,5)
    by (cases d) (auto simp: next_header[of _ t m l n] capsule_push_def after_header_def)
  with header.hyps(6) header.IH show ?case by simp
next
  case (whole_value d l)
  then show ?case
    by (cases d) (simp add: next_value[of _ l] capsule_push_def value_result_cases flip: value_result_def)
next
  case (skip_part d n)
  then show ?case
    by (cases d; cases "n \<le> length (buffer d) + length c")
      (simp_all add: next_skip_all[where r = n] next_skip_part[where r = n]
         next_skip_all[where r = "n - length _"] next_skip_part[where r = "n - length _"] capsule_push_def)
next
  case (skip_all d n d')
  have "next_capsule (capsule_push d c) = next_capsule (capsule_push d' c)"
    using skip_all.hyps(1-3) by (cases d) (simp add: next_skip_all[of _ n] capsule_push_def)
  with skip_all.hyps(4) skip_all.IH show ?case by simp
qed simp_all

text \<open>An item consumes at least one buffered byte: a capsule of length zero is malformed.\<close>

lemma next_shrinks:
  "length (buffer (fst (next_capsule d))) \<le> length (buffer d) \<and>
   (\<forall>x. snd (next_capsule d) = Inr (Some x) \<longrightarrow> length (buffer (fst (next_capsule d))) < length (buffer d))"
proof (induction d rule: next_capsule_turns)
  case (whole_value d l)
  then show ?case by (cases l) (auto simp: value_result_cases)
qed auto

text \<open>What the decoder may be waiting for is bounded, and so is what it buffers while it waits.\<close>

definition capsule_inv :: "capsule_decoder \<Rightarrow> bool" where
  "capsule_inv d = (case cap_state d of CapValue l \<Rightarrow> l \<le> unat MAX_DATAGRAM_CAPSULE_VALUE | _ \<Rightarrow> True)"

lemma MAX_DATAGRAM_CAPSULE_VALUE_eq: "MAX_DATAGRAM_CAPSULE_VALUE = 65535"
  by (simp add: MAX_DATAGRAM_CAPSULE_VALUE_def MAX_UDP_PAYLOAD_def)

lemma next_bounded:
  "capsule_inv d \<Longrightarrow> capsule_inv (fst (next_capsule d)) \<and>
     (snd (next_capsule d) = Inr None \<longrightarrow> length (buffer (fst (next_capsule d))) < unat MAX_DATAGRAM_CAPSULE_VALUE)"
proof (induction d rule: next_capsule_turns)
  case (header_wait d)
  have "length (buffer d) < 16"
  proof (cases "peek_varint (buffer d)")
    case None
    then show ?thesis using peek_varint_None[of "buffer d"] by simp
  next
    case (Some p)
    then obtain t m where p: "peek_varint (buffer d) = Some (t, m)" by (cases p) auto
    with header_wait have "peek_varint (drop m (buffer d)) = None" by fastforce
    then show ?thesis
      using peek_varint_None[of "drop m (buffer d)"] peek_varint_shape[OF p] by auto
  qed
  with header_wait show ?case by (simp add: MAX_DATAGRAM_CAPSULE_VALUE_eq)
next
  case (header d t m l n d')
  then show ?case by (simp add: capsule_inv_def after_header_def not_less word_le_nat_alt split: if_splits)
next
  case (skip_part d r)
  then show ?case by (simp add: capsule_inv_def MAX_DATAGRAM_CAPSULE_VALUE_eq)
qed (auto simp: capsule_inv_def value_result_cases)

abbreviation capsules_of :: "capsule \<Rightarrow> capsule list" where
  "capsules_of x \<equiv> [x]"

interpretation cd: chunk_decoder next_capsule capsules_of "\<lambda>d. length (buffer d)" capsule_push capsule_push "\<lambda>_. True"
proof (unfold_locales, goal_cases)
  case (4 s s' x c)
  have "next_capsule (capsule_push s c) = (capsule_push s' c, Inr (Some x))"
    using next_push[of s c] 4 by simp
  then show ?case by (rule drain_item)
next
  case (5 s s' c)
  have "next_capsule (capsule_push s' c) = next_capsule (capsule_push s c)"
    using next_push[of s c] 5 by simp
  then show ?case by (rule drain_cong)
next
  case (6 s s' e c)
  have "next_capsule (capsule_push s c) = (capsule_push s' c, Inl e)"
    using next_push[of s c] 6 by simp
  then show ?case by (auto intro: drain_error)
next
  case (1 s s' x)
  with next_shrinks[of s] show ?case by simp
qed simp_all

section \<open>What a peer may write on the stream\<close>

text \<open>
  The wire format, as a sequence of capsules: DATAGRAM capsules written by
  \<open>encode_datagram\<close>, and capsules of any other type with an arbitrary value.
\<close>

datatype wire_capsule = WireDatagram u64 bytes | WireUnknown u64 bytes

fun wire_valid :: "wire_capsule \<Rightarrow> bool" where
  "wire_valid (WireDatagram c p) \<longleftrightarrow> c \<le> VARINT_MAX \<and> varint_len c + length p \<le> unat MAX_DATAGRAM_CAPSULE_VALUE"
| "wire_valid (WireUnknown t v) \<longleftrightarrow> t \<noteq> CAPSULE_TYPE_DATAGRAM \<and> t \<le> VARINT_MAX \<and> length v \<le> unat VARINT_MAX"

fun wire_bytes :: "wire_capsule \<Rightarrow> bytes" where
  "wire_bytes (WireDatagram c p) = the (encode_datagram c p)"
| "wire_bytes (WireUnknown t v) = enc_varint t @ enc_varint (of_nat (length v)) @ v"

fun wire_items :: "wire_capsule \<Rightarrow> capsule list" where
  "wire_items (WireDatagram c p) = [CapsuleDatagram c p]"
| "wire_items (WireUnknown t v) = []"

lemma encode_datagram_bytes:
  assumes "c \<le> VARINT_MAX" "varint_len c + length p \<le> unat VARINT_MAX"
  shows "encode_datagram c p =
    Some (enc_varint CAPSULE_TYPE_DATAGRAM @ enc_varint (of_nat (varint_len c + length p)) @ enc_varint c @ p)"
  using assms of_nat_le_VARINT_MAX[OF assms(2)]
  by (simp add: encode_datagram_def Let_def put_varint_enc CAPSULE_TYPE_DATAGRAM_def del: of_nat_add)

lemma next_typed:
  assumes "cap_state d = CapHeader" "buffer d = enc_varint t @ enc_varint l @ rest"
    and "t \<le> VARINT_MAX" "l \<le> VARINT_MAX" "t = CAPSULE_TYPE_DATAGRAM \<Longrightarrow> l \<le> MAX_DATAGRAM_CAPSULE_VALUE"
  shows "next_capsule d = next_capsule (d\<lparr>buffer := rest,
    cap_state := (if t = CAPSULE_TYPE_DATAGRAM then CapValue (unat l) else CapSkip (unat l))\<rparr>)"
  using assms next_header[of d t "length (enc_varint t)" l "length (enc_varint l)"]
  by (auto simp: peek_enc_varint not_less)

lemma drain_wire:
  assumes "wire_valid w" "cap_state d = CapHeader" "buffer d = wire_bytes w @ rest"
  shows "drain next_capsule capsules_of d = emit (wire_items w) (drain next_capsule capsules_of (d\<lparr>buffer := rest\<rparr>))"
proof (cases w)
  case (WireUnknown t v)
  with assms have "next_capsule d = next_capsule (d\<lparr>buffer := v @ rest, cap_state := CapSkip (length v)\<rparr>)"
    using next_typed[of d t "of_nat (length v)" "v @ rest"] of_nat_le_VARINT_MAX[of "length v"]
    by (simp add: unat_of_nat_u64)
  also have "\<dots> = next_capsule (d\<lparr>buffer := rest\<rparr>)"
    using assms by (cases d) (simp add: next_skip_all[of _ "length v"])
  finally have "next_capsule d = next_capsule (d\<lparr>buffer := rest\<rparr>)" .
  from drain_cong[of next_capsule, OF this] WireUnknown show ?thesis by simp
next
  case (WireDatagram c p)
  let ?n = "varint_len c + length p"
  from assms WireDatagram have c: "c \<le> VARINT_MAX" and n: "?n \<le> unat MAX_DATAGRAM_CAPSULE_VALUE" by auto
  then have n': "?n \<le> unat VARINT_MAX"
    by (simp add: VARINT_MAX_eq MAX_DATAGRAM_CAPSULE_VALUE_eq)
  have "buffer d = enc_varint CAPSULE_TYPE_DATAGRAM @ enc_varint (of_nat ?n) @ (enc_varint c @ p) @ rest"
    using assms(3) WireDatagram encode_datagram_bytes[OF c n'] by simp
  then have "next_capsule d = next_capsule (d\<lparr>buffer := (enc_varint c @ p) @ rest, cap_state := CapValue ?n\<rparr>)"
    using next_typed[of d CAPSULE_TYPE_DATAGRAM "of_nat ?n" "(enc_varint c @ p) @ rest"] assms(2)
      of_nat_le_VARINT_MAX[OF n'] n unat_of_nat_u64[OF n']
    by (simp add: word_le_nat_alt CAPSULE_TYPE_DATAGRAM_def del: of_nat_add)
  also have "\<dots> = (d\<lparr>buffer := rest\<rparr>, Inr (Some (CapsuleDatagram c p)))"
    using c assms(2) length_enc_varint[OF c] by (cases d) (simp add: next_value[of _ ?n])
  finally show ?thesis using WireDatagram by (simp add: drain_item)
qed

lemma drain_wires:
  "list_all wire_valid ws \<Longrightarrow> cap_state d = CapHeader \<Longrightarrow> buffer d = concat (map wire_bytes ws) \<Longrightarrow>
   drain next_capsule capsules_of d = Some (concat (map wire_items ws), d\<lparr>buffer := []\<rparr>, None)"
proof (induction ws arbitrary: d)
  case Nil
  then have "next_capsule d = (d, Inr None)"
    by (intro next_header_wait) (auto simp: peek_varint_def)
  with Nil show ?case by (cases d) (simp add: drain_more)
next
  case (Cons w ws)
  then show ?case
    using drain_wire[of w d "concat (map wire_bytes ws)"] Cons.IH[of "d\<lparr>buffer := concat (map wire_bytes ws)\<rparr>"]
    by simp
qed

section \<open>Properties\<close>

text \<open>
  Chunking is invisible: the capsules delivered, the error that stops the stream and the
  state left behind are those of one push of the whole byte sequence, however the transport
  cut it; and the read loop always returns.
\<close>

theorem capsule_chunking:
  assumes "cs \<noteq> []"
  shows "outcome (feed_chunks next_capsule capsules_of capsule_push d cs)
       = outcome (drain next_capsule capsules_of (capsule_push d (concat cs)))
     \<and> (\<exists>r. feed_chunks next_capsule capsules_of capsule_push d cs = Some r)"
  using cd.feed_chunks_concat[of cs d] cd.feed_chunks_returns assms by blast

theorem capsule_chunking_witness:
  "outcome (feed_chunks next_capsule capsules_of capsule_push capsule_new [[0, 2], [0], [9, 0x21]])
     = outcome (drain next_capsule capsules_of (capsule_push capsule_new (concat [[0, 2], [0], [9, 0x21]])))
   \<and> (\<exists>r. feed_chunks next_capsule capsules_of capsule_push capsule_new [[0, 2], [0], [9, 0x21]] = Some r)"
  by (rule capsule_chunking) simp

text \<open>
  The reader gets exactly the datagrams the peer wrote: any sequence of well-formed
  capsules, with capsules of unknown types anywhere between them, cut into chunks in any way,
  is delivered as its DATAGRAM capsules in order, with no error, and leaves the decoder at a
  capsule boundary.
\<close>

theorem capsule_stream_roundtrip:
  assumes "list_all wire_valid ws" "concat cs = concat (map wire_bytes ws)" "cs \<noteq> []"
  shows "\<exists>d. outcome (feed_chunks next_capsule capsules_of capsule_push capsule_new cs)
           = Some (concat (map wire_items ws), Inr d) \<and> at_capsule_boundary d"
proof -
  let ?d = "capsule_push capsule_new (concat cs)"
  have "drain next_capsule capsules_of ?d = Some (concat (map wire_items ws), ?d\<lparr>buffer := []\<rparr>, None)"
    using assms by (intro drain_wires) (simp_all add: capsule_new_def)
  then show ?thesis
    using cd.feed_chunks_concat[of cs capsule_new] assms(3)
    by (auto simp: outcome_def at_capsule_boundary_def capsule_new_def)
qed

theorem capsule_stream_roundtrip_witness:
  "\<exists>d. outcome (feed_chunks next_capsule capsules_of capsule_push capsule_new [[0, 2, 0], [9, 0x21, 2, 1], [2]])
     = Some (concat (map wire_items [WireDatagram 0 [9], WireUnknown 0x21 [1, 2]]), Inr d) \<and> at_capsule_boundary d"
  by (rule capsule_stream_roundtrip)
    (simp_all add: VARINT_MAX_eq MAX_DATAGRAM_CAPSULE_VALUE_eq CAPSULE_TYPE_DATAGRAM_def varint_len_def
      encode_datagram_def enc_varint_def put_varint_def)

text \<open>
  What an unauthenticated peer can make the decoder hold is bounded: whenever the decoder
  asks for more, fewer bytes are buffered than the largest legal DATAGRAM capsule value, and
  the length it waits for is never larger than that value. Both operations keep this.
\<close>

theorem capsule_memory_bound:
  assumes "capsule_inv d"
  shows "capsule_inv (capsule_push d c) \<and> capsule_inv (fst (next_capsule d)) \<and>
    (snd (next_capsule d) = Inr None \<longrightarrow>
       length (buffer (fst (next_capsule d))) < unat MAX_DATAGRAM_CAPSULE_VALUE)"
  using next_bounded[OF assms] assms by (simp add: capsule_inv_def)

theorem capsule_memory_bound_witness:
  "capsule_inv (capsule_push capsule_new [0]) \<and> snd (next_capsule (capsule_push capsule_new [0])) = Inr None \<and>
   length (buffer (fst (next_capsule (capsule_push capsule_new [0])))) < unat MAX_DATAGRAM_CAPSULE_VALUE"
proof -
  have i: "capsule_inv (capsule_push capsule_new [0])"
    by (simp add: capsule_inv_def capsule_new_def)
  have n: "next_capsule (capsule_push capsule_new [0]) = (capsule_push capsule_new [0], Inr None)"
    by (rule next_header_wait) (simp_all add: capsule_new_def peek_varint_def)
  from capsule_memory_bound[OF i, of "[]"] i n show ?thesis by simp
qed

end
