(* ===== verification/H3_Error.thy ===== *)
theory H3_Error
  imports Prelude
begin

text \<open>
  \<^verbatim>\<open>src/src/h3/error.rs\<close>: the HTTP/3 error codes, the rule violations this server reports, and
  how transport errors become stream and connection errors.

  A \<^verbatim>\<open>Violation\<close> carries a prose \<open>detail\<close> for the log; the text is not modelled, everything the
  code decides by is. The errors of the QUIC library are a datatype with the constructors the
  conversions distinguish; what the library puts in the others is opaque (\<^verbatim>\<open>OtherError\<close>).
\<close>

type_synonym code = u64

abbreviation (input) H3_DATAGRAM_ERROR :: code where "H3_DATAGRAM_ERROR \<equiv> 0x33"
abbreviation (input) H3_NO_ERROR :: code where "H3_NO_ERROR \<equiv> 0x100"
abbreviation (input) H3_GENERAL_PROTOCOL_ERROR :: code where "H3_GENERAL_PROTOCOL_ERROR \<equiv> 0x101"
abbreviation (input) H3_INTERNAL_ERROR :: code where "H3_INTERNAL_ERROR \<equiv> 0x102"
abbreviation (input) H3_STREAM_CREATION_ERROR :: code where "H3_STREAM_CREATION_ERROR \<equiv> 0x103"
abbreviation (input) H3_CLOSED_CRITICAL_STREAM :: code where "H3_CLOSED_CRITICAL_STREAM \<equiv> 0x104"
abbreviation (input) H3_FRAME_UNEXPECTED :: code where "H3_FRAME_UNEXPECTED \<equiv> 0x105"
abbreviation (input) H3_FRAME_ERROR :: code where "H3_FRAME_ERROR \<equiv> 0x106"
abbreviation (input) H3_EXCESSIVE_LOAD :: code where "H3_EXCESSIVE_LOAD \<equiv> 0x107"
abbreviation (input) H3_ID_ERROR :: code where "H3_ID_ERROR \<equiv> 0x108"
abbreviation (input) H3_SETTINGS_ERROR :: code where "H3_SETTINGS_ERROR \<equiv> 0x109"
abbreviation (input) H3_MISSING_SETTINGS :: code where "H3_MISSING_SETTINGS \<equiv> 0x10a"
abbreviation (input) H3_REQUEST_REJECTED :: code where "H3_REQUEST_REJECTED \<equiv> 0x10b"
abbreviation (input) H3_REQUEST_CANCELLED :: code where "H3_REQUEST_CANCELLED \<equiv> 0x10c"
abbreviation (input) H3_REQUEST_INCOMPLETE :: code where "H3_REQUEST_INCOMPLETE \<equiv> 0x10d"
abbreviation (input) H3_MESSAGE_ERROR :: code where "H3_MESSAGE_ERROR \<equiv> 0x10e"
abbreviation (input) H3_CONNECT_ERROR :: code where "H3_CONNECT_ERROR \<equiv> 0x10f"
abbreviation (input) H3_VERSION_FALLBACK :: code where "H3_VERSION_FALLBACK \<equiv> 0x110"
abbreviation (input) QPACK_DECOMPRESSION_FAILED :: code where "QPACK_DECOMPRESSION_FAILED \<equiv> 0x200"
abbreviation (input) QPACK_ENCODER_STREAM_ERROR :: code where "QPACK_ENCODER_STREAM_ERROR \<equiv> 0x201"
abbreviation (input) QPACK_DECODER_STREAM_ERROR :: code where "QPACK_DECODER_STREAM_ERROR \<equiv> 0x202"

record violation =
  code :: code
  fatal :: bool
  field_section :: bool

definition violation_stream :: "code \<Rightarrow> violation" where
  "violation_stream c = \<lparr>code = c, fatal = False, field_section = False\<rparr>"

definition violation_connection :: "code \<Rightarrow> violation" where
  "violation_connection c = \<lparr>code = c, fatal = True, field_section = False\<rparr>"

definition field_section_too_large :: violation where
  "field_section_too_large = \<lparr>code = H3_EXCESSIVE_LOAD, fatal = False, field_section = True\<rparr>"

definition into_fatal :: "violation \<Rightarrow> violation" where
  "into_fatal v = v\<lparr>fatal := True\<rparr>"

text \<open>The transport's errors, as far as the conversions look at them.\<close>

datatype quinn_connection_error = ApplicationClosed code | TimedOut | LocallyClosed | OtherConnectionError

datatype quinn_read_error = ReadReset code | ReadConnectionLost quinn_connection_error | OtherReadError

datatype quinn_write_error = WriteStopped code | WriteConnectionLost quinn_connection_error | OtherWriteError

datatype connection_error =
    ApplicationClose code
  | Timeout
  | LocalConn violation
  | Transport quinn_connection_error

datatype stream_error =
    RemoteTerminate code
  | Connection connection_error
  | LocalStream violation

fun connection_error_from :: "quinn_connection_error \<Rightarrow> connection_error" where
  "connection_error_from (ApplicationClosed c) = ApplicationClose c"
| "connection_error_from TimedOut = Timeout"
| "connection_error_from other = Transport other"

definition internal :: stream_error where
  "internal = LocalStream (violation_stream H3_INTERNAL_ERROR)"

fun stream_error_from_read :: "quinn_read_error \<Rightarrow> stream_error" where
  "stream_error_from_read (ReadReset c) = RemoteTerminate c"
| "stream_error_from_read (ReadConnectionLost e) = Connection (connection_error_from e)"
| "stream_error_from_read OtherReadError = internal"

fun stream_error_from_write :: "quinn_write_error \<Rightarrow> stream_error" where
  "stream_error_from_write (WriteStopped c) = RemoteTerminate c"
| "stream_error_from_write (WriteConnectionLost e) = Connection (connection_error_from e)"
| "stream_error_from_write OtherWriteError = internal"

definition stream_error_from_closed :: stream_error where
  "stream_error_from_closed = internal"

lemmas violation_defs = violation_stream_def violation_connection_def field_section_too_large_def into_fatal_def

lemma violation_classes [simp]:
  "fatal (violation_connection c)" "\<not> fatal (violation_stream c)" "\<not> fatal field_section_too_large"
  "fatal (into_fatal v)" "code (into_fatal v) = code v" "field_section (into_fatal v) = field_section v"
  "code (violation_connection c) = c" "code (violation_stream c) = c"
  "code field_section_too_large = H3_EXCESSIVE_LOAD"
  "field_section field_section_too_large" "\<not> field_section (violation_connection c)" "\<not> field_section (violation_stream c)"
  by (simp_all add: violation_defs)

end
