(* ===== verification/Frame.thy ===== *)
theory Frame
  imports Datagram Stream_Decoder H3_Error
begin

text \<open>
  \<^verbatim>\<open>src/src/h3/frame.rs\<close>: the HTTP/3 frame layer. \<open>next_item\<close> is \<^verbatim>\<open>FrameDecoder::next_item\<close>; it
  takes the decoder together with the connection's buffering budget, the counter every request
  stream shares, and returns both. \<open>reader_next\<close> is \<^verbatim>\<open>FrameReader::next\<close> over the sequence of
  reads the transport delivers.

  The header scratch array of sixteen bytes is the list of the bytes written so far; writing past
  its end, which would panic in Rust, is the error \<open>Panic\<close>. The decoder is an instance of
  \<open>chunk_decoder\<close>, with DATA payload compared byte by byte: how a DATA frame is cut into items
  follows the chunks, on purpose.
\<close>

section \<open>Types and constants\<close>

definition DATA :: u64 where "DATA = 0x00"
definition HEADERS :: u64 where "HEADERS = 0x01"
definition CANCEL_PUSH :: u64 where "CANCEL_PUSH = 0x03"
definition SETTINGS :: u64 where "SETTINGS = 0x04"
definition PUSH_PROMISE :: u64 where "PUSH_PROMISE = 0x05"
definition GOAWAY :: u64 where "GOAWAY = 0x07"
definition MAX_PUSH_ID :: u64 where "MAX_PUSH_ID = 0x0d"

lemmas frame_types = DATA_def HEADERS_def CANCEL_PUSH_def SETTINGS_def PUSH_PROMISE_def GOAWAY_def MAX_PUSH_ID_def

datatype buffered_kind = KHeaders | KSettings | KGoaway | KCancelPush | KMaxPushId | KPushPromise

definition from_type :: "u64 \<Rightarrow> buffered_kind option" where
  "from_type kind =
     (if kind = HEADERS then Some KHeaders
      else if kind = SETTINGS then Some KSettings
      else if kind = GOAWAY then Some KGoaway
      else if kind = CANCEL_PUSH then Some KCancelPush
      else if kind = MAX_PUSH_ID then Some KMaxPushId
      else if kind = PUSH_PROMISE then Some KPushPromise
      else None)"

fun frame_type :: "buffered_kind \<Rightarrow> u64" where
  "frame_type KHeaders = HEADERS"
| "frame_type KSettings = SETTINGS"
| "frame_type KGoaway = GOAWAY"
| "frame_type KCancelPush = CANCEL_PUSH"
| "frame_type KMaxPushId = MAX_PUSH_ID"
| "frame_type KPushPromise = PUSH_PROMISE"

definition RESERVED_HTTP2_TYPES :: "u64 list" where
  "RESERVED_HTTP2_TYPES = [0x02, 0x06, 0x08, 0x09]"

definition SETTING_QPACK_MAX_TABLE_CAPACITY :: u64 where "SETTING_QPACK_MAX_TABLE_CAPACITY = 0x01"
definition SETTING_MAX_FIELD_SECTION_SIZE :: u64 where "SETTING_MAX_FIELD_SECTION_SIZE = 0x06"
definition SETTING_QPACK_BLOCKED_STREAMS :: u64 where "SETTING_QPACK_BLOCKED_STREAMS = 0x07"
definition SETTING_ENABLE_CONNECT_PROTOCOL :: u64 where "SETTING_ENABLE_CONNECT_PROTOCOL = 0x08"
definition SETTING_H3_DATAGRAM :: u64 where "SETTING_H3_DATAGRAM = 0x33"

definition RESERVED_HTTP2_SETTINGS :: "u64 list" where
  "RESERVED_HTTP2_SETTINGS = [0x00, 0x02, 0x03, 0x04, 0x05]"

definition MAX_FIELD_SECTION_SIZE :: u64 where "MAX_FIELD_SECTION_SIZE = 64 * 1024"
definition HEADERS_BUFFER_BUDGET :: nat where "HEADERS_BUFFER_BUDGET = 1024 * 1024"
definition VARINT_MAX_LEN :: nat where "VARINT_MAX_LEN = 8"

definition MAX_BUFFERED_FRAME :: u64 where "MAX_BUFFERED_FRAME = MAX_FIELD_SECTION_SIZE"
definition MAX_FRAME_HEADER :: nat where "MAX_FRAME_HEADER = 2 * VARINT_MAX_LEN"
definition MAX_SKIPPED_FRAMES :: u32 where "MAX_SKIPPED_FRAMES = 4096"

datatype frame_error = Stream stream_error | Protocol violation | Panic

record settings =
  datagrams :: bool

datatype frame =
    FHeaders bytes
  | FSettings settings
  | FGoaway u64
  | FCancelPush u64
  | FMaxPushId u64
  | FPushPromise

datatype item =
    IData bytes
  | IFrame frame
  | ISkipped u64

datatype stream_kind = Control | Request | Tunnel

datatype frame_state =
    Header
  | Data nat
  | Buffering buffered_kind nat
  | Skipping u64 nat

record frame_decoder =
  chunk :: bytes
  header :: bytes
  payload_buf :: bytes
  charged :: nat
  stream :: stream_kind
  skipped :: u32
  state :: frame_state

section \<open>The buffering budget\<close>

text \<open>The shared counter, as its value: what the frames being buffered have announced.\<close>

type_synonym budget = nat

definition usize_max :: nat where "usize_max = 2 ^ 64 - 1"

definition charge :: "budget \<Rightarrow> nat \<Rightarrow> violation + budget" where
  "charge held bytes =
     (let wanted = min usize_max (held + bytes)
      in if wanted \<le> HEADERS_BUFFER_BUDGET then Inr wanted else Inl field_section_too_large)"

definition release_budget :: "budget \<Rightarrow> nat \<Rightarrow> budget" where
  "release_budget held bytes = (if bytes > 0 then held - bytes else held)"

section \<open>Parsing whole frames\<close>

definition settings_error :: violation where
  "settings_error = violation_connection H3_SETTINGS_ERROR"

definition truncated_settings :: violation where
  "truncated_settings = violation_connection H3_FRAME_ERROR"

definition boolean :: "u64 \<Rightarrow> violation + bool" where
  "boolean value = (if value = 0 then Inr False else if value = 1 then Inr True else Inl settings_error)"

definition single_varint :: "bytes \<Rightarrow> violation + u64" where
  "single_varint pay =
     (case peek_varint pay of
        Some (value, used) \<Rightarrow>
          (if used = length pay then Inr value else Inl (violation_connection H3_FRAME_ERROR))
      | None \<Rightarrow> Inl (violation_connection H3_FRAME_ERROR))"

text \<open>The loop of \<^verbatim>\<open>parse_settings\<close>, with its accumulators: the settings and the identifiers seen.\<close>

function parse_settings_loop :: "settings \<Rightarrow> u64 list \<Rightarrow> bytes \<Rightarrow> violation + settings" where
  "parse_settings_loop st seen pay =
     (if pay = [] then Inr st
      else case peek_varint pay of
        None \<Rightarrow> Inl truncated_settings
      | Some (identifier, used) \<Rightarrow>
          (case peek_varint (drop used pay) of
             None \<Rightarrow> Inl truncated_settings
           | Some (value, used') \<Rightarrow>
               (let rest = drop used' (drop used pay)
                in if identifier \<in> set RESERVED_HTTP2_SETTINGS then Inl settings_error
                   else if identifier \<in> set seen then Inl settings_error
                   else if identifier = SETTING_H3_DATAGRAM then
                     and_then (boolean value) (\<lambda>b. parse_settings_loop (st\<lparr>datagrams := b\<rparr>) (identifier # seen) rest)
                   else parse_settings_loop st (identifier # seen) rest)))"
  by pat_completeness auto
termination
  by (relation "measure (\<lambda>(st, seen, pay). length pay)")
    (auto dest!: peek_varint_used)

declare parse_settings_loop.simps [simp del]

definition parse_settings :: "bytes \<Rightarrow> violation + settings" where
  "parse_settings pay = parse_settings_loop \<lparr>datagrams = False\<rparr> [] pay"

definition map_ok :: "('a \<Rightarrow> 'b) \<Rightarrow> 'e + 'a \<Rightarrow> 'e + 'b" where
  "map_ok f r = and_then r (\<lambda>a. Inr (f a))"

fun parse :: "buffered_kind \<Rightarrow> bytes \<Rightarrow> violation + frame" where
  "parse KHeaders pay = Inr (FHeaders pay)"
| "parse KSettings pay = map_ok FSettings (parse_settings pay)"
| "parse KGoaway pay = map_ok FGoaway (single_varint pay)"
| "parse KCancelPush pay = map_ok FCancelPush (single_varint pay)"
| "parse KMaxPushId pay = map_ok FMaxPushId (single_varint pay)"
| "parse KPushPromise pay = Inr FPushPromise"

section \<open>The frame decoder\<close>

text \<open>\<open>misplaced\<close> says whether the type may not appear there; the prose it returns is not modelled.\<close>

definition misplaced :: "stream_kind \<Rightarrow> u64 \<Rightarrow> bool" where
  "misplaced s kind =
     (case s of
        Control \<Rightarrow> False
      | Request \<Rightarrow> kind = SETTINGS \<or> kind = CANCEL_PUSH \<or> kind = MAX_PUSH_ID \<or> kind = PUSH_PROMISE \<or> kind = GOAWAY
      | Tunnel \<Rightarrow> kind \<noteq> DATA \<and> from_type kind \<noteq> None)"

definition begin_frame :: "stream_kind \<Rightarrow> u64 \<Rightarrow> u64 \<Rightarrow> violation + frame_state" where
  "begin_frame s kind len =
     (if kind \<in> set RESERVED_HTTP2_TYPES then Inl (violation_connection H3_FRAME_UNEXPECTED)
      else if misplaced s kind then Inl (violation_connection H3_FRAME_UNEXPECTED)
      else if kind = DATA then Inr (Data (unat len))
      else case from_type kind of
        None \<Rightarrow> Inr (Skipping kind (unat len))
      | Some buffered \<Rightarrow>
          (if len > MAX_BUFFERED_FRAME then Inl field_section_too_large
           else Inr (Buffering buffered (unat len))))"

definition take_from :: "nat \<Rightarrow> nat \<Rightarrow> nat \<times> nat" where
  "take_from remaining chunk_len =
     (let take_n = min remaining chunk_len in (take_n, remaining - take_n))"

definition frame_new :: "stream_kind \<Rightarrow> frame_decoder" where
  "frame_new s = \<lparr>chunk = [], header = [], payload_buf = [], charged = 0, stream = s, skipped = 0, state = Header\<rparr>"

definition frame_push :: "frame_decoder \<Rightarrow> bytes \<Rightarrow> frame_decoder" where
  "frame_push d c = d\<lparr>chunk := c\<rparr>"

definition connect_completed :: "frame_decoder \<Rightarrow> frame_decoder" where
  "connect_completed d = d\<lparr>stream := Tunnel\<rparr>"

definition at_frame_boundary :: "frame_decoder \<Rightarrow> bool" where
  "at_frame_boundary d \<longleftrightarrow> state d = Header \<and> header d = []"

text \<open>
  \<^verbatim>\<open>take_frame_header\<close> over the scratch array and the chunk: the header if it is complete, with
  what is left of the chunk; \<open>HeaderPanic\<close> is the write past the end of the array.
\<close>

datatype header_read = HeaderDone u64 u64 bytes | HeaderMore bytes | HeaderPanic bytes bytes

fun header_pair :: "bytes \<Rightarrow> (u64 \<times> u64) option" where
  "header_pair hdr =
     (case peek_varint hdr of
        None \<Rightarrow> None
      | Some (kind, used) \<Rightarrow>
          (case peek_varint (drop used hdr) of
             None \<Rightarrow> None
           | Some (len, _) \<Rightarrow> Some (kind, len)))"

fun take_frame_header :: "bytes \<Rightarrow> bytes \<Rightarrow> header_read" where
  "take_frame_header hdr [] =
     (case header_pair hdr of
        Some (kind, len) \<Rightarrow> HeaderDone kind len []
      | None \<Rightarrow> HeaderMore hdr)"
| "take_frame_header hdr (b # ch) =
     (case header_pair hdr of
        Some (kind, len) \<Rightarrow> HeaderDone kind len (b # ch)
      | None \<Rightarrow> (if length hdr < MAX_FRAME_HEADER then take_frame_header (hdr @ [b]) ch else HeaderPanic hdr ch))"

definition count_skip :: "frame_decoder \<Rightarrow> frame_decoder \<times> (violation + unit)" where
  "count_skip d =
     (if stream d = Request then
        (let n = saturating_add (skipped d) 1
         in (d\<lparr>skipped := n\<rparr>,
             if n > MAX_SKIPPED_FRAMES then Inl (violation_stream H3_EXCESSIVE_LOAD) else Inr ()))
      else (d, Inr ()))"

definition release :: "frame_decoder \<times> budget \<Rightarrow> frame_decoder \<times> budget" where
  "release = (\<lambda>(d, held). (d\<lparr>charged := 0\<rparr>, release_budget held (charged d)))"

definition drop_decoder :: "frame_decoder \<times> budget \<Rightarrow> budget" where
  "drop_decoder s = snd (release s)"

lemma begin_frame_not_Header: "begin_frame s kind len = Inr st \<Longrightarrow> st \<noteq> Header"
  by (auto simp: begin_frame_def split: if_splits option.splits)

function next_item :: "frame_decoder \<times> budget \<Rightarrow> (frame_decoder \<times> budget) \<times> (frame_error + item option)" where
  "next_item (d, held) =
     (case state d of
        Header \<Rightarrow>
          (case take_frame_header (header d) (chunk d) of
             HeaderPanic hdr rest \<Rightarrow> ((d\<lparr>header := hdr, chunk := rest\<rparr>, held), Inl Panic)
           | HeaderMore hdr \<Rightarrow> ((d\<lparr>header := hdr, chunk := []\<rparr>, held), Inr None)
           | HeaderDone kind len rest \<Rightarrow>
               (let d = d\<lparr>header := [], chunk := rest\<rparr>
                in case begin_frame (stream d) kind len of
                     Inl v \<Rightarrow> ((d, held), Inl (Protocol v))
                   | Inr (Buffering k remaining) \<Rightarrow>
                       (case charge held remaining of
                          Inl v \<Rightarrow> ((d, held), Inl (Protocol v))
                        | Inr held' \<Rightarrow> next_item (d\<lparr>charged := remaining, state := Buffering k remaining\<rparr>, held'))
                   | Inr st \<Rightarrow> next_item (d\<lparr>state := st\<rparr>, held)))
      | Data remaining \<Rightarrow>
          (if remaining = 0 then ((d\<lparr>state := Header\<rparr>, held), Inr (Some (IData [])))
           else
             (case take_from remaining (length (chunk d)) of (take_n, left) \<Rightarrow>
                (if take_n = 0 then ((d, held), Inr None)
                 else ((d\<lparr>chunk := drop take_n (chunk d), state := (if left = 0 then Header else Data left)\<rparr>, held),
                       Inr (Some (IData (take take_n (chunk d))))))))
      | Buffering kind remaining \<Rightarrow>
          (let take_n = min remaining (length (chunk d));
               d1 = d\<lparr>payload_buf := payload_buf d @ take take_n (chunk d), chunk := drop take_n (chunk d)\<rparr>
           in if take_n < remaining then ((d1\<lparr>state := Buffering kind (remaining - take_n)\<rparr>, held), Inr None)
              else (release (d1\<lparr>state := Header, payload_buf := []\<rparr>, held),
                    case parse kind (payload_buf d1) of
                      Inl v \<Rightarrow> Inl (Protocol v)
                    | Inr f \<Rightarrow> Inr (Some (IFrame f))))
      | Skipping kind remaining \<Rightarrow>
          (case take_from remaining (length (chunk d)) of (take_n, left) \<Rightarrow>
             (let d1 = d\<lparr>chunk := drop take_n (chunk d)\<rparr>
              in if left = 0 then
                   (case count_skip (d1\<lparr>state := Header\<rparr>) of
                      (d2, Inl v) \<Rightarrow> ((d2, held), Inl (Protocol v))
                    | (d2, Inr _) \<Rightarrow> ((d2, held), Inr (Some (ISkipped kind))))
                 else ((d1\<lparr>state := Skipping kind left\<rparr>, held), Inr None))))"
  by pat_completeness auto
termination
  by (relation "measure (\<lambda>(d, held). if state d = Header then 1 else 0)")
    (auto dest: begin_frame_not_Header)

declare next_item.simps [simp del]

section \<open>The reader\<close>

text \<open>
  What the transport delivers, in order. \<open>reader_next\<close> consumes a prefix of it and returns what
  is left; a list that runs out is a read that is still pending.
\<close>

datatype read = Chunk bytes | Fin | ReadError quinn_read_error

record frame_reader =
  decoder :: frame_decoder
  finished :: bool

datatype reader_result = Ready "frame_error + item option" | Pending

fun reader_next :: "frame_reader \<times> budget \<Rightarrow> read list \<Rightarrow> (frame_reader \<times> budget) \<times> read list \<times> reader_result" where
  "reader_next (r, held) reads =
     (case next_item (decoder r, held) of
        ((d, held'), Inl e) \<Rightarrow> ((r\<lparr>decoder := d\<rparr>, held'), reads, Ready (Inl e))
      | ((d, held'), Inr (Some x)) \<Rightarrow> ((r\<lparr>decoder := d\<rparr>, held'), reads, Ready (Inr (Some x)))
      | ((d, held'), Inr None) \<Rightarrow>
          (if finished r then ((r\<lparr>decoder := d\<rparr>, held'), reads, Ready (Inr None))
           else case reads of
             [] \<Rightarrow> ((r\<lparr>decoder := d\<rparr>, held'), [], Pending)
           | ReadError e # reads' \<Rightarrow>
               ((r\<lparr>decoder := d\<rparr>, held'), reads', Ready (Inl (Stream (stream_error_from_read e))))
           | Chunk c # reads' \<Rightarrow> reader_next (r\<lparr>decoder := frame_push d c\<rparr>, held') reads'
           | Fin # reads' \<Rightarrow>
               ((r\<lparr>decoder := d, finished := True\<rparr>, held'), reads',
                Ready (if at_frame_boundary d then Inr None
                       else Inl (Protocol (violation_connection H3_FRAME_ERROR))))))"

definition frame_reader_new :: "stream_kind \<Rightarrow> frame_reader" where
  "frame_reader_new s = \<lparr>decoder = frame_new s, finished = False\<rparr>"

section \<open>Writing\<close>

definition put_header :: "bytes \<Rightarrow> u64 \<Rightarrow> u64 \<Rightarrow> bytes option" where
  "put_header out kind len = Option.bind (put_varint out kind) (\<lambda>out'. put_varint out' len)"

definition GREASE :: u64 where "GREASE = 0x1f * 8 + 0x21"

fun put_settings :: "bytes \<Rightarrow> (u64 \<times> u64) list \<Rightarrow> bytes option" where
  "put_settings out [] = Some out"
| "put_settings out ((identifier, value) # rest) =
     Option.bind (put_varint out identifier) (\<lambda>out'. Option.bind (put_varint out' value) (\<lambda>out''. put_settings out'' rest))"

definition settings_payload :: "bytes option" where
  "settings_payload = put_settings []
     [(SETTING_QPACK_MAX_TABLE_CAPACITY, 0), (SETTING_QPACK_BLOCKED_STREAMS, 0),
      (SETTING_MAX_FIELD_SECTION_SIZE, MAX_FIELD_SECTION_SIZE), (SETTING_ENABLE_CONNECT_PROTOCOL, 1),
      (SETTING_H3_DATAGRAM, 1), (GREASE, 0)]"

end
