(* ===== verification/Frame_Decoding.thy ===== *)
theory Frame_Decoding
  imports Frame
begin

text \<open>
  The frame decoder as an instance of \<open>chunk_decoder\<close>: what a stream decodes to does not depend
  on how the transport cut it, the header scratch array is never overrun, and a sequence of
  frames is decoded to itself.
\<close>

section \<open>Feeding bytes\<close>

definition frame_feed :: "frame_decoder \<times> budget \<Rightarrow> bytes \<Rightarrow> frame_decoder \<times> budget" where
  "frame_feed s c = (case s of (d, held) \<Rightarrow> (d\<lparr>chunk := chunk d @ c\<rparr>, held))"

definition frame_push_s :: "frame_decoder \<times> budget \<Rightarrow> bytes \<Rightarrow> frame_decoder \<times> budget" where
  "frame_push_s s c = (case s of (d, held) \<Rightarrow> (frame_push d c, held))"

definition consumed :: "frame_decoder \<times> budget \<Rightarrow> bool" where
  "consumed s \<longleftrightarrow> chunk (fst s) = []"

lemma frame_feed_simps [simp]:
  "frame_feed (d, h) c = (d\<lparr>chunk := chunk d @ c\<rparr>, h)"
  by (simp add: frame_feed_def)

lemma take_header_append:
  "take_frame_header hdr (ch @ c) =
     (case take_frame_header hdr ch of
        HeaderDone k l rest \<Rightarrow> HeaderDone k l (rest @ c)
      | HeaderMore hdr' \<Rightarrow> take_frame_header hdr' c
      | HeaderPanic hdr' rest \<Rightarrow> HeaderPanic hdr' (rest @ c))"
proof (induction ch arbitrary: hdr)
  case Nil
  then show ?case by (cases c) (auto split: option.splits)
next
  case (Cons b ch)
  then show ?case by (auto split: option.splits)
qed

lemma header_pair_length:
  assumes "header_pair hdr = Some p"
  shows "2 \<le> length hdr"
proof -
  from assms obtain k m l n where p: "peek_varint hdr = Some (k, m)" "peek_varint (drop m hdr) = Some (l, n)"
    by (auto split: option.splits)
  from peek_varint_used[OF p(1)] peek_varint_used[OF p(2)] show ?thesis by auto
qed

lemma take_header_done:
  "take_frame_header hdr ch = HeaderDone k l rest \<Longrightarrow> length rest + 2 \<le> length hdr + length ch"
proof (induction ch arbitrary: hdr)
  case Nil
  then show ?case using header_pair_length[of hdr] by (auto split: option.splits simp del: header_pair.simps)
next
  case (Cons b ch)
  then show ?case using header_pair_length[of hdr] Cons.IH[of "hdr @ [b]"]
    by (auto split: option.splits if_splits simp del: header_pair.simps)
qed

definition weight :: "frame_decoder \<times> budget \<Rightarrow> nat" where
  "weight = (\<lambda>(d, h). 2 * (length (chunk d) + length (header d)) + (if state d = Header then 0 else 1))"

text \<open>A call on a whole header: the error of the frame or of the budget, or the call in the state it announces.\<close>

lemma header_done:
  assumes "state d = Header" and whole: "take_frame_header (header d) (chunk d) = HeaderDone k l rest"
  shows "(\<exists>e. \<forall>c. next_item (frame_feed (d, h) c) = (frame_feed (d\<lparr>header := [], chunk := rest\<rparr>, h) c, Inl e))
    \<or> (\<exists>st n h'. st \<noteq> Header \<and> (\<forall>c. next_item (frame_feed (d, h) c)
         = next_item (d\<lparr>header := [], chunk := rest @ c, charged := n, state := st\<rparr>, h')))"
proof (cases "begin_frame (stream d) k l")
  case (Inl v)
  with assms show ?thesis by (intro disjI1 exI[of _ "Protocol v"]) (simp add: next_item.simps take_header_append)
next
  case (Inr st)
  show ?thesis
  proof (cases "\<exists>bk n. st = Buffering bk n")
    case False
    have "next_item (frame_feed (d, h) c) = next_item (d\<lparr>header := [], chunk := rest @ c, state := st\<rparr>, h)" for c
      using False assms Inr begin_frame_not_Header[OF Inr]
      by (cases st) (simp_all add: next_item.simps[of "d\<lparr>chunk := chunk d @ c\<rparr>"] take_header_append)
    then have "next_item (frame_feed (d, h) c)
        = next_item (d\<lparr>header := [], chunk := rest @ c, charged := charged d, state := st\<rparr>, h)" for c
      by (cases d) simp
    then show ?thesis using begin_frame_not_Header[OF Inr] by blast
  next
    case True
    then obtain bk n where st: "st = Buffering bk n" by blast
    show ?thesis
    proof (cases "charge h n")
      case (Inl v)
      with assms Inr st show ?thesis
        by (intro disjI1 exI[of _ "Protocol v"]) (simp add: next_item.simps take_header_append)
    next
      case charged: (Inr h')
      have "next_item (frame_feed (d, h) c)
          = next_item (d\<lparr>header := [], chunk := rest @ c, charged := n, state := st\<rparr>, h')" for c
        using assms Inr st charged
        by (simp add: next_item.simps[of "d\<lparr>chunk := chunk d @ c\<rparr>"] take_header_append)
      with st show ?thesis by blast
    qed
  qed
qed

text \<open>
  What a call in the header state comes to: an error; a wait for more bytes; or the same as a
  call in the state the header announces. None of it depends on the bytes that follow.
\<close>

lemma header_call:
  assumes "state d = Header"
  obtains (error) d' e where "\<And>c. next_item (frame_feed (d, h) c) = (frame_feed (d', h) c, Inl e)"
  | (more) d' where "next_item (d, h) = ((d', h), Inr None)" "chunk d' = []"
      "\<And>c. next_item (frame_feed (d, h) c) = next_item (frame_feed (d', h) c)"
  | (enter) d' h' where "state d' \<noteq> Header" "weight (d', h') < weight (d, h)"
      "\<And>c. next_item (frame_feed (d, h) c) = next_item (frame_feed (d', h') c)"
proof (cases "take_frame_header (header d) (chunk d)")
  case (HeaderPanic hdr rest)
  show ?thesis
    by (rule error[of "d\<lparr>header := hdr, chunk := rest\<rparr>" Panic])
      (use assms HeaderPanic in \<open>simp add: next_item.simps take_header_append\<close>)
next
  case (HeaderMore hdr)
  show ?thesis
  proof (rule more[of "d\<lparr>header := hdr, chunk := []\<rparr>"])
    show "next_item (frame_feed (d, h) c) = next_item (frame_feed (d\<lparr>header := hdr, chunk := []\<rparr>, h) c)" for c
      using assms HeaderMore
      by (simp add: next_item.simps take_header_append split: header_read.splits)
  qed (use assms HeaderMore in \<open>simp_all add: next_item.simps\<close>)
next
  case (HeaderDone k l rest)
  let ?d = "d\<lparr>header := [], chunk := rest\<rparr>"
  note lens = take_header_done[OF HeaderDone]
  from header_done[OF assms HeaderDone, of h] show ?thesis
  proof (elim disjE exE conjE)
    fix e assume "\<forall>c. next_item (frame_feed (d, h) c) = (frame_feed (?d, h) c, Inl e)"
    then show ?thesis by (intro error[of ?d e]) blast
  next
    fix st n h'
    assume st: "st \<noteq> Header"
      and "\<forall>c. next_item (frame_feed (d, h) c) = next_item (d\<lparr>header := [], chunk := rest @ c, charged := n, state := st\<rparr>, h')"
    then have step: "next_item (frame_feed (d, h) c) = next_item (frame_feed (?d\<lparr>charged := n, state := st\<rparr>, h') c)" for c
      by (cases d) simp
    show ?thesis by (rule enter[OF _ _ step]) (use lens assms st in \<open>simp_all add: weight_def\<close>)
  qed
qed

text \<open>The events of an item: DATA payload byte by byte, an empty DATA frame, or the frame itself.\<close>

datatype event = EvByte byte | EvEmptyData | EvFrame frame | EvSkipped u64

fun events_of :: "item \<Rightarrow> event list" where
  "events_of (IData []) = [EvEmptyData]"
| "events_of (IData (b # bs)) = map EvByte (b # bs)"
| "events_of (IFrame f) = [EvFrame f]"
| "events_of (ISkipped k) = [EvSkipped k]"

lemma events_of_append:
  "a \<noteq> [] \<Longrightarrow> b \<noteq> [] \<Longrightarrow> events_of (IData (a @ b)) = events_of (IData a) @ events_of (IData b)"
  by (cases a; cases b) auto

abbreviation run_frames :: "frame_decoder \<times> budget \<Rightarrow> (frame_decoder \<times> budget, frame_error, event) run" where
  "run_frames \<equiv> drain next_item events_of"

text \<open>What a call outside the header state comes to, and what the bytes that follow change.\<close>

definition stable_call :: "frame_decoder \<times> budget \<Rightarrow> bool" where
  "stable_call s \<longleftrightarrow>
     (case next_item s of
        (s', Inl e) \<Rightarrow> (\<forall>c. next_item (frame_feed s c) = (frame_feed s' c, Inl e))
      | (s', Inr None) \<Rightarrow> consumed s' \<and> (\<forall>c. next_item (frame_feed s' c) = next_item (frame_feed s c))
      | (s', Inr (Some x)) \<Rightarrow> weight s' < weight s \<and>
          (\<forall>c. run_frames (frame_feed s c) = emit (events_of x) (run_frames (frame_feed s' c))))"

lemma stable_Data:
  assumes "state d = Data r"
  shows "stable_call (d, h)"
proof (cases "r = 0")
  case True
  then have n: "next_item (frame_feed (d, h) c) = (frame_feed (d\<lparr>state := Header\<rparr>, h) c, Inr (Some (IData [])))" for c
    using assms by (cases d) (simp add: next_item.simps)
  from n[of "[]"] show ?thesis
    using drain_item[of next_item, OF n, of events_of] assms by (simp add: stable_call_def weight_def)
next
  case r: False
  show ?thesis
  proof (cases "chunk d = []")
    case True
    then have "next_item (d, h) = ((d, h), Inr None)"
      using assms r by (simp add: next_item.simps take_from_def)
    with True show ?thesis by (simp add: stable_call_def consumed_def)
  next
    case ne: False
    have item: "next_item (frame_feed (d, h) c) =
        ((d\<lparr>chunk := drop r (chunk d @ c), state := (if r \<le> length (chunk d @ c) then Header else Data (r - length (chunk d @ c)))\<rparr>, h),
         Inr (Some (IData (take r (chunk d @ c)))))" for c
      using assms r ne by (auto simp: next_item.simps take_from_def min_def Let_def)
    let ?d = "d\<lparr>chunk := drop r (chunk d), state := (if r \<le> length (chunk d) then Header else Data (r - length (chunk d)))\<rparr>"
    have "run_frames (frame_feed (d, h) c) = emit (events_of (IData (take r (chunk d)))) (run_frames (frame_feed (?d, h) c))" for c
    proof (cases "r \<le> length (chunk d) \<or> c = []")
      case True
      then have "next_item (frame_feed (d, h) c) = (frame_feed (?d, h) c, Inr (Some (IData (take r (chunk d)))))"
        using item[of c] by (cases d) auto
      then show ?thesis by (rule drain_item)
    next
      case False
      let ?m = "r - length (chunk d)"
      have "next_item (frame_feed (?d, h) c) =
          ((d\<lparr>chunk := drop r (chunk d @ c), state := (if r \<le> length (chunk d @ c) then Header else Data (r - length (chunk d @ c)))\<rparr>, h),
           Inr (Some (IData (take ?m c))))"
        using False by (cases d) (auto simp: next_item.simps take_from_def min_def Let_def)
      moreover have "events_of (IData (take r (chunk d @ c))) = events_of (IData (take r (chunk d))) @ events_of (IData (take ?m c))"
        using events_of_append[of "take r (chunk d)" "take ?m c"] ne False r by simp
      ultimately show ?thesis
        using drain_item[of next_item, OF item, of events_of c] by (simp add: drain_item[of next_item])
    qed
    with item[of "[]"] ne r assms show ?thesis
      by (auto simp: stable_call_def weight_def)
  qed
qed

lemma stable_Buffering:
  assumes "state d = Buffering k r"
  shows "stable_call (d, h)"
proof (cases "length (chunk d) < r")
  case True
  let ?d = "d\<lparr>payload_buf := payload_buf d @ chunk d, chunk := [], state := Buffering k (r - length (chunk d))\<rparr>"
  have n: "next_item (d, h) = ((?d, h), Inr None)"
    using True assms by (cases d) (simp add: next_item.simps)
  have "next_item (frame_feed (?d, h) c) = next_item (frame_feed (d, h) c)" for c
  proof -
    have "r - length (chunk d) - min (r - length (chunk d)) (length c) = r - min r (length (chunk d) + length c)"
      by auto
    then show ?thesis
      using True assms by (cases d) (auto simp: next_item.simps Let_def min_def)
  qed
  with n show ?thesis by (simp add: stable_call_def consumed_def)
next
  case False
  let ?d = "d\<lparr>payload_buf := [], chunk := drop r (chunk d), state := Header, charged := 0\<rparr>"
  let ?p = "payload_buf d @ take r (chunk d)"
  let ?h = "release_budget h (charged d)"
  have n: "next_item (frame_feed (d, h) c) = (frame_feed (?d, ?h) c,
      case parse k ?p of Inl v \<Rightarrow> Inl (Protocol v) | Inr f \<Rightarrow> Inr (Some (IFrame f)))" for c
    using False assms by (cases d) (simp add: next_item.simps Let_def release_def)
  show ?thesis
  proof (cases "parse k ?p")
    case (Inl v)
    with n have "next_item (frame_feed (d, h) c) = (frame_feed (?d, ?h) c, Inl (Protocol v))" for c by simp
    from this this[of "[]"] show ?thesis by (simp add: stable_call_def)
  next
    case (Inr f)
    with n have i: "next_item (frame_feed (d, h) c) = (frame_feed (?d, ?h) c, Inr (Some (IFrame f)))" for c by simp
    from drain_item[of next_item, OF i, of events_of] i[of "[]"] show ?thesis
      using assms by (simp add: stable_call_def weight_def)
  qed
qed

lemma stable_Skipping:
  assumes "state d = Skipping k r"
  shows "stable_call (d, h)"
proof (cases "length (chunk d) < r")
  case True
  let ?d = "d\<lparr>chunk := [], state := Skipping k (r - length (chunk d))\<rparr>"
  have n: "next_item (d, h) = ((?d, h), Inr None)"
    using True assms by (cases d) (simp add: next_item.simps take_from_def Let_def)
  have "next_item (frame_feed (?d, h) c) = next_item (frame_feed (d, h) c)" for c
    using True assms by (cases d) (auto simp: next_item.simps take_from_def Let_def min_def)
  with n show ?thesis by (simp add: stable_call_def consumed_def)
next
  case False
  define d2 where "d2 = fst (count_skip (d\<lparr>chunk := drop r (chunk d), state := Header\<rparr>))"
  define res where "res = snd (count_skip d)"
  have d2: "state d2 = Header" "chunk d2 = drop r (chunk d)" "header d2 = header d"
    by (simp_all add: d2_def count_skip_def Let_def)
  have n: "next_item (frame_feed (d, h) c) = (frame_feed (d2, h) c,
      case res of Inl v \<Rightarrow> Inl (Protocol v) | Inr _ \<Rightarrow> Inr (Some (ISkipped k)))" for c
    using False assms by (cases d) (auto simp: next_item.simps take_from_def count_skip_def d2_def res_def Let_def)
  show ?thesis
  proof (cases res)
    case (Inl v)
    with n have "next_item (frame_feed (d, h) c) = (frame_feed (d2, h) c, Inl (Protocol v))" for c by simp
    from this this[of "[]"] show ?thesis by (simp add: stable_call_def)
  next
    case (Inr f)
    with n have i: "next_item (frame_feed (d, h) c) = (frame_feed (d2, h) c, Inr (Some (ISkipped k)))" for c by simp
    from drain_item[of next_item, OF i, of events_of] i[of "[]"] show ?thesis
      using assms d2 by (simp add: stable_call_def weight_def)
  qed
qed

lemma stable_body: "state d \<noteq> Header \<Longrightarrow> stable_call (d, h)"
  by (cases "state d") (simp_all add: stable_Data stable_Buffering stable_Skipping)

lemma stable_header:
  assumes "state d = Header"
  shows "stable_call (d, h)"
  using assms
proof (cases rule: header_call[where h = h])
  case (error d' e)
  from error error[of "[]"] show ?thesis by (simp add: stable_call_def)
next
  case (more d')
  then show ?thesis by (simp add: stable_call_def consumed_def)
next
  case (enter d' h')
  have n: "next_item (d, h) = next_item (d', h')" using enter(3)[of "[]"] by simp
  have r: "run_frames (frame_feed (d, h) c) = run_frames (frame_feed (d', h') c)" for c
    using enter(3) by (rule drain_cong)
  from stable_body[OF enter(1), of h'] show ?thesis
    using enter(2,3) n r by (auto simp: stable_call_def split: prod.splits sum.splits option.splits)
qed

lemma stable: "stable_call s"
  using stable_body stable_header by (cases s) blast

interpretation fd: chunk_decoder next_item events_of weight frame_push_s frame_feed consumed
proof (unfold_locales, goal_cases)
  case (2 s)
  then show ?case by (cases s) simp
next
  case (3 s a b)
  then show ?case by (cases s) simp
next
  case (1 s s' x)
  with stable[of s] show ?case by (simp add: stable_call_def)
next
  case (4 s s' x c)
  with stable[of s] show ?case by (simp add: stable_call_def)
next
  case (5 s s' c)
  with stable[of s] show ?case by (intro drain_cong) (simp add: stable_call_def)
next
  case (6 s s' e c)
  with stable[of s] have "next_item (frame_feed s c) = (frame_feed s' c, Inl e)" by (simp add: stable_call_def)
  from drain_error[of next_item, OF this] show ?case by blast
next
  case (7 s s')
  with stable[of s] show ?case by (simp add: stable_call_def)
next
  case (8 s c)
  then show ?case by (cases s) (simp add: consumed_def frame_push_s_def frame_push_def)
qed

section \<open>The header array is never overrun\<close>

lemma header_pair_None: "header_pair hdr = None \<Longrightarrow> length hdr < MAX_FRAME_HEADER"
proof (cases "peek_varint hdr")
  case None
  then show ?thesis using peek_varint_None[of hdr] by (simp add: MAX_FRAME_HEADER_def VARINT_MAX_LEN_def)
next
  case (Some p)
  then obtain k m where p: "peek_varint hdr = Some (k, m)" by (cases p) auto
  assume "header_pair hdr = None"
  with p have "peek_varint (drop m hdr) = None" by (auto split: option.splits)
  then show ?thesis
    using peek_varint_None[of "drop m hdr"] peek_varint_shape[OF p]
    by (auto simp: MAX_FRAME_HEADER_def VARINT_MAX_LEN_def)
qed

lemma take_header_no_panic: "take_frame_header hdr ch \<noteq> HeaderPanic hdr' ch'"
proof (induction ch arbitrary: hdr)
  case Nil
  then show ?case by (simp split: option.splits del: header_pair.simps)
next
  case (Cons b ch)
  then show ?case using header_pair_None[of hdr] by (auto split: option.splits simp del: header_pair.simps)
qed

lemma next_item_no_panic: "snd (next_item s) \<noteq> Inl Panic"
proof (induction s rule: next_item.induct)
  case (1 d held)
  then show ?case
    by (subst next_item.simps)
      (auto simp: take_header_no_panic Let_def split: frame_state.splits header_read.splits sum.splits prod.splits)
qed

text \<open>What a call in the header state does, once the overrun is excluded.\<close>

lemma next_item_header_cases:
  assumes "state d = Header"
  obtains (more) hdr where "next_item (d, h) = ((d\<lparr>header := hdr, chunk := []\<rparr>, h), Inr None)"
  | (refused) k l rest v where "begin_frame (stream d) k l = Inl v"
      "next_item (d, h) = ((d\<lparr>header := [], chunk := rest\<rparr>, h), Inl (Protocol v))"
  | (over_budget) k l rest bk n v where "begin_frame (stream d) k l = Inr (Buffering bk n)" "charge h n = Inl v"
      "next_item (d, h) = ((d\<lparr>header := [], chunk := rest\<rparr>, h), Inl (Protocol v))"
  | (buffer) k l rest bk n h' where "begin_frame (stream d) k l = Inr (Buffering bk n)" "charge h n = Inr h'"
      "next_item (d, h) = next_item (d\<lparr>header := [], chunk := rest, charged := n, state := Buffering bk n\<rparr>, h')"
  | (other) k l rest st where "begin_frame (stream d) k l = Inr st" "st \<noteq> Header" "\<And>bk n. st \<noteq> Buffering bk n"
      "next_item (d, h) = next_item (d\<lparr>header := [], chunk := rest, state := st\<rparr>, h)"
proof (cases "take_frame_header (header d) (chunk d)")
  case (HeaderDone k l rest)
  note eq = next_item.simps[of d h, unfolded assms HeaderDone frame_state.case header_read.case]
  show ?thesis
  proof (cases "begin_frame (stream d) k l")
    case (Inl v)
    with eq show ?thesis by (intro refused[of k l v rest]) simp_all
  next
    case (Inr st)
    show ?thesis
    proof (cases "\<exists>bk n. st = Buffering bk n")
      case False
      with eq Inr begin_frame_not_Header[OF Inr] show ?thesis
        by (intro other[of k l st rest]) (auto simp: Let_def split: frame_state.splits)
    next
      case True
      then obtain bk n where st: "st = Buffering bk n" by blast
      with eq Inr show ?thesis
        by (cases "charge h n") (auto simp: Let_def intro: over_budget[of k l bk n _ rest] buffer[of k l bk n _ rest])
    qed
  qed
qed (use assms more in \<open>auto simp: next_item.simps take_header_no_panic\<close>)

section \<open>Decoding what a peer wrote\<close>

text \<open>A frame on the wire, as its type and payload, and the bytes \<open>put_header\<close> and the payload make.\<close>

type_synonym wire_frame = "u64 \<times> bytes"

definition wire_frame_bytes :: "wire_frame \<Rightarrow> bytes" where
  "wire_frame_bytes f = the (put_header [] (fst f) (of_nat (length (snd f)))) @ snd f"

definition wire_frame_events :: "wire_frame \<Rightarrow> event list" where
  "wire_frame_events f =
     (if fst f = DATA then events_of (IData (snd f))
      else case from_type (fst f) of
        None \<Rightarrow> [EvSkipped (fst f)]
      | Some k \<Rightarrow> (case parse k (snd f) of Inr fr \<Rightarrow> [EvFrame fr] | Inl _ \<Rightarrow> []))"

definition is_skipped :: "wire_frame \<Rightarrow> bool" where
  "is_skipped f \<longleftrightarrow> fst f \<noteq> DATA \<and> from_type (fst f) = None"

definition wire_frame_ok :: "stream_kind \<Rightarrow> wire_frame \<Rightarrow> bool" where
  "wire_frame_ok s f \<longleftrightarrow>
     fst f \<le> VARINT_MAX \<and> length (snd f) \<le> unat VARINT_MAX \<and>
     fst f \<notin> set RESERVED_HTTP2_TYPES \<and> \<not> misplaced s (fst f) \<and>
     (case from_type (fst f) of
        None \<Rightarrow> True
      | Some k \<Rightarrow> length (snd f) \<le> unat MAX_BUFFERED_FRAME \<and> (\<exists>fr. parse k (snd f) = Inr fr))"

lemma put_header_enc:
  "k \<le> VARINT_MAX \<Longrightarrow> l \<le> VARINT_MAX \<Longrightarrow> put_header out k l = Some (out @ enc_varint k @ enc_varint l)"
  by (simp add: put_header_def put_varint_enc)

lemma header_pair_prefix:
  assumes "k \<le> VARINT_MAX" "l \<le> VARINT_MAX" "hdr @ x = enc_varint k @ enc_varint l"
  shows "header_pair hdr = (if x = [] then Some (k, l) else None)"
proof (cases "header_pair hdr")
  case None
  have "x \<noteq> []"
  proof
    assume "x = []"
    with assms have "hdr = enc_varint k @ enc_varint l" by simp
    moreover have "peek_varint (enc_varint l) = Some (l, length (enc_varint l))"
      using peek_enc_varint[OF assms(2), of "[]"] by simp
    ultimately have "header_pair hdr = Some (k, l)"
      using assms by (simp add: peek_enc_varint)
    with None show False by simp
  qed
  with None show ?thesis by simp
next
  case (Some p)
  then obtain k' m l' n where p: "peek_varint hdr = Some (k', m)" "peek_varint (drop m hdr) = Some (l', n)" "p = (k', l')"
    by (auto split: option.splits)
  note q = vi.peek_pair_stable[OF p(1,2), of x]
  from q assms have k: "k' = k" "m = length (enc_varint k)" by (auto simp: peek_enc_varint)
  from q have "peek_varint (drop m (hdr @ x)) = Some (l', n)" by simp
  with assms k have "peek_varint (enc_varint l @ []) = Some (l', n)" by simp
  with peek_enc_varint[OF assms(2)] have "l' = l" "n = length (enc_varint l)" by (metis Pair_inject option.inject)+
  with q k assms(3) have "length (hdr @ x) \<le> length hdr" by simp
  then have "x = []" by simp
  with Some p k \<open>l' = l\<close> show ?thesis by simp
qed

lemma take_header_enc:
  assumes "k \<le> VARINT_MAX" "l \<le> VARINT_MAX" "hdr @ x = enc_varint k @ enc_varint l"
  shows "take_frame_header hdr (x @ rest) = HeaderDone k l rest"
  using assms(3)
proof (induction x arbitrary: hdr)
  case Nil
  from header_pair_prefix[OF assms(1,2) Nil] show ?case
    by (cases rest) (simp_all del: header_pair.simps)
next
  case (Cons b x)
  then have "take_frame_header (hdr @ [b]) (x @ rest) = HeaderDone k l rest" by simp
  with header_pair_prefix[OF assms(1,2) Cons.prems] header_pair_None[of hdr] show ?case
    by (simp del: header_pair.simps)
qed


definition is_buffered :: "wire_frame \<Rightarrow> bool" where
  "is_buffered f \<longleftrightarrow> from_type (fst f) \<noteq> None"

text \<open>The state a completed frame leaves: the bytes after it, and one more skip where skips count.\<close>

definition after_frame :: "frame_decoder \<Rightarrow> wire_frame \<Rightarrow> bytes \<Rightarrow> frame_decoder" where
  "after_frame d f rest = d\<lparr>chunk := rest,
     skipped := (if is_skipped f \<and> stream d = Request then skipped d + 1 else skipped d)\<rparr>"

definition between_frames :: "frame_decoder \<Rightarrow> bool" where
  "between_frames d \<longleftrightarrow> at_frame_boundary d \<and> payload_buf d = [] \<and> charged d = 0"

lemma next_wire_header:
  assumes "wire_frame_ok (stream d) f" "between_frames d" "chunk d = wire_frame_bytes f @ rest"
    and "begin_frame (stream d) (fst f) (of_nat (length (snd f))) = Inr st"
    and "is_buffered f \<Longrightarrow> h + unat MAX_BUFFERED_FRAME \<le> HEADERS_BUFFER_BUDGET"
  shows "next_item (d, h) = next_item
    (case st of Buffering _ n \<Rightarrow> (d\<lparr>header := [], chunk := snd f @ rest, charged := n, state := st\<rparr>, h + n)
     | _ \<Rightarrow> (d\<lparr>header := [], chunk := snd f @ rest, state := st\<rparr>, h))"
proof -
  let ?l = "of_nat (length (snd f)) :: u64"
  from assms(1) have v: "fst f \<le> VARINT_MAX" "?l \<le> VARINT_MAX" "unat ?l = length (snd f)"
    by (auto simp: wire_frame_ok_def of_nat_le_VARINT_MAX unat_of_nat_u64)
  have hd: "header d = []" "state d = Header" using assms(2) by (auto simp: between_frames_def at_frame_boundary_def)
  have "take_frame_header (header d) (chunk d) = HeaderDone (fst f) ?l (snd f @ rest)"
    using take_header_enc[OF v(1,2), of "[]" _ "snd f @ rest"] v hd assms(3)
    by (simp add: wire_frame_bytes_def put_header_enc)
  moreover have "charge h n = Inr (h + n)" if "st = Buffering k n" for k n
  proof -
    have "n \<le> unat MAX_BUFFERED_FRAME" "is_buffered f"
      using assms(4) that
      by (auto simp: begin_frame_def is_buffered_def word_le_nat_alt not_less split: if_splits option.splits)
    with assms(5) show ?thesis
      by (simp add: charge_def Let_def usize_max_def HEADERS_BUFFER_BUDGET_def)
  qed
  ultimately show ?thesis
    using hd assms(4) begin_frame_not_Header[OF assms(4)]
    by (cases st) (simp_all add: next_item.simps[of d h])
qed

lemma run_wire_frame:
  assumes ok: "wire_frame_ok (stream d) f" and b: "between_frames d" and ch: "chunk d = wire_frame_bytes f @ rest"
    and h: "is_buffered f \<Longrightarrow> h + unat MAX_BUFFERED_FRAME \<le> HEADERS_BUFFER_BUDGET"
    and sk: "stream d = Request \<Longrightarrow> is_skipped f \<Longrightarrow> unat (skipped d) < unat MAX_SKIPPED_FRAMES"
  shows "run_frames (d, h) = emit (wire_frame_events f) (run_frames (after_frame d f rest, h))"
proof -
  let ?l = "of_nat (length (snd f)) :: u64"
  have l: "unat ?l = length (snd f)" using ok by (simp add: wire_frame_ok_def unat_of_nat_u64)
  have hd: "state d = Header" "header d = []" "payload_buf d = []" "charged d = 0" using b by (auto simp: between_frames_def at_frame_boundary_def)
  consider (data) "fst f = DATA" | (skip) "fst f \<noteq> DATA" "from_type (fst f) = None"
    | (buf) k where "fst f \<noteq> DATA" "from_type (fst f) = Some k" by (cases "from_type (fst f)") auto
  then have "\<exists>x. next_item (d, h) = ((after_frame d f rest, h), Inr (Some x)) \<and> events_of x = wire_frame_events f"
  proof cases
    case data
    then have "begin_frame (stream d) (fst f) ?l = Inr (Data (length (snd f)))"
      using ok l by (simp add: begin_frame_def wire_frame_ok_def)
    from next_wire_header[OF ok b ch this h] data hd show ?thesis
      by (cases d; cases "snd f")
        (auto simp: next_item.simps take_from_def Let_def wire_frame_events_def after_frame_def is_skipped_def)
  next
    case skip
    then have "begin_frame (stream d) (fst f) ?l = Inr (Skipping (fst f) (length (snd f)))"
      using ok l by (simp add: begin_frame_def wire_frame_ok_def)
    moreover have "\<not> saturating_add (skipped d) 1 > MAX_SKIPPED_FRAMES \<and> saturating_add (skipped d) 1 = skipped d + 1"
      if "stream d = Request"
      using sk that skip
      by (auto simp: is_skipped_def saturating_add_def MAX_SKIPPED_FRAMES_def word_less_nat_alt unat_word_ariths)
    ultimately show ?thesis
      using next_wire_header[OF ok b ch _ h, of "Skipping (fst f) (length (snd f))"] skip hd
      by (cases d)
        (auto simp: next_item.simps take_from_def Let_def wire_frame_events_def after_frame_def is_skipped_def count_skip_def)
  next
    case (buf k)
    then have "begin_frame (stream d) (fst f) ?l = Inr (Buffering k (length (snd f)))"
      using ok l by (simp add: begin_frame_def wire_frame_ok_def word_le_nat_alt not_less)
    moreover obtain fr where "parse k (snd f) = Inr fr" using buf ok by (auto simp: wire_frame_ok_def)
    ultimately show ?thesis
      using next_wire_header[OF ok b ch _ h, of "Buffering k (length (snd f))"] buf hd
      by (cases d)
        (auto simp: next_item.simps Let_def wire_frame_events_def after_frame_def is_skipped_def release_def release_budget_def)
  qed
  then show ?thesis using drain_item[of next_item "(d, h)"] by metis
qed

lemma run_wire_frames_rest:
  assumes "list_all (wire_frame_ok (stream d)) fs" "between_frames d" "chunk d = concat (map wire_frame_bytes fs) @ rest"
    and "list_ex is_buffered fs \<Longrightarrow> h + unat MAX_BUFFERED_FRAME \<le> HEADERS_BUFFER_BUDGET"
    and "stream d = Request \<Longrightarrow> unat (skipped d) + length (filter is_skipped fs) \<le> unat MAX_SKIPPED_FRAMES"
  shows "\<exists>d'. run_frames (d, h) = emit (concat (map wire_frame_events fs)) (run_frames (d', h)) \<and> between_frames d' \<and> chunk d' = rest"
  using assms
proof (induction fs arbitrary: d)
  case Nil
  show ?case by (rule exI[of _ d]) (use Nil in simp)
next
  case (Cons f fs)
  let ?d = "after_frame d f (concat (map wire_frame_bytes fs) @ rest)"
  have "run_frames (d, h) = emit (wire_frame_events f) (run_frames (?d, h))"
    using Cons.prems by (intro run_wire_frame) auto
  moreover have "\<exists>d'. run_frames (?d, h) = emit (concat (map wire_frame_events fs)) (run_frames (d', h))
      \<and> between_frames d' \<and> chunk d' = rest"
  proof (rule Cons.IH)
    show "between_frames ?d" using Cons.prems(2) by (simp add: between_frames_def after_frame_def at_frame_boundary_def)
    show "unat (skipped ?d) + length (filter is_skipped fs) \<le> unat MAX_SKIPPED_FRAMES" if "stream ?d = Request"
      using Cons.prems(5) that
      by (auto simp: after_frame_def unat_word_ariths MAX_SKIPPED_FRAMES_def split: if_splits)
  qed (use Cons.prems in \<open>simp_all add: after_frame_def\<close>)
  ultimately show ?case by auto
qed

lemma run_wire_frames:
  assumes "list_all (wire_frame_ok (stream d)) fs" "between_frames d" "chunk d = concat (map wire_frame_bytes fs)"
    and "list_ex is_buffered fs \<Longrightarrow> h + unat MAX_BUFFERED_FRAME \<le> HEADERS_BUFFER_BUDGET"
    and "stream d = Request \<Longrightarrow> unat (skipped d) + length (filter is_skipped fs) \<le> unat MAX_SKIPPED_FRAMES"
  shows "\<exists>d'. run_frames (d, h) = Some (concat (map wire_frame_events fs), (d', h), None) \<and> between_frames d' \<and> chunk d' = []"
proof -
  obtain d' where d': "run_frames (d, h) = emit (concat (map wire_frame_events fs)) (run_frames (d', h))"
      "between_frames d'" "chunk d' = []"
    using run_wire_frames_rest[of d fs "[]" h] assms by auto
  then have "next_item (d', h) = ((d', h), Inr None)"
    by (cases d') (auto simp: next_item.simps between_frames_def at_frame_boundary_def peek_varint_def)
  with d' show ?thesis by (auto simp: drain_more[of next_item])
qed

section \<open>Properties\<close>

text \<open>
  Where the transport cuts a stream does not change what it decodes to. For a decoder that has
  consumed its last chunk, feeding any sequence of chunks gives the same DATA bytes, frames, skips,
  error and final state as feeding their concatenation at once, and the loop returns.
\<close>

theorem frame_chunking:
  assumes "chunk d = []" "cs \<noteq> []"
  shows "outcome (feed_chunks next_item events_of frame_push_s (d, h) cs)
       = outcome (run_frames (frame_push d (concat cs), h))
     \<and> (\<exists>r. feed_chunks next_item events_of frame_push_s (d, h) cs = Some r)"
  using fd.feed_chunks_concat[of "(d, h)" cs] fd.feed_chunks_returns[of frame_push_s "(d, h)" cs] assms
  by (simp add: consumed_def frame_push_def)

theorem frame_chunking_witness:
  "outcome (feed_chunks next_item events_of frame_push_s (frame_new Request, 0) [[0], [2, 5], [6]])
     = outcome (run_frames (frame_push (frame_new Request) (concat [[0], [2, 5], [6]]), 0))
   \<and> (\<exists>r. feed_chunks next_item events_of frame_push_s (frame_new Request, 0) [[0], [2, 5], [6]] = Some r)"
  by (rule frame_chunking) (simp_all add: frame_new_def)

text \<open>
  C22. What a peer writes is what is read: a sequence of frames allowed on the stream, cut into
  chunks in any way, decodes to the events of the frames in order -- payload bytes for DATA, the
  parsed frame for a buffered type, a skip for an unknown one -- without an error, leaving the
  decoder at a frame boundary and the shared budget as it was.
\<close>

theorem frame_stream_roundtrip:
  assumes "list_all (wire_frame_ok s) fs" "concat cs = concat (map wire_frame_bytes fs)" "cs \<noteq> []"
    and "list_ex is_buffered fs \<Longrightarrow> h + unat MAX_BUFFERED_FRAME \<le> HEADERS_BUFFER_BUDGET"
    and "s = Request \<Longrightarrow> length (filter is_skipped fs) \<le> unat MAX_SKIPPED_FRAMES"
  shows "\<exists>d. outcome (feed_chunks next_item events_of frame_push_s (frame_new s, h) cs)
           = Some (concat (map wire_frame_events fs), Inr (d, h)) \<and> at_frame_boundary d"
proof -
  let ?d = "frame_push (frame_new s) (concat cs)"
  have "\<exists>d'. run_frames (?d, h) = Some (concat (map wire_frame_events fs), (d', h), None)
      \<and> between_frames d' \<and> chunk d' = []"
    using assms
    by (intro run_wire_frames)
      (simp_all add: frame_push_def frame_new_def between_frames_def at_frame_boundary_def)
  then show ?thesis
    using fd.feed_chunks_concat[of "(frame_new s, h)" cs] assms(3)
    by (auto simp: consumed_def frame_new_def frame_push_def outcome_def between_frames_def)
qed

theorem frame_stream_roundtrip_witness:
  "\<exists>d. outcome (feed_chunks next_item events_of frame_push_s (frame_new Request, 0) [[1, 2, 0], [0, 0x21, 1, 9, 0], [2, 7, 8]])
     = Some (concat (map wire_frame_events [(HEADERS, [0, 0]), (0x21, [9]), (DATA, [7, 8])]), Inr (d, 0)) \<and> at_frame_boundary d"
  by (rule frame_stream_roundtrip)
    (simp_all add: wire_frame_ok_def wire_frame_bytes_def put_header_def put_varint_def varint_len_def VARINT_MAX_eq
      RESERVED_HTTP2_TYPES_def misplaced_def from_type_def frame_types MAX_BUFFERED_FRAME_def MAX_FIELD_SECTION_SIZE_def
      HEADERS_BUFFER_BUDGET_def MAX_SKIPPED_FRAMES_def is_skipped_def)

text \<open>
  The sixteen-byte scratch array for a frame header is large enough in every state of the
  decoder, reachable or not: no call of \<^verbatim>\<open>next_item\<close> writes past its end, whatever the bytes.
\<close>

theorem frame_header_in_bounds: "snd (next_item (d, h)) \<noteq> Inl Panic"
  by (rule next_item_no_panic)

end
