(* ===== verification/Frame_Budget.thy ===== *)
theory Frame_Budget
  imports Frame_Decoding
begin

text \<open>
  The buffering budget of one connection (\<^verbatim>\<open>BufferBudget\<close> in \<^verbatim>\<open>src/src/h3/frame.rs\<close>): the counter
  every request stream charges before it buffers a frame. The locale \<open>shared_budget\<close> states what
  a stream relies on; the step relation interleaves the operations of any number of decoders.
\<close>

section \<open>The interface of the counter\<close>

locale shared_budget =
  fixes chg :: "nat \<Rightarrow> nat \<Rightarrow> 'e + nat"
    and rel :: "nat \<Rightarrow> nat \<Rightarrow> nat"
    and limit :: nat
  assumes charge_ok: "chg h n = Inr h' \<longleftrightarrow> h + n \<le> limit \<and> h' = h + n"
    and release_ok: "n \<le> h \<Longrightarrow> rel h n = h - n"
begin

text \<open>Taking and returning one owner's share keeps the counter equal to the sum of the shares.\<close>

lemma charge_share:
  assumes "finite A" "i \<in> A" "h = (\<Sum>j\<in>A. f j)" "f i = 0" "chg h n = Inr h'"
  shows "h' = (\<Sum>j\<in>A. (f(i := n)) j) \<and> h' \<le> limit"
proof -
  have "(\<Sum>j\<in>A. (f(i := n)) j) = n + (\<Sum>j\<in>A - {i}. f j)"
    using assms(1,2) by (simp add: sum.remove)
  moreover have "(\<Sum>j\<in>A. f j) = (\<Sum>j\<in>A - {i}. f j)"
    using assms(1,2,4) by (simp add: sum.remove)
  ultimately show ?thesis using assms(3,5) by (simp add: charge_ok)
qed

lemma release_share:
  assumes "finite A" "i \<in> A" "h = (\<Sum>j\<in>A. f j)"
  shows "rel h (f i) = (\<Sum>j\<in>A. (f(i := 0)) j)"
proof -
  have "(\<Sum>j\<in>A. f j) = f i + (\<Sum>j\<in>A - {i}. f j)" "(\<Sum>j\<in>A. (f(i := 0)) j) = (\<Sum>j\<in>A - {i}. f j)"
    using assms(1,2) by (simp_all add: sum.remove)
  with assms(3) show ?thesis by (simp add: release_ok)
qed

end

interpretation bb: shared_budget charge release_budget HEADERS_BUFFER_BUDGET
  by unfold_locales (auto simp: charge_def release_budget_def Let_def usize_max_def HEADERS_BUFFER_BUDGET_def)

section \<open>One decoder's share\<close>

definition decoder_inv :: "frame_decoder \<Rightarrow> bool" where
  "decoder_inv d \<longleftrightarrow>
     (case state d of
        Buffering k r \<Rightarrow> charged d = r + length (payload_buf d) \<and> charged d \<le> unat MAX_BUFFERED_FRAME
      | _ \<Rightarrow> charged d = 0 \<and> payload_buf d = [])"

lemma decoder_inv_bounds:
  "decoder_inv d \<Longrightarrow> length (payload_buf d) \<le> charged d \<and> charged d \<le> unat MAX_BUFFERED_FRAME"
  by (cases "state d") (auto simp: decoder_inv_def)

lemma decoder_inv_quiet [simp]:
  "decoder_inv (frame_push d b) = decoder_inv d" "charged (frame_push d b) = charged d"
  "decoder_inv (connect_completed d) = decoder_inv d" "charged (connect_completed d) = charged d"
  by (cases "state d"; simp add: decoder_inv_def frame_push_def connect_completed_def)+

lemma begin_frame_Buffering:
  "begin_frame s k l = Inr (Buffering bk n) \<Longrightarrow> n \<le> unat MAX_BUFFERED_FRAME"
  by (auto simp: begin_frame_def word_le_nat_alt not_less split: if_splits option.splits)

text \<open>A call outside the header state keeps the share or gives it back, and the counter follows.\<close>

lemma next_item_body_share:
  assumes "decoder_inv d" "state d \<noteq> Header" "next_item (d, h) = ((d', h'), r)"
  shows "decoder_inv d' \<and> (charged d' = charged d \<and> h' = h \<or> charged d' = 0 \<and> h' = release_budget h (charged d))"
  using assms
  by (cases "state d")
    (auto simp: next_item.simps decoder_inv_def take_from_def Let_def count_skip_def release_def release_budget_def
       split: if_splits prod.splits sum.splits)

text \<open>
  A call in the header state announces a frame: it leaves the share empty, or charges what it
  announces and goes on in the body.
\<close>

lemma next_item_header_share:
  assumes "decoder_inv d" "state d = Header" "next_item (d, h) = ((d', h'), r)"
  shows "decoder_inv d' \<and> (charged d' = 0 \<and> h' = h \<or>
    (\<exists>n h1. charge h n = Inr h1 \<and> (charged d' = n \<and> h' = h1 \<or> charged d' = 0 \<and> h' = release_budget h1 n)))"
proof -
  have d: "charged d = 0" "payload_buf d = []" using assms(1,2) by (auto simp: decoder_inv_def)
  from assms(2) show ?thesis
  proof (cases rule: next_item_header_cases[where h = h])
    case (buffer k l rest bk n h1)
    with next_item_body_share[of "d\<lparr>header := [], chunk := rest, charged := n, state := Buffering bk n\<rparr>" h1 d' h' r]
      assms(3) d begin_frame_Buffering[OF buffer(1)] show ?thesis by (auto simp: decoder_inv_def)
  next
    case (other k l rest st)
    with next_item_body_share[of "d\<lparr>header := [], chunk := rest, state := st\<rparr>" h d' h' r] assms(3) d
    show ?thesis by (cases st) (auto simp: decoder_inv_def release_budget_def)
  qed (use assms d in \<open>auto simp: decoder_inv_def\<close>)
qed

text \<open>
  Both together: the counter moves by exactly what the decoder's share moves by, so nobody else's
  share is touched, and it never passes the limit.
\<close>

lemma next_item_share:
  assumes "decoder_inv d" "charged d \<le> h" "next_item (d, h) = ((d', h'), r)"
  shows "decoder_inv d' \<and> h' + charged d = h + charged d' \<and> (h \<le> HEADERS_BUFFER_BUDGET \<longrightarrow> h' \<le> HEADERS_BUFFER_BUDGET)"
proof (cases "state d = Header")
  case True
  with assms(1) have "charged d = 0" by (simp add: decoder_inv_def)
  with next_item_header_share[OF assms(1) True assms(3)] show ?thesis
    by (auto simp: bb.charge_ok bb.release_ok)
next
  case False
  with next_item_body_share[OF assms(1) False assms(3)] assms(2) show ?thesis
    by (auto simp: bb.release_ok)
qed

section \<open>Many streams on one connection\<close>

record connection_buffers =
  streams :: "nat \<rightharpoonup> frame_decoder"
  held :: budget

definition no_streams :: connection_buffers where
  "no_streams = \<lparr>streams = Map.empty, held = 0\<rparr>"

text \<open>
  Any stream may do its next operation at any moment: a decoder is created with its stream, is
  given a chunk when it has consumed the last one, is asked for an item, is told the CONNECT has
  completed, and gives its share back when it is dropped.
\<close>

inductive buffers_step :: "connection_buffers \<Rightarrow> connection_buffers \<Rightarrow> bool" where
  open_stream: "streams c i = None \<Longrightarrow> buffers_step c (c\<lparr>streams := (streams c)(i \<mapsto> frame_new Request)\<rparr>)"
| push_chunk: "streams c i = Some d \<Longrightarrow> chunk d = [] \<Longrightarrow>
     buffers_step c (c\<lparr>streams := (streams c)(i \<mapsto> frame_push d b)\<rparr>)"
| ask: "streams c i = Some d \<Longrightarrow> next_item (d, held c) = ((d', h'), r) \<Longrightarrow>
     buffers_step c (c\<lparr>streams := (streams c)(i \<mapsto> d'), held := h'\<rparr>)"
| complete: "streams c i = Some d \<Longrightarrow> buffers_step c (c\<lparr>streams := (streams c)(i \<mapsto> connect_completed d)\<rparr>)"
| drop_stream: "streams c i = Some d \<Longrightarrow>
     buffers_step c (c\<lparr>streams := (streams c)(i := None), held := drop_decoder (d, held c)\<rparr>)"

inductive buffers_reachable :: "connection_buffers \<Rightarrow> bool" where
  start: "buffers_reachable no_streams"
| step: "buffers_reachable c \<Longrightarrow> buffers_step c c' \<Longrightarrow> buffers_reachable c'"

definition share :: "connection_buffers \<Rightarrow> nat \<Rightarrow> nat" where
  "share c i = (case streams c i of None \<Rightarrow> 0 | Some d \<Rightarrow> charged d)"

definition buffers_inv :: "connection_buffers \<Rightarrow> bool" where
  "buffers_inv c \<longleftrightarrow> finite (dom (streams c)) \<and> (\<forall>i d. streams c i = Some d \<longrightarrow> decoder_inv d) \<and>
     held c = (\<Sum>i\<in>dom (streams c). share c i) \<and> held c \<le> HEADERS_BUFFER_BUDGET"

lemma share_le_held: "buffers_inv c \<Longrightarrow> streams c i = Some d \<Longrightarrow> charged d \<le> held c"
  using member_le_sum[of i "dom (streams c)" "share c"] by (auto simp: buffers_inv_def share_def)

text \<open>Replacing one decoder, with the counter moved by the change of its share.\<close>

lemma buffers_inv_update:
  assumes inv: "buffers_inv c" and i: "streams c i = Some d" and d': "decoder_inv d'"
    and h: "h' + charged d = held c + charged d'" "h' \<le> HEADERS_BUFFER_BUDGET"
  shows "buffers_inv (c\<lparr>streams := (streams c)(i \<mapsto> d'), held := h'\<rparr>)"
proof -
  let ?c = "c\<lparr>streams := (streams c)(i \<mapsto> d'), held := h'\<rparr>"
  let ?A = "dom (streams c)"
  have A: "finite ?A" "i \<in> ?A" using inv i by (auto simp: buffers_inv_def)
  have dom: "dom (streams ?c) = ?A" using i by auto
  have "(\<Sum>j\<in>?A. share ?c j) = charged d' + (\<Sum>j\<in>?A - {i}. share c j)"
    using A by (simp add: sum.remove share_def)
  moreover have "held c = charged d + (\<Sum>j\<in>?A - {i}. share c j)"
    using A i inv by (simp add: buffers_inv_def sum.remove share_def)
  ultimately have "h' = (\<Sum>j\<in>?A. share ?c j)" using h by simp
  with inv d' h A dom show ?thesis by (auto simp: buffers_inv_def)
qed

lemma buffers_inv_step: "buffers_step c c' \<Longrightarrow> buffers_inv c \<Longrightarrow> buffers_inv c'"
proof (induction rule: buffers_step.induct)
  case (open_stream c i)
  let ?c = "c\<lparr>streams := (streams c)(i \<mapsto> frame_new Request)\<rparr>"
  have i: "i \<notin> dom (streams c)" using open_stream.hyps by auto
  have "(\<Sum>j\<in>dom (streams c). share ?c j) = (\<Sum>j\<in>dom (streams c). share c j)"
    by (rule sum.cong) (use i in \<open>auto simp: share_def\<close>)
  moreover have "share ?c i = 0" by (simp add: share_def frame_new_def)
  ultimately have "(\<Sum>j\<in>dom (streams ?c). share ?c j) = (\<Sum>j\<in>dom (streams c). share c j)"
    using open_stream.prems i by (simp add: buffers_inv_def)
  with open_stream.prems show ?case
    by (auto simp: buffers_inv_def decoder_inv_def frame_new_def)
next
  case (push_chunk c i d b)
  then have "decoder_inv d" by (auto simp: buffers_inv_def)
  with buffers_inv_update[OF push_chunk.prems push_chunk.hyps(1), of "frame_push d b" "held c"] push_chunk.prems
  show ?case by (simp add: buffers_inv_def)
next
  case (ask c i d d' h' r)
  have "decoder_inv d" using ask.hyps(1) ask.prems by (auto simp: buffers_inv_def)
  from next_item_share[OF this share_le_held[OF ask.prems ask.hyps(1)] ask.hyps(2)]
  have "decoder_inv d'" "h' + charged d = held c + charged d'" "h' \<le> HEADERS_BUFFER_BUDGET"
    using ask.prems by (auto simp: buffers_inv_def)
  from buffers_inv_update[OF ask.prems ask.hyps(1) this] show ?case .
next
  case (complete c i d)
  then have "decoder_inv d" by (auto simp: buffers_inv_def)
  with buffers_inv_update[OF complete.prems complete.hyps(1), of "connect_completed d" "held c"] complete.prems
  show ?case by (simp add: buffers_inv_def)
next
  case (drop_stream c i d)
  let ?c = "c\<lparr>streams := (streams c)(i := None), held := drop_decoder (d, held c)\<rparr>"
  have A: "finite (dom (streams c))" "i \<in> dom (streams c)" using drop_stream by (auto simp: buffers_inv_def)
  have "drop_decoder (d, held c) = release_budget (held c) (share c i)"
    using drop_stream.hyps by (simp add: drop_decoder_def release_def share_def)
  also have "\<dots> = (\<Sum>j\<in>dom (streams c). ((share c)(i := 0)) j)"
    using A drop_stream.prems by (intro bb.release_share) (auto simp: buffers_inv_def)
  also have "\<dots> = (\<Sum>j\<in>dom (streams ?c). share ?c j)"
    using A by (simp add: sum.remove share_def)
  finally have "held ?c = (\<Sum>j\<in>dom (streams ?c). share ?c j)" by simp
  moreover have "drop_decoder (d, held c) \<le> held c"
    by (simp add: drop_decoder_def release_def release_budget_def)
  ultimately show ?case using drop_stream.prems by (auto simp: buffers_inv_def)
qed

lemma buffers_reachable_inv: "buffers_reachable c \<Longrightarrow> buffers_inv c"
proof (induction rule: buffers_reachable.induct)
  case start
  show ?case by (simp add: buffers_inv_def no_streams_def)
next
  case (step c c')
  then show ?case by (blast intro: buffers_inv_step)
qed

section \<open>Properties\<close>

definition buffered :: "connection_buffers \<Rightarrow> nat \<Rightarrow> nat" where
  "buffered c i = (case streams c i of None \<Rightarrow> 0 | Some d \<Rightarrow> length (payload_buf d))"

lemma buffered_le_share: "buffers_inv c \<Longrightarrow> buffered c i \<le> share c i"
  using decoder_inv_bounds by (auto simp: buffers_inv_def buffered_def share_def split: option.splits)

text \<open>
  C23. One connection cannot make the server buffer more than its budget. However the operations of
  its request streams interleave, the shared counter is exactly the sum of the shares of the
  frames being buffered, never above 1 MiB; what is actually buffered is at most that in total and
  at most 64 KiB on any one stream; and a connection on which no frame is half received holds
  nothing.
\<close>

theorem buffer_budget_invariant:
  assumes "buffers_reachable c"
  shows "held c = (\<Sum>i\<in>dom (streams c). share c i) \<and> held c \<le> HEADERS_BUFFER_BUDGET
    \<and> (\<Sum>i\<in>dom (streams c). buffered c i) \<le> held c
    \<and> (\<forall>i. buffered c i \<le> unat MAX_BUFFERED_FRAME)
    \<and> ((\<forall>i d k n. streams c i = Some d \<longrightarrow> state d \<noteq> Buffering k n) \<longrightarrow> held c = 0)"
proof -
  have inv: "buffers_inv c" by (rule buffers_reachable_inv[OF assms])
  have d: "decoder_inv d" if "streams c i = Some d" for i d using inv that by (auto simp: buffers_inv_def)
  have "(\<Sum>i\<in>dom (streams c). buffered c i) \<le> (\<Sum>i\<in>dom (streams c). share c i)"
    by (rule sum_mono) (rule buffered_le_share[OF inv])
  moreover have "buffered c i \<le> unat MAX_BUFFERED_FRAME" for i
    using d[of i] decoder_inv_bounds by (fastforce simp: buffered_def split: option.splits)
  moreover have "share c i = 0" if "\<forall>i d k n. streams c i = Some d \<longrightarrow> state d \<noteq> Buffering k n" for i
    using d[of i] that by (cases "streams c i") (auto simp: share_def decoder_inv_def split: frame_state.splits)
  ultimately show ?thesis using inv by (auto simp: buffers_inv_def)
qed

theorem buffer_budget_invariant_witness:
  "\<exists>c. held c = 3 \<and> held c = (\<Sum>i\<in>dom (streams c). share c i) \<and> held c \<le> HEADERS_BUFFER_BUDGET
    \<and> (\<Sum>i\<in>dom (streams c). buffered c i) \<le> held c \<and> buffered c 0 = 1 \<and> buffered c 0 \<le> unat MAX_BUFFERED_FRAME"
proof -
  let ?d1 = "frame_push (frame_new Request) [1, 3, 0]"
  let ?d2 = "\<lparr>chunk = [], header = [], payload_buf = [0], charged = 3, stream = Request, skipped = 0, state = Buffering KHeaders 2\<rparr>"
  let ?c = "\<lparr>streams = [0 \<mapsto> ?d2], held = 3\<rparr>"
  have n: "next_item (?d1, 0) = ((?d2, 3), Inr None)"
    by (simp add: next_item.simps frame_push_def frame_new_def peek_varint_def MAX_FRAME_HEADER_def VARINT_MAX_LEN_def
        begin_frame_def RESERVED_HTTP2_TYPES_def misplaced_def frame_types from_type_def MAX_BUFFERED_FRAME_def
        MAX_FIELD_SECTION_SIZE_def charge_def usize_max_def HEADERS_BUFFER_BUDGET_def)
  have "buffers_reachable \<lparr>streams = [0 \<mapsto> frame_new Request], held = 0\<rparr>"
    using step[OF start open_stream[of no_streams 0]] by (simp add: no_streams_def)
  from step[OF this push_chunk[of _ 0 "frame_new Request" "[1, 3, 0]"]]
  have "buffers_reachable \<lparr>streams = [0 \<mapsto> ?d1], held = 0\<rparr>" by (simp add: frame_new_def frame_push_def)
  from step[OF this ask[of _ 0 ?d1 ?d2 3 "Inr None"]] n have r: "buffers_reachable ?c" by simp
  have "held ?c = 3" "buffered ?c 0 = 1" by (simp_all add: buffered_def)
  with buffer_budget_invariant[OF r] show ?thesis by blast
qed

end
