(* ===== verification/Frame_Rules.thy ===== *)
theory Frame_Rules
  imports Frame_Decoding
begin

text \<open>
  The judgements the frame layer makes (\<^verbatim>\<open>begin\<close>, \<^verbatim>\<open>misplaced\<close>, \<^verbatim>\<open>parse_settings\<close> and the skip limit
  in \<^verbatim>\<open>src/src/h3/frame.rs\<close>) against declarative statements of the rules they enforce.
\<close>

section \<open>Settings\<close>

text \<open>A payload read as identifier-value pairs, with no rule applied to them.\<close>

function read_pairs :: "bytes \<Rightarrow> (u64 \<times> u64) list option" where
  "read_pairs pay =
     (if pay = [] then Some []
      else case peek_varint pay of
        None \<Rightarrow> None
      | Some (i, m) \<Rightarrow>
          (case peek_varint (drop m pay) of
             None \<Rightarrow> None
           | Some (v, n) \<Rightarrow> map_option (\<lambda>ps. (i, v) # ps) (read_pairs (drop n (drop m pay)))))"
  by pat_completeness auto
termination
  by (relation "measure length") (auto dest!: peek_varint_used)

declare read_pairs.simps [simp del]

definition settings_allowed :: "u64 set \<Rightarrow> (u64 \<times> u64) list \<Rightarrow> bool" where
  "settings_allowed seen ps \<longleftrightarrow> distinct (map fst ps) \<and> fst ` set ps \<inter> (set RESERVED_HTTP2_SETTINGS \<union> seen) = {} \<and>
     (\<forall>v. (SETTING_H3_DATAGRAM, v) \<in> set ps \<longrightarrow> v = 0 \<or> v = 1)"

lemma settings_allowed_Cons:
  "settings_allowed seen ((i, v) # ps) \<longleftrightarrow> i \<notin> set RESERVED_HTTP2_SETTINGS \<and> i \<notin> seen \<and>
     (i = SETTING_H3_DATAGRAM \<longrightarrow> v = 0 \<or> v = 1) \<and> settings_allowed (insert i seen) ps"
  by (auto simp: settings_allowed_def)

lemma settings_Nil [simp]:
  "read_pairs [] = Some []" "parse_settings_loop st seen [] = Inr st"
  by (simp_all add: read_pairs.simps parse_settings_loop.simps)

lemma parse_settings_loop_ok:
  "parse_settings_loop st seen pay = Inr st' \<longleftrightarrow>
     (\<exists>ps. read_pairs pay = Some ps \<and> settings_allowed (set seen) ps \<and>
       st' = st\<lparr>datagrams := (case map_of ps SETTING_H3_DATAGRAM of None \<Rightarrow> datagrams st | Some v \<Rightarrow> v = 1)\<rparr>)"
proof (induction st seen pay rule: parse_settings_loop.induct)
  case (1 st seen pay)
  show ?case
  proof (cases "pay = []")
    case True
    then show ?thesis by (auto simp: settings_allowed_def)
  next
    case ne: False
    show ?thesis
    proof (cases "\<exists>i m v n. peek_varint pay = Some (i, m) \<and> peek_varint (drop m pay) = Some (v, n)")
      case False
      then show ?thesis
        using ne by (auto simp: parse_settings_loop.simps[of st seen pay] read_pairs.simps[of pay] split: option.splits)
    next
      case True
      then obtain i m v n where p: "peek_varint pay = Some (i, m)" "peek_varint (drop m pay) = Some (v, n)" by blast
      let ?rest = "drop n (drop m pay)"
      note unf = parse_settings_loop.simps[of st seen pay] read_pairs.simps[of pay]
      show ?thesis
      proof (cases "i \<in> set RESERVED_HTTP2_SETTINGS \<or> i \<in> set seen")
        case True
        with ne p show ?thesis by (auto simp: unf Let_def settings_allowed_Cons)
      next
        case ok: False
        show ?thesis
        proof (cases "i = SETTING_H3_DATAGRAM")
          case False
          with "1.IH"(2)[OF ne p(1) _ p(2)] ok ne p show ?thesis
            by (auto simp: unf Let_def settings_allowed_Cons)
        next
          case i: True
          have notin: "map_of ps i = None" if "settings_allowed (insert i (set seen)) ps" for ps
            using that by (auto simp: settings_allowed_def map_of_eq_None_iff)
          from "1.IH"(1)[OF ne p(1) _ p(2)] ok ne p i notin show ?thesis
            by (auto simp: unf Let_def settings_allowed_Cons boolean_def and_then_def split: if_splits)
        qed
      qed
    qed
  qed
qed

lemma parse_settings_loop_error:
  "parse_settings_loop st seen pay = Inl v \<Longrightarrow> v = settings_error \<or> v = truncated_settings"
proof (induction st seen pay rule: parse_settings_loop.induct)
  case (1 st seen pay)
  then show ?case
    by (subst (asm) (3) parse_settings_loop.simps)
      (auto simp: Let_def boolean_def split: if_splits option.splits)
qed

lemma read_pairs_enc:
  "i \<le> VARINT_MAX \<Longrightarrow> v \<le> VARINT_MAX \<Longrightarrow>
   read_pairs (enc_varint i @ enc_varint v @ rest) = map_option (\<lambda>ps. (i, v) # ps) (read_pairs rest)"
  using length_enc_varint[of i]
  by (subst read_pairs.simps) (auto simp: peek_enc_varint varint_len_def split: if_splits)

lemma put_settings_enc:
  "list_all (\<lambda>(i, v). i \<le> VARINT_MAX \<and> v \<le> VARINT_MAX) ps \<Longrightarrow>
   put_settings out ps = Some (out @ concat (map (\<lambda>(i, v). enc_varint i @ enc_varint v) ps))"
  by (induction ps arbitrary: out) (auto simp: put_varint_enc)

lemma read_put_settings:
  "list_all (\<lambda>(i, v). i \<le> VARINT_MAX \<and> v \<le> VARINT_MAX) ps \<Longrightarrow>
   read_pairs (concat (map (\<lambda>(i, v). enc_varint i @ enc_varint v) ps)) = Some ps"
  by (induction ps) (auto simp: read_pairs_enc)

lemmas setting_ids = SETTING_QPACK_MAX_TABLE_CAPACITY_def SETTING_MAX_FIELD_SECTION_SIZE_def
  SETTING_QPACK_BLOCKED_STREAMS_def SETTING_ENABLE_CONNECT_PROTOCOL_def SETTING_H3_DATAGRAM_def GREASE_def
  MAX_FIELD_SECTION_SIZE_def

section \<open>One call of the decoder\<close>

text \<open>What a request stream may be buffering: only a field section.\<close>

definition request_inv :: "frame_decoder \<Rightarrow> bool" where
  "request_inv d \<longleftrightarrow> stream d = Request \<and> (\<forall>k n. state d = Buffering k n \<longrightarrow> k = KHeaders)"

lemma begin_Request:
  "begin_frame Request k l = Inr (Buffering bk n) \<Longrightarrow> bk = KHeaders"
  by (auto simp: begin_frame_def misplaced_def from_type_def split: if_splits)

definition allowed_on_request :: "item \<Rightarrow> bool" where
  "allowed_on_request x = (case x of IFrame (FHeaders _) \<Rightarrow> True | IFrame _ \<Rightarrow> False | _ \<Rightarrow> True)"

lemma next_item_request_body:
  assumes "request_inv d" "state d \<noteq> Header"
  shows "request_inv (fst (fst (next_item (d, h)))) \<and>
     (case snd (next_item (d, h)) of Inr (Some x) \<Rightarrow> allowed_on_request x | _ \<Rightarrow> True)"
proof (cases "state d")
  case (Buffering k n)
  with assms have "k = KHeaders" by (simp add: request_inv_def)
  with Buffering assms show ?thesis
    by (auto simp: next_item.simps[of d h] Let_def release_def request_inv_def allowed_on_request_def)
qed (use assms in \<open>auto simp: next_item.simps[of d h] Let_def take_from_def count_skip_def request_inv_def
      allowed_on_request_def\<close>)

lemma next_item_request:
  assumes "request_inv d"
  shows "request_inv (fst (fst (next_item (d, h)))) \<and>
     (case snd (next_item (d, h)) of Inr (Some x) \<Rightarrow> allowed_on_request x | _ \<Rightarrow> True)"
proof (cases "state d = Header")
  case True
  then show ?thesis
  proof (cases rule: next_item_header_cases[where h = h])
    case (buffer k l rest bk n h1)
    moreover have "bk = KHeaders" using buffer(1) assms begin_Request by (simp add: request_inv_def)
    ultimately show ?thesis
      using next_item_request_body[of "d\<lparr>header := [], chunk := rest, charged := n, state := Buffering bk n\<rparr>" h1] assms
      by (simp add: request_inv_def)
  next
    case (other k l rest st)
    then show ?thesis
      using next_item_request_body[of "d\<lparr>header := [], chunk := rest, state := st\<rparr>" h] assms
      by (auto simp: request_inv_def)
  qed (use assms in \<open>simp_all add: request_inv_def\<close>)
qed (simp add: next_item_request_body assms)

text \<open>The codes a violation of the frame rules can carry, and which of them cost the connection.\<close>

definition frame_layer_error :: "frame_error \<Rightarrow> bool" where
  "frame_layer_error e \<longleftrightarrow> (\<exists>v. e = Protocol v \<and>
     (if fatal v then code v \<in> {H3_FRAME_UNEXPECTED, H3_FRAME_ERROR, H3_SETTINGS_ERROR} else code v = H3_EXCESSIVE_LOAD))"

lemma parse_error: "parse k p = Inl v \<Longrightarrow> frame_layer_error (Protocol v)"
proof (cases k)
  case KSettings
  assume "parse k p = Inl v"
  with KSettings have "parse_settings p = Inl v" by (auto simp: map_ok_def and_then_Inl_iff)
  then show ?thesis
    using parse_settings_loop_error[of "\<lparr>datagrams = False\<rparr>" "[]" p v]
    by (auto simp: parse_settings_def frame_layer_error_def settings_error_def truncated_settings_def)
qed (auto simp: map_ok_def and_then_Inl_iff single_varint_def frame_layer_error_def split: option.splits if_splits)

lemma next_item_error_body:
  "state d \<noteq> Header \<Longrightarrow> snd (next_item (d, h)) = Inl e \<Longrightarrow> frame_layer_error e"
  by (cases "state d")
    (auto simp: next_item.simps[of d h] Let_def take_from_def count_skip_def dest: parse_error
       split: if_splits sum.splits, auto simp: frame_layer_error_def)

lemma next_item_error:
  assumes "snd (next_item (d, h)) = Inl e"
  shows "frame_layer_error e"
proof (cases "state d = Header")
  case True
  then show ?thesis
  proof (cases rule: next_item_header_cases[where h = h])
    case (refused k l rest v)
    with assms show ?thesis
      by (auto simp: begin_frame_def frame_layer_error_def split: if_splits option.splits)
  next
    case (over_budget k l rest bk n v)
    with assms show ?thesis
      by (auto simp: charge_def Let_def frame_layer_error_def split: if_splits)
  next
    case (buffer k l rest bk n h1)
    with assms show ?thesis
      using next_item_error_body[of "d\<lparr>header := [], chunk := rest, charged := n, state := Buffering bk n\<rparr>" h1] by simp
  next
    case (other k l rest st)
    with assms show ?thesis
      using next_item_error_body[of "d\<lparr>header := [], chunk := rest, state := st\<rparr>" h] by simp
  qed (use assms in simp_all)
qed (use next_item_error_body assms in blast)

text \<open>Every skip an item reports on a request stream is counted, and the count stays within the limit.\<close>

fun is_skip :: "event \<Rightarrow> bool" where
  "is_skip (EvSkipped _) = True"
| "is_skip _ = False"

definition counts_skips :: "u32 \<Rightarrow> (frame_decoder \<times> budget) \<times> (frame_error + item option) \<Rightarrow> bool" where
  "counts_skips n t \<longleftrightarrow>
     (case t of
        (s', Inr None) \<Rightarrow> stream (fst s') = Request \<and> skipped (fst s') = n
      | (s', Inr (Some x)) \<Rightarrow> stream (fst s') = Request \<and>
          unat (skipped (fst s')) = unat n + length (filter is_skip (events_of x)) \<and>
          unat (skipped (fst s')) \<le> max (unat MAX_SKIPPED_FRAMES) (unat n)
      | (s', Inl e) \<Rightarrow> True)"

lemma no_skip_in_data [simp]: "filter is_skip (events_of (IData bs)) = []"
  by (cases bs) auto

lemma next_item_skips_body:
  assumes "stream d = Request" "state d \<noteq> Header"
  shows "counts_skips (skipped d) (next_item (d, h))"
proof (cases "state d")
  case (Skipping k r)
  have "unat (saturating_add (skipped d) 1) = unat (skipped d) + 1 \<and> unat (skipped d) + 1 \<le> unat MAX_SKIPPED_FRAMES"
    if "\<not> MAX_SKIPPED_FRAMES < saturating_add (skipped d) 1"
    using that by (auto simp: not_less word_le_nat_alt unat_saturating_add MAX_SKIPPED_FRAMES_def)
  with Skipping assms show ?thesis
    by (auto simp: next_item.simps[of d h] Let_def take_from_def count_skip_def counts_skips_def split: if_splits)
next
  case (Buffering k n)
  with assms show ?thesis
    by (cases "parse k (payload_buf d @ take (min n (length (chunk d))) (chunk d))")
      (auto simp: next_item.simps[of d h] Let_def release_def counts_skips_def)
qed (use assms in \<open>auto simp: next_item.simps[of d h] Let_def take_from_def counts_skips_def\<close>)

lemma next_item_skips:
  assumes "stream d = Request"
  shows "counts_skips (skipped d) (next_item (d, h))"
proof (cases "state d = Header")
  case True
  then show ?thesis
  proof (cases rule: next_item_header_cases[where h = h])
    case (buffer k l rest bk n h1)
    with assms next_item_skips_body[of "d\<lparr>header := [], chunk := rest, charged := n, state := Buffering bk n\<rparr>" h1]
    show ?thesis by simp
  next
    case (other k l rest st)
    with assms next_item_skips_body[of "d\<lparr>header := [], chunk := rest, state := st\<rparr>" h]
    show ?thesis by simp
  qed (use assms in \<open>simp_all add: counts_skips_def\<close>)
qed (simp add: next_item_skips_body assms)

section \<open>Properties\<close>

text \<open>
  SETTINGS are accepted exactly when they are well formed: the payload is a sequence of
  identifier-value pairs with nothing left over, no identifier is reserved for HTTP/2 or occurs
  twice, and SETTINGS\_H3\_DATAGRAM is 0 or 1; the result records whether it was 1. Every rejection
  is a connection error, of type H3\_FRAME\_ERROR or H3\_SETTINGS\_ERROR.
\<close>

theorem settings_accepted_iff:
  "case parse_settings pay of
     Inr st \<Rightarrow> \<exists>ps. read_pairs pay = Some ps \<and> settings_allowed {} ps \<and>
       (datagrams st \<longleftrightarrow> map_of ps SETTING_H3_DATAGRAM = Some 1)
   | Inl v \<Rightarrow> fatal v \<and> code v \<in> {H3_FRAME_ERROR, H3_SETTINGS_ERROR} \<and>
       (\<nexists>ps. read_pairs pay = Some ps \<and> settings_allowed {} ps)"
proof (cases "parse_settings pay")
  case (Inr st)
  with parse_settings_loop_ok[of "\<lparr>datagrams = False\<rparr>" "[]" pay st] show ?thesis
    by (auto simp: parse_settings_def split: option.splits)
next
  case (Inl v)
  then have "\<nexists>ps. read_pairs pay = Some ps \<and> settings_allowed {} ps"
    using parse_settings_loop_ok[of "\<lparr>datagrams = False\<rparr>" "[]" pay] by (auto simp: parse_settings_def)
  with Inl parse_settings_loop_error[of "\<lparr>datagrams = False\<rparr>" "[]" pay v] show ?thesis
    by (auto simp: parse_settings_def settings_error_def truncated_settings_def)
qed

text \<open>
  The SETTINGS this server sends are settings it would accept itself, and announce what a
  MASQUE client looks for: extended CONNECT and HTTP Datagrams enabled, no QPACK dynamic table, and
  the field section limit the frame layer enforces.
\<close>

theorem own_settings_wellformed:
  "\<exists>p ps. settings_payload = Some p \<and> parse_settings p = Inr \<lparr>datagrams = True\<rparr> \<and> read_pairs p = Some ps \<and>
     map_of ps SETTING_ENABLE_CONNECT_PROTOCOL = Some 1 \<and> map_of ps SETTING_H3_DATAGRAM = Some 1 \<and>
     map_of ps SETTING_QPACK_MAX_TABLE_CAPACITY = Some 0 \<and> map_of ps SETTING_QPACK_BLOCKED_STREAMS = Some 0 \<and>
     map_of ps SETTING_MAX_FIELD_SECTION_SIZE = Some MAX_BUFFERED_FRAME"
proof -
  let ?ps = "[(SETTING_QPACK_MAX_TABLE_CAPACITY, 0), (SETTING_QPACK_BLOCKED_STREAMS, 0),
    (SETTING_MAX_FIELD_SECTION_SIZE, MAX_FIELD_SECTION_SIZE), (SETTING_ENABLE_CONNECT_PROTOCOL, 1),
    (SETTING_H3_DATAGRAM, 1), (GREASE, 0)]"
  let ?p = "concat (map (\<lambda>(i, v). enc_varint i @ enc_varint v) ?ps)"
  have le: "list_all (\<lambda>(i, v). i \<le> VARINT_MAX \<and> v \<le> VARINT_MAX) ?ps"
    by (simp add: setting_ids VARINT_MAX_eq)
  have "settings_allowed {} ?ps"
    by (simp add: settings_allowed_def setting_ids RESERVED_HTTP2_SETTINGS_def)
  then have "parse_settings ?p = Inr \<lparr>datagrams = True\<rparr>"
    using parse_settings_loop_ok[of "\<lparr>datagrams = False\<rparr>" "[]" ?p "\<lparr>datagrams = True\<rparr>"] read_put_settings[OF le]
    by (simp add: parse_settings_def setting_ids)
  moreover have "settings_payload = Some ?p"
    using put_settings_enc[OF le, of "[]"] unfolding settings_payload_def by simp
  ultimately show ?thesis
    using read_put_settings[OF le]
    by (intro exI[of _ ?p] exI[of _ ?ps]) (simp add: setting_ids MAX_BUFFERED_FRAME_def)
qed

text \<open>
  A request stream never yields a frame that belongs on the control stream: starting from a
  new decoder's state, every item is DATA, a field section, or a skipped unknown frame, and the
  invariant that makes it so is kept by every call.
\<close>

theorem request_stream_items:
  assumes "request_inv d" "next_item (d, h) = ((d', h'), Inr (Some x))"
  shows "request_inv d' \<and> (\<exists>bs k. x = IData bs \<or> x = IFrame (FHeaders bs) \<or> x = ISkipped k)"
  using next_item_request[OF assms(1), of h] assms(2)
  by (cases x) (auto simp: allowed_on_request_def split: frame.splits)

theorem request_stream_items_witness:
  "request_inv (frame_new Request) \<and> (\<exists>bs k. IData [] = IData bs \<or> IData [] = IFrame (FHeaders bs) \<or> IData [] = ISkipped k)"
  by (rule request_stream_items[of "(frame_new Request)\<lparr>state := Data 0\<rparr>" 0 _ 0])
    (simp_all add: request_inv_def frame_new_def next_item.simps)

text \<open>
  Every error the decoder raises is classified as the frame rules demand: a connection error
  is of type H3\_FRAME\_UNEXPECTED, H3\_FRAME\_ERROR or H3\_SETTINGS\_ERROR, and the only error that
  costs a single stream is H3\_EXCESSIVE\_LOAD.
\<close>

theorem frame_error_codes:
  assumes "snd (next_item (d, h)) = Inl e"
  shows "\<exists>v. e = Protocol v \<and>
    (if fatal v then code v \<in> {H3_FRAME_UNEXPECTED, H3_FRAME_ERROR, H3_SETTINGS_ERROR} else code v = H3_EXCESSIVE_LOAD)"
  using next_item_error[OF assms] by (simp add: frame_layer_error_def)

theorem frame_error_codes_witness:
  "\<exists>v. Protocol (violation_connection H3_FRAME_UNEXPECTED) = Protocol v \<and>
    (if fatal v then code v \<in> {H3_FRAME_UNEXPECTED, H3_FRAME_ERROR, H3_SETTINGS_ERROR} else code v = H3_EXCESSIVE_LOAD)"
  by (rule frame_error_codes[of "frame_push (frame_new Request) [2, 0]" 0])
    (simp add: next_item.simps frame_push_def frame_new_def peek_varint_def MAX_FRAME_HEADER_def VARINT_MAX_LEN_def
      begin_frame_def RESERVED_HTTP2_TYPES_def)

text \<open>
  A peer cannot keep a request stream busy with unknown frames: however the stream is cut, at
  most \<^verbatim>\<open>MAX_SKIPPED_FRAMES\<close> skips are ever reported on it.
\<close>

theorem skip_limit:
  assumes "feed_chunks next_item events_of frame_push_s (frame_new Request, h) cs = Some (vs, s', e)"
  shows "length (filter is_skip vs) \<le> unat MAX_SKIPPED_FRAMES"
proof -
  let ?I = "\<lambda>s :: frame_decoder \<times> budget. stream (fst s) = Request"
  let ?m = "\<lambda>s :: frame_decoder \<times> budget. unat (skipped (fst s))"
  have counts: "counts_skips (skipped (fst s)) (next_item s)" if "?I s" for s
    using next_item_skips[of "fst s" "snd s"] that by simp
  have "length (filter is_skip vs) + ?m (frame_new Request, h) \<le> max (unat MAX_SKIPPED_FRAMES) (?m (frame_new Request, h))"
    by (rule fd.feed_chunks_limit[where I = ?I and m = ?m, OF _ _ _ _ assms])
      (use counts in \<open>force simp: counts_skips_def frame_push_s_def frame_push_def frame_new_def split: prod.splits\<close>)+
  then show ?thesis by (simp add: frame_new_def)
qed

theorem skip_limit_witness:
  "\<exists>vs s' e. feed_chunks next_item events_of frame_push_s (frame_new Request, 0) [[0x21], [0]] = Some (vs, s', e) \<and>
     length (filter is_skip vs) \<le> unat MAX_SKIPPED_FRAMES"
proof -
  obtain vs s' e where r: "feed_chunks next_item events_of frame_push_s (frame_new Request, 0) [[0x21], [0]] = Some (vs, s', e)"
    using fd.feed_chunks_returns[of frame_push_s "(frame_new Request, 0)" "[[0x21], [0]]"] by auto
  with skip_limit[OF r] show ?thesis by blast
qed

end
