(* ===== verification/Policy.thy ===== *)
theory Policy
  imports Prelude "HOL-Library.Sublist"
begin

text \<open>
  \<^verbatim>\<open>src/src/policy.rs\<close>: which destinations the proxy is willing to reach. An IPv4 address is a
  \<^typ>\<open>32 word\<close>, an IPv6 address a \<^typ>\<open>128 word\<close>, in network order; the classification methods of
  \<^verbatim>\<open>std::net\<close> the source calls are defined from their documentation. The rules are then compared
  with the registry of prefixes they stand for.
\<close>

section \<open>Addresses\<close>

type_synonym ipv4 = "32 word"
type_synonym ipv6 = "128 word"

datatype ip_addr = V4 ipv4 | V6 ipv6

record socket_addr =
  ip :: ip_addr
  port :: u16

definition octet4 :: "nat \<Rightarrow> ipv4 \<Rightarrow> byte" where
  "octet4 i a = ucast (drop_bit (8 * (3 - i)) a)"

definition octet6 :: "nat \<Rightarrow> ipv6 \<Rightarrow> byte" where
  "octet6 i a = ucast (drop_bit (8 * (15 - i)) a)"

definition segment :: "nat \<Rightarrow> ipv6 \<Rightarrow> u16" where
  "segment i a = ucast (drop_bit (16 * (7 - i)) a)"

definition ipv4_new :: "byte \<Rightarrow> byte \<Rightarrow> byte \<Rightarrow> byte \<Rightarrow> ipv4" where
  "ipv4_new a b c d = push_bit 24 (ucast a) OR push_bit 16 (ucast b) OR push_bit 8 (ucast c) OR ucast d"

text \<open>The methods of \<^verbatim>\<open>Ipv4Addr\<close> and \<^verbatim>\<open>Ipv6Addr\<close>.\<close>

definition v4_is_unspecified :: "ipv4 \<Rightarrow> bool" where
  "v4_is_unspecified a \<longleftrightarrow> a = 0"

definition v4_is_broadcast :: "ipv4 \<Rightarrow> bool" where
  "v4_is_broadcast a \<longleftrightarrow> a = 0xffffffff"

definition v4_is_multicast :: "ipv4 \<Rightarrow> bool" where
  "v4_is_multicast a \<longleftrightarrow> 224 \<le> octet4 0 a \<and> octet4 0 a \<le> 239"

definition v4_is_loopback :: "ipv4 \<Rightarrow> bool" where
  "v4_is_loopback a \<longleftrightarrow> octet4 0 a = 127"

definition v4_is_private :: "ipv4 \<Rightarrow> bool" where
  "v4_is_private a \<longleftrightarrow> octet4 0 a = 10
     \<or> octet4 0 a = 172 \<and> 16 \<le> octet4 1 a \<and> octet4 1 a \<le> 31
     \<or> octet4 0 a = 192 \<and> octet4 1 a = 168"

definition v4_is_link_local :: "ipv4 \<Rightarrow> bool" where
  "v4_is_link_local a \<longleftrightarrow> octet4 0 a = 169 \<and> octet4 1 a = 254"

definition v6_is_unspecified :: "ipv6 \<Rightarrow> bool" where
  "v6_is_unspecified a \<longleftrightarrow> a = 0"

definition v6_is_loopback :: "ipv6 \<Rightarrow> bool" where
  "v6_is_loopback a \<longleftrightarrow> a = 1"

definition v6_is_multicast :: "ipv6 \<Rightarrow> bool" where
  "v6_is_multicast a \<longleftrightarrow> segment 0 a AND 0xff00 = 0xff00"

definition to_canonical :: "ipv6 \<Rightarrow> ip_addr" where
  "to_canonical a =
     (if segment 0 a = 0 \<and> segment 1 a = 0 \<and> segment 2 a = 0 \<and> segment 3 a = 0 \<and> segment 4 a = 0
         \<and> segment 5 a = 0xffff
      then V4 (ucast a) else V6 a)"

section \<open>The rules\<close>

record policy =
  allow_private_networks :: bool
  denied_ports :: "u16 list"

definition allows_port :: "policy \<Rightarrow> u16 \<Rightarrow> bool" where
  "allows_port p prt \<longleftrightarrow> prt \<notin> set (denied_ports p)"

fun canonical :: "ip_addr \<Rightarrow> ip_addr" where
  "canonical (V6 a) = to_canonical a"
| "canonical (V4 a) = V4 a"

fun is_never_allowed :: "ip_addr \<Rightarrow> bool" where
  "is_never_allowed (V4 a) \<longleftrightarrow> v4_is_unspecified a \<or> v4_is_broadcast a \<or> v4_is_multicast a"
| "is_never_allowed (V6 a) \<longleftrightarrow> v6_is_unspecified a \<or> v6_is_multicast a"

definition is_ipv4_documentation :: "ipv4 \<Rightarrow> bool" where
  "is_ipv4_documentation a \<longleftrightarrow>
     (octet4 0 a = 192 \<and> octet4 1 a = 0 \<and> octet4 2 a = 2)
     \<or> (octet4 0 a = 198 \<and> octet4 1 a = 51 \<and> octet4 2 a = 100)
     \<or> (octet4 0 a = 203 \<and> octet4 1 a = 0 \<and> octet4 2 a = 113)"

definition is_ipv6_documentation :: "ipv6 \<Rightarrow> bool" where
  "is_ipv6_documentation a \<longleftrightarrow> segment 0 a = 0x2001 \<and> segment 1 a = 0x0db8"

definition is_ipv6_benchmarking :: "ipv6 \<Rightarrow> bool" where
  "is_ipv6_benchmarking a \<longleftrightarrow> segment 0 a = 0x2001 \<and> segment 1 a = 0x0002 \<and> segment 2 a = 0x0000"

definition is_orchid :: "ipv6 \<Rightarrow> bool" where
  "is_orchid a \<longleftrightarrow> segment 0 a = 0x2001 \<and> segment 1 a AND 0xfff0 = 0x0010"

definition is_discard_only :: "ipv6 \<Rightarrow> bool" where
  "is_discard_only a \<longleftrightarrow> segment 0 a = 0x0100 \<and> (\<forall>i\<in>{1, 2, 3}. segment i a = 0)"

definition is_local_use_nat64 :: "ipv6 \<Rightarrow> bool" where
  "is_local_use_nat64 a \<longleftrightarrow> map (\<lambda>i. octet6 i a) [0..<6] = [0x00, 0x64, 0xff, 0x9b, 0x00, 0x01]"

definition is_unique_local :: "ipv6 \<Rightarrow> bool" where
  "is_unique_local a \<longleftrightarrow> segment 0 a AND 0xfe00 = 0xfc00"

definition is_unicast_link_local :: "ipv6 \<Rightarrow> bool" where
  "is_unicast_link_local a \<longleftrightarrow> segment 0 a AND 0xffc0 = 0xfe80"

definition is_site_local :: "ipv6 \<Rightarrow> bool" where
  "is_site_local a \<longleftrightarrow> segment 0 a AND 0xffc0 = 0xfec0"

definition is_ipv4_compatible :: "ipv6 \<Rightarrow> bool" where
  "is_ipv4_compatible a \<longleftrightarrow> (\<forall>i\<in>set [0..<12]. octet6 i a = 0)"

fun is_private :: "ip_addr \<Rightarrow> bool" where
  "is_private (V4 a) \<longleftrightarrow>
     octet4 0 a = 0
     \<or> v4_is_loopback a
     \<or> v4_is_private a
     \<or> v4_is_link_local a
     \<or> (octet4 0 a = 100 \<and> octet4 1 a AND 0xc0 = 64)
     \<or> (octet4 0 a = 192 \<and> octet4 1 a = 0 \<and> octet4 2 a = 0)
     \<or> (octet4 0 a = 198 \<and> octet4 1 a AND 0xfe = 18)
     \<or> (octet4 0 a = 192 \<and> octet4 1 a = 88 \<and> octet4 2 a = 99)
     \<or> octet4 0 a AND 0xf0 = 240
     \<or> is_ipv4_documentation a"
| "is_private (V6 a) \<longleftrightarrow>
     v6_is_loopback a
     \<or> is_unique_local a
     \<or> is_unicast_link_local a
     \<or> is_site_local a
     \<or> is_ipv4_compatible a
     \<or> is_ipv6_documentation a
     \<or> is_ipv6_benchmarking a
     \<or> is_orchid a
     \<or> is_discard_only a
     \<or> is_local_use_nat64 a"

fun embedded_ipv4 :: "ip_addr \<Rightarrow> ipv4 option" where
  "embedded_ipv4 (V4 _) = None"
| "embedded_ipv4 (V6 a) =
     (if map (\<lambda>i. octet6 i a) [0..<4] = [0x00, 0x64, 0xff, 0x9b] \<and> (\<forall>i\<in>set [4..<12]. octet6 i a = 0)
      then Some (ipv4_new (octet6 12 a) (octet6 13 a) (octet6 14 a) (octet6 15 a))
      else if map (\<lambda>i. octet6 i a) [0..<2] = [0x20, 0x02]
      then Some (ipv4_new (octet6 2 a) (octet6 3 a) (octet6 4 a) (octet6 5 a))
      else if map (\<lambda>i. octet6 i a) [0..<4] = [0x20, 0x01, 0x00, 0x00]
      then Some (ipv4_new (octet6 12 a XOR 0xff) (octet6 13 a XOR 0xff) (octet6 14 a XOR 0xff) (octet6 15 a XOR 0xff))
      else None)"

definition allows_address :: "policy \<Rightarrow> ip_addr \<Rightarrow> bool" where
  "allows_address p addr =
     (let addr = canonical addr;
          addr = (case embedded_ipv4 addr of None \<Rightarrow> addr | Some v4 \<Rightarrow> V4 v4)
      in if is_never_allowed addr then False
         else if is_private addr then allow_private_networks p
         else True)"

definition allowed_addresses :: "policy \<Rightarrow> socket_addr list \<Rightarrow> socket_addr list" where
  "allowed_addresses p addresses = filter (\<lambda>a. allows_address p (ip a)) addresses"

fun is_unspecified :: "ip_addr \<Rightarrow> bool" where
  "is_unspecified (V4 a) = v4_is_unspecified a"
| "is_unspecified (V6 a) = v6_is_unspecified a"

definition is_dns_blackhole :: "socket_addr list \<Rightarrow> bool" where
  "is_dns_blackhole addresses \<longleftrightarrow> addresses \<noteq> [] \<and> (\<forall>a\<in>set addresses. is_unspecified (canonical (ip a)))"

section \<open>The rules as prefixes\<close>

text \<open>A prefix as its first address and length, and membership in it.\<close>

definition in4 :: "ipv4 \<Rightarrow> ipv4 \<times> nat \<Rightarrow> bool" where
  "in4 a c \<longleftrightarrow> unat a div 2 ^ (32 - snd c) = unat (fst c) div 2 ^ (32 - snd c)"

definition in6 :: "ipv6 \<Rightarrow> ipv6 \<times> nat \<Rightarrow> bool" where
  "in6 a c \<longleftrightarrow> unat a div 2 ^ (128 - snd c) = unat (fst c) div 2 ^ (128 - snd c)"

text \<open>0/8, 127/8, 10/8, 172.16/12, 192.168/16, 169.254/16, 100.64/10, 192.0.0/24, 198.18/15,
  192.88.99/24, 240/4, 192.0.2/24, 198.51.100/24, 203.0.113/24.\<close>

definition private_prefixes4 :: "(ipv4 \<times> nat) list" where
  "private_prefixes4 =
     [(0x00000000, 8), (0x7f000000, 8), (0x0a000000, 8), (0xac100000, 12), (0xc0a80000, 16), (0xa9fe0000, 16),
      (0x64400000, 10), (0xc0000000, 24), (0xc6120000, 15), (0xc0586300, 24), (0xf0000000, 4),
      (0xc0000200, 24), (0xc6336400, 24), (0xcb007100, 24)]"

text \<open>::1/128, fc00::/7, fe80::/10, fec0::/10, ::/96, 2001:db8::/32, 2001:2::/48, 2001:10::/28,
  100::/64, 64:ff9b:1::/48.\<close>

definition private_prefixes6 :: "(ipv6 \<times> nat) list" where
  "private_prefixes6 =
     [(0x1, 128), (0xfc000000000000000000000000000000, 7), (0xfe800000000000000000000000000000, 10),
      (0xfec00000000000000000000000000000, 10), (0x0, 96), (0x20010db8000000000000000000000000, 32),
      (0x20010002000000000000000000000000, 48), (0x20010010000000000000000000000000, 28),
      (0x01000000000000000000000000000000, 64), (0x0064ff9b000100000000000000000000, 48)]"

text \<open>::ffff:0:0/96, 64:ff9b::/96, 2002::/16, 2001::/32.\<close>

abbreviation mapped6 :: "ipv6 \<times> nat" where
  "mapped6 \<equiv> (0x00000000000000000000ffff00000000, 96)"

abbreviation nat64 :: "ipv6 \<times> nat" where
  "nat64 \<equiv> (0x0064ff9b000000000000000000000000, 96)"

abbreviation sixtofour :: "ipv6 \<times> nat" where
  "sixtofour \<equiv> (0x20020000000000000000000000000000, 16)"

abbreviation teredo :: "ipv6 \<times> nat" where
  "teredo \<equiv> (0x20010000000000000000000000000000, 32)"

definition wraps :: "ipv6 \<Rightarrow> ipv4 \<Rightarrow> bool" where
  "wraps x a \<longleftrightarrow> in6 x mapped6 \<and> ucast x = a \<or> in6 x nat64 \<and> ucast x = a
     \<or> in6 x sixtofour \<and> ucast (drop_bit 80 x) = a \<or> in6 x teredo \<and> NOT (ucast x) = a"

lemma unat_ucast_drop_bit:
  "unat (ucast (drop_bit k (a :: 'a :: len word)) :: 'b :: len word) = unat a div 2 ^ k mod 2 ^ LENGTH('b)"
  by (simp only: unsigned_ucast_eq unat_drop_bit_eq drop_bit_nat_eq take_bit_nat_eq)

lemma unat_octet4: "unat (octet4 i a) = unat a div 2 ^ (8 * (3 - i)) mod 256"
  unfolding octet4_def unat_ucast_drop_bit by simp

lemma unat_octet6: "unat (octet6 i a) = unat a div 2 ^ (8 * (15 - i)) mod 256"
  unfolding octet6_def unat_ucast_drop_bit by simp

lemma unat_segment: "unat (segment i a) = unat a div 2 ^ (16 * (7 - i)) mod 65536"
  unfolding segment_def unat_ucast_drop_bit by simp

lemma ipv4_less: "unat (a :: ipv4) < 2 ^ 32"
  using unsigned_less[of a] by simp

lemma ipv6_less: "unat (a :: ipv6) < 2 ^ 128"
  using unsigned_less[of a] by simp

lemma unat_and_not_mask: "unat (w AND NOT (mask n) :: 'a :: len word) = unat w div 2 ^ n * 2 ^ n"
proof -
  have "w AND NOT (mask n) = push_bit n (drop_bit n w)"
    by (rule bit_word_eqI) (auto simp: bit_simps)
  moreover have "unat (push_bit n (drop_bit n w)) = unat w div 2 ^ n * 2 ^ n"
  proof -
    have "unat w div 2 ^ n * 2 ^ n < 2 ^ LENGTH('a)"
      using unsigned_less[of w] by (meson div_times_less_eq_dividend le_less_trans)
    then show ?thesis
      by (simp only: unsigned_push_bit_eq unat_drop_bit_eq drop_bit_nat_eq take_bit_nat_eq push_bit_nat_eq
          mod_less)
  qed
  ultimately show ?thesis by simp
qed

lemma unat_and_high: "m = NOT (mask n) \<Longrightarrow> unat (w AND m :: 'a :: len word) = unat w div 2 ^ n * 2 ^ n"
  by (simp only: unat_and_not_mask)

lemma high_masks:
  "(0xc0 :: byte) = NOT (mask 6)" "(0xfe :: byte) = NOT (mask 1)" "(0xf0 :: byte) = NOT (mask 4)"
  "(0xfe00 :: u16) = NOT (mask 9)" "(0xffc0 :: u16) = NOT (mask 6)" "(0xfff0 :: u16) = NOT (mask 4)"
  "(0xff00 :: u16) = NOT (mask 8)"
  by code_simp+

lemmas unat_masked = high_masks[THEN unat_and_high]

lemma masked_byte_iffs:
  "(b :: byte) AND 0xc0 = 64 \<longleftrightarrow> unat b div 64 = 1"
  "b AND 0xfe = 18 \<longleftrightarrow> unat b div 2 = 9"
  "b AND 0xf0 = 240 \<longleftrightarrow> unat b div 16 = 15"
  unfolding word_unat_eq_iff unat_masked by auto

lemma masked_u16_iffs:
  "(s :: u16) AND 0xfe00 = 0xfc00 \<longleftrightarrow> unat s div 512 = 0x7e"
  "s AND 0xffc0 = 0xfe80 \<longleftrightarrow> unat s div 64 = 0x3fa"
  "s AND 0xffc0 = 0xfec0 \<longleftrightarrow> unat s div 64 = 0x3fb"
  "s AND 0xfff0 = 0x0010 \<longleftrightarrow> unat s div 16 = 1"
  "s AND 0xff00 = 0xff00 \<longleftrightarrow> unat s div 256 = 0xff"
  unfolding word_unat_eq_iff unat_masked by auto

text \<open>Two neighbouring digits of a number read as one.\<close>

lemma div_join:
  fixes x :: nat
  assumes "r < m"
  shows "x div b = q * m + r \<longleftrightarrow> x div (b * m) = q \<and> x div b mod m = r"
proof
  assume h: "x div b = q * m + r"
  have "x div (b * m) = x div b div m" by (simp add: div_mult2_eq)
  with h assms show "x div (b * m) = q \<and> x div b mod m = r" by simp
next
  assume h: "x div (b * m) = q \<and> x div b mod m = r"
  have "x div b = x div b div m * m + x div b mod m" by simp
  with h show "x div b = q * m + r" by (simp add: div_mult2_eq)
qed

lemma octet4_iffs:
  "octet4 0 a = b \<longleftrightarrow> unat a div 2 ^ 24 = unat b"
  "unat (octet4 0 a) = unat a div 2 ^ 24"
  "unat (octet4 1 a) = unat a div 2 ^ 16 mod 256"
  "unat (octet4 2 a) = unat a div 2 ^ 8 mod 256"
  using ipv4_less[of a] by (simp_all add: word_unat_eq_iff unat_octet4)

lemma two_octets4:
  "octet4 0 a = b \<and> octet4 1 a = c \<longleftrightarrow> unat a div 2 ^ 16 = unat b * 256 + unat c"
  using div_join[of "unat c" 256 "unat a" "2 ^ 16" "unat b"] byte_less[of c]
  by (simp add: word_unat_eq_iff[of _ c] octet4_iffs del: One_nat_def)

lemma three_octets4:
  "octet4 0 a = b \<and> octet4 1 a = c \<and> octet4 2 a = d
     \<longleftrightarrow> unat a div 2 ^ 8 = (unat b * 256 + unat c) * 256 + unat d"
  using div_join[of "unat d" 256 "unat a" "2 ^ 8" "unat b * 256 + unat c"] byte_less[of d]
    two_octets4[of a b c]
  by (simp add: word_unat_eq_iff[of _ d] octet4_iffs(4) del: One_nat_def flip: conj_assoc)

text \<open>The high bits of a digit, below a whole digit.\<close>

lemma div_mod_div: "(x :: nat) div b mod (j * l) div j = x div (b * j) mod l" if "0 < j"
  using that by (simp add: div_mult2_eq mod_mult2_eq)

lemma octet4_and_high:
  assumes "q < l" "j * l = 256"
  shows "octet4 0 a = b \<and> unat (octet4 1 a) div j = q \<longleftrightarrow> unat a div (2 ^ 16 * j) = unat b * l + q"
proof -
  have j: "0 < j" using assms(2) by (cases j) auto
  have "unat a div (2 ^ 16 * j * l) = unat a div 2 ^ 24" using assms(2) by (simp add: mult.assoc)
  then show ?thesis
    using div_join[OF assms(1), of "unat a" "2 ^ 16 * j" "unat b"] div_mod_div[OF j, of "unat a" "2 ^ 16" l]
    by (simp add: octet4_iffs assms(2) del: One_nat_def)
qed

lemma low_half: "16 \<le> (b :: byte) \<and> b \<le> 31 \<longleftrightarrow> unat b div 16 = 1"
  by (simp add: word_le_nat_alt) arith

lemma octet4_high:
  "octet4 0 a = b \<and> unat (octet4 1 a) div 64 = 1 \<longleftrightarrow> unat a div 2 ^ 22 = unat b * 4 + 1"
  "octet4 0 a = b \<and> unat (octet4 1 a) div 2 = 9 \<longleftrightarrow> unat a div 2 ^ 17 = unat b * 128 + 9"
  "octet4 0 a = b \<and> unat (octet4 1 a) div 16 = 1 \<longleftrightarrow> unat a div 2 ^ 20 = unat b * 16 + 1"
  using octet4_and_high[of 1 4 64 a b] octet4_and_high[of 9 128 2 a b] octet4_and_high[of 1 16 16 a b]
  by simp_all

lemma private4_parts:
  "octet4 0 a = 0 \<longleftrightarrow> in4 a (0x00000000, 8)"
  "v4_is_loopback a \<longleftrightarrow> in4 a (0x7f000000, 8)"
  "octet4 0 a AND 0xf0 = 240 \<longleftrightarrow> in4 a (0xf0000000, 4)"
  "octet4 0 a = 10 \<longleftrightarrow> in4 a (0x0a000000, 8)"
  by (simp_all add: v4_is_loopback_def octet4_iffs(1,2) masked_byte_iffs in4_def div_mult2_eq[symmetric])

lemma private4_pairs:
  "octet4 0 a = 172 \<and> 16 \<le> octet4 1 a \<and> octet4 1 a \<le> 31 \<longleftrightarrow> in4 a (0xac100000, 12)"
  "octet4 0 a = 192 \<and> octet4 1 a = 168 \<longleftrightarrow> in4 a (0xc0a80000, 16)"
  "octet4 0 a = 169 \<and> octet4 1 a = 254 \<longleftrightarrow> in4 a (0xa9fe0000, 16)"
  "octet4 0 a = 100 \<and> octet4 1 a AND 0xc0 = 64 \<longleftrightarrow> in4 a (0x64400000, 10)"
  "octet4 0 a = 198 \<and> octet4 1 a AND 0xfe = 18 \<longleftrightarrow> in4 a (0xc6120000, 15)"
  unfolding low_half masked_byte_iffs octet4_high two_octets4 in4_def by simp_all

lemma private4_triples:
  "octet4 0 a = 192 \<and> octet4 1 a = 0 \<and> octet4 2 a = 0 \<longleftrightarrow> in4 a (0xc0000000, 24)"
  "octet4 0 a = 192 \<and> octet4 1 a = 88 \<and> octet4 2 a = 99 \<longleftrightarrow> in4 a (0xc0586300, 24)"
  "octet4 0 a = 192 \<and> octet4 1 a = 0 \<and> octet4 2 a = 2 \<longleftrightarrow> in4 a (0xc0000200, 24)"
  "octet4 0 a = 198 \<and> octet4 1 a = 51 \<and> octet4 2 a = 100 \<longleftrightarrow> in4 a (0xc6336400, 24)"
  "octet4 0 a = 203 \<and> octet4 1 a = 0 \<and> octet4 2 a = 113 \<longleftrightarrow> in4 a (0xcb007100, 24)"
  unfolding three_octets4 in4_def by simp_all

lemma is_private_v4: "is_private (V4 a) \<longleftrightarrow> list_ex (in4 a) private_prefixes4"
  unfolding is_private.simps v4_is_private_def v4_is_link_local_def is_ipv4_documentation_def private4_parts
    private4_pairs private4_triples private_prefixes4_def
  by (simp only: list_ex_Cons_iff list_ex_Nil_iff simp_thms disj_ac)

text \<open>The leading digits of a number, in any base \<open>2 ^ w\<close>.\<close>

lemma digits_prefix:
  fixes x w N :: nat
  assumes "x < 2 ^ (w * N)" "length ds \<le> N" "\<And>d. d \<in> set ds \<Longrightarrow> d < 2 ^ w"
  shows "(\<forall>i<length ds. x div 2 ^ (w * (N - 1 - i)) mod 2 ^ w = ds ! i)
    \<longleftrightarrow> x div 2 ^ (w * (N - length ds)) = foldl (\<lambda>v d. v * 2 ^ w + d) 0 ds"
  using assms(2,3)
proof (induction ds rule: rev_induct)
  case Nil
  then show ?case using assms(1) by simp
next
  case (snoc d ds)
  let ?n = "length ds"
  have e: "w * (N - ?n) = w * (N - Suc ?n) + w"
  proof -
    have "N - ?n = Suc (N - Suc ?n)" using snoc.prems(1) by simp
    then show ?thesis by simp
  qed
  have "(\<forall>i<length (ds @ [d]). x div 2 ^ (w * (N - 1 - i)) mod 2 ^ w = (ds @ [d]) ! i)
    \<longleftrightarrow> x div 2 ^ (w * (N - ?n)) = foldl (\<lambda>v d. v * 2 ^ w + d) 0 ds
      \<and> x div 2 ^ (w * (N - Suc ?n)) mod 2 ^ w = d"
    using snoc.IH snoc.prems by (auto simp: less_Suc_eq nth_append)
  also have "\<dots> \<longleftrightarrow> x div 2 ^ (w * (N - Suc ?n)) = foldl (\<lambda>v d. v * 2 ^ w + d) 0 ds * 2 ^ w + d"
    using div_join[of d "2 ^ w" x "2 ^ (w * (N - Suc ?n))"] snoc.prems(2)[of d] e by (simp add: power_add)
  finally show ?case by simp
qed

lemma map_upt_eq_iff: "map f [0..<length bs] = bs \<longleftrightarrow> (\<forall>i<length bs. f i = bs ! i)"
  unfolding list_eq_iff_nth_eq by simp

lemma octets6_prefix:
  assumes "length bs \<le> 16"
  shows "map (\<lambda>i. octet6 i a) [0..<length bs] = bs
    \<longleftrightarrow> unat a div 2 ^ (8 * (16 - length bs)) = foldl (\<lambda>v d. v * 256 + d) 0 (map unat bs)"
proof -
  have x: "unat a < 2 ^ (8 * 16)" using ipv6_less[of a] by simp
  have l: "length (map unat bs) \<le> 16" using assms by simp
  have d: "d < 2 ^ 8" if "d \<in> set (map unat bs)" for d using that byte_less by auto
  have "map (\<lambda>i. octet6 i a) [0..<length bs] = bs
    \<longleftrightarrow> (\<forall>i<length (map unat bs). unat a div 2 ^ (8 * (16 - 1 - i)) mod 2 ^ 8 = map unat bs ! i)"
    unfolding map_upt_eq_iff by (auto simp: word_unat_eq_iff[of "octet6 _ a"] unat_octet6)
  also have "\<dots> \<longleftrightarrow> unat a div 2 ^ (8 * (16 - length bs)) = foldl (\<lambda>v d. v * 2 ^ 8 + d) 0 (map unat bs)"
    using digits_prefix[of "unat a" 8 16 "map unat bs", OF x l d] by (simp only: length_map)
  finally show ?thesis by simp
qed

lemma segments_prefix:
  assumes "length bs \<le> 8"
  shows "map (\<lambda>i. segment i a) [0..<length bs] = bs
    \<longleftrightarrow> unat a div 2 ^ (16 * (8 - length bs)) = foldl (\<lambda>v d. v * 65536 + d) 0 (map unat bs)"
proof -
  have x: "unat a < 2 ^ (16 * 8)" using ipv6_less[of a] by simp
  have l: "length (map unat bs) \<le> 8" using assms by simp
  have d: "d < 2 ^ 16" if "d \<in> set (map unat bs)" for d using that u16_less by auto
  have "map (\<lambda>i. segment i a) [0..<length bs] = bs
    \<longleftrightarrow> (\<forall>i<length (map unat bs). unat a div 2 ^ (16 * (8 - 1 - i)) mod 2 ^ 16 = map unat bs ! i)"
    unfolding map_upt_eq_iff by (auto simp: word_unat_eq_iff[of "segment _ a"] unat_segment)
  also have "\<dots> \<longleftrightarrow> unat a div 2 ^ (16 * (8 - length bs)) = foldl (\<lambda>v d. v * 2 ^ 16 + d) 0 (map unat bs)"
    using digits_prefix[of "unat a" 16 8 "map unat bs", OF x l d] by (simp only: length_map)
  finally show ?thesis by simp
qed

lemma upt_lists:
  "[0..<2] = [0, Suc 0]" "[0..<3] = [0, Suc 0, 2]" "[0..<4] = [0, Suc 0, 2, 3]"
  by code_simp+

lemma segments_prefix_n:
  "length bs = n \<Longrightarrow> n \<le> 8 \<Longrightarrow> map (\<lambda>i. segment i a) [0..<n] = bs
    \<longleftrightarrow> unat a div 2 ^ (16 * (8 - n)) = foldl (\<lambda>v d. v * 65536 + d) 0 (map unat bs)"
  using segments_prefix[of bs a] by simp

lemma octets6_prefix_n:
  "length bs = n \<Longrightarrow> n \<le> 16 \<Longrightarrow> map (\<lambda>i. octet6 i a) [0..<n] = bs
    \<longleftrightarrow> unat a div 2 ^ (8 * (16 - n)) = foldl (\<lambda>v d. v * 256 + d) 0 (map unat bs)"
  using octets6_prefix[of bs a] by simp

lemma segment0: "unat (segment 0 a) = unat a div 2 ^ 112"
  using ipv6_less[of a] by (simp add: unat_segment)

lemma segments6:
  "segment 0 a = r \<and> segment 1 a = s \<longleftrightarrow> unat a div 2 ^ 96 = unat r * 65536 + unat s"
  "segment 0 a = r \<and> segment 1 a = s \<and> segment 2 a = t
     \<longleftrightarrow> unat a div 2 ^ 80 = (unat r * 65536 + unat s) * 65536 + unat t"
  using segments_prefix_n[of "[r, s]" 2 a] segments_prefix_n[of "[r, s, t]" 3 a] by (simp_all add: upt_lists)

lemma segment_and_high:
  assumes "q < l" "j * l = 65536"
  shows "segment 0 a = s \<and> unat (segment 1 a) div j = q \<longleftrightarrow> unat a div (2 ^ 96 * j) = unat s * l + q"
proof -
  have j: "0 < j" using assms(2) by (cases j) auto
  have "unat a div (2 ^ 96 * j * l) = unat a div 2 ^ 112" using assms(2) by (simp add: mult.assoc)
  then show ?thesis
    using div_join[OF assms(1), of "unat a" "2 ^ 96 * j" "unat s"] div_mod_div[OF j, of "unat a" "2 ^ 96" l]
    by (simp add: word_unat_eq_iff segment0 unat_segment[of 1, unfolded One_nat_def] assms(2))
qed

lemma private6_parts:
  "v6_is_loopback a \<longleftrightarrow> in6 a (0x1, 128)"
  "is_unique_local a \<longleftrightarrow> in6 a (0xfc000000000000000000000000000000, 7)"
  "is_unicast_link_local a \<longleftrightarrow> in6 a (0xfe800000000000000000000000000000, 10)"
  "is_site_local a \<longleftrightarrow> in6 a (0xfec00000000000000000000000000000, 10)"
  "v6_is_multicast a \<longleftrightarrow> in6 a (0xff000000000000000000000000000000, 8)"
  unfolding v6_is_loopback_def is_unique_local_def is_unicast_link_local_def is_site_local_def v6_is_multicast_def
    masked_u16_iffs segment0 in6_def
  by (simp_all add: div_mult2_eq[symmetric] word_unat_eq_iff[of a])

lemma private6_segments:
  "is_ipv6_documentation a \<longleftrightarrow> in6 a (0x20010db8000000000000000000000000, 32)"
  "is_ipv6_benchmarking a \<longleftrightarrow> in6 a (0x20010002000000000000000000000000, 48)"
  "is_orchid a \<longleftrightarrow> in6 a (0x20010010000000000000000000000000, 28)"
  using segment_and_high[where q = 1 and l = 4096 and j = 16 and a = a and s = "0x2001"]
  unfolding is_ipv6_documentation_def is_ipv6_benchmarking_def is_orchid_def masked_u16_iffs segments6 in6_def
  by simp_all

lemma is_discard_only_prefix: "is_discard_only a \<longleftrightarrow> in6 a (0x01000000000000000000000000000000, 64)"
  using segments_prefix_n[of "[0x0100, 0, 0, 0]" 4 a] unfolding is_discard_only_def in6_def
  by (simp add: upt_lists)

lemma is_local_use_nat64_prefix: "is_local_use_nat64 a \<longleftrightarrow> in6 a (0x0064ff9b000100000000000000000000, 48)"
  using octets6_prefix_n[of "[0x00, 0x64, 0xff, 0x9b, 0x00, 0x01]" 6 a]
  unfolding is_local_use_nat64_def in6_def by simp

lemma octets6_zero:
  assumes "n \<le> 16"
  shows "(\<forall>i\<in>set [0..<n]. octet6 i a = 0) \<longleftrightarrow> unat a div 2 ^ (8 * (16 - n)) = 0"
proof -
  have "(\<forall>i\<in>set [0..<n]. octet6 i a = 0) \<longleftrightarrow> map (\<lambda>i. octet6 i a) [0..<n] = replicate n 0"
    unfolding list_eq_iff_nth_eq by auto
  also have "\<dots> \<longleftrightarrow> unat a div 2 ^ (8 * (16 - n)) = foldl (\<lambda>v d. v * 256 + d) 0 (map unat (replicate n (0 :: byte)))"
    by (rule octets6_prefix_n) (use assms in simp_all)
  also have "foldl (\<lambda>v d. v * 256 + d) 0 (map unat (replicate n (0 :: byte))) = 0"
    by (induction n) simp_all
  finally show ?thesis .
qed

lemma is_ipv4_compatible_prefix: "is_ipv4_compatible a \<longleftrightarrow> in6 a (0x0, 96)"
  unfolding is_ipv4_compatible_def in6_def by (subst octets6_zero) simp_all

lemma is_private_v6: "is_private (V6 a) \<longleftrightarrow> list_ex (in6 a) private_prefixes6"
  unfolding is_private.simps private6_parts private6_segments is_discard_only_prefix is_local_use_nat64_prefix
    is_ipv4_compatible_prefix private_prefixes6_def
  by (simp only: list_ex_Cons_iff list_ex_Nil_iff simp_thms)

section \<open>Embedded IPv4 addresses\<close>

lemma byte_parts: "push_bit 24 (ucast (ucast (drop_bit (k + 24) x) :: byte)) OR push_bit 16 (ucast (ucast (drop_bit (k + 16) x) :: byte))
    OR push_bit 8 (ucast (ucast (drop_bit (k + 8) x) :: byte)) OR ucast (ucast (drop_bit k x) :: byte)
  = (ucast (drop_bit k x) :: ipv4)" for x :: ipv6
proof (rule bit_word_eqI)
  fix n :: nat
  assume n: "n < LENGTH(32)"
  then consider "n < 8" | "8 \<le> n" "n < 16" | "16 \<le> n" "n < 24" | "24 \<le> n" "n < 32" by fastforce
  then show "bit (push_bit 24 (ucast (ucast (drop_bit (k + 24) x) :: byte)) OR push_bit 16 (ucast (ucast (drop_bit (k + 16) x) :: byte))
    OR push_bit 8 (ucast (ucast (drop_bit (k + 8) x) :: byte)) OR ucast (ucast (drop_bit k x) :: byte) :: ipv4) n
  = bit (ucast (drop_bit k x) :: ipv4) n"
    by cases (auto simp: bit_simps)
qed

lemma ipv4_of_octets6:
  "ipv4_new (octet6 12 x) (octet6 13 x) (octet6 14 x) (octet6 15 x) = ucast x"
  "ipv4_new (octet6 2 x) (octet6 3 x) (octet6 4 x) (octet6 5 x) = ucast (drop_bit 80 x)"
  using byte_parts[of 0 x] byte_parts[of 80 x] by (simp_all add: ipv4_new_def octet6_def)

lemma byte_xor_ff: "(b :: byte) XOR 0xff = NOT b"
proof -
  have e: "(0xff :: byte) = NOT 0" by code_simp
  show ?thesis unfolding e by (rule bit_word_eqI) (auto simp: bit_simps)
qed

lemma octet6_not: "i \<le> 15 \<Longrightarrow> octet6 i (NOT x) = NOT (octet6 i x)"
  unfolding octet6_def by (rule bit_word_eqI) (auto simp: bit_simps)

lemma ipv4_of_inverted_octets6:
  "ipv4_new (octet6 12 x XOR 0xff) (octet6 13 x XOR 0xff) (octet6 14 x XOR 0xff) (octet6 15 x XOR 0xff)
    = NOT (ucast x)"
proof -
  have "ucast (NOT x) = (NOT (ucast x) :: ipv4)" by (rule bit_word_eqI) (auto simp: bit_simps)
  then show ?thesis using ipv4_of_octets6(1)[of "NOT x"] by (simp add: byte_xor_ff octet6_not)
qed

lemma in6_mapped: "in6 x mapped6 \<longleftrightarrow> segment 0 x = 0 \<and> segment 1 x = 0 \<and> segment 2 x = 0 \<and> segment 3 x = 0
    \<and> segment 4 x = 0 \<and> segment 5 x = 0xffff"
proof -
  have "[0..<6] = [0, 1, 2, 3, 4, 5 :: nat]" by code_simp
  then show ?thesis using segments_prefix_n[of "[0, 0, 0, 0, 0, 0xffff]" 6 x] by (simp add: in6_def)
qed

lemma in6_nat64:
  "in6 x nat64 \<longleftrightarrow> map (\<lambda>i. octet6 i x) [0..<4] = [0x00, 0x64, 0xff, 0x9b] \<and> (\<forall>i\<in>set [4..<12]. octet6 i x = 0)"
proof -
  have "[0..<12] = [0..<4] @ [4..<12 :: nat]" "[4..<12] = [4, 5, 6, 7, 8, 9, 10, 11 :: nat]" by code_simp+
  then show ?thesis
    using octets6_prefix_n[of "[0x00, 0x64, 0xff, 0x9b, 0, 0, 0, 0, 0, 0, 0, 0]" 12 x] by (simp add: in6_def upt_lists)
qed

lemma in6_transition:
  "in6 x sixtofour \<longleftrightarrow> map (\<lambda>i. octet6 i x) [0..<2] = [0x20, 0x02]"
  "in6 x teredo \<longleftrightarrow> map (\<lambda>i. octet6 i x) [0..<4] = [0x20, 0x01, 0x00, 0x00]"
  using octets6_prefix_n[of "[0x20, 0x02]" 2 x] octets6_prefix_n[of "[0x20, 0x01, 0x00, 0x00]" 4 x]
  by (simp_all add: in6_def)

lemma to_canonical_prefix: "to_canonical x = (if in6 x mapped6 then V4 (ucast x) else V6 x)"
  unfolding to_canonical_def in6_mapped by simp

lemma embedded_ipv4_prefix:
  "embedded_ipv4 (V6 x) = (if in6 x nat64 then Some (ucast x) else if in6 x sixtofour then Some (ucast (drop_bit 80 x))
     else if in6 x teredo then Some (NOT (ucast x)) else None)"
  unfolding embedded_ipv4.simps in6_nat64 in6_transition ipv4_of_octets6 ipv4_of_inverted_octets6 by (rule refl)

lemma in6_shorter:
  assumes "in6 x (p, k)" "j \<le> k" "k \<le> 128"
  shows "in6 x (p, j)"
proof -
  have "2 ^ (128 - j) = (2 :: nat) ^ (128 - k) * 2 ^ (k - j)" using assms(2,3) by (simp flip: power_add)
  with assms(1) show ?thesis by (simp add: in6_def div_mult2_eq)
qed

lemma embedding_heads:
  "in6 x mapped6 \<Longrightarrow> unat x div 2 ^ 112 = 0" "in6 x nat64 \<Longrightarrow> unat x div 2 ^ 112 = 0x64"
  "in6 x sixtofour \<Longrightarrow> unat x div 2 ^ 112 = 0x2002" "in6 x teredo \<Longrightarrow> unat x div 2 ^ 112 = 0x2001"
  using in6_shorter[of x _ _ 16] by (force simp: in6_def)+

lemma embeddings_exclusive:
  "in6 x mapped6 \<Longrightarrow> \<not> in6 x nat64 \<and> \<not> in6 x sixtofour \<and> \<not> in6 x teredo"
  "in6 x nat64 \<Longrightarrow> \<not> in6 x sixtofour \<and> \<not> in6 x teredo"
  "in6 x teredo \<Longrightarrow> \<not> in6 x sixtofour"
  by (auto dest!: embedding_heads)

section \<open>What the policy decides\<close>

definition never_prefixes4 :: "(ipv4 \<times> nat) list" where
  "never_prefixes4 = [(0x00000000, 32), (0xffffffff, 32), (0xe0000000, 4)]"

definition never_prefixes6 :: "(ipv6 \<times> nat) list" where
  "never_prefixes6 = [(0x0, 128), (0xff000000000000000000000000000000, 8)]"

lemma v4_is_multicast_prefix: "v4_is_multicast a \<longleftrightarrow> in4 a (0xe0000000, 4)"
proof -
  have "224 \<le> (b :: byte) \<and> b \<le> 239 \<longleftrightarrow> unat b div 16 = 14" for b
    by (simp add: word_le_nat_alt) arith
  then show ?thesis by (simp add: v4_is_multicast_def octet4_iffs(2) in4_def div_mult2_eq[symmetric])
qed

lemma is_never_allowed_prefixes:
  "is_never_allowed (V4 a) \<longleftrightarrow> list_ex (in4 a) never_prefixes4"
  "is_never_allowed (V6 x) \<longleftrightarrow> list_ex (in6 x) never_prefixes6"
  by (simp_all add: never_prefixes4_def never_prefixes6_def v4_is_multicast_prefix private6_parts(5)
      v4_is_unspecified_def v4_is_broadcast_def v6_is_unspecified_def in4_def in6_def word_unat_eq_iff[of a]
      word_unat_eq_iff[of x])

text \<open>The reference: the address a destination stands for, and the verdict on it by prefixes alone.\<close>

fun stands_for :: "ip_addr \<Rightarrow> ip_addr" where
  "stands_for (V4 a) = V4 a"
| "stands_for (V6 x) =
     (if in6 x mapped6 \<or> in6 x nat64 then V4 (ucast x)
      else if in6 x sixtofour then V4 (ucast (drop_bit 80 x))
      else if in6 x teredo then V4 (NOT (ucast x))
      else V6 x)"

fun registry_allows :: "policy \<Rightarrow> ip_addr \<Rightarrow> bool" where
  "registry_allows p (V4 a) =
     (if list_ex (in4 a) never_prefixes4 then False
      else if list_ex (in4 a) private_prefixes4 then allow_private_networks p else True)"
| "registry_allows p (V6 x) =
     (if list_ex (in6 x) never_prefixes6 then False
      else if list_ex (in6 x) private_prefixes6 then allow_private_networks p else True)"

lemma judged_address:
  "(case embedded_ipv4 (canonical addr) of None \<Rightarrow> canonical addr | Some v4 \<Rightarrow> V4 v4) = stands_for addr"
proof (cases addr)
  case (V6 x)
  then show ?thesis using embeddings_exclusive[of x]
    by (simp add: to_canonical_prefix embedded_ipv4_prefix del: embedded_ipv4.simps(2))
qed simp

lemma judged_registry: "(if is_never_allowed addr then False else if is_private addr then allow_private_networks p else True)
    = registry_allows p addr"
  by (cases addr) (simp_all only: registry_allows.simps is_never_allowed_prefixes is_private_v4 is_private_v6)

lemma allows_address_eq: "allows_address p addr = registry_allows p (stands_for addr)"
  unfolding allows_address_def Let_def judged_address judged_registry by (rule refl)

text \<open>
  C5. The address rules are the registry of special-purpose prefixes: a destination is refused
  outright exactly inside 0.0.0.0/32, 255.255.255.255/32, 224/4, ::/128 and ff00::/8, needs
  \<^verbatim>\<open>allow_private_networks\<close> exactly inside the listed private prefixes, and is allowed otherwise, an
  IPv6 address that carries an IPv4 address being judged as that one.
\<close>
theorem address_registry: "allows_address p addr = registry_allows p (stands_for addr)"
  by (rule allows_address_eq)

text \<open>
  Wrapping an IPv4 address in IPv6 does not change the verdict: mapped, NAT64, 6to4 and Teredo
  addresses are judged as the IPv4 address inside them.
\<close>
theorem no_embedding_bypass:
  assumes "wraps x a"
  shows "allows_address p (V6 x) = allows_address p (V4 a)"
proof -
  have "stands_for (V6 x) = V4 a"
    using assms embeddings_exclusive[of x] by (auto simp: wraps_def)
  then show ?thesis by (simp add: allows_address_eq del: stands_for.simps(2) registry_allows.simps)
qed

theorem no_embedding_bypass_witness:
  "wraps 0x0064ff9b00000000000000000a000001 0x0a000001
   \<and> \<not> allows_address \<lparr>allow_private_networks = False, denied_ports = []\<rparr> (V6 0x0064ff9b00000000000000000a000001)"
proof -
  let ?p = "\<lparr>allow_private_networks = False, denied_ports = []\<rparr>"
  have w: "wraps 0x0064ff9b00000000000000000a000001 0x0a000001" by (simp add: wraps_def in6_def)
  have "\<not> allows_address ?p (V4 0x0a000001)" by code_simp
  with w show ?thesis using no_embedding_bypass[OF w, of ?p] by blast
qed

text \<open>
  What a name resolved to is filtered, not replaced: the addresses kept are those the policy
  allows, in the resolver's order with their ports, and no configuration keeps an unspecified,
  broadcast or multicast address, written as IPv4 or IPv6.
\<close>
theorem allowed_addresses_safe:
  "subseq (allowed_addresses p addresses) addresses
   \<and> set (allowed_addresses p addresses) = {a \<in> set addresses. registry_allows p (stands_for (ip a))}
   \<and> {a \<in> set (allowed_addresses p addresses). is_never_allowed (stands_for (ip a))} = {}"
proof -
  have "\<not> is_never_allowed (stands_for (ip a))" if "registry_allows p (stands_for (ip a))" for a :: socket_addr
    using that judged_registry[of "stands_for (ip a)" p] by presburger
  then show ?thesis
    by (auto simp: allowed_addresses_def allows_address_eq simp del: registry_allows.simps is_never_allowed.simps
        stands_for.simps)
qed

end
