(* ===== verification/Utf8.thy ===== *)
theory Utf8
  imports Prelude
begin

text \<open>
  The parts of \<^verbatim>\<open>std::str\<close> the sources rely on: which byte strings are UTF-8, and the lossy decoding
  that replaces what is not. A \<^verbatim>\<open>str\<close> is its bytes.
\<close>

definition is_cont :: "byte \<Rightarrow> bool" where
  "is_cont b \<longleftrightarrow> 0x80 \<le> b \<and> b \<le> 0xbf"

text \<open>The bytes that may follow the first byte of a sequence of three or four.\<close>

definition second_ok :: "byte \<Rightarrow> byte \<Rightarrow> bool" where
  "second_ok b c \<longleftrightarrow>
     (if b = 0xe0 then 0xa0 \<le> c \<and> c \<le> 0xbf
      else if b = 0xed then 0x80 \<le> c \<and> c \<le> 0x9f
      else if b = 0xf0 then 0x90 \<le> c \<and> c \<le> 0xbf
      else if b = 0xf4 then 0x80 \<le> c \<and> c \<le> 0x8f
      else is_cont c)"

definition char_width :: "byte \<Rightarrow> nat" where
  "char_width b =
     (if b < 0x80 then 1 else if 0xc2 \<le> b \<and> b \<le> 0xdf then 2
      else if 0xe0 \<le> b \<and> b \<le> 0xef then 3 else if 0xf0 \<le> b \<and> b \<le> 0xf4 then 4 else 0)"

text \<open>
  The next character of a byte string: whether it is well-formed, and the bytes it takes up, which
  for an ill-formed one are the longest beginning of a character.
\<close>

fun utf8_next :: "bytes \<Rightarrow> bool \<times> nat" where
  "utf8_next [] = (False, 0)"
| "utf8_next (b # rest) =
     (if char_width b = 1 then (True, 1)
      else if char_width b = 0 then (False, 1)
      else case rest of
        [] \<Rightarrow> (False, 1)
      | c # rest' \<Rightarrow>
          if \<not> second_ok b c then (False, 1)
          else if char_width b = 2 then (True, 2)
          else case rest' of
            [] \<Rightarrow> (False, 2)
          | d # rest'' \<Rightarrow>
              if \<not> is_cont d then (False, 2)
              else if char_width b = 3 then (True, 3)
              else case rest'' of
                [] \<Rightarrow> (False, 3)
              | e # _ \<Rightarrow> if is_cont e then (True, 4) else (False, 3))"

lemma utf8_next_pos: "bs \<noteq> [] \<Longrightarrow> 0 < snd (utf8_next bs) \<and> snd (utf8_next bs) \<le> length bs"
  by (cases bs) (auto split: list.splits)

function utf8_valid :: "bytes \<Rightarrow> bool" where
  "utf8_valid bs = (if bs = [] then True else fst (utf8_next bs) \<and> utf8_valid (drop (snd (utf8_next bs)) bs))"
  by pat_completeness auto
termination
  by (relation "measure length") (use utf8_next_pos in auto)

definition REPLACEMENT :: bytes where
  "REPLACEMENT = [0xef, 0xbf, 0xbd]"

function utf8_lossy :: "bytes \<Rightarrow> bytes" where
  "utf8_lossy bs =
     (if bs = [] then []
      else (if fst (utf8_next bs) then take (snd (utf8_next bs)) bs else REPLACEMENT)
           @ utf8_lossy (drop (snd (utf8_next bs)) bs))"
  by pat_completeness auto
termination
  by (relation "measure length") (use utf8_next_pos in auto)

declare utf8_valid.simps [simp del] utf8_lossy.simps [simp del]

definition from_utf8 :: "bytes \<Rightarrow> bytes option" where
  "from_utf8 bs = (if utf8_valid bs then Some bs else None)"

lemma utf8_valid_Nil [simp]: "utf8_valid []"
  by (simp add: utf8_valid.simps)

lemma utf8_valid_ascii: "list_all (\<lambda>b. b < 0x80) bs \<Longrightarrow> utf8_valid bs"
  by (induction bs) (simp_all add: utf8_valid.simps char_width_def)

lemma from_utf8_ascii: "list_all (\<lambda>b. b < 0x80) bs \<Longrightarrow> from_utf8 bs = Some bs"
  by (simp add: from_utf8_def utf8_valid_ascii)

lemma utf8_lossy_valid_id: "utf8_valid bs \<Longrightarrow> utf8_lossy bs = bs"
proof (induction bs rule: utf8_lossy.induct)
  case (1 bs)
  show ?case
  proof (cases "bs = []")
    case False
    then have "fst (utf8_next bs)" "utf8_valid (drop (snd (utf8_next bs)) bs)"
      using 1(2) by (auto simp: utf8_valid.simps[of bs])
    then show ?thesis using 1(1) False by (subst utf8_lossy.simps) simp
  qed (simp add: utf8_lossy.simps)
qed

lemma utf8_valid_append_char:
  assumes "fst (utf8_next bs)" "utf8_valid rest"
  shows "utf8_valid (take (snd (utf8_next bs)) bs @ rest)"
proof -
  let ?c = "take (snd (utf8_next bs)) bs"
  obtain b r where b: "bs = b # r" using assms(1) by (cases bs) simp_all
  have "utf8_next (?c @ rest) = (True, length ?c) \<and> ?c \<noteq> []"
  proof (cases "char_width b = 1")
    case True
    then show ?thesis using b by simp
  next
    case w1: False
    then obtain c r1 where c: "r = c # r1" "second_ok b c" "char_width b \<noteq> 0"
      using assms(1) b by (simp split: list.splits if_splits)
    show ?thesis
    proof (cases "char_width b = 2")
      case True
      then show ?thesis using b c w1 by simp
    next
      case w2: False
      then obtain d r2 where d: "r1 = d # r2" "is_cont d"
        using assms(1) b c w1 by (simp split: list.splits if_splits)
      show ?thesis
      proof (cases "char_width b = 3")
        case True
        then show ?thesis using b c d w1 w2 by simp
      next
        case False
        then obtain e r3 where "r2 = e # r3" "is_cont e"
          using assms(1) b c d w1 w2 by (simp split: list.splits if_splits)
        then show ?thesis using False b c d w1 w2 by simp
      qed
    qed
  qed
  with assms(2) show ?thesis by (simp add: utf8_valid.simps[of "?c @ rest"])
qed

lemma utf8_lossy_valid: "utf8_valid (utf8_lossy bs)"
proof (induction bs rule: utf8_lossy.induct)
  case (1 bs)
  show ?case
  proof (cases "bs = []")
    case False
    have r: "utf8_valid (REPLACEMENT @ x)" if "utf8_valid x" for x
      using that unfolding REPLACEMENT_def append_Cons append_Nil
      by (subst utf8_valid.simps) (simp add: char_width_def second_ok_def is_cont_def)
    show ?thesis
      using 1 False r utf8_valid_append_char[of bs] by (subst utf8_lossy.simps) simp
  qed (simp add: utf8_lossy.simps)
qed

end
