(* ===== verification/Message.thy ===== *)
theory Message
  imports Utf8
begin

text \<open>
  \<^verbatim>\<open>src/src/h3/message.rs\<close>: statuses, methods, field values and field lists, and the character rules
  they obey. A \<^verbatim>\<open>str\<close> and a field value are their bytes.
\<close>

section \<open>Tokens and field names\<close>

definition is_tchar :: "byte \<Rightarrow> bool" where
  "is_tchar b \<longleftrightarrow> is_ascii_alphanumeric b \<or> b \<in> set (byte_string ''!#$%&'*+-.^_`|~'')"

definition token :: "bytes \<Rightarrow> bytes option" where
  "token bs = (if bs = [] \<or> \<not> list_all is_tchar bs then None else from_utf8 bs)"

definition field_name :: "bytes \<Rightarrow> bytes option" where
  "field_name bs =
     (case token bs of None \<Rightarrow> None | Some n \<Rightarrow> if list_ex is_ascii_uppercase n then None else Some n)"

definition is_field_value :: "bytes \<Rightarrow> bool" where
  "is_field_value v \<longleftrightarrow> list_all (\<lambda>b. 0x21 \<le> b \<and> b \<le> 0x7e \<or> 0x80 \<le> b \<or> b = 0x20 \<or> b = 0x09) v"

section \<open>Statuses and methods\<close>

type_synonym status = bytes

definition status_parse :: "bytes \<Rightarrow> status option" where
  "status_parse bs =
     (if length bs \<noteq> 3 then None
      else if bs ! 0 = 0x30 \<or> \<not> list_all is_ascii_digit bs then None
      else Some bs)"

datatype http_method = Connect | Other bytes

definition method_parse :: "bytes \<Rightarrow> http_method option" where
  "method_parse bs =
     (case token bs of
        None \<Rightarrow> None
      | Some t \<Rightarrow> Some (if t = byte_string ''CONNECT'' then Connect else Other t))"

fun method_as_str :: "http_method \<Rightarrow> bytes" where
  "method_as_str Connect = byte_string ''CONNECT''"
| "method_as_str (Other t) = t"

section \<open>Fields\<close>

type_synonym field_value = bytes
type_synonym fields = "(bytes \<times> field_value) list"

definition field_value_parse :: "bytes \<Rightarrow> field_value option" where
  "field_value_parse v = (if is_field_value v then Some v else None)"

definition to_str :: "field_value \<Rightarrow> bytes option" where
  "to_str v = from_utf8 v"

definition fields_append :: "fields \<Rightarrow> bytes \<Rightarrow> field_value \<Rightarrow> fields" where
  "fields_append fs n v = fs @ [(n, v)]"

fun fields_get :: "fields \<Rightarrow> bytes \<Rightarrow> field_value option" where
  "fields_get [] n = None"
| "fields_get ((f, v) # fs) n = (if eq_ignore_ascii_case f n then Some v else fields_get fs n)"

definition fields_get_all :: "fields \<Rightarrow> bytes \<Rightarrow> field_value list" where
  "fields_get_all fs n = map snd (filter (\<lambda>(f, _). eq_ignore_ascii_case f n) fs)"

definition fields_contains :: "fields \<Rightarrow> bytes \<Rightarrow> bool" where
  "fields_contains fs n \<longleftrightarrow> fields_get fs n \<noteq> None"

record request =
  req_method :: http_method
  req_scheme :: "bytes option"
  req_authority :: "bytes option"
  req_path :: "bytes option"
  req_query :: "bytes option"
  req_protocol :: "bytes option"
  req_fields :: fields

definition request_new :: "http_method \<Rightarrow> request" where
  "request_new m = \<lparr>req_method = m, req_scheme = None, req_authority = None, req_path = None, req_query = None,
     req_protocol = None, req_fields = []\<rparr>"

section \<open>Laws\<close>

lemma tchars_ascii: "list_all is_tchar bs \<Longrightarrow> list_all (\<lambda>b. b < 0x80) bs"
proof -
  have "b < 0x80" if "is_tchar b" for b
  proof (cases "is_ascii_alphanumeric b")
    case False
    moreover have "list_all (\<lambda>b. b < 0x80) (byte_string ''!#$%&'*+-.^_`|~'')" by code_simp
    ultimately show ?thesis using that by (auto simp: is_tchar_def list_all_iff)
  qed (rule is_ascii_alphanumeric_ascii)
  then show "list_all is_tchar bs \<Longrightarrow> ?thesis" by (simp add: list_all_iff)
qed

lemma token_iff: "token bs = Some t \<longleftrightarrow> t = bs \<and> bs \<noteq> [] \<and> list_all is_tchar bs"
  using from_utf8_ascii[OF tchars_ascii, of bs] by (auto simp: token_def)

lemma field_name_iff:
  "field_name bs = Some n \<longleftrightarrow> n = bs \<and> bs \<noteq> [] \<and> list_all is_tchar bs \<and> \<not> list_ex is_ascii_uppercase bs"
proof (cases "token bs")
  case None
  then have "bs = [] \<or> \<not> list_all is_tchar bs" using token_iff[of bs bs] by force
  with None show ?thesis by (auto simp: field_name_def)
next
  case (Some t)
  then show ?thesis using token_iff[of bs t] by (auto simp: field_name_def)
qed

lemma method_parse_as_str: "method_parse bs = Some m \<Longrightarrow> method_as_str m = bs"
  by (auto simp: method_parse_def token_iff split: option.splits if_splits)

lemma fields_get_first: "fields_get fs n = (case fields_get_all fs n of [] \<Rightarrow> None | v # _ \<Rightarrow> Some v)"
  by (induction fs n rule: fields_get.induct) (auto simp: fields_get_all_def)

lemma fields_get_append:
  "fields_get (fields_append fs n v) m = (case fields_get fs m of None \<Rightarrow> if eq_ignore_ascii_case n m then Some v else None | Some w \<Rightarrow> Some w)"
  by (induction fs m rule: fields_get.induct) (auto simp: fields_append_def)

end
