(* ===== verification/Huffman_Code.thy ===== *)
theory Huffman_Code
  imports Huffman
begin

text \<open>
  The Huffman decoder of \<^verbatim>\<open>src/src/h3/huffman.rs\<close> inverts the code book: what it accepts, and what it
  returns, in terms of the codes alone.
\<close>

section \<open>The table against the book\<close>

lemma table_symbol_range:
  assumes "bits < 31"
  shows "first_code_row ! bits \<le> cd \<and> cd - first_code_row ! bits < of_nat (count_row ! bits)
    \<longleftrightarrow> unat (first_code_row ! bits) \<le> unat cd \<and> unat cd < unat (first_code_row ! bits) + count_row ! bits"
proof -
  have "count_row ! bits < 2 ^ 32"
    using row_bounds(1)[OF assms] power_increasing[of bits 30 "2 :: nat"] assms by simp
  then have "unat (of_nat (count_row ! bits) :: u32) = count_row ! bits"
    by (simp add: take_bit_nat_eq_self unsigned_of_nat)
  then show ?thesis by (auto simp: word_le_nat_alt word_less_nat_alt unat_sub)
qed

lemma table_symbol_iff:
  assumes "bits < 31"
  shows "table_symbol bits cd = Some s \<longleftrightarrow> (s, cd, bits) \<in> set numbered_codes"
proof -
  let ?fc = "first_code_row ! bits" and ?n = "count_row ! bits" and ?fi = "first_index_row ! bits"
  have len: "length (take ?n (drop ?fi symbol_row)) = ?n"
  proof -
    have "length symbol_row = 257" by (simp add: symbol_row_def)
    with row_bounds(2)[OF assms] show ?thesis by simp
  qed
  have "(s, cd, bits) \<in> set numbered_codes
      \<longleftrightarrow> (s, cd, bits) \<in> set (filter (\<lambda>e. snd (snd e) = bits) numbered_codes)" by simp
  also have "\<dots> \<longleftrightarrow> (\<exists>i<?n. s = symbol_row ! (?fi + i) \<and> cd = ?fc + of_nat i)"
    using len unfolding book_by_length[OF assms] by (force simp: set_zip)
  also have "\<dots> \<longleftrightarrow> table_symbol bits cd = Some s"
  proof
    assume "\<exists>i<?n. s = symbol_row ! (?fi + i) \<and> cd = ?fc + of_nat i"
    then obtain i where i: "i < ?n" "s = symbol_row ! (?fi + i)" "cd = ?fc + of_nat i" by blast
    have "unat ?fc + i < 2 ^ 32"
      using i(1) row_bounds(1)[OF assms] power_increasing[of bits 30 "2 :: nat"] assms by simp
    then have "unat cd = unat ?fc + i" "unat (cd - ?fc) = i"
      using i(3) by (simp_all add: unat_word_ariths unsigned_of_nat take_bit_nat_eq_self)
    then show "table_symbol bits cd = Some s"
      unfolding table_symbol_def table_symbol_range[OF assms] using i by simp
  next
    assume "table_symbol bits cd = Some s"
    then have r: "unat ?fc \<le> unat cd" "unat cd < unat ?fc + ?n" "s = symbol_row ! (?fi + unat (cd - ?fc))"
      unfolding table_symbol_def table_symbol_range[OF assms] by (auto split: if_splits)
    then have "unat (cd - ?fc) < ?n" by (simp add: unat_sub word_le_nat_alt)
    moreover have "cd = ?fc + of_nat (unat (cd - ?fc))" by simp
    ultimately show "\<exists>i<?n. s = symbol_row ! (?fi + i) \<and> cd = ?fc + of_nat i" using r(3) by blast
  qed
  finally show ?thesis by blast
qed

text \<open>The codes of a shorter length all lie below, so no code is a prefix of another.\<close>

lemma first_code_above:
  "k < bits \<Longrightarrow> bits < 31 \<Longrightarrow>
    (unat (first_code_row ! k) + count_row ! k) * 2 ^ (bits - k) \<le> unat (first_code_row ! bits)"
proof (induction bits)
  case (Suc bits)
  have step: "2 * (unat (first_code_row ! bits) + count_row ! bits) = unat (first_code_row ! Suc bits)"
    using first_code_next[of bits] Suc.prems by simp
  show ?case
  proof (cases "k = bits")
    case True
    then show ?thesis using step by simp
  next
    case False
    then have "(unat (first_code_row ! k) + count_row ! k) * 2 ^ (bits - k) \<le> unat (first_code_row ! bits)"
      "Suc bits - k = Suc (bits - k)" using Suc by simp_all
    then show ?thesis using step by simp
  qed
qed simp

lemma table_symbol_prefix_free:
  assumes "table_symbol bits cd = Some s" "bits < 31" "k < bits"
  shows "table_symbol k (drop_bit (bits - k) cd) = None"
proof -
  have "unat (first_code_row ! bits) \<le> unat cd"
    using assms(1) unfolding table_symbol_def table_symbol_range[OF assms(2)] by (auto split: if_splits)
  with first_code_above[OF assms(3,2)] have "unat (first_code_row ! k) + count_row ! k \<le> unat cd div 2 ^ (bits - k)"
    by (simp add: less_eq_div_iff_mult_less_eq)
  moreover have "unat (drop_bit (bits - k) cd) = unat cd div 2 ^ (bits - k)"
    by (metis unat_drop_bit_eq drop_bit_eq_div)
  ultimately show ?thesis
    using assms(2,3) table_symbol_range[of k] unfolding table_symbol_def by simp
qed

section \<open>Codes as bit strings\<close>

definition code_bits :: "u32 \<Rightarrow> nat \<Rightarrow> bool list" where
  "code_bits cd bits = map (bit cd) (rev [0..<bits])"

definition bits_value :: "bool list \<Rightarrow> u32" where
  "bits_value p = horner_sum of_bool 2 (rev p)"

lemma length_code_bits [simp]: "length (code_bits cd bits) = bits"
  by (simp add: code_bits_def)

lemma bits_value_Nil [simp]: "bits_value [] = 0"
  by (simp add: bits_value_def)

lemma bits_value_snoc: "push_bit 1 (bits_value p) OR of_bool x = bits_value (p @ [x])"
proof -
  have "push_bit 1 (bits_value p) AND of_bool x = 0"
    by (rule bit_word_eqI) (auto simp: bit_simps simp del: push_bit_Suc)
  then have "push_bit 1 (bits_value p) OR of_bool x = push_bit 1 (bits_value p) + of_bool x"
    by (simp only: disjunctive_add_eq_or)
  then show ?thesis by (simp add: bits_value_def)
qed

lemma code_bits_value: "length p \<le> 32 \<Longrightarrow> code_bits (bits_value p) (length p) = p"
  by (rule nth_equalityI) (auto simp: code_bits_def bits_value_def bit_simps rev_nth)

lemma bits_value_code_bits: "unat cd < 2 ^ bits \<Longrightarrow> bits_value (code_bits cd bits) = cd"
  unfolding bits_value_def code_bits_def
  by (simp add: rev_map horner_sum_bit_eq_take_bit take_bit_word_self_iff)

lemma take_code_bits: "k \<le> bits \<Longrightarrow> bits \<le> 32 \<Longrightarrow> bits_value (take k (code_bits cd bits)) = drop_bit (bits - k) (take_bit bits cd)"
  by (rule bit_word_eqI) (auto simp: bits_value_def code_bits_def bit_simps rev_nth)

text \<open>The loop body on bits, by the table.\<close>

lemma decode_bit_bits:
  assumes "length p < 30"
  shows "decode_bit (bits_value p, length p, out) (of_bool x) =
    (case table_symbol (length p + 1) (bits_value (p @ [x])) of
       None \<Rightarrow> Inr (bits_value (p @ [x]), length p + 1, out)
     | Some s \<Rightarrow> if s = EOS then Inl failed else Inr (0, 0, out @ [ucast s]))"
  using assms unfolding decode_bit.simps Let_def bits_value_snoc table_eq table_symbol_def MAX_CODE_BITS_def by simp

lemma decode_bits_append: "decode_bits st (xs @ ys) = and_then (decode_bits st xs) (\<lambda>st. decode_bits st ys)"
  by (induction xs arbitrary: st) (auto simp: and_then_def split: sum.splits)

text \<open>Reading a part of a code that is not yet all of it only collects it.\<close>

lemma decode_bits_partial:
  assumes "table_symbol n cd = Some s" "n < 31" "unat cd < 2 ^ n"
    and "p @ q = take k (code_bits cd n)" "k < n"
  shows "decode_bits (bits_value p, length p, out) (map of_bool q) = Inr (bits_value (p @ q), length (p @ q), out)"
  using assms(4)
proof (induction q arbitrary: p)
  case (Cons x q)
  have len: "length p + 1 + length q = k"
    using arg_cong[OF Cons.prems, of length] assms(5) by simp
  have "p @ [x] = take (length p + 1) (p @ x # q)" by simp
  also have "\<dots> = take (length p + 1) (code_bits cd n)"
    using len unfolding Cons.prems by simp
  finally have px: "p @ [x] = take (length p + 1) (code_bits cd n)" .
  have "take_bit n cd = cd" using assms(3) by (simp add: take_bit_word_self_iff)
  then have "bits_value (p @ [x]) = drop_bit (n - (length p + 1)) cd"
    using px take_code_bits[of "length p + 1" n cd] len assms(2,5) by simp
  then have "table_symbol (length p + 1) (bits_value (p @ [x])) = None"
    using table_symbol_prefix_free[OF assms(1,2), of "length p + 1"] len assms(5) by simp
  then have "decode_bit (bits_value p, length p, out) (of_bool x) = Inr (bits_value (p @ [x]), length (p @ [x]), out)"
    using decode_bit_bits[of p out x] len assms(2,5) by simp
  then show ?case using Cons.IH[of "p @ [x]"] Cons.prems by simp
qed simp

lemma decode_bits_code:
  assumes "(s, cd, n) \<in> set numbered_codes" "s \<noteq> EOS" "0 < n" "n < 31" "unat cd < 2 ^ n"
  shows "decode_bits (0, 0, out) (map of_bool (code_bits cd n)) = Inr (0, 0, out @ [ucast s])"
proof -
  have sym: "table_symbol n cd = Some s" using assms by (simp add: table_symbol_iff)
  let ?p = "take (n - 1) (code_bits cd n)"
  have "code_bits cd n \<noteq> []" using assms(3) by (simp flip: length_0_conv)
  then have split: "code_bits cd n = ?p @ [last (code_bits cd n)]"
    by (metis append_butlast_last_id butlast_conv_take length_code_bits)
  have lp: "length ?p = n - 1" by simp
  have "decode_bits (bits_value [], length ([] :: bool list), out) (map of_bool ?p) = Inr (bits_value ([] @ ?p), length ([] @ ?p), out)"
    by (rule decode_bits_partial[OF sym assms(4,5), of _ _ "n - 1"]) (use assms(3) in simp_all)
  moreover have "decode_bit (bits_value ?p, length ?p, out) (of_bool (last (code_bits cd n))) = Inr (0, 0, out @ [ucast s])"
    using decode_bit_bits[of ?p out "last (code_bits cd n)"] sym assms lp split bits_value_code_bits[OF assms(5)] by simp
  ultimately show ?thesis
    by (subst split) (simp only: map_append list.map decode_bits_append append_Nil bits_value_Nil list.size and_then_simps
        decode_bits.simps)
qed

section \<open>Strings of codes\<close>

definition symbol_bits :: "u16 \<Rightarrow> bool list" where
  "symbol_bits s = (case CODES ! unat s of (cd, n) \<Rightarrow> code_bits cd n)"

lemma length_CODES: "length CODES = 257"
  by (simp add: CODES_def)

lemma CODES_bounds:
  assumes "(cd, n) \<in> set CODES"
  shows "5 \<le> n" "n < 31" "unat cd < 2 ^ n"
proof -
  have "list_all (\<lambda>(cd, n). 5 \<le> n \<and> n < 31 \<and> unat cd < 2 ^ n) CODES" by (simp add: CODES_def)
  with assms show "5 \<le> n" "n < 31" "unat cd < 2 ^ n" by (auto simp: list_all_iff)
qed

lemma numbered_codes_iff: "(s, cd, n) \<in> set numbered_codes \<longleftrightarrow> unat s < 257 \<and> CODES ! unat s = (cd, n)"
proof -
  have "unat (of_nat i :: u16) = i" if "i < 257" for i using that by (simp add: unsigned_of_nat take_bit_nat_eq_self)
  then have "(s, cd, n) \<in> set numbered_codes \<longleftrightarrow> (\<exists>i<257. s = of_nat i \<and> (cd, n) = CODES ! i)"
    by (force simp: numbered_codes_def set_zip length_CODES)
  also have "\<dots> \<longleftrightarrow> unat s < 257 \<and> CODES ! unat s = (cd, n)"
    using \<open>\<And>i. i < 257 \<Longrightarrow> unat (of_nat i :: u16) = i\<close> by (auto intro!: exI[of _ "unat s"])
  finally show ?thesis .
qed

lemma symbol_entry:
  assumes "unat s < 257"
  obtains cd n where "(s, cd, n) \<in> set numbered_codes" "symbol_bits s = code_bits cd n" "5 \<le> n" "n < 31" "unat cd < 2 ^ n"
proof -
  obtain cd n where e: "CODES ! unat s = (cd, n)" by fastforce
  then have "(cd, n) \<in> set CODES" using assms nth_mem[of "unat s" CODES] by (simp add: length_CODES)
  with e assms that[of cd n] CODES_bounds[of cd n] show ?thesis by (simp add: numbered_codes_iff symbol_bits_def)
qed

lemma EOS_bits: "symbol_bits EOS = replicate 30 True"
proof -
  have "CODES ! 256 = (0x3fffffff, 30)" by (simp add: CODES_def)
  moreover have "code_bits 0x3fffffff 30 = replicate 30 True" by code_simp
  ultimately show ?thesis by (simp add: symbol_bits_def EOS_def)
qed

lemma decode_bits_symbols:
  assumes "\<forall>s\<in>set ss. unat s < 256"
  shows "decode_bits (0, 0, out) (map of_bool (concat (map symbol_bits ss))) = Inr (0, 0, out @ map ucast ss)"
  using assms
proof (induction ss arbitrary: out)
  case (Cons s ss)
  obtain cd n where e: "(s, cd, n) \<in> set numbered_codes" "symbol_bits s = code_bits cd n" "5 \<le> n" "n < 31" "unat cd < 2 ^ n"
    by (rule symbol_entry[of s]) (use Cons.prems in auto)
  have "s \<noteq> EOS" using Cons.prems by (auto simp: EOS_def)
  then have "decode_bits (0, 0, out) (map of_bool (symbol_bits s)) = Inr (0, 0, out @ [ucast s])"
    using decode_bits_code[of s cd n] e by simp
  then show ?case using Cons by (simp add: decode_bits_append)
qed simp

lemma decode_bits_padding:
  assumes "k < 8"
  shows "decode_bits (0, 0, out) (map of_bool (replicate k True)) = Inr (bits_value (replicate k True), k, out)"
proof -
  obtain cd n where e: "(EOS, cd, n) \<in> set numbered_codes" "symbol_bits EOS = code_bits cd n" "n < 31" "unat cd < 2 ^ n"
    by (rule symbol_entry[of EOS]) (simp_all add: EOS_def)
  have cb: "code_bits cd n = replicate 30 True" using e(2) by (simp add: EOS_bits)
  then have n: "n = 30" using length_code_bits[of cd n] by simp
  have "table_symbol n cd = Some EOS" using e by (simp add: table_symbol_iff)
  then show ?thesis
    using decode_bits_partial[of n cd EOS "[]" "replicate k True" k out] e n cb assms by simp
qed

text \<open>Whatever the loop has read is codes of symbols it has put out, and a rest.\<close>

lemma decode_bits_sound:
  assumes "decode_bits (bits_value p, length p, out) (map of_bool bs) = Inr (cd', n', out')" "length p < 31"
  shows "\<exists>ss p'. p @ bs = concat (map symbol_bits ss) @ p' \<and> (\<forall>s\<in>set ss. unat s < 256)
    \<and> out' = out @ map ucast ss \<and> cd' = bits_value p' \<and> n' = length p'"
  using assms
proof (induction bs arbitrary: p out)
  case Nil
  then show ?case by (intro exI[of _ "[]"] exI[of _ p]) simp
next
  case (Cons x bs)
  have lp: "length p < 30"
    using Cons.prems by (cases "length p < 30") (auto simp: MAX_CODE_BITS_def Let_def)
  show ?case
  proof (cases "table_symbol (length p + 1) (bits_value (p @ [x]))")
    case None
    then have "decode_bits (bits_value (p @ [x]), length (p @ [x]), out) (map of_bool bs) = Inr (cd', n', out')"
      using Cons.prems(1) decode_bit_bits[OF lp, of out x] by simp
    from Cons.IH[OF this] lp show ?thesis by simp
  next
    case (Some s)
    then have ne: "s \<noteq> EOS" and d: "decode_bits (0, 0, out @ [ucast s]) (map of_bool bs) = Inr (cd', n', out')"
      using Cons.prems(1) decode_bit_bits[OF lp, of out x] by (simp_all split: if_splits)
    have "(s, bits_value (p @ [x]), length p + 1) \<in> set numbered_codes"
      using Some lp by (simp add: table_symbol_iff)
    then have s: "unat s < 257" and sb: "symbol_bits s = p @ [x]"
      using code_bits_value[of "p @ [x]"] lp by (simp_all add: numbered_codes_iff symbol_bits_def)
    have "unat s \<noteq> 256" using ne by (auto simp: EOS_def word_unat_eq_iff)
    with s have s256: "unat s < 256" by simp
    from Cons.IH[of "[]" "out @ [ucast s]"] d obtain ss p' where "bs = concat (map symbol_bits ss) @ p'"
      "\<forall>s\<in>set ss. unat s < 256" "out' = (out @ [ucast s]) @ map ucast ss" "cd' = bits_value p'" "n' = length p'"
      by (auto simp del: append_assoc)
    with sb s256 show ?thesis by (intro exI[of _ "s # ss"] exI[of _ p']) simp
  qed
qed

section \<open>What the decoder accepts\<close>

definition octets_bits :: "bytes \<Rightarrow> bool list" where
  "octets_bits xs = concat (map (\<lambda>b. map (bit b) (rev [0..<8])) xs)"

definition byte_code :: "byte \<Rightarrow> bool list" where
  "byte_code b = symbol_bits (ucast b)"

lemma byte_bits_eq: "byte_bits b = map of_bool (map (bit b) (rev [0..<8]))"
proof -
  have "ucast (drop_bit k b AND 1 :: byte) = (of_bool (bit b k) :: u32)" for k
    by (rule bit_word_eqI) (auto simp: bit_simps)
  then show ?thesis by (simp add: byte_bits_def)
qed

lemma octets_bits_eq: "concat (map byte_bits xs) = map of_bool (octets_bits xs)"
  unfolding octets_bits_def byte_bits_eq map_concat map_map comp_def by (rule refl)

lemma all_ones_value: "k < 8 \<Longrightarrow> bits_value (replicate k True) = push_bit k 1 - 1"
proof -
  have "list_all (\<lambda>k. bits_value (replicate k True) = push_bit k 1 - 1) [0..<8]" by code_simp
  then show "k < 8 \<Longrightarrow> ?thesis" by (simp add: list_all_iff)
qed

lemma all_ones_iff: "length p < 8 \<Longrightarrow> bits_value p = push_bit (length p) 1 - 1 \<longleftrightarrow> p = replicate (length p) True"
proof
  assume l: "length p < 8" and e: "bits_value p = push_bit (length p) 1 - 1"
  have "code_bits (bits_value p) (length p) = p"
    "code_bits (bits_value (replicate (length p) True)) (length p) = replicate (length p) True"
    using code_bits_value[of p] code_bits_value[of "replicate (length p) True"] l by simp_all
  with e all_ones_value[OF l] show "p = replicate (length p) True" by simp
next
  assume "length p < 8" "p = replicate (length p) True"
  with all_ones_value[of "length p"] show "bits_value p = push_bit (length p) 1 - 1" by metis
qed

lemma unat_ucast_byte [simp]: "unat (ucast (b :: byte) :: u16) = unat b"
proof -
  have "unat b < 2 ^ 16" using unsigned_less[of b, where 'a = nat] by simp
  then show ?thesis by (simp add: unsigned_ucast_eq take_bit_nat_eq_self)
qed

lemma byte_symbols: "\<forall>s\<in>set ss. unat s < 256 \<Longrightarrow> concat (map symbol_bits ss) = concat (map byte_code (map ucast ss))"
proof (induction ss)
  case (Cons s ss)
  have "ucast (ucast s :: byte) = take_bit 8 s" by (rule bit_word_eqI) (auto simp: bit_simps)
  also have "\<dots> = s" using Cons.prems by (simp add: take_bit_word_self_iff)
  finally have "ucast (ucast s :: byte) = s" .
  with Cons show ?case by (simp add: byte_code_def)
qed simp

lemma huffman_decode_eq:
  "huffman_decode xs = Inr out \<longleftrightarrow> (\<exists>k<8. octets_bits xs = concat (map byte_code out) @ replicate k True)"
proof
  assume "huffman_decode xs = Inr out"
  then obtain cd bits where d: "decode_bits (bits_value [], length ([] :: bool list), []) (map of_bool (octets_bits xs)) = Inr (cd, bits, out)"
    "bits < 8" "cd = push_bit bits 1 - 1"
    by (auto simp: huffman_decode_def octets_bits_eq and_then_Inr_iff split: if_splits)
  from decode_bits_sound[OF d(1)] obtain ss p where r: "octets_bits xs = concat (map symbol_bits ss) @ p"
    "\<forall>s\<in>set ss. unat s < 256" "out = map ucast ss" "cd = bits_value p" "bits = length p" by auto
  have "p = replicate (length p) True" using all_ones_iff[of p] r(4,5) d(2,3) by metis
  moreover have "octets_bits xs = concat (map byte_code out) @ p" using r(1,3) byte_symbols[OF r(2)] by simp
  ultimately show "\<exists>k<8. octets_bits xs = concat (map byte_code out) @ replicate k True"
    using d(2) r(5) by metis
next
  assume "\<exists>k<8. octets_bits xs = concat (map byte_code out) @ replicate k True"
  then obtain k where k: "k < 8" "octets_bits xs = concat (map byte_code out) @ replicate k True" by blast
  have s: "\<forall>s\<in>set (map ucast out :: u16 list). unat s < 256"
    using unsigned_less[where ?'b = 8 and ?'a = nat] by simp
  have "ucast (ucast b :: u16) = b" for b :: byte by (rule bit_word_eqI) (auto simp: bit_simps)
  then have "(map ucast (map ucast out :: u16 list) :: bytes) = out" by (simp add: comp_def)
  then have "decode_bits (0, 0, []) (map of_bool (octets_bits xs)) = Inr (bits_value (replicate k True), k, out)"
    using decode_bits_symbols[OF s, of "[]"] decode_bits_padding[OF k(1), of out] byte_symbols[OF s]
    by (simp add: k(2) decode_bits_append)
  then show "huffman_decode xs = Inr out"
    using k(1) by (simp add: huffman_decode_def octets_bits_eq all_ones_value)
qed

lemma decode_bits_errors: "decode_bits st bs = Inl v \<Longrightarrow> v = failed"
  by (induction st bs rule: decode_bits.induct) (auto simp: and_then_Inl_iff Let_def split: if_splits)

lemma byte_code_length: "5 \<le> length (byte_code b)"
proof -
  have "unat (ucast b :: u16) < 257" using unsigned_less[of b, where 'a = nat] by simp
  then show ?thesis by (rule symbol_entry) (simp add: byte_code_def)
qed

text \<open>
  C15. The Huffman decoder accepts exactly the strings that are codes of the book written one after
  another and padded with fewer than eight ones, and returns the bytes those codes stand for; every
  refusal is a stream error with \<^verbatim>\<open>QPACK_DECOMPRESSION_FAILED\<close>.
\<close>
theorem huffman_decode_iff:
  "(huffman_decode xs = Inr out \<longleftrightarrow> (\<exists>k<8. octets_bits xs = concat (map byte_code out) @ replicate k True))
   \<and> {v. huffman_decode xs = Inl v} \<subseteq> {violation_stream QPACK_DECOMPRESSION_FAILED}"
  using huffman_decode_eq[of xs out]
  by (auto simp: huffman_decode_def and_then_Inl_iff failed_def[symmetric] dest: decode_bits_errors split: if_splits)

lemma length_octets_bits: "length (octets_bits xs) = 8 * length xs"
  by (induction xs) (simp_all add: octets_bits_def)

lemma octets_bits_inj: "octets_bits xs = octets_bits ys \<Longrightarrow> xs = ys"
proof (induction xs arbitrary: ys)
  case Nil
  then show ?case using length_octets_bits[of ys] by (simp add: octets_bits_def)
next
  case (Cons x xs)
  then obtain y ys' where ys: "ys = y # ys'"
    using length_octets_bits[of "x # xs"] by (cases ys) (simp_all add: octets_bits_def)
  then have e: "map (bit x) (rev [0..<8]) = map (bit y) (rev [0..<8])" "octets_bits xs = octets_bits ys'"
    using Cons.prems by (simp_all add: octets_bits_def)
  have "x = y" by (rule bit_word_eqI) (use e(1) in auto)
  with ys Cons.IH[OF e(2)] show ?case by simp
qed

lemma byte_codes_length: "5 * length out \<le> length (concat (map byte_code out))"
proof (induction out)
  case (Cons b out)
  then show ?case using byte_code_length[of b] by simp
qed simp

text \<open>
  A Huffman string decodes to at most eight fifths of its length, within the capacity the
  decoder reserves, and no two strings decode to the same bytes: the encoding is unique.
\<close>
theorem huffman_expansion:
  assumes "huffman_decode xs = Inr out"
  shows "length out \<le> length xs * 8 div 5 \<and> (huffman_decode ys = Inr out \<longleftrightarrow> ys = xs)"
proof -
  obtain k where k: "k < 8" "octets_bits xs = concat (map byte_code out) @ replicate k True"
    using assms unfolding huffman_decode_eq by blast
  have l: "8 * length xs = length (concat (map byte_code out)) + k"
    using arg_cong[OF k(2), of length] by (simp only: length_octets_bits length_append length_replicate)
  have "5 * length out \<le> 8 * length xs" using byte_codes_length[of out] l by linarith
  moreover have "ys = xs" if y: "huffman_decode ys = Inr out"
  proof -
    obtain j where j: "j < 8" "octets_bits ys = concat (map byte_code out) @ replicate j True"
      using y unfolding huffman_decode_eq by blast
    have "8 * length ys = length (concat (map byte_code out)) + j"
      using arg_cong[OF j(2), of length] by (simp only: length_octets_bits length_append length_replicate)
    with l k(1) j(1) have "j = k" by presburger
    with j(2) k(2) have "octets_bits ys = octets_bits xs" by simp
    then show ?thesis by (rule octets_bits_inj)
  qed
  ultimately show ?thesis using assms by auto
qed

theorem huffman_expansion_witness:
  "huffman_decode [0xf1, 0xe3, 0xc7] = Inr [0x77, 0x77, 0x77]
   \<and> huffman_decode [0xf1, 0xe3, 0xc7, 0xff] \<noteq> Inr [0x77, 0x77, 0x77]"
proof -
  have "octets_bits [0xf1, 0xe3, 0xc7] = concat (map byte_code [0x77, 0x77, 0x77]) @ replicate 3 True"
    by code_simp
  then have d: "huffman_decode [0xf1, 0xe3, 0xc7] = Inr [0x77, 0x77, 0x77]"
    unfolding huffman_decode_eq by (intro exI[of _ 3]) simp
  with huffman_expansion[OF d, of "[0xf1, 0xe3, 0xc7, 0xff]"] show ?thesis by auto
qed

end
