(* ===== verification/Qpack.thy ===== *)
theory Qpack
  imports Huffman_Code
begin

text \<open>
  \<^verbatim>\<open>src/src/h3/qpack.rs\<close>: QPACK field sections with the static table only (this server announces a
  dynamic table of capacity zero). A reader is the bytes it has left; prefixed integers are read into
  a \<^typ>\<open>u64\<close> with the overflow checks of the source.
\<close>

section \<open>Fields and the static table\<close>

record qfield =
  name :: bytes
  val :: bytes

definition FIELD_OVERHEAD :: nat where
  "FIELD_OVERHEAD = 32"

definition field_size :: "qfield \<Rightarrow> nat" where
  "field_size f = length (name f) + length (val f) + FIELD_OVERHEAD"

definition STATIC_TEXT :: "(string \<times> string) list" where
  "STATIC_TEXT =
     [('':authority'', ''''), ('':path'', ''/''), (''age'', ''0''), (''content-disposition'', ''''),
      (''content-length'', ''0''), (''cookie'', ''''), (''date'', ''''), (''etag'', ''''),
      (''if-modified-since'', ''''), (''if-none-match'', ''''), (''last-modified'', ''''), (''link'', ''''),
      (''location'', ''''), (''referer'', ''''), (''set-cookie'', ''''), ('':method'', ''CONNECT''),
      ('':method'', ''DELETE''), ('':method'', ''GET''), ('':method'', ''HEAD''), ('':method'', ''OPTIONS''),
      ('':method'', ''POST''), ('':method'', ''PUT''), ('':scheme'', ''http''), ('':scheme'', ''https''),
      ('':status'', ''103''), ('':status'', ''200''), ('':status'', ''304''), ('':status'', ''404''),
      ('':status'', ''503''), (''accept'', ''*/*''), (''accept'', ''application/dns-message''),
      (''accept-encoding'', ''gzip, deflate, br''), (''accept-ranges'', ''bytes''),
      (''access-control-allow-headers'', ''cache-control''), (''access-control-allow-headers'', ''content-type''),
      (''access-control-allow-origin'', ''*''), (''cache-control'', ''max-age=0''),
      (''cache-control'', ''max-age=2592000''), (''cache-control'', ''max-age=604800''),
      (''cache-control'', ''no-cache''), (''cache-control'', ''no-store''),
      (''cache-control'', ''public, max-age=31536000''), (''content-encoding'', ''br''),
      (''content-encoding'', ''gzip''), (''content-type'', ''application/dns-message''),
      (''content-type'', ''application/javascript''), (''content-type'', ''application/json''),
      (''content-type'', ''application/x-www-form-urlencoded''), (''content-type'', ''image/gif''),
      (''content-type'', ''image/jpeg''), (''content-type'', ''image/png''), (''content-type'', ''text/css''),
      (''content-type'', ''text/html; charset=utf-8''), (''content-type'', ''text/plain''),
      (''content-type'', ''text/plain;charset=utf-8''), (''range'', ''bytes=0-''),
      (''strict-transport-security'', ''max-age=31536000''),
      (''strict-transport-security'', ''max-age=31536000; includesubdomains''),
      (''strict-transport-security'', ''max-age=31536000; includesubdomains; preload''),
      (''vary'', ''accept-encoding''), (''vary'', ''origin''), (''x-content-type-options'', ''nosniff''),
      (''x-xss-protection'', ''1; mode=block''), ('':status'', ''100''), ('':status'', ''204''),
      ('':status'', ''206''), ('':status'', ''302''), ('':status'', ''400''), ('':status'', ''403''),
      ('':status'', ''421''), ('':status'', ''425''), ('':status'', ''500''), (''accept-language'', ''''),
      (''access-control-allow-credentials'', ''FALSE''), (''access-control-allow-credentials'', ''TRUE''),
      (''access-control-allow-headers'', ''*''), (''access-control-allow-methods'', ''get''),
      (''access-control-allow-methods'', ''get, post, options''), (''access-control-allow-methods'', ''options''),
      (''access-control-expose-headers'', ''content-length''),
      (''access-control-request-headers'', ''content-type''), (''access-control-request-method'', ''get''),
      (''access-control-request-method'', ''post''), (''alt-svc'', ''clear''), (''authorization'', ''''),
      (''content-security-policy'', ''script-src 'none'; object-src 'none'; base-uri 'none'' @ [CHR 0x27]),
      (''early-data'', ''1''), (''expect-ct'', ''''), (''forwarded'', ''''), (''if-range'', ''''),
      (''origin'', ''''), (''purpose'', ''prefetch''), (''server'', ''''), (''timing-allow-origin'', ''*''),
      (''upgrade-insecure-requests'', ''1''), (''user-agent'', ''''), (''x-forwarded-for'', ''''),
      (''x-frame-options'', ''deny''), (''x-frame-options'', ''sameorigin'')]"

definition STATIC_TABLE :: "(bytes \<times> bytes) list" where
  "STATIC_TABLE = map (\<lambda>(n, v). (byte_string n, byte_string v)) STATIC_TEXT"

section \<open>Errors\<close>

definition qpack_connection_error :: violation where
  "qpack_connection_error = violation_connection QPACK_DECOMPRESSION_FAILED"

definition qpack_stream_error :: violation where
  "qpack_stream_error = violation_stream QPACK_DECOMPRESSION_FAILED"

definition dynamic_reference :: violation where
  "dynamic_reference = qpack_connection_error"

definition truncated :: violation where
  "truncated = qpack_stream_error"

section \<open>Reading\<close>

definition checked_shl :: "u64 \<Rightarrow> nat \<Rightarrow> u64 option" where
  "checked_shl v s = (if s < 64 then Some (push_bit s v) else None)"

definition checked_add :: "u64 \<Rightarrow> u64 \<Rightarrow> u64 option" where
  "checked_add a b = (if unat a + unat b < 2 ^ 64 then Some (a + b) else None)"

text \<open>The continuation bytes of a prefixed integer.\<close>

fun take_int_loop :: "u64 \<Rightarrow> nat \<Rightarrow> bytes \<Rightarrow> violation + u64 \<times> bytes" where
  "take_int_loop v s [] = Inl truncated"
| "take_int_loop v s (b # rest) =
     (case checked_shl (ucast (b AND 0x7f)) s of
        None \<Rightarrow> Inl qpack_stream_error
      | Some added \<Rightarrow>
          if drop_bit s added = ucast (b AND 0x7f)
          then (case checked_add v added of
                  None \<Rightarrow> Inl qpack_stream_error
                | Some v' \<Rightarrow> if b AND 0x80 = 0 then Inr (v', rest) else take_int_loop v' (s + 7) rest)
          else Inl qpack_stream_error)"

definition prefix_mask :: "nat \<Rightarrow> byte" where
  "prefix_mask prefix_bits = ucast (push_bit prefix_bits 1 - 1 :: u16)"

definition take_int :: "nat \<Rightarrow> bytes \<Rightarrow> violation + byte \<times> u64 \<times> bytes" where
  "take_int prefix_bits buf =
     (case buf of
        [] \<Rightarrow> Inl truncated
      | first # rest \<Rightarrow>
          let mask = prefix_mask prefix_bits;
              flags = ucast (drop_bit prefix_bits (ucast first :: u16));
              v = ucast (first AND mask)
          in if v < ucast mask then Inr (flags, v, rest)
             else and_then (take_int_loop v 0 rest) (\<lambda>(v, rest). Inr (flags, v, rest)))"

definition take_string :: "nat \<Rightarrow> bytes \<Rightarrow> violation + bytes \<times> bytes" where
  "take_string prefix_bits buf =
     and_then (take_int prefix_bits buf) (\<lambda>(flags, len, buf).
       if length buf < unat len then Inl truncated
       else let literal = take (unat len) buf; rest = drop (unat len) buf
            in if flags AND 1 = 0 then Inr (literal, rest)
               else and_then (huffman_decode literal) (\<lambda>s. Inr (s, rest)))"

definition static_entry :: "u64 \<Rightarrow> violation + bytes \<times> bytes" where
  "static_entry index =
     (if unat index < length STATIC_TABLE then Inr (STATIC_TABLE ! unat index) else Inl qpack_connection_error)"

text \<open>One field line: the body of the loop of \<^verbatim>\<open>decode\<close> up to the size check.\<close>

definition take_field :: "byte \<Rightarrow> bytes \<Rightarrow> violation + qfield \<times> bytes" where
  "take_field first buf =
     (if first AND 0x80 \<noteq> 0 then
        and_then (take_int 6 buf) (\<lambda>(_, index, buf).
          if first AND 0x40 = 0 then Inl dynamic_reference
          else and_then (static_entry index) (\<lambda>(n, v). Inr (\<lparr>name = n, val = v\<rparr>, buf)))
      else if first AND 0xc0 = 0x40 then
        and_then (take_int 4 buf) (\<lambda>(_, index, buf).
          if first AND 0x10 = 0 then Inl dynamic_reference
          else and_then (static_entry index) (\<lambda>(n, _).
            and_then (take_string 7 buf) (\<lambda>(v, buf). Inr (\<lparr>name = n, val = v\<rparr>, buf))))
      else if first AND 0xe0 = 0x20 then
        and_then (take_string 3 buf) (\<lambda>(n, buf).
          and_then (take_string 7 buf) (\<lambda>(v, buf). Inr (\<lparr>name = n, val = v\<rparr>, buf)))
      else Inl dynamic_reference)"

lemma take_int_loop_shorter: "take_int_loop v s buf = Inr (w, rest) \<Longrightarrow> length rest < length buf"
  by (induction v s buf rule: take_int_loop.induct) (auto split: option.splits if_splits intro: less_SucI)

lemma take_int_shorter: "take_int p buf = Inr (fl, w, rest) \<Longrightarrow> length rest < length buf"
  by (auto simp: take_int_def Let_def and_then_Inr_iff split: list.splits if_splits dest!: take_int_loop_shorter)

lemma take_string_shorter: "take_string p buf = Inr (s, rest) \<Longrightarrow> length rest < length buf"
  by (auto simp: take_string_def Let_def and_then_Inr_iff split: if_splits dest!: take_int_shorter)

lemma take_field_shorter: "take_field first buf = Inr (f, rest) \<Longrightarrow> length rest < length buf"
  by (auto simp: take_field_def and_then_Inr_iff split: if_splits dest!: take_int_shorter take_string_shorter)

function decode_fields :: "nat \<Rightarrow> nat \<Rightarrow> qfield list \<Rightarrow> bytes \<Rightarrow> violation + qfield list" where
  "decode_fields max_size used acc [] = Inr acc"
| "decode_fields max_size used acc (first # buf) =
     (case take_field first (first # buf) of
        Inl e \<Rightarrow> Inl e
      | Inr (field, rest) \<Rightarrow>
          let used = used + field_size field
          in if used > max_size then Inl field_section_too_large
             else decode_fields max_size used (acc @ [field]) rest)"
  by pat_completeness auto
termination
  by (relation "measure (\<lambda>(_, _, _, buf). length buf)") (auto dest!: take_field_shorter)

definition qpack_decode :: "bytes \<Rightarrow> nat \<Rightarrow> violation + qfield list" where
  "qpack_decode block max_section_size =
     and_then (take_int 8 block) (\<lambda>(_, required_insert_count, buf).
       if required_insert_count \<noteq> 0 then Inl qpack_connection_error
       else and_then (take_int 7 buf) (\<lambda>(flags, delta_base, buf).
         if flags AND 1 = 1 then Inl qpack_connection_error
         else decode_fields max_section_size 0 [] buf))"

section \<open>Writing\<close>

datatype found = Entry u64 | Name u64 | Nothing

fun find_from :: "u64 \<Rightarrow> u64 option \<Rightarrow> (bytes \<times> bytes) list \<Rightarrow> bytes \<Rightarrow> bytes \<Rightarrow> found" where
  "find_from index name_only [] n v = (case name_only of None \<Rightarrow> Nothing | Some i \<Rightarrow> Name i)"
| "find_from index name_only ((en, ev) # entries) n v =
     (if en \<noteq> n then find_from (index + 1) name_only entries n v
      else if ev = v then Entry index
      else find_from (index + 1) (case name_only of None \<Rightarrow> Some index | Some i \<Rightarrow> Some i) entries n v)"

definition find_static :: "bytes \<Rightarrow> bytes \<Rightarrow> found" where
  "find_static n v = find_from 0 None STATIC_TABLE n v"

lemma unat_drop_bit_7: "unat (drop_bit 7 (r :: u64)) = unat r div 128"
  unfolding unat_drop_bit_div by simp

function put_int_loop :: "u64 \<Rightarrow> bytes" where
  "put_int_loop remaining =
     (if remaining \<ge> 0x80 then ((ucast remaining AND 0x7f) OR 0x80) # put_int_loop (drop_bit 7 remaining)
      else [ucast remaining])"
  by pat_completeness auto
termination
  by (relation "measure unat") (simp_all only: in_measure wf_measure unat_drop_bit_7 word_le_nat_alt, simp)

declare put_int_loop.simps [simp del]

definition put_int :: "nat \<Rightarrow> byte \<Rightarrow> u64 \<Rightarrow> bytes" where
  "put_int prefix_bits flags v =
     (let mask = ucast (push_bit prefix_bits 1 - 1 :: u16);
          flags = ucast (push_bit prefix_bits (ucast flags :: u16) AND 0xff)
      in if v < mask then [flags OR ucast v]
         else (flags OR ucast mask) # put_int_loop (v - mask))"

definition put_string :: "nat \<Rightarrow> byte \<Rightarrow> bytes \<Rightarrow> bytes" where
  "put_string prefix_bits flags v = put_int prefix_bits (push_bit 1 flags) (of_nat (length v)) @ v"

fun put_field :: "bytes \<times> bytes \<Rightarrow> bytes" where
  "put_field (n, v) =
     (case find_static n v of
        Entry index \<Rightarrow> put_int 6 3 index
      | Name index \<Rightarrow> put_int 4 5 index @ put_string 7 0 v
      | Nothing \<Rightarrow> put_string 3 2 n @ put_string 7 0 v)"

definition qpack_encode :: "(bytes \<times> bytes) list \<Rightarrow> bytes" where
  "qpack_encode fs = [0, 0] @ concat (map put_field fs)"

section \<open>Prefixed integers\<close>

lemma byte_masks: "(0x7f :: byte) = mask 7" "(0x80 :: byte) = push_bit 7 1"
  by code_simp+

lemma bit_0x80 [simp]: "bit (0x80 :: byte) n \<longleftrightarrow> n = 7"
  unfolding byte_masks(2) bit_push_bit_iff bit_1_iff by auto

lemma top_bit:
  fixes m b :: byte
  assumes "\<And>n. bit m n \<longleftrightarrow> n = 7"
  shows "((b AND mask 7) OR m) AND mask 7 = b AND mask 7" "((b AND mask 7) OR m) AND m = m"
    "\<not> bit b 7 \<Longrightarrow> b AND m = 0"
  by (rule bit_word_eqI, use assms in \<open>auto simp: bit_simps\<close>)+

lemma continuation_bytes:
  "((b AND 0x7f) OR 0x80) AND 0x7f = b AND (0x7f :: byte)" "((b AND 0x7f) OR 0x80) AND 0x80 = (0x80 :: byte)"
  using top_bit(1,2)[of "0x80" b, OF bit_0x80] by (simp_all only: byte_masks(1))

lemma low_7: "(ucast (ucast (r :: u64) AND 0x7f :: byte) :: u64) = take_bit 7 r"
  unfolding byte_masks by (rule bit_word_eqI) (auto simp: bit_simps)

lemma unat_take_bit_7: "unat (take_bit 7 (r :: u64)) = unat r mod 128"
  unfolding unat_take_bit_mod by simp

lemma small_byte:
  assumes "unat (r :: u64) < 128"
  shows "(ucast r :: byte) AND 0x7f = ucast r" "(ucast r :: byte) AND 0x80 = 0" "take_bit 7 r = r"
proof -
  show t: "take_bit 7 r = r" using assms by (simp add: take_bit_word_self_iff)
  have "ucast r = (take_bit 7 (ucast r) :: byte)"
    by (subst t[symmetric], rule bit_word_eqI) (auto simp: bit_simps)
  then show "(ucast r :: byte) AND 0x7f = ucast r" by (simp only: byte_masks take_bit_eq_mask[symmetric])
  have "bit r n \<longrightarrow> n < 7" for n using arg_cong[OF t, of "\<lambda>w. bit w n"] by (auto simp: bit_simps)
  then show "(ucast r :: byte) AND 0x80 = 0"
    using top_bit(3)[of "0x80" "ucast r", OF bit_0x80] by (auto simp: bit_simps)
qed

lemma push_fits:
  assumes "unat (x :: u64) * 2 ^ s < 2 ^ 64"
  shows "unat (push_bit s x) = unat x * 2 ^ s" "drop_bit s (push_bit s x) = x"
proof -
  show p: "unat (push_bit s x) = unat x * 2 ^ s" using assms by (simp add: unat_push_bit_mult)
  have "unat (drop_bit s (push_bit s x)) = unat x"
    unfolding unat_drop_bit_div p by simp
  then show "drop_bit s (push_bit s x) = x" by (simp add: word_unat_eq_iff)
qed

lemma checked_add_fits: "unat a + unat b < 2 ^ 64 \<Longrightarrow> checked_add a b = Some (a + b) \<and> unat (a + b) = unat a + unat b"
  by (simp add: checked_add_def unat_word_ariths)

text \<open>One turn of the reading loop on a group of seven bits that fits.\<close>

lemma take_int_turn:
  fixes x :: u64
  assumes "unat v + unat x * 2 ^ s < 2 ^ 64" "s < 64" "ucast (b AND 0x7f) = x"
  shows "\<exists>w. unat w = unat v + unat x * 2 ^ s
    \<and> take_int_loop v s (b # rest) = (if b AND 0x80 = 0 then Inr (w, rest) else take_int_loop w (s + 7) rest)"
proof -
  have f: "unat x * 2 ^ s < 2 ^ 64" using assms(1) by linarith
  show ?thesis
    using push_fits[OF f] checked_add_fits[of v "push_bit s x"] assms
    by (intro exI[of _ "v + push_bit s x"]) (simp add: checked_shl_def)
qed

lemma take_put_loop:
  assumes "unat v + unat r * 2 ^ s < 2 ^ 64" "s < 64"
  shows "\<exists>w. unat w = unat v + unat r * 2 ^ s \<and> take_int_loop v s (put_int_loop r @ rest) = Inr (w, rest)"
  using assms
proof (induction r arbitrary: v s rule: put_int_loop.induct)
  case (1 r)
  show ?case
  proof (cases "r \<ge> 0x80")
    case False
    then have r: "unat r < 128" by (simp add: word_le_nat_alt)
    then have "ucast (ucast r AND 0x7f :: byte) = r" using small_byte[OF r] low_7[of r] by simp
    from take_int_turn[OF 1(2,3) this] False show ?thesis
      using small_byte(2)[OF r] by (simp add: put_int_loop.simps[of r])
  next
    case True
    then have r: "128 \<le> unat r" by (simp add: word_le_nat_alt)
    let ?b = "(ucast r AND 0x7f) OR 0x80 :: byte"
    have x: "ucast (?b AND 0x7f) = take_bit 7 r" by (simp only: continuation_bytes low_7)
    have "unat r * 2 ^ s = (unat r mod 128 + unat r div 128 * 128) * 2 ^ s" by simp
    then have sum: "unat r * 2 ^ s = unat r mod 128 * 2 ^ s + unat r div 128 * 2 ^ (s + 7)"
      by (simp only: add_mult_distrib power_add) simp
    have "unat v + unat (take_bit 7 r) * 2 ^ s < 2 ^ 64" using 1(2) sum by (simp add: unat_take_bit_7)
    from take_int_turn[OF this 1(3) x, of "put_int_loop (drop_bit 7 r) @ rest"] obtain w where
      w: "unat w = unat v + unat r mod 128 * 2 ^ s"
      "take_int_loop v s (?b # put_int_loop (drop_bit 7 r) @ rest) = take_int_loop w (s + 7) (put_int_loop (drop_bit 7 r) @ rest)"
      by (auto simp: unat_take_bit_7 continuation_bytes)
    have "2 ^ (s + 7) \<le> unat r * 2 ^ s" using r by (simp add: power_add)
    then have "(2 :: nat) ^ (s + 7) < 2 ^ 64" using 1(2) by linarith
    then have "s + 7 < 64" by (rule power_less_imp_less_exp[rotated]) simp
    moreover have "unat w + unat (drop_bit 7 r) * 2 ^ (s + 7) = unat v + unat r * 2 ^ s"
      using w(1) sum by (simp add: unat_drop_bit_7)
    ultimately show ?thesis
      using 1(1)[OF True, of w "s + 7"] 1(2) w(2) True by (simp add: put_int_loop.simps[of r])
  qed
qed

lemma prefix_masks:
  assumes "p \<le> 8"
  shows "(ucast (push_bit p 1 - 1 :: u16) :: byte) = mask p" "(ucast (push_bit p 1 - 1 :: u16) :: u64) = mask p"
proof -
  have m: "push_bit p 1 - 1 = (mask p :: u16)" by (simp add: mask_eq_exp_minus_1 push_bit_eq_mult)
  show "(ucast (push_bit p 1 - 1 :: u16) :: byte) = mask p" "(ucast (push_bit p 1 - 1 :: u16) :: u64) = mask p"
    unfolding m using assms by (rule_tac [!] bit_word_eqI) (auto simp: bit_simps)
qed

lemma flags_shifted:
  "ucast (push_bit p (ucast (flags :: byte) :: u16) AND 0xff) = push_bit p flags"
proof -
  have e: "(0xff :: u16) = mask 8" by code_simp
  show ?thesis unfolding e by (rule bit_word_eqI) (auto simp: bit_simps)
qed

lemma first_byte_parts:
  assumes "p \<le> 8" "unat (flags :: byte) < 2 ^ (8 - p)" "unat (w :: u64) < 2 ^ p"
  shows "ucast (drop_bit p (ucast (push_bit p flags OR ucast w :: byte) :: u16)) = flags"
    "ucast ((push_bit p flags OR ucast w :: byte) AND mask p) = w"
proof -
  have tb: "take_bit (8 - p) flags = flags" "take_bit p w = w" using assms by (simp_all add: take_bit_word_self_iff)
  have hi: "bit flags n \<Longrightarrow> n < 8 - p" and lo: "bit w n \<Longrightarrow> n < p" for n
    using arg_cong[OF tb(1), of "\<lambda>x. bit x n"] arg_cong[OF tb(2), of "\<lambda>x. bit x n"] by (auto simp: bit_simps)
  show "ucast (drop_bit p (ucast (push_bit p flags OR ucast w :: byte) :: u16)) = flags"
    using assms(1) by (intro bit_word_eqI) (auto simp: bit_simps dest: hi lo)
  show "ucast ((push_bit p flags OR ucast w :: byte) AND mask p) = w"
    using assms(1) by (intro bit_word_eqI) (auto simp: bit_simps dest: lo hi)
qed

lemma unat_mask_u64: "p \<le> 8 \<Longrightarrow> unat (mask p :: u64) = 2 ^ p - 1"
proof -
  have "list_all (\<lambda>p. unat (mask p :: u64) = 2 ^ p - 1) [0..<9]" by code_simp
  then show "p \<le> 8 \<Longrightarrow> ?thesis" by (simp add: list_all_iff)
qed

lemma take_put_int:
  assumes "p \<le> 8" "unat flags < 2 ^ (8 - p)"
  shows "take_int p (put_int p flags v @ rest) = Inr (flags, v, rest)"
proof -
  have um: "(ucast (mask p :: byte) :: u64) = mask p" using assms(1) by (intro bit_word_eqI) (auto simp: bit_simps)
  show ?thesis
  proof (cases "v < mask p")
    case True
    then have "unat v < 2 ^ p" using unat_mask_u64[OF assms(1)] by (simp add: word_less_nat_alt)
    with True first_byte_parts[OF assms, of v] um show ?thesis
      unfolding take_int_def put_int_def prefix_mask_def Let_def prefix_masks[OF assms(1)] flags_shifted by simp
  next
    case False
    let ?m = "mask p :: u64"
    have m: "unat ?m < 2 ^ p" using unat_mask_u64[OF assms(1)] by simp
    have "unat ?m \<le> unat v" using False by (simp add: word_less_nat_alt)
    then have sub: "unat (v - ?m) = unat v - unat ?m" by (simp add: unat_sub word_le_nat_alt)
    have "unat v < 2 ^ 64" using unsigned_less[of v, where 'a = nat] by simp
    with sub \<open>unat ?m \<le> unat v\<close> take_put_loop[of ?m "v - ?m" 0 rest] obtain w where
      w: "unat w = unat v" "take_int_loop ?m 0 (put_int_loop (v - ?m) @ rest) = Inr (w, rest)" by auto
    then have "w = v" by (simp add: word_unat_eq_iff)
    with w False first_byte_parts[OF assms m] um show ?thesis
      unfolding take_int_def put_int_def prefix_mask_def Let_def prefix_masks[OF assms(1)] flags_shifted by simp
  qed
qed

section \<open>Strings and field lines\<close>

lemma take_put_string:
  assumes "p \<le> 8" "unat (push_bit 1 flags :: byte) < 2 ^ (8 - p)" "push_bit 1 flags AND 1 = 0" "length v < 2 ^ 64"
  shows "take_string p (put_string p flags v @ rest) = Inr (v, rest)"
proof -
  have "unat (of_nat (length v) :: u64) = length v"
    using assms(4) by (simp add: unsigned_of_nat take_bit_nat_eq_self)
  with assms(3) take_put_int[OF assms(1,2)] show ?thesis
    unfolding take_string_def put_string_def by simp
qed

lemma put_int_first:
  assumes "p \<le> 8"
  obtains y tail where "put_int p flags v = (push_bit p flags OR y) # tail" "take_bit p y = (y :: byte)"
proof (cases "v < mask p")
  case True
  then have "unat v < 2 ^ p" using unat_mask_u64[OF assms] by (simp add: word_less_nat_alt)
  then have "take_bit p v = v" by (simp add: take_bit_word_self_iff)
  then have "ucast v = (take_bit p (ucast v) :: byte)"
    by (intro bit_word_eqI) (metis bit_take_bit_iff bit_ucast_iff)
  with True that[of "ucast v" "[]"] show ?thesis
    unfolding put_int_def Let_def prefix_masks[OF assms] flags_shifted by simp
next
  case False
  have "take_bit p (ucast (mask p :: u64)) = (ucast (mask p :: u64) :: byte)"
    by (rule bit_word_eqI) (auto simp: bit_simps)
  with False that[of "ucast (mask p :: u64)" "put_int_loop (v - mask p)"] show ?thesis
    unfolding put_int_def Let_def prefix_masks[OF assms] flags_shifted by simp
qed

text \<open>Above the prefix the first byte holds the flags.\<close>

lemma first_and:
  fixes y m :: byte
  assumes "take_bit p y = y" "take_bit p m = 0"
  shows "(f OR y) AND m = f AND m"
proof (rule bit_word_eqI)
  fix n :: nat
  have "bit y n \<Longrightarrow> n < p" "n < p \<Longrightarrow> \<not> bit m n"
    using arg_cong[OF assms(1), of "\<lambda>x. bit x n"] arg_cong[OF assms(2), of "\<lambda>x. bit x n"] by (auto simp: bit_simps)
  then show "bit ((f OR y) AND m) n = bit (f AND m) n" by (auto simp: bit_simps)
qed

lemma flag_masks:
  "take_bit 6 (0x80 :: byte) = 0" "take_bit 6 (0x40 :: byte) = 0" "take_bit 4 (0x80 :: byte) = 0"
  "take_bit 4 (0xc0 :: byte) = 0" "take_bit 4 (0x10 :: byte) = 0" "take_bit 3 (0x80 :: byte) = 0"
  "take_bit 3 (0xc0 :: byte) = 0" "take_bit 3 (0xe0 :: byte) = 0"
  by code_simp+

lemma flag_values:
  "push_bit 6 3 AND 0x80 = (0x80 :: byte)" "push_bit 6 3 AND 0x40 = (0x40 :: byte)"
  "push_bit 4 5 AND 0x80 = (0 :: byte)" "push_bit 4 5 AND 0xc0 = (0x40 :: byte)" "push_bit 4 5 AND 0x10 = (0x10 :: byte)"
  "push_bit 3 4 AND 0x80 = (0 :: byte)" "push_bit 3 4 AND 0xc0 = (0 :: byte)" "push_bit 3 4 AND 0xe0 = (0x20 :: byte)"
  by code_simp+

fun points_at :: "(bytes \<times> bytes) list \<Rightarrow> bytes \<Rightarrow> bytes \<Rightarrow> found \<Rightarrow> bool" where
  "points_at L n v (Entry i) \<longleftrightarrow> unat i < length L \<and> L ! unat i = (n, v)"
| "points_at L n v (Name i) \<longleftrightarrow> unat i < length L \<and> fst (L ! unat i) = n"
| "points_at L n v Nothing \<longleftrightarrow> True"

lemma find_from_sound:
  assumes "L = pre @ es" "length L < 2 ^ 64" "\<And>i. name_only = Some i \<Longrightarrow> points_at L n v (Name i)"
  shows "points_at L n v (find_from (of_nat (length pre)) name_only es n v)"
  using assms
proof (induction es arbitrary: name_only pre)
  case Nil
  then show ?case by (simp split: option.splits)
next
  case (Cons e es)
  obtain en ev where e: "e = (en, ev)" by fastforce
  have here: "unat (of_nat (length pre) :: u64) = length pre" "L ! length pre = (en, ev)"
    using Cons.prems e by (simp_all add: unsigned_of_nat take_bit_nat_eq_self)
  have IH: "points_at L n v (find_from (of_nat (length pre) + 1) no es n v)"
    if "\<And>i. no = Some i \<Longrightarrow> points_at L n v (Name i)" for no
    using Cons.IH[of "pre @ [e]" no] that Cons.prems(1,2) by (simp add: add.commute)
  show ?case
  proof (cases "en = n \<and> ev = v")
    case True
    then show ?thesis using e here Cons.prems(1) by simp
  next
    case False
    have "points_at L n v (Name (of_nat (length pre)))" if "en = n" using that here Cons.prems(1) by simp
    then show ?thesis
      using IH[OF Cons.prems(3)] IH[of "case name_only of None \<Rightarrow> Some (of_nat (length pre)) | Some i \<Rightarrow> Some i"]
        Cons.prems(3) e False by (auto split: option.splits)
  qed
qed

lemma find_static_sound:
  "find_static n v = Entry i \<Longrightarrow> static_entry i = Inr (n, v)"
  "find_static n v = Name i \<Longrightarrow> \<exists>w. static_entry i = Inr (n, w)"
proof -
  have len: "length STATIC_TABLE < 2 ^ 64" by (simp add: STATIC_TABLE_def STATIC_TEXT_def)
  note f = find_from_sound[of STATIC_TABLE "[]" STATIC_TABLE None n v]
  show "find_static n v = Entry i \<Longrightarrow> static_entry i = Inr (n, v)"
    using f len by (simp add: find_static_def static_entry_def)
  show "find_static n v = Name i \<Longrightarrow> \<exists>w. static_entry i = Inr (n, w)"
    using f len by (cases "STATIC_TABLE ! unat i") (simp add: find_static_def static_entry_def)
qed

lemma take_put_field:
  assumes "length n < 2 ^ 64" "length v < 2 ^ 64"
  shows "\<exists>first tail. put_field (n, v) = first # tail
    \<and> take_field first (put_field (n, v) @ rest) = Inr (\<lparr>name = n, val = v\<rparr>, rest)"
proof (cases "find_static n v")
  case (Entry i)
  obtain y t where y: "put_int 6 3 i = (push_bit 6 3 OR y) # t" "take_bit 6 y = y" by (rule put_int_first[of 6]) simp
  have "take_int 6 (put_int 6 3 i @ rest) = Inr (3, i, rest)" by (rule take_put_int) simp_all
  then show ?thesis
    using Entry find_static_sound(1)[OF Entry] y
    by (simp add: take_field_def first_and[OF y(2)] flag_masks flag_values)
next
  case (Name i)
  obtain y t where y: "put_int 4 5 i = (push_bit 4 5 OR y) # t" "take_bit 4 y = y" by (rule put_int_first[of 4]) simp
  obtain w where "static_entry i = Inr (n, w)" using find_static_sound(2)[OF Name] by blast
  moreover have "take_int 4 (put_int 4 5 i @ put_string 7 0 v @ rest) = Inr (5, i, put_string 7 0 v @ rest)"
    by (rule take_put_int) simp_all
  moreover have "take_string 7 (put_string 7 0 v @ rest) = Inr (v, rest)"
    by (rule take_put_string) (use assms in simp_all)
  ultimately show ?thesis
    using Name y by (simp add: take_field_def first_and[OF y(2)] flag_masks flag_values)
next
  case Nothing
  obtain y t where y: "put_int 3 4 (of_nat (length n)) = (push_bit 3 4 OR y) # t" "take_bit 3 y = y"
    by (rule put_int_first[of 3]) simp
  have ps: "put_string 3 2 n = put_int 3 4 (of_nat (length n)) @ n" by (simp add: put_string_def)
  have "take_string 3 (put_string 3 2 n @ put_string 7 0 v @ rest) = Inr (n, put_string 7 0 v @ rest)"
    by (rule take_put_string) (use assms in simp_all)
  moreover have "take_string 7 (put_string 7 0 v @ rest) = Inr (v, rest)"
    by (rule take_put_string) (use assms in simp_all)
  ultimately show ?thesis
    using Nothing y ps by (simp add: take_field_def first_and[OF y(2)] flag_masks flag_values)
qed

definition as_field :: "bytes \<times> bytes \<Rightarrow> qfield" where
  "as_field p = \<lparr>name = fst p, val = snd p\<rparr>"

lemma decode_put_fields:
  assumes "used + sum_list (map (field_size \<circ> as_field) fs) \<le> m" "m < 2 ^ 64"
  shows "decode_fields m used acc (concat (map put_field fs)) = Inr (acc @ map as_field fs)"
  using assms(1)
proof (induction fs arbitrary: used acc)
  case (Cons p fs)
  obtain n v where p: "p = (n, v)" by fastforce
  have "length n < 2 ^ 64" "length v < 2 ^ 64"
    using Cons.prems assms(2) p by (simp_all add: as_field_def field_size_def)
  from take_put_field[OF this, of "concat (map put_field fs)"] obtain first tail where f: "put_field p = first # tail"
    "take_field first (put_field p @ concat (map put_field fs)) = Inr (as_field p, concat (map put_field fs))"
    unfolding p as_field_def by (auto simp del: put_field.simps)
  have "decode_fields m used acc (concat (map put_field (p # fs))) = decode_fields m used acc (first # tail @ concat (map put_field fs))"
    by (simp only: f(1) list.map concat.simps append_Cons)
  also have "\<dots> = decode_fields m (used + field_size (as_field p)) (acc @ [as_field p]) (concat (map put_field fs))"
    using f Cons.prems by simp
  also have "\<dots> = Inr (acc @ map as_field (p # fs))" using Cons.IH[of "used + field_size (as_field p)"] Cons.prems by simp
  finally show ?case .
qed simp

text \<open>A section takes no more bytes than its size counts, beside the two of its prefix.\<close>

lemma put_int_loop_length: "unat w < 128 ^ k \<Longrightarrow> 0 < k \<Longrightarrow> length (put_int_loop w) \<le> k"
proof (induction w arbitrary: k rule: put_int_loop.induct)
  case (1 w)
  show ?case
  proof (cases "0x80 \<le> w")
    case True
    then have w: "128 \<le> unat w" by (simp add: word_le_nat_alt)
    with 1(2) have "k \<noteq> 1" by auto
    with 1(3) obtain j where j: "k = Suc j" "0 < j" by (cases k) auto
    with 1(2) have "unat (drop_bit 7 w) < 128 ^ j"
      by (simp add: unat_drop_bit_7 less_mult_imp_div_less mult.commute)
    with 1(1)[OF True, of j] j True show ?thesis by (subst put_int_loop.simps) simp
  next
    case False
    with 1(3) show ?thesis by (subst put_int_loop.simps) simp
  qed
qed

lemma put_int_length: "length (put_int p f v) \<le> 11"
proof -
  have "unat w < 128 ^ 10" for w :: u64 using unsigned_less[of w, where 'a = nat] by (rule order_less_le_trans) simp
  from put_int_loop_length[OF this] show ?thesis by (auto simp: put_int_def Let_def le_SucI)
qed

lemma put_field_length: "length (put_field f) \<le> field_size (as_field f)"
proof -
  have p: "length (put_int p f v) \<le> 11" for p f v by (rule put_int_length)
  obtain n v where f: "f = (n, v)" by (cases f)
  show ?thesis
  proof (cases "find_static n v")
    case (Entry index)
    with p[of 6 3 index] show ?thesis by (simp add: f as_field_def field_size_def FIELD_OVERHEAD_def)
  next
    case (Name index)
    with p[of 4 5 index] p[of 7 "push_bit 1 0" "of_nat (length v)"] show ?thesis
      by (simp add: f as_field_def field_size_def FIELD_OVERHEAD_def put_string_def)
  next
    case Nothing
    with p[of 3 "push_bit 1 2" "of_nat (length n)"] p[of 7 "push_bit 1 0" "of_nat (length v)"] show ?thesis
      by (simp add: f as_field_def field_size_def FIELD_OVERHEAD_def put_string_def)
  qed
qed

lemma qpack_encode_length: "length (qpack_encode fs) \<le> 2 + sum_list (map (field_size \<circ> as_field) fs)"
  unfolding qpack_encode_def by (induction fs) (auto intro: add_mono put_field_length order_trans)

lemma qpack_decode_encode:
  assumes "sum_list (map (field_size \<circ> as_field) fs) \<le> m" "m < 2 ^ 64"
  shows "qpack_decode (qpack_encode fs) m = Inr (map as_field fs)"
proof -
  have "take_int 8 (0 # 0 # concat (map put_field fs)) = Inr (0, 0, 0 # concat (map put_field fs))"
    "take_int 7 (0 # concat (map put_field fs)) = Inr (0, 0, concat (map put_field fs))"
    using take_put_int[of 8 0 0 "0 # concat (map put_field fs)"] take_put_int[of 7 0 0 "concat (map put_field fs)"]
    by (simp_all add: put_int_def)
  with decode_put_fields[of 0 fs m "[]"] assms show ?thesis
    by (simp add: qpack_decode_def qpack_encode_def)
qed

text \<open>
  C36. A field section this server writes is read back as the same fields in the same order, whether a
  field is a static table entry, has a static name or neither, as long as it keeps the size limit.
\<close>
theorem qpack_roundtrip:
  assumes "sum_list (map (field_size \<circ> as_field) fs) \<le> m" "m < 2 ^ 64"
  shows "qpack_decode (qpack_encode fs) m = Inr (map as_field fs)"
  using assms by (rule qpack_decode_encode)

theorem qpack_roundtrip_witness:
  "qpack_decode (qpack_encode [(byte_string '':status'', byte_string ''200''), (byte_string ''capsule-protocol'', [0x3f, 0x31])]) 200
   = Inr [\<lparr>name = byte_string '':status'', val = byte_string ''200''\<rparr>, \<lparr>name = byte_string ''capsule-protocol'', val = [0x3f, 0x31]\<rparr>]"
  using qpack_roundtrip[of "[(byte_string '':status'', byte_string ''200''), (byte_string ''capsule-protocol'', [0x3f, 0x31])]" 200]
  by (simp add: as_field_def field_size_def byte_string_def FIELD_OVERHEAD_def)

section \<open>What decoding promises\<close>

lemma take_int_error: "take_int p buf = Inl e \<Longrightarrow> e = qpack_stream_error"
proof -
  have loop: "take_int_loop v s bs = Inl e \<Longrightarrow> e = qpack_stream_error" for v s bs
    by (induction v s bs rule: take_int_loop.induct) (auto simp: truncated_def split: option.splits if_splits)
  show "take_int p buf = Inl e \<Longrightarrow> e = qpack_stream_error"
    by (auto simp: take_int_def Let_def truncated_def and_then_Inl_iff split: list.splits if_splits dest: loop)
qed

lemma huffman_error: "huffman_decode xs = Inl e \<Longrightarrow> e = qpack_stream_error"
  by (auto simp: huffman_decode_def qpack_stream_error_def and_then_Inl_iff failed_def[symmetric] dest: decode_bits_errors
      split: if_splits)

lemma take_string_error: "take_string p buf = Inl e \<Longrightarrow> e = qpack_stream_error"
  by (auto simp: take_string_def Let_def truncated_def and_then_Inl_iff split: if_splits
      dest: take_int_error huffman_error)

lemma take_field_error: "take_field first buf = Inl e \<Longrightarrow> e \<in> {qpack_stream_error, qpack_connection_error}"
  by (auto simp: take_field_def static_entry_def dynamic_reference_def and_then_Inl_iff split: if_splits
      dest: take_int_error take_string_error)

lemma decode_fields_error:
  "decode_fields m used acc buf = Inl e \<Longrightarrow> e \<in> {qpack_stream_error, qpack_connection_error, field_section_too_large}"
  by (induction m used acc buf rule: decode_fields.induct)
    (auto simp: Let_def split: sum.splits if_splits dest: take_field_error)

lemma decode_fields_grow:
  "decode_fields m used acc buf = Inr fs \<Longrightarrow> used = sum_list (map field_size acc) \<Longrightarrow> used \<le> m
    \<Longrightarrow> used \<le> sum_list (map field_size fs) \<and> sum_list (map field_size fs) \<le> m"
proof (induction m used acc buf rule: decode_fields.induct)
  case (2 m used acc first buf)
  then show ?case by (fastforce simp: Let_def split: sum.splits if_splits)
qed simp

lemma decode_fields_limit:
  "decode_fields M used acc buf = Inr fs \<Longrightarrow> used = sum_list (map field_size acc) \<Longrightarrow> used \<le> m \<Longrightarrow> m \<le> M
    \<Longrightarrow> decode_fields m used acc buf
      = (if sum_list (map field_size fs) \<le> m then Inr fs else Inl field_section_too_large)"
proof (induction M used acc buf rule: decode_fields.induct)
  case (2 M used acc first buf)
  obtain f rest where t: "take_field first (first # buf) = Inr (f, rest)"
    and le: "used + field_size f \<le> M"
    and d: "decode_fields M (used + field_size f) (acc @ [f]) rest = Inr fs"
    using 2(2) by (auto simp: Let_def split: sum.splits if_splits)
  show ?case
  proof (cases "used + field_size f \<le> m")
    case True
    then show ?thesis using 2(1)[OF t refl refl _ d] t 2(3,5) le by simp
  next
    case False
    then show ?thesis using decode_fields_grow[OF d] t 2(3) le by simp
  qed
qed simp

text \<open>
  The size limit is enforced exactly: what a limit accepts is within it, and a section some larger
  limit accepts is accepted unchanged when its fields (name, value and 32 bytes each) fit and refused
  as too large otherwise. Every other refusal is \<^verbatim>\<open>QPACK_DECOMPRESSION_FAILED\<close>.
\<close>
theorem qpack_size_limit:
  assumes "qpack_decode block M = Inr fs" "m \<le> M"
  shows "sum_list (map field_size fs) \<le> M
    \<and> qpack_decode block m = (if sum_list (map field_size fs) \<le> m then Inr fs else Inl field_section_too_large)
    \<and> {e. qpack_decode other m = Inl e} \<subseteq> {violation_stream QPACK_DECOMPRESSION_FAILED,
         violation_connection QPACK_DECOMPRESSION_FAILED, field_section_too_large}"
proof -
  obtain fl ric buf1 fl2 db buf where b: "take_int 8 block = Inr (fl, ric, buf1)" "ric = 0"
    "take_int 7 buf1 = Inr (fl2, db, buf)" "fl2 AND 1 \<noteq> 1" "decode_fields M 0 [] buf = Inr fs"
    using assms(1) by (auto simp: qpack_decode_def and_then_Inr_iff split: if_splits)
  have "e \<in> {qpack_stream_error, qpack_connection_error, field_section_too_large}" if "qpack_decode other m = Inl e" for e
    using that by (auto simp: qpack_decode_def and_then_Inl_iff split: if_splits dest: take_int_error decode_fields_error)
  then show ?thesis
    using decode_fields_grow[OF b(5)] decode_fields_limit[OF b(5), of m] assms(2) b
    by (auto simp: qpack_decode_def qpack_stream_error_def qpack_connection_error_def)
qed

theorem qpack_size_limit_witness:
  "qpack_decode (qpack_encode [(byte_string '':status'', byte_string ''200'')]) 42
     = Inr [\<lparr>name = byte_string '':status'', val = byte_string ''200''\<rparr>]
   \<and> qpack_decode (qpack_encode [(byte_string '':status'', byte_string ''200'')]) 41 = Inl field_section_too_large"
proof -
  let ?b = "qpack_encode [(byte_string '':status'', byte_string ''200'')]"
  have d: "qpack_decode ?b 42 = Inr [\<lparr>name = byte_string '':status'', val = byte_string ''200''\<rparr>]"
    using qpack_decode_encode[of "[(byte_string '':status'', byte_string ''200'')]" 42]
    by (simp add: as_field_def field_size_def byte_string_def FIELD_OVERHEAD_def)
  with qpack_size_limit[OF d, of 41 ?b] show ?thesis by (simp add: field_size_def byte_string_def FIELD_OVERHEAD_def)
qed

end
