(* ===== verification/Request.thy ===== *)
theory Request
  imports Message Qpack
begin

text \<open>
  \<^verbatim>\<open>src/src/h3/stream.rs\<close>, the part that turns a decoded field section into a request: pseudo-header
  rules, field rules, and the syntax of scheme, authority, path and protocol. The result is compared
  with a declarative account of which field sections are well-formed requests.
\<close>

section \<open>The rules as the code applies them\<close>

definition malformed :: violation where
  "malformed = violation_stream H3_MESSAGE_ERROR"

definition AUTHORITY_PUNCTUATION :: bytes where
  "AUTHORITY_PUNCTUATION = byte_string ''-._~%!$&'()*+,;=:@[]''"

definition is_pchar :: "byte \<Rightarrow> bool" where
  "is_pchar b \<longleftrightarrow> is_ascii_alphanumeric b \<or> b \<in> set (byte_string ''-._~%!$&'()*+,;=:@'')"

definition ascii :: "bytes \<Rightarrow> violation + bytes" where
  "ascii bs = ok_or (from_utf8 bs) malformed"

definition connect_protocol :: "bytes \<Rightarrow> violation + bytes" where
  "connect_protocol p = ok_or (token p) malformed"

definition uri_scheme :: "bytes \<Rightarrow> violation + bytes" where
  "uri_scheme scheme =
     (if \<not> (case scheme of [] \<Rightarrow> False | b # _ \<Rightarrow> is_ascii_alphabetic b)
         \<or> \<not> list_all (\<lambda>b. is_ascii_alphanumeric b \<or> b = 0x2b \<or> b = 0x2d \<or> b = 0x2e) scheme
      then Inl malformed else ascii scheme)"

definition uri_authority :: "bytes \<Rightarrow> violation + bytes" where
  "uri_authority authority =
     (if authority = [] then Inl malformed
      else if \<not> list_all (\<lambda>b. is_ascii_alphanumeric b \<or> b \<in> set AUTHORITY_PUNCTUATION) authority then Inl malformed
      else ascii authority)"

definition split_target :: "bytes \<Rightarrow> bool \<Rightarrow> violation + bytes \<times> bytes option" where
  "split_target target extended =
     (if target = byte_string ''*'' \<and> \<not> extended then Inr (byte_string ''*'', None)
      else if (case target of [] \<Rightarrow> True | b # _ \<Rightarrow> b \<noteq> 0x2f) then Inl malformed
      else
        let (path, query) =
              (case position (\<lambda>b. b = 0x3f) target of
                 Some mark \<Rightarrow> (take mark target, Some (drop (mark + 1) target))
               | None \<Rightarrow> (target, None))
        in if \<not> list_all (\<lambda>b. is_pchar b \<or> b = 0x2f) path then Inl malformed
           else if \<not> (case query of None \<Rightarrow> True | Some q \<Rightarrow> list_all (\<lambda>b. is_pchar b \<or> b = 0x2f \<or> b = 0x3f) q)
           then Inl malformed
           else and_then (ascii path) (\<lambda>path.
             case query of
               None \<Rightarrow> Inr (path, None)
             | Some q \<Rightarrow> and_then (ascii q) (\<lambda>q. Inr (path, Some q))))"

definition is_ows :: "byte \<Rightarrow> bool" where
  "is_ows b \<longleftrightarrow> b = 0x20 \<or> b = 0x09"

definition trim_optional_whitespace :: "bytes \<Rightarrow> bytes" where
  "trim_optional_whitespace v = rev (dropWhile is_ows (rev (dropWhile is_ows v)))"

definition add_field :: "fields \<Rightarrow> bytes \<Rightarrow> bytes \<Rightarrow> violation + fields" where
  "add_field fs n v =
     and_then (ok_or (field_name n) malformed) (\<lambda>n.
       and_then (ok_or (field_value_parse (trim_optional_whitespace v)) malformed) (\<lambda>v.
         if n = byte_string ''connection'' then Inl malformed
         else if n = byte_string ''te'' \<and> v \<noteq> byte_string ''trailers'' then Inl malformed
         else if n = byte_string ''host'' \<and> fields_contains fs (byte_string ''host'') then Inl malformed
         else Inr (fields_append fs n v)))"

record section_scan =
  sc_method :: "bytes option"
  sc_scheme :: "bytes option"
  sc_authority :: "bytes option"
  sc_target :: "bytes option"
  sc_protocol :: "bytes option"
  sc_fields :: fields
  regular_field_seen :: bool

text \<open>\<^verbatim>\<open>slot.replace(value)\<close>: the slot is filled, and must have been empty.\<close>

definition fill :: "bytes option \<Rightarrow> section_scan \<Rightarrow> violation + section_scan" where
  "fill slot sc = (if slot \<noteq> None then Inl malformed else Inr sc)"

definition scan_field :: "section_scan \<Rightarrow> qfield \<Rightarrow> violation + section_scan" where
  "scan_field sc f =
     (if \<not> (case name f of [] \<Rightarrow> False | b # _ \<Rightarrow> b = 0x3a)
      then and_then (add_field (sc_fields sc) (name f) (val f))
             (\<lambda>fs. Inr (sc\<lparr>sc_fields := fs, regular_field_seen := True\<rparr>))
      else if regular_field_seen sc then Inl malformed
      else if name f = byte_string '':method'' then fill (sc_method sc) (sc\<lparr>sc_method := Some (val f)\<rparr>)
      else if name f = byte_string '':scheme'' then fill (sc_scheme sc) (sc\<lparr>sc_scheme := Some (val f)\<rparr>)
      else if name f = byte_string '':authority'' then fill (sc_authority sc) (sc\<lparr>sc_authority := Some (val f)\<rparr>)
      else if name f = byte_string '':path'' then fill (sc_target sc) (sc\<lparr>sc_target := Some (val f)\<rparr>)
      else if name f = byte_string '':protocol'' then fill (sc_protocol sc) (sc\<lparr>sc_protocol := Some (val f)\<rparr>)
      else Inl malformed)"

fun scan_section :: "section_scan \<Rightarrow> qfield list \<Rightarrow> violation + section_scan" where
  "scan_section sc [] = Inr sc"
| "scan_section sc (f # fs) = and_then (scan_field sc f) (\<lambda>sc. scan_section sc fs)"

definition empty_scan :: section_scan where
  "empty_scan = \<lparr>sc_method = None, sc_scheme = None, sc_authority = None, sc_target = None, sc_protocol = None,
     sc_fields = [], regular_field_seen = False\<rparr>"

text \<open>The authority a request other than plain CONNECT names.\<close>

definition named_authority :: "section_scan \<Rightarrow> violation + bytes" where
  "named_authority sc =
     (case (sc_authority sc, fields_get (sc_fields sc) (byte_string ''host'')) of
        (Some authority, Some host) \<Rightarrow> if authority \<noteq> host then Inl malformed else Inr authority
      | (Some authority, None) \<Rightarrow> Inr authority
      | (None, host) \<Rightarrow>
          if sc_protocol sc \<noteq> None then Inl malformed
          else case host of Some host \<Rightarrow> Inr host | None \<Rightarrow> Inl malformed)"

definition request_target ::
  "section_scan \<Rightarrow> http_method \<Rightarrow> violation + bytes option \<times> bytes option \<times> bytes option \<times> bytes option" where
  "request_target sc m =
     (if m = Connect \<and> sc_protocol sc = None then
        if sc_scheme sc \<noteq> None \<or> sc_target sc \<noteq> None then Inl malformed
        else and_then (ok_or (sc_authority sc) malformed) (\<lambda>authority.
          and_then (uri_authority authority) (\<lambda>authority. Inr (None, Some authority, None, None)))
      else
        and_then (ok_or (sc_scheme sc) malformed) (\<lambda>scheme.
        and_then (ok_or (sc_target sc) malformed) (\<lambda>target.
        and_then (named_authority sc) (\<lambda>named.
        and_then (split_target target (sc_protocol sc \<noteq> None)) (\<lambda>(path, query).
        and_then (uri_scheme scheme) (\<lambda>scheme.
        and_then (uri_authority named) (\<lambda>authority.
          Inr (Some scheme, Some authority, Some path, query))))))))"

text \<open>What follows the loop over the section.\<close>

definition finish_request :: "section_scan \<Rightarrow> violation + request" where
  "finish_request sc =
     and_then (ok_or (sc_method sc) malformed) (\<lambda>m.
     and_then (ok_or (method_parse m) malformed) (\<lambda>m.
       if sc_protocol sc \<noteq> None \<and> m \<noteq> Connect then Inl malformed
       else and_then (request_target sc m) (\<lambda>(scheme, authority, path, query).
         and_then (case sc_protocol sc of None \<Rightarrow> Inr None | Some p \<Rightarrow> and_then (connect_protocol p) (\<lambda>p. Inr (Some p)))
           (\<lambda>protocol.
             Inr \<lparr>req_method = m, req_scheme = scheme, req_authority = authority, req_path = path, req_query = query,
                  req_protocol = protocol, req_fields = sc_fields sc\<rparr>))))"

definition build_request :: "qfield list \<Rightarrow> violation + request" where
  "build_request sect = and_then (scan_section empty_scan sect) finish_request"

section \<open>Which field sections are requests\<close>

definition pseudo_names :: "bytes list" where
  "pseudo_names = map byte_string ['':method'', '':scheme'', '':authority'', '':path'', '':protocol'']"

text \<open>The pseudo-header fields of a section, as a map.\<close>

definition pseudo :: "qfield list \<Rightarrow> bytes \<Rightarrow> bytes option" where
  "pseudo ps n = map_of (map (\<lambda>f. (name f, val f)) ps) n"

definition regular_field_ok :: "qfield \<Rightarrow> bool" where
  "regular_field_ok f \<longleftrightarrow>
     name f \<noteq> [] \<and> list_all is_tchar (name f) \<and> \<not> list_ex is_ascii_uppercase (name f)
     \<and> is_field_value (trim_optional_whitespace (val f))
     \<and> name f \<noteq> byte_string ''connection''
     \<and> (name f = byte_string ''te'' \<longrightarrow> trim_optional_whitespace (val f) = byte_string ''trailers'')"

definition field_list :: "qfield list \<Rightarrow> fields" where
  "field_list rs = map (\<lambda>f. (name f, trim_optional_whitespace (val f))) rs"

definition section_ok :: "qfield list \<Rightarrow> qfield list \<Rightarrow> bool" where
  "section_ok ps rs \<longleftrightarrow>
     distinct (map name ps) \<and> set (map name ps) \<subseteq> set pseudo_names
     \<and> list_all regular_field_ok rs \<and> length (filter (\<lambda>f. name f = byte_string ''host'') rs) \<le> 1"

lemma no_colon: "list_all is_tchar n \<Longrightarrow> \<not> (case n of [] \<Rightarrow> False | b # _ \<Rightarrow> b = 0x3a)"
proof -
  have "\<not> is_tchar 0x3a" by code_simp
  then show "list_all is_tchar n \<Longrightarrow> ?thesis" by (cases n) auto
qed

lemma add_field_iff:
  "add_field fs (name f) (val f) = Inr fs' \<longleftrightarrow> regular_field_ok f
     \<and> \<not> (name f = byte_string ''host'' \<and> fields_contains fs (byte_string ''host''))
     \<and> fs' = fs @ field_list [f]"
  by (auto simp: add_field_def and_then_Inr_iff ok_or_Inr_iff field_name_iff field_value_parse_def regular_field_ok_def
      fields_append_def field_list_def split: if_splits)

lemma lowercase_literals:
  "\<not> list_ex is_ascii_uppercase (byte_string ''host'')"
  by code_simp

lemma contains_host:
  assumes "list_all regular_field_ok rs"
  shows "fields_contains (field_list rs) (byte_string ''host'') \<longleftrightarrow> filter (\<lambda>f. name f = byte_string ''host'') rs \<noteq> []"
  using assms
  by (induction rs) (auto simp: fields_contains_def field_list_def regular_field_ok_def eq_ignore_ascii_case_lower
      lowercase_literals)

lemma pseudo_literals:
  "distinct pseudo_names" "list_all (\<lambda>n. case n of [] \<Rightarrow> False | b # _ \<Rightarrow> b = 0x3a) pseudo_names"
  by code_simp+

text \<open>What the scan holds after the pseudo-header fields \<open>ps\<close> and the regular fields \<open>rs\<close>.\<close>

definition scanned :: "qfield list \<Rightarrow> qfield list \<Rightarrow> section_scan" where
  "scanned ps rs = \<lparr>sc_method = pseudo ps (byte_string '':method''), sc_scheme = pseudo ps (byte_string '':scheme''),
     sc_authority = pseudo ps (byte_string '':authority''), sc_target = pseudo ps (byte_string '':path''),
     sc_protocol = pseudo ps (byte_string '':protocol''), sc_fields = field_list rs, regular_field_seen = rs \<noteq> []\<rparr>"

lemma pseudo_None: "pseudo ps n = None \<longleftrightarrow> n \<notin> set (map name ps)"
  by (auto simp: pseudo_def map_of_eq_None_iff image_def)

lemma pseudo_snoc: "name f \<notin> set (map name ps) \<Longrightarrow> pseudo (ps @ [f]) n = (if n = name f then Some (val f) else pseudo ps n)"
  using pseudo_None[of ps "name f"] by (auto simp: pseudo_def map_add_def split: option.splits)

abbreviation starts_with_colon :: "bytes \<Rightarrow> bool" where
  "starts_with_colon n \<equiv> (case n of [] \<Rightarrow> False | b # _ \<Rightarrow> b = 0x3a)"

lemma pseudo_name_distinct:
  "byte_string '':method'' \<noteq> byte_string '':scheme''" "byte_string '':method'' \<noteq> byte_string '':authority''"
  "byte_string '':method'' \<noteq> byte_string '':path''" "byte_string '':method'' \<noteq> byte_string '':protocol''"
  "byte_string '':scheme'' \<noteq> byte_string '':authority''" "byte_string '':scheme'' \<noteq> byte_string '':path''"
  "byte_string '':scheme'' \<noteq> byte_string '':protocol''" "byte_string '':authority'' \<noteq> byte_string '':path''"
  "byte_string '':authority'' \<noteq> byte_string '':protocol''" "byte_string '':path'' \<noteq> byte_string '':protocol''"
  by code_simp+

lemma scan_pseudo:
  assumes "starts_with_colon (name f)"
  shows "scan_field (scanned ps []) f =
    (if name f \<in> set pseudo_names \<and> name f \<notin> set (map name ps) then Inr (scanned (ps @ [f]) []) else Inl malformed)"
proof (cases "name f \<in> set pseudo_names")
  case False
  then show ?thesis using assms by (simp add: scan_field_def scanned_def pseudo_names_def)
next
  case True
  then consider "name f = byte_string '':method''" | "name f = byte_string '':scheme''"
    | "name f = byte_string '':authority''" | "name f = byte_string '':path''" | "name f = byte_string '':protocol''"
    by (auto simp: pseudo_names_def)
  then show ?thesis
    using assms True pseudo_None[of ps "name f"] pseudo_snoc[of f ps]
    by cases (simp_all add: scan_field_def scanned_def fill_def pseudo_name_distinct pseudo_name_distinct[symmetric])
qed

lemma scan_regular:
  assumes "\<not> starts_with_colon (name f)" "section_ok ps rs"
  shows "scan_field (scanned ps rs) f = Inr sc \<longleftrightarrow> section_ok ps (rs @ [f]) \<and> sc = scanned ps (rs @ [f])"
proof -
  have "fields_contains (field_list rs) (byte_string ''host'') \<longleftrightarrow> filter (\<lambda>f. name f = byte_string ''host'') rs \<noteq> []"
    using assms(2) by (intro contains_host) (simp add: section_ok_def)
  then show ?thesis
    using assms by (auto simp: scan_field_def and_then_Inr_iff add_field_iff section_ok_def scanned_def field_list_def
        simp flip: length_greater_0_conv)
qed

lemma scan_field_error: "scan_field sc f = Inl e \<Longrightarrow> e = malformed"
  by (auto simp: scan_field_def fill_def add_field_def question_mark_iffs split: if_splits)

lemma scan_section_error: "scan_section sc fs = Inl e \<Longrightarrow> e = malformed"
  by (induction sc fs rule: scan_section.induct) (auto simp: and_then_Inl_iff dest: scan_field_error)

lemma section_ok_colon: "section_ok ps rs \<Longrightarrow> f \<in> set ps \<Longrightarrow> starts_with_colon (name f)"
  "section_ok ps rs \<Longrightarrow> f \<in> set rs \<Longrightarrow> \<not> starts_with_colon (name f)"
  using pseudo_literals(2) no_colon by (auto simp: section_ok_def list_all_iff regular_field_ok_def)

lemma scan_section_iff:
  assumes "section_ok ps rs"
  shows "scan_section (scanned ps rs) sect = Inr sc \<longleftrightarrow>
    (\<exists>ps' rs'. sect = ps' @ rs' \<and> (rs = [] \<or> ps' = []) \<and> section_ok (ps @ ps') (rs @ rs') \<and> sc = scanned (ps @ ps') (rs @ rs'))"
  using assms
proof (induction sect arbitrary: ps rs)
  case Nil
  then show ?case by auto
next
  case (Cons f fs)
  have prefix: "section_ok ps (rs @ [f])" if "section_ok ps (rs @ f # r)" for r
    using that by (auto simp: section_ok_def split: if_splits)
  show ?case
  proof (cases "starts_with_colon (name f)")
    case False
    have "scan_section (scanned ps rs) (f # fs) = Inr sc
        \<longleftrightarrow> section_ok ps (rs @ [f]) \<and> scan_section (scanned ps (rs @ [f])) fs = Inr sc"
      using scan_regular[OF False Cons.prems] by (auto simp: and_then_Inr_iff)
    also have "\<dots> \<longleftrightarrow> (\<exists>rs'. fs = rs' \<and> section_ok ps (rs @ f # rs') \<and> sc = scanned ps (rs @ f # rs'))"
      using Cons.IH[of ps "rs @ [f]"] prefix by auto
    also have "\<dots> \<longleftrightarrow> (\<exists>ps' rs'. f # fs = ps' @ rs' \<and> (rs = [] \<or> ps' = []) \<and> section_ok (ps @ ps') (rs @ rs')
        \<and> sc = scanned (ps @ ps') (rs @ rs'))"
      using False section_ok_colon(1) by (fastforce simp: Cons_eq_append_conv)
    finally show ?thesis .
  next
    case True
    have no: "\<not> section_ok p (rs @ f # r)" for p r using section_ok_colon(2)[of p "rs @ f # r" f] True by auto
    show ?thesis
    proof (cases "rs = []")
      case False
      then have "scan_field (scanned ps rs) f = Inl malformed" using True by (simp add: scan_field_def scanned_def)
      then show ?thesis using False no by (auto simp: Cons_eq_append_conv)
    next
      case rs: True
      let ?ok = "name f \<in> set pseudo_names \<and> name f \<notin> set (map name ps)"
      have ok: "section_ok (ps @ [f]) []" if ?ok using that Cons.prems rs by (auto simp: section_ok_def)
      have "scan_section (scanned ps rs) (f # fs) = Inr sc \<longleftrightarrow> ?ok \<and> scan_section (scanned (ps @ [f]) []) fs = Inr sc"
        using scan_pseudo[OF True, of ps] rs by simp
      also have "\<dots> \<longleftrightarrow> ?ok \<and> (\<exists>ps' rs'. fs = ps' @ rs' \<and> section_ok (ps @ f # ps') rs' \<and> sc = scanned (ps @ f # ps') rs')"
        using Cons.IH[of "ps @ [f]" "[]"] ok by auto
      also have "\<dots> \<longleftrightarrow> (\<exists>ps' rs'. f # fs = ps' @ rs' \<and> (rs = [] \<or> ps' = []) \<and> section_ok (ps @ ps') (rs @ rs')
          \<and> sc = scanned (ps @ ps') (rs @ rs'))"
      proof -
        have "?ok" if "section_ok (ps @ f # p) r" for p r using that by (auto simp: section_ok_def)
        then show ?thesis using rs no[of ps] by (auto simp: Cons_eq_append_conv)
      qed
      finally show ?thesis .
    qed
  qed
qed

lemma scan_empty_iff:
  "scan_section empty_scan sect = Inr sc \<longleftrightarrow> (\<exists>ps rs. sect = ps @ rs \<and> section_ok ps rs \<and> sc = scanned ps rs)"
proof -
  have "empty_scan = scanned [] []" by (simp add: empty_scan_def scanned_def pseudo_def field_list_def)
  then show ?thesis using scan_section_iff[of "[]" "[]" sect sc] by (simp add: section_ok_def)
qed

section \<open>The syntax of the parts\<close>

definition scheme_ok :: "bytes \<Rightarrow> bool" where
  "scheme_ok s \<longleftrightarrow> s \<noteq> [] \<and> is_ascii_alphabetic (hd s)
     \<and> list_all (\<lambda>b. is_ascii_alphanumeric b \<or> b \<in> set (byte_string ''+-.'')) s"

definition authority_ok :: "bytes \<Rightarrow> bool" where
  "authority_ok a \<longleftrightarrow> a \<noteq> [] \<and> list_all (\<lambda>b. is_ascii_alphanumeric b \<or> b \<in> set AUTHORITY_PUNCTUATION) a"

text \<open>A path, and the query after the first question mark.\<close>

definition target_ok :: "bytes \<Rightarrow> bool \<Rightarrow> bytes \<Rightarrow> bytes option \<Rightarrow> bool" where
  "target_ok target extended path query \<longleftrightarrow>
     \<not> extended \<and> target = byte_string ''*'' \<and> path = target \<and> query = None
     \<or> path \<noteq> [] \<and> hd path = 0x2f \<and> list_all (\<lambda>b. is_pchar b \<or> b = 0x2f) path
       \<and> (case query of None \<Rightarrow> target = path
          | Some q \<Rightarrow> target = path @ [0x3f] @ q \<and> list_all (\<lambda>b. is_pchar b \<or> b = 0x2f \<or> b = 0x3f) q)"

lemma ascii_ok: "list_all (\<lambda>b. b < 0x80) bs \<Longrightarrow> ascii bs = Inr bs"
  by (simp add: ascii_def from_utf8_ascii)

lemma literals_ascii:
  "list_all (\<lambda>b. b < 0x80) AUTHORITY_PUNCTUATION"
  "list_all (\<lambda>b. b < 0x80) (byte_string ''-._~%!$&'()*+,;=:@'')" "\<not> is_pchar 0x3f"
  by code_simp+

lemma pchar_ascii: "is_pchar b \<Longrightarrow> b < 0x80"
  using literals_ascii(2) is_ascii_alphanumeric_ascii[of b] by (auto simp: is_pchar_def list_all_iff)

lemma uri_authority_iff: "uri_authority a = Inr a' \<longleftrightarrow> authority_ok a \<and> a' = a"
proof -
  have "ascii a = Inr a" if "authority_ok a"
    using that literals_ascii(1) is_ascii_alphanumeric_ascii by (intro ascii_ok) (auto simp: authority_ok_def list_all_iff)
  then show ?thesis by (auto simp: uri_authority_def authority_ok_def split: if_splits)
qed

lemma uri_scheme_iff: "uri_scheme s = Inr s' \<longleftrightarrow> scheme_ok s \<and> s' = s"
proof -
  have l: "set (byte_string ''+-.'') = {0x2b, 0x2d, 0x2e}" by (simp add: byte_string_def insert_commute)
  have "ascii s = Inr s" if "scheme_ok s"
    using that is_ascii_alphanumeric_ascii by (intro ascii_ok) (auto simp: scheme_ok_def list_all_iff l)
  then show ?thesis by (cases s) (auto simp: uri_scheme_def scheme_ok_def l split: if_splits)
qed

lemma position_split:
  "position p xs = Some i \<Longrightarrow> xs = take i xs @ xs ! i # drop (i + 1) xs \<and> i < length xs \<and> p (xs ! i)"
  unfolding position_Some using id_take_nth_drop[of i xs] by simp

abbreviation path_char :: "byte \<Rightarrow> bool" where
  "path_char b \<equiv> is_pchar b \<or> b = 0x2f"

abbreviation query_char :: "byte \<Rightarrow> bool" where
  "query_char b \<equiv> is_pchar b \<or> b = 0x2f \<or> b = 0x3f"

lemma target_chars:
  "list_all query_char p \<Longrightarrow> ascii p = Inr p" "list_all path_char p \<Longrightarrow> ascii p = Inr p"
  "list_all path_char p \<Longrightarrow> list_all (\<lambda>b. b \<noteq> 0x3f) p"
proof -
  show q: "list_all query_char p \<Longrightarrow> ascii p = Inr p"
    using pchar_ascii by (intro ascii_ok) (auto simp: list_all_iff)
  show "list_all path_char p \<Longrightarrow> ascii p = Inr p" by (intro q) (auto simp: list_all_iff)
  show "list_all path_char p \<Longrightarrow> list_all (\<lambda>b. b \<noteq> 0x3f) p" using literals_ascii(3) by (auto simp: list_all_iff)
qed

lemma split_target_sound:
  assumes "\<not> (target = byte_string ''*'' \<and> \<not> extended)" and a: "split_target target extended = Inr (path, query)"
  shows "target_ok target extended path query"
proof -
  have h: "target \<noteq> []" "hd target = 0x2f"
    using assms by (auto simp: split_target_def split: if_splits list.splits)
  show ?thesis
  proof (cases "position (\<lambda>b. b = 0x3f) target")
    case None
    with assms h show ?thesis
      by (auto simp: split_target_def target_ok_def target_chars(2) and_then_Inr_iff split: if_splits list.splits)
  next
    case (Some i)
    then have i: "target = take i target @ 0x3f # drop (i + 1) target" "i < length target"
      using position_split[OF Some] by metis+
    have "i \<noteq> 0"
    proof
      assume "i = 0"
      then have "hd target = 0x3f" using i(1) by (metis append_Nil list.sel(1) take0)
      with h show False by simp
    qed
    then have hd: "take i target \<noteq> []" "hd (take i target) = 0x2f" using h by simp_all
    have pq: "path = take i target" "query = Some (drop (i + 1) target)" "list_all path_char (take i target)"
      "list_all query_char (drop (i + 1) target)"
      using assms Some by (auto simp: split_target_def target_chars and_then_Inr_iff split: if_splits list.splits)
    have "target = path @ [0x3f] @ drop (i + 1) target" using i(1) unfolding pq(1) by simp
    with pq hd show ?thesis by (simp add: target_ok_def)
  qed
qed

lemma split_target_complete:
  assumes notstar: "\<not> (target = byte_string ''*'' \<and> \<not> extended)" and t: "target_ok target extended path query"
  shows "split_target target extended = Inr (path, query)"
proof -
  have p: "path \<noteq> []" "hd path = 0x2f" "list_all path_char path" using assms by (auto simp: target_ok_def)
  show ?thesis
  proof (cases query)
    case None
    then have "target = path" using t notstar by (auto simp: target_ok_def)
    moreover from this have "position (\<lambda>b. b = 0x3f) target = None" using target_chars(3)[OF p(3)] by (simp add: position_None)
    ultimately show ?thesis
      using p None notstar by (cases path) (auto simp: split_target_def target_chars(2))
  next
    case (Some q)
    then have q: "target = path @ [0x3f] @ q" "list_all query_char q" using t notstar by (auto simp: target_ok_def)
    then have "position (\<lambda>b. b = 0x3f) target = Some (length path)" using target_chars(3)[OF p(3)] by (simp add: position_Some)
    then show ?thesis
      using p q Some notstar by (cases path) (auto simp: split_target_def target_chars)
  qed
qed

lemma split_target_iff: "split_target target extended = Inr (path, query) \<longleftrightarrow> target_ok target extended path query"
proof (cases "target = byte_string ''*'' \<and> \<not> extended")
  case True
  moreover have "byte_string ''*'' = [0x2a]" by (simp add: byte_string_def)
  ultimately show ?thesis by (auto simp: split_target_def target_ok_def Cons_eq_append_conv split: option.splits)
next
  case False
  with split_target_sound split_target_complete show ?thesis by blast
qed

section \<open>Well-formed requests\<close>

text \<open>
  The rules of RFC 9114 section 4.3.1, RFC 9110 and RFC 9220 as this server reads them, on the
  pseudo-header fields \<open>p\<close> and the regular fields \<open>fs\<close> of a section.
\<close>

definition plain_connect :: "(bytes \<Rightarrow> bytes option) \<Rightarrow> request \<Rightarrow> bool" where
  "plain_connect p r \<longleftrightarrow>
     req_method r = Connect \<and> p (byte_string '':protocol'') = None
     \<and> p (byte_string '':scheme'') = None \<and> p (byte_string '':path'') = None
     \<and> (\<exists>a. p (byte_string '':authority'') = Some a \<and> authority_ok a \<and> req_authority r = Some a)
     \<and> req_scheme r = None \<and> req_path r = None \<and> req_query r = None \<and> req_protocol r = None"

definition names_authority :: "(bytes \<Rightarrow> bytes option) \<Rightarrow> fields \<Rightarrow> bytes \<Rightarrow> bool" where
  "names_authority p fs a \<longleftrightarrow> authority_ok a
     \<and> (case p (byte_string '':authority'') of
          Some b \<Rightarrow> a = b \<and> (fields_get fs (byte_string ''host'') = None \<or> fields_get fs (byte_string ''host'') = Some a)
        | None \<Rightarrow> p (byte_string '':protocol'') = None \<and> fields_get fs (byte_string ''host'') = Some a)"

definition full_request :: "(bytes \<Rightarrow> bytes option) \<Rightarrow> fields \<Rightarrow> request \<Rightarrow> bool" where
  "full_request p fs r \<longleftrightarrow>
     (\<exists>s t a path. p (byte_string '':scheme'') = Some s \<and> scheme_ok s \<and> req_scheme r = Some s
        \<and> p (byte_string '':path'') = Some t \<and> target_ok t (p (byte_string '':protocol'') \<noteq> None) path (req_query r)
        \<and> req_path r = Some path
        \<and> names_authority p fs a \<and> req_authority r = Some a)
     \<and> (case p (byte_string '':protocol'') of
          None \<Rightarrow> req_method r \<noteq> Connect \<and> req_protocol r = None
        | Some proto \<Rightarrow> req_method r = Connect \<and> token proto = Some proto \<and> req_protocol r = Some proto)"

definition well_formed_request :: "qfield list \<Rightarrow> request \<Rightarrow> bool" where
  "well_formed_request sect r \<longleftrightarrow>
     (\<exists>ps rs. sect = ps @ rs \<and> section_ok ps rs \<and> req_fields r = field_list rs
        \<and> (\<exists>m. pseudo ps (byte_string '':method'') = Some m \<and> method_parse m = Some (req_method r))
        \<and> (plain_connect (pseudo ps) r \<or> full_request (pseudo ps) (field_list rs) r))"

lemma scanned_sels:
  "sc_method (scanned ps rs) = pseudo ps (byte_string '':method'')"
  "sc_scheme (scanned ps rs) = pseudo ps (byte_string '':scheme'')"
  "sc_target (scanned ps rs) = pseudo ps (byte_string '':path'')"
  "sc_authority (scanned ps rs) = pseudo ps (byte_string '':authority'')"
  "sc_protocol (scanned ps rs) = pseudo ps (byte_string '':protocol'')"
  "sc_fields (scanned ps rs) = field_list rs"
  by (simp_all add: scanned_def)

lemma named_authority_iff:
  "(\<exists>n. named_authority (scanned ps rs) = Inr n \<and> uri_authority n = Inr a) \<longleftrightarrow> names_authority (pseudo ps) (field_list rs) a"
  by (auto simp: named_authority_def names_authority_def uri_authority_iff scanned_sels split: option.splits if_splits)

lemma connect_target_iff:
  assumes "pseudo ps (byte_string '':protocol'') = None"
  shows "request_target (scanned ps rs) Connect = Inr (scheme, authority, path, query) \<longleftrightarrow>
    pseudo ps (byte_string '':scheme'') = None \<and> pseudo ps (byte_string '':path'') = None
    \<and> (\<exists>a. pseudo ps (byte_string '':authority'') = Some a \<and> authority_ok a \<and> authority = Some a)
    \<and> scheme = None \<and> path = None \<and> query = None"
  using assms
  by (auto simp: request_target_def scanned_sels and_then_Inr_iff ok_or_Inr_iff uri_authority_iff split: if_splits)

lemma full_target_iff:
  assumes "m \<noteq> Connect \<or> pseudo ps (byte_string '':protocol'') \<noteq> None"
  shows "request_target (scanned ps rs) m = Inr (scheme, authority, path, query) \<longleftrightarrow>
    (\<exists>s t a p. pseudo ps (byte_string '':scheme'') = Some s \<and> scheme_ok s \<and> scheme = Some s
       \<and> pseudo ps (byte_string '':path'') = Some t \<and> target_ok t (pseudo ps (byte_string '':protocol'') \<noteq> None) p query
       \<and> path = Some p \<and> names_authority (pseudo ps) (field_list rs) a \<and> authority = Some a)"
proof -
  have "request_target (scanned ps rs) m = Inr (scheme, authority, path, query) \<longleftrightarrow>
    (\<exists>s t a p. pseudo ps (byte_string '':scheme'') = Some s \<and> uri_scheme s = Inr s \<and> scheme = Some s
       \<and> pseudo ps (byte_string '':path'') = Some t \<and> split_target t (pseudo ps (byte_string '':protocol'') \<noteq> None) = Inr (p, query)
       \<and> path = Some p \<and> (\<exists>n. named_authority (scanned ps rs) = Inr n \<and> uri_authority n = Inr a) \<and> authority = Some a)"
    using assms by (auto simp: request_target_def scanned_sels and_then_Inr_iff ok_or_Inr_iff uri_scheme_iff)
  then show ?thesis unfolding uri_scheme_iff split_target_iff named_authority_iff by blast
qed

lemma connect_protocol_iff: "connect_protocol p = Inr q \<longleftrightarrow> token p = Some p \<and> q = p"
  by (auto simp: connect_protocol_def ok_or_Inr_iff token_iff)

lemma finish_request_iff:
  "finish_request (scanned ps rs) = Inr r \<longleftrightarrow> req_fields r = field_list rs
     \<and> (\<exists>m. pseudo ps (byte_string '':method'') = Some m \<and> method_parse m = Some (req_method r))
     \<and> (plain_connect (pseudo ps) r \<or> full_request (pseudo ps) (field_list rs) r)"
proof (cases "pseudo ps (byte_string '':protocol'')")
  case None
  have "finish_request (scanned ps rs) = Inr r \<longleftrightarrow> req_fields r = field_list rs
     \<and> (\<exists>m. pseudo ps (byte_string '':method'') = Some m \<and> method_parse m = Some (req_method r))
     \<and> request_target (scanned ps rs) (req_method r) = Inr (req_scheme r, req_authority r, req_path r, req_query r)
     \<and> req_protocol r = None"
    using None by (cases r) (auto simp: finish_request_def scanned_sels and_then_Inr_iff ok_or_Inr_iff)
  then show ?thesis
    using None connect_target_iff[OF None] full_target_iff[of "req_method r" ps rs]
    by (cases "req_method r = Connect") (auto simp: plain_connect_def full_request_def)
next
  case (Some proto)
  have "finish_request (scanned ps rs) = Inr r \<longleftrightarrow> req_fields r = field_list rs
     \<and> (\<exists>m. pseudo ps (byte_string '':method'') = Some m \<and> method_parse m = Some (req_method r))
     \<and> req_method r = Connect
     \<and> request_target (scanned ps rs) (req_method r) = Inr (req_scheme r, req_authority r, req_path r, req_query r)
     \<and> token proto = Some proto \<and> req_protocol r = Some proto"
    using Some by (cases r) (auto simp: finish_request_def scanned_sels and_then_Inr_iff ok_or_Inr_iff connect_protocol_iff)
  then show ?thesis
    using Some full_target_iff[of "req_method r" ps rs] by (auto simp: plain_connect_def full_request_def)
qed

lemma build_request_eq: "build_request sect = Inr r \<longleftrightarrow> well_formed_request sect r"
  unfolding build_request_def and_then_Inr_iff scan_empty_iff well_formed_request_def
  using finish_request_iff by blast

lemma part_errors:
  "ascii bs = Inl e \<Longrightarrow> e = malformed" "uri_scheme bs = Inl e \<Longrightarrow> e = malformed"
  "uri_authority bs = Inl e \<Longrightarrow> e = malformed" "connect_protocol bs = Inl e \<Longrightarrow> e = malformed"
  "named_authority sc = Inl e \<Longrightarrow> e = malformed"
  by (auto simp: ascii_def uri_scheme_def uri_authority_def connect_protocol_def named_authority_def ok_or_Inl_iff
      split: if_splits option.splits)

lemma split_target_error: "split_target t ext = Inl e \<Longrightarrow> e = malformed"
  by (auto simp: split_target_def Let_def and_then_Inl_iff split: if_splits option.splits prod.splits dest: part_errors(1))

lemma request_target_error: "request_target sc m = Inl e \<Longrightarrow> e = malformed"
  by (auto simp: request_target_def and_then_Inl_iff ok_or_Inl_iff split: if_splits dest: part_errors split_target_error)

lemma finish_request_error: "finish_request sc = Inl e \<Longrightarrow> e = malformed"
  by (auto simp: finish_request_def and_then_Inl_iff ok_or_Inl_iff split: if_splits option.splits
      dest: part_errors(4) request_target_error)

text \<open>
  C3. A field section is accepted as a request exactly when it is well-formed: pseudo-header fields
  first, each at most once and defined; plain CONNECT with \<^verbatim>\<open>:authority\<close> only, every other request
  with \<^verbatim>\<open>:scheme\<close>, \<^verbatim>\<open>:path\<close> and an authority on which \<^verbatim>\<open>:authority\<close> and \<^verbatim>\<open>Host\<close> do not disagree;
  \<^verbatim>\<open>:protocol\<close> on CONNECT only; lowercase token names, no \<^verbatim>\<open>Connection\<close>, a \<^verbatim>\<open>TE\<close> of "trailers" only, at
  most one \<^verbatim>\<open>Host\<close>, legal values. The request is then the one those fields describe, and every other
  section is a stream error \<^verbatim>\<open>H3_MESSAGE_ERROR\<close>.
\<close>
theorem build_request_iff:
  "(build_request sect = Inr r \<longleftrightarrow> well_formed_request sect r)
   \<and> {e. build_request sect = Inl e} \<subseteq> {violation_stream H3_MESSAGE_ERROR}"
  using build_request_eq[of sect r]
  by (auto simp: build_request_def and_then_Inl_iff malformed_def[symmetric] dest: scan_section_error finish_request_error)

end
