(* ===== verification/Logfmt.thy ===== *)
theory Logfmt
  imports Utf8
begin

text \<open>
  \<^verbatim>\<open>src/src/logfmt.rs\<close>: how much of a peer's bytes reaches a log line, and how often. The escaping
  of \<^verbatim>\<open>Debug\<close> is in \<^verbatim>\<open>Log_Escape\<close>; a rendered address is whatever \<open>display\<close> makes of it.
\<close>

section \<open>Bounded tokens\<close>

definition MAX_TOKEN :: nat where
  "MAX_TOKEN = 32"

text \<open>\<^verbatim>\<open>usize\<close> as \<^verbatim>\<open>Display\<close> prints it.\<close>

fun decimal :: "nat \<Rightarrow> bytes" where
  "decimal n = (if n < 10 then [0x30 + of_nat n] else decimal (n div 10) @ [0x30 + of_nat (n mod 10)])"

declare decimal.simps [simp del]

definition is_char_boundary :: "bytes \<Rightarrow> nat \<Rightarrow> bool" where
  "is_char_boundary bs i \<longleftrightarrow> i = 0 \<or> (if i < length bs then \<not> is_cont (bs ! i) else i = length bs)"

fun floor_boundary :: "bytes \<Rightarrow> nat \<Rightarrow> nat" where
  "floor_boundary bs 0 = 0"
| "floor_boundary bs (Suc i) = (if is_char_boundary bs (Suc i) then Suc i else floor_boundary bs i)"

definition floor_char_boundary :: "bytes \<Rightarrow> nat \<Rightarrow> nat" where
  "floor_char_boundary bs i = (if i \<ge> length bs then length bs else floor_boundary bs i)"

definition log_truncated :: "bytes \<Rightarrow> nat \<Rightarrow> bytes" where
  "log_truncated head whole = head @ byte_string ''... <truncated from '' @ decimal whole @ byte_string '' bytes>''"

definition bounded :: "bytes \<Rightarrow> bytes" where
  "bounded token =
     (if length token \<le> MAX_TOKEN then token
      else log_truncated (take (floor_char_boundary token MAX_TOKEN) token) (length token))"

definition bounded_bytes :: "bytes \<Rightarrow> bytes" where
  "bounded_bytes token =
     (if length token \<le> MAX_TOKEN then utf8_lossy token
      else log_truncated (utf8_lossy (take MAX_TOKEN token)) (length token))"

section \<open>Sampling\<close>

definition is_power_of_two :: "u64 \<Rightarrow> bool" where
  "is_power_of_two w \<longleftrightarrow> list_ex (\<lambda>k. w = push_bit k 1) [0..<64]"

type_synonym sampler = u64

definition sampler_new :: sampler where
  "sampler_new = 0"

definition sampler_record :: "sampler \<Rightarrow> sampler \<times> u64 option" where
  "sampler_record s = (s + 1, let n = s + 1 in if is_power_of_two n then Some n else None)"

section \<open>Optional fields and address lists\<close>

definition or_dash :: "('a \<Rightarrow> bytes) \<Rightarrow> 'a option \<Rightarrow> bytes" where
  "or_dash display v = (case v of Some a \<Rightarrow> display a | None \<Rightarrow> byte_string ''-'')"

definition MAX_ADDRESSES :: nat where
  "MAX_ADDRESSES = 8"

fun comma_separated :: "('a \<Rightarrow> bytes) \<Rightarrow> nat \<Rightarrow> 'a list \<Rightarrow> bytes" where
  "comma_separated display index [] = []"
| "comma_separated display index (a # as) =
     (if index > 0 then byte_string '', '' else []) @ display a @ comma_separated display (index + 1) as"

definition addresses :: "('a \<Rightarrow> bytes) \<Rightarrow> 'a list \<Rightarrow> bytes" where
  "addresses display as =
     byte_string ''['' @ comma_separated display 0 (take MAX_ADDRESSES as)
     @ (if length as - MAX_ADDRESSES > 0
        then byte_string '', and '' @ decimal (length as - MAX_ADDRESSES) @ byte_string '' more'' else [])
     @ byte_string '']''"

section \<open>What reaches the log is bounded\<close>

lemma decimal_length: "n < 10 ^ k \<Longrightarrow> 0 < k \<Longrightarrow> length (decimal n) \<le> k"
proof (induction n arbitrary: k rule: decimal.induct)
  case (1 n)
  show ?case
  proof (cases "n < 10")
    case True
    then show ?thesis using 1(3) by (simp add: decimal.simps[of n])
  next
    case False
    then have "k \<noteq> 1" using 1(2) by auto
    then obtain j where j: "k = Suc j" "0 < j" using 1(3) by (cases k) auto
    then have "n div 10 < 10 ^ j" using 1(2) by (simp add: less_mult_imp_div_less mult.commute)
    with 1(1)[OF False, of j] j False show ?thesis by (simp add: decimal.simps[of n])
  qed
qed

lemma decimal_ascii: "list_all (\<lambda>b. b < 0x80) (decimal n)"
proof (induction n rule: decimal.induct)
  case (1 n)
  have "list_all (\<lambda>k. 0x30 + of_nat k < (0x80 :: byte)) [0..<10]" by code_simp
  then have "0x30 + of_nat k < (0x80 :: byte)" if "k < 10" for k using that by (simp add: list_all_iff)
  with 1 show ?case by (subst decimal.simps) simp
qed

lemma utf8_valid_append: "utf8_valid xs \<Longrightarrow> utf8_valid ys \<Longrightarrow> utf8_valid (xs @ ys)"
proof (induction xs rule: utf8_valid.induct)
  case (1 xs)
  show ?case
  proof (cases "xs = []")
    case False
    let ?n = "snd (utf8_next xs)"
    have "fst (utf8_next xs)" "utf8_valid (drop ?n xs)"
      using 1(2) False by (simp_all add: utf8_valid.simps[of xs])
    then have "utf8_valid (take ?n xs @ drop ?n xs @ ys)"
      using 1(1)[OF False _ 1(3)] by (intro utf8_valid_append_char) simp_all
    then show ?thesis by (metis append_assoc append_take_drop_id)
  qed (use 1 in simp)
qed

lemma utf8_lossy_length: "length (utf8_lossy bs) \<le> 3 * length bs"
proof (induction bs rule: utf8_lossy.induct)
  case (1 bs)
  show ?case
  proof (cases "bs = []")
    case False
    let ?n = "snd (utf8_next bs)"
    have n: "0 < ?n" "?n \<le> length bs" using utf8_next_pos[OF False] by simp_all
    have "length (utf8_lossy (drop ?n bs)) \<le> 3 * (length bs - ?n)" using 1[OF False] by simp
    moreover have "utf8_lossy bs = (if fst (utf8_next bs) then take ?n bs else REPLACEMENT) @ utf8_lossy (drop ?n bs)"
      using False by (subst utf8_lossy.simps) simp
    ultimately show ?thesis using n by (auto simp: REPLACEMENT_def)
  qed (simp add: utf8_lossy.simps)
qed

lemma sampler_after:
  "n < 2 ^ 64 \<Longrightarrow> unat (((\<lambda>s. fst (sampler_record s)) ^^ n) sampler_new) = n"
  by (induction n) (simp_all add: sampler_record_def sampler_new_def unat_word_ariths)

lemma is_power_of_two_iff: "is_power_of_two w \<longleftrightarrow> (\<exists>k. unat w = 2 ^ k)"
proof -
  have p: "unat (push_bit k 1 :: u64) = 2 ^ k" if "k < 64" for k
  proof -
    have "(2 :: nat) ^ k < 2 ^ 64" using that by (rule power_strict_increasing) simp
    then show ?thesis using unat_push_bit_mult[of "1 :: u64" k] by simp
  qed
  have "k < 64" if "unat w = 2 ^ k" for k
  proof -
    have "(2 :: nat) ^ k < 2 ^ 64" using that unsigned_less[of w, where 'a = nat] by simp
    then show ?thesis by (rule power_less_imp_less_exp[rotated]) simp
  qed
  then show ?thesis
    using p by (auto simp: is_power_of_two_def list_ex_iff word_unat_eq_iff)
qed

lemma floor_boundary_ok: "floor_boundary bs i \<le> i \<and> is_char_boundary bs (floor_boundary bs i)"
  by (induction bs i rule: floor_boundary.induct) (auto simp: is_char_boundary_def)

lemma floor_char_boundary_ok: "floor_char_boundary bs i \<le> i \<and> is_char_boundary bs (floor_char_boundary bs i)" if "i \<le> length bs"
  using that floor_boundary_ok[of bs i] by (auto simp: floor_char_boundary_def is_char_boundary_def)

text \<open>The literal parts of a truncated token.\<close>

lemma truncation_text:
  "length (byte_string ''... <truncated from '') = 20" "length (byte_string '' bytes>'') = 7"
  "list_all (\<lambda>b. b < 0x80) (byte_string ''... <truncated from '')" "list_all (\<lambda>b. b < 0x80) (byte_string '' bytes>'')"
  by code_simp+

lemma length_log_truncated: "whole < 2 ^ 64 \<Longrightarrow> length (log_truncated head whole) \<le> length head + 47"
  using decimal_length[of whole 20] by (simp add: log_truncated_def truncation_text)

lemma valid_log_truncated: "utf8_valid head \<Longrightarrow> utf8_valid (log_truncated head whole)"
  unfolding log_truncated_def
  by (intro utf8_valid_append utf8_valid_ascii[OF truncation_text(3)] utf8_valid_ascii[OF decimal_ascii]
      utf8_valid_ascii[OF truncation_text(4)])

text \<open>
  What a peer can put on a log line is bounded, whatever it sends: at most 143 bytes of UTF-8 for a
  token given as bytes, at most 79 for a string, which is cut at a character boundary (so the slice
  does not panic) and kept whole when it is at most 32 bytes long.
\<close>
theorem log_token_bounded:
  assumes "length token < 2 ^ 64"
  shows "utf8_valid (bounded_bytes token) \<and> length (bounded_bytes token) \<le> 143 \<and> length (bounded token) \<le> 79
    \<and> is_char_boundary token (floor_char_boundary token (min MAX_TOKEN (length token)))
    \<and> (if length token \<le> 32 \<and> utf8_valid token then bounded_bytes token = token \<and> bounded token = token else True)"
proof -
  let ?head = "take (floor_char_boundary token MAX_TOKEN) token"
  have b: "length ?head \<le> 32" if "\<not> length token \<le> 32"
    using that floor_char_boundary_ok[of MAX_TOKEN token] by (simp add: MAX_TOKEN_def)
  have "length (bounded token) \<le> 79"
    using b length_log_truncated[OF assms, of ?head] by (auto simp: bounded_def MAX_TOKEN_def)
  moreover have "length (bounded_bytes token) \<le> 143"
    using length_log_truncated[OF assms, of "utf8_lossy (take 32 token)"] utf8_lossy_length[of token]
      utf8_lossy_length[of "take 32 token"]
    by (auto simp: bounded_bytes_def MAX_TOKEN_def)
  moreover have "utf8_valid (bounded_bytes token)"
    by (simp add: bounded_bytes_def utf8_lossy_valid valid_log_truncated)
  ultimately show ?thesis
    using floor_char_boundary_ok[of "min MAX_TOKEN (length token)" token]
    by (simp add: bounded_def bounded_bytes_def MAX_TOKEN_def utf8_lossy_valid_id)
qed

theorem log_token_bounded_witness:
  "length (replicate 33 (0x61 :: byte)) < 2 ^ 64 \<and> utf8_valid (bounded_bytes (replicate 33 0x61))
   \<and> length (bounded_bytes (replicate 33 0x61)) \<le> 143"
  using log_token_bounded[of "replicate 33 0x61"] by simp

text \<open>
  A repeated warning is reported on the doubling schedule: of the first \<open>n\<close> occurrences exactly
  those whose running total is a power of two are reported, each with that total.
\<close>
theorem sampler_schedule:
  assumes "Suc n < 2 ^ 64"
  shows "map_option unat (snd (sampler_record (((\<lambda>s. fst (sampler_record s)) ^^ n) sampler_new)))
    = (if \<exists>k. Suc n = 2 ^ k then Some (Suc n) else None)"
proof -
  let ?s = "((\<lambda>s. fst (sampler_record s)) ^^ n) sampler_new"
  have "unat (?s + 1) = Suc n" using sampler_after[of n] assms by (simp add: unat_word_ariths)
  then show ?thesis using is_power_of_two_iff[of "?s + 1"] by (simp add: sampler_record_def Let_def)
qed

theorem sampler_schedule_witness:
  "map_option unat (snd (sampler_record (((\<lambda>s. fst (sampler_record s)) ^^ 7) sampler_new))) = Some 8"
proof -
  have "\<exists>k. Suc 7 = 2 ^ k" by (intro exI[of _ 3]) simp
  with sampler_schedule[of 7] show ?thesis by simp
qed

end
