(* ===== verification/H3_Connection.thy ===== *)
theory H3_Connection
  imports Frame_Rules Logfmt
begin

text \<open>
  \<^verbatim>\<open>src/src/h3/connection.rs\<close>: what the streams of one connection share, the routing of HTTP
  Datagrams to sessions, the control stream, the two QPACK streams, and the request streams with
  GOAWAY. The connection's own calls on the transport are recorded in the order they are made:
  \<open>closes\<close> holds the codes of the \<^verbatim>\<open>close\<close> calls.
\<close>

section \<open>Shared state\<close>

abbreviation (input) STREAM_CONTROL :: u64 where "STREAM_CONTROL \<equiv> 0"
abbreviation (input) STREAM_PUSH :: u64 where "STREAM_PUSH \<equiv> 1"
abbreviation (input) STREAM_QPACK_ENCODER :: u64 where "STREAM_QPACK_ENCODER \<equiv> 2"
abbreviation (input) STREAM_QPACK_DECODER :: u64 where "STREAM_QPACK_DECODER \<equiv> 3"

definition REQUEST_STREAM_STEP :: u64 where
  "REQUEST_STREAM_STEP = 4"

definition INBOUND_QUEUE_DEPTH :: nat where
  "INBOUND_QUEUE_DEPTH = 64"

text \<open>A session's inbound channel is the queue of payloads in it.\<close>

record shared =
  peer_datagrams :: bool
  sessions :: "u64 \<Rightarrow> bytes list option"
  local_error :: "violation option"
  control_seen :: bool
  encoder_seen :: bool
  decoder_seen :: bool
  dropped_datagrams :: u64
  unknown_context_drops :: sampler
  unroutable_drops :: sampler
  queue_full_drops :: sampler
  malformed_drops :: sampler
  closes :: "code list"

definition shared_default :: shared where
  "shared_default = \<lparr>peer_datagrams = False, sessions = (\<lambda>_. None), local_error = None, control_seen = False,
     encoder_seen = False, decoder_seen = False, dropped_datagrams = 0, unknown_context_drops = sampler_new,
     unroutable_drops = sampler_new, queue_full_drops = sampler_new, malformed_drops = sampler_new, closes = []\<rparr>"

datatype drop_kind = UnknownContext | Unroutable | QueueFull | Malformed

definition record_violation :: "shared \<Rightarrow> violation \<Rightarrow> shared \<times> violation" where
  "record_violation sh v =
     (case local_error sh of
        None \<Rightarrow> (sh\<lparr>local_error := Some v\<rparr>, v)
      | Some stored \<Rightarrow> (sh, stored))"

definition fail :: "shared \<Rightarrow> violation \<Rightarrow> shared \<times> connection_error" where
  "fail sh v =
     (let (sh, stored) = record_violation sh v
      in (sh\<lparr>closes := closes sh @ [code stored]\<rparr>, LocalConn stored))"

definition interpret_error :: "shared \<Rightarrow> quinn_connection_error \<Rightarrow> connection_error" where
  "interpret_error sh e =
     (case (e, local_error sh) of
        (LocallyClosed, Some v) \<Rightarrow> LocalConn v
      | _ \<Rightarrow> connection_error_from e)"

fun critical_write :: "shared \<Rightarrow> quinn_write_error \<Rightarrow> shared \<times> connection_error" where
  "critical_write sh (WriteConnectionLost e) = (sh, connection_error_from e)"
| "critical_write sh other = fail sh (violation_connection H3_CLOSED_CRITICAL_STREAM)"

section \<open>Datagrams\<close>

fun count_drop :: "shared \<Rightarrow> drop_kind \<Rightarrow> shared" where
  "count_drop sh UnknownContext = sh\<lparr>unknown_context_drops := fst (sampler_record (unknown_context_drops sh)),
     dropped_datagrams := dropped_datagrams sh + 1\<rparr>"
| "count_drop sh Unroutable = sh\<lparr>unroutable_drops := fst (sampler_record (unroutable_drops sh)),
     dropped_datagrams := dropped_datagrams sh + 1\<rparr>"
| "count_drop sh QueueFull = sh\<lparr>queue_full_drops := fst (sampler_record (queue_full_drops sh)),
     dropped_datagrams := dropped_datagrams sh + 1\<rparr>"
| "count_drop sh Malformed = sh\<lparr>malformed_drops := fst (sampler_record (malformed_drops sh)),
     dropped_datagrams := dropped_datagrams sh + 1\<rparr>"

text \<open>\<^verbatim>\<open>register_datagrams\<close>, whose receiver is named by its identifier; dropping it ends the session.\<close>

definition register_datagrams :: "shared \<Rightarrow> u64 \<Rightarrow> shared \<times> u64 option" where
  "register_datagrams sh q =
     (case sessions sh q of
        Some _ \<Rightarrow> (sh, None)
      | None \<Rightarrow> (sh\<lparr>sessions := (sessions sh)(q := Some [])\<rparr>, Some q))"

definition drop_receiver :: "shared \<Rightarrow> u64 \<Rightarrow> shared" where
  "drop_receiver sh q = sh\<lparr>sessions := (sessions sh)(q := None)\<rparr>"

text \<open>\<^verbatim>\<open>recv\<close> on an empty queue waits.\<close>

definition receiver_recv :: "shared \<Rightarrow> u64 \<Rightarrow> shared \<times> bytes option" where
  "receiver_recv sh q =
     (case sessions sh q of
        Some (p # ps) \<Rightarrow> (sh\<lparr>sessions := (sessions sh)(q := Some ps)\<rparr>, Some p)
      | _ \<Rightarrow> (sh, None))"

definition deliver :: "shared \<Rightarrow> datagram \<Rightarrow> shared" where
  "deliver sh d =
     (if context_id d \<noteq> CONTEXT_ID_UDP_PAYLOAD then count_drop sh UnknownContext
      else case sessions sh (quarter_stream_id d) of
        None \<Rightarrow> count_drop sh Unroutable
      | Some queue \<Rightarrow>
          if length queue < INBOUND_QUEUE_DEPTH
          then sh\<lparr>sessions := (sessions sh)(quarter_stream_id d := Some (queue @ [payload d]))\<rparr>
          else count_drop sh QueueFull)"

text \<open>\<^verbatim>\<open>route_datagram\<close>; the flag says whether the peer task goes on.\<close>

definition route_datagram :: "shared \<Rightarrow> bytes \<Rightarrow> shared \<times> bool" where
  "route_datagram sh dgram =
     (case decode dgram of
        Inr d \<Rightarrow> (deliver sh d, True)
      | Inl e \<Rightarrow>
          if is_connection_error e then (fst (fail sh (violation_connection H3_DATAGRAM_ERROR)), False)
          else (count_drop sh Malformed, True))"

section \<open>The control stream\<close>

record control =
  settings_seen :: bool
  goaway :: "u64 option"
  max_push_id :: "u64 option"
  control_skipped :: sampler

definition control_default :: control where
  "control_default = \<lparr>settings_seen = False, goaway = None, max_push_id = None, control_skipped = sampler_new\<rparr>"

definition unexpected :: violation where
  "unexpected = violation_connection H3_FRAME_UNEXPECTED"

definition missing_settings :: violation where
  "missing_settings = violation_connection H3_MISSING_SETTINGS"

definition duplicate :: violation where
  "duplicate = violation_connection H3_STREAM_CREATION_ERROR"

fun control_frame :: "control \<Rightarrow> shared \<Rightarrow> frame \<Rightarrow> violation + control \<times> shared" where
  "control_frame c sh f =
     (case (f, settings_seen c) of
        (FSettings s, False) \<Rightarrow>
          Inr (c\<lparr>settings_seen := True\<rparr>, if datagrams s then sh\<lparr>peer_datagrams := True\<rparr> else sh)
      | (FSettings _, True) \<Rightarrow> Inl unexpected
      | (_, False) \<Rightarrow> Inl missing_settings
      | (FGoaway identifier, True) \<Rightarrow>
          if (case goaway c of None \<Rightarrow> False | Some previous \<Rightarrow> identifier > previous)
          then Inl (violation_connection H3_ID_ERROR)
          else Inr (c\<lparr>goaway := Some identifier\<rparr>, sh)
      | (FCancelPush _, True) \<Rightarrow> Inl (violation_connection H3_ID_ERROR)
      | (FMaxPushId push_id, True) \<Rightarrow>
          if (case max_push_id c of None \<Rightarrow> False | Some previous \<Rightarrow> push_id < previous)
          then Inl (violation_connection H3_ID_ERROR)
          else Inr (c\<lparr>max_push_id := Some push_id\<rparr>, sh)
      | (FPushPromise, True) \<Rightarrow> Inl unexpected
      | (FHeaders _, True) \<Rightarrow> Inl unexpected)"

fun control_accept :: "control \<Rightarrow> shared \<Rightarrow> item \<Rightarrow> violation + control \<times> shared" where
  "control_accept c sh (IData _) = Inl (if settings_seen c then unexpected else missing_settings)"
| "control_accept c sh (ISkipped _) =
     (if \<not> settings_seen c then Inl missing_settings
      else Inr (c\<lparr>control_skipped := fst (sampler_record (control_skipped c))\<rparr>, sh))"
| "control_accept c sh (IFrame f) = control_frame c sh f"

text \<open>A critical stream that ends while the connection is still open is a connection error.\<close>

definition critical_stream_closed :: "bool \<Rightarrow> violation option" where
  "critical_stream_closed closed = (if closed then None else Some (violation_connection H3_CLOSED_CRITICAL_STREAM))"

definition fail_if :: "shared \<Rightarrow> violation option \<Rightarrow> shared" where
  "fail_if sh v = (case v of None \<Rightarrow> sh | Some v \<Rightarrow> fst (fail sh v))"

text \<open>
  \<^verbatim>\<open>serve_control\<close> over what the frame reader yields, ending with its last result: \<open>Inr None\<close> is the
  end of the stream. Its result says whether the stream is over; when \<open>results\<close> run out the next
  read is pending. \<open>closed\<close> is whether the transport reports the connection as closed by then.
\<close>

fun serve_control :: "control \<Rightarrow> shared \<Rightarrow> bool \<Rightarrow> (frame_error + item option) list \<Rightarrow> shared \<times> bool" where
  "serve_control c sh closed [] = (sh, False)"
| "serve_control c sh closed (Inr (Some it) # rs) =
     (case control_accept c sh it of
        Inl v \<Rightarrow> (fst (fail sh v), True)
      | Inr (c', sh') \<Rightarrow> serve_control c' sh' closed rs)"
| "serve_control c sh closed (Inr None # rs) = (fail_if sh (critical_stream_closed closed), True)"
| "serve_control c sh closed (Inl (Protocol v) # rs) = (fst (fail sh (into_fatal v)), True)"
| "serve_control c sh closed (Inl (Stream (Connection _)) # rs) = (sh, True)"
| "serve_control c sh closed (Inl e # rs) = (fail_if sh (critical_stream_closed closed), True)"

section \<open>The QPACK streams\<close>

datatype qpack_stream = Encoder | Decoder

fun qpack_code :: "qpack_stream \<Rightarrow> code" where
  "qpack_code Encoder = QPACK_ENCODER_STREAM_ERROR"
| "qpack_code Decoder = QPACK_DECODER_STREAM_ERROR"

fun qpack_seen :: "qpack_stream \<Rightarrow> shared \<Rightarrow> bool" where
  "qpack_seen Encoder sh = encoder_seen sh"
| "qpack_seen Decoder sh = decoder_seen sh"

fun mark_seen :: "qpack_stream \<Rightarrow> shared \<Rightarrow> shared" where
  "mark_seen Encoder sh = sh\<lparr>encoder_seen := True\<rparr>"
| "mark_seen Decoder sh = sh\<lparr>decoder_seen := True\<rparr>"

definition MAX_INTEGER_CONTINUATION :: nat where
  "MAX_INTEGER_CONTINUATION = 9"

record qpack_progress =
  continuing :: bool
  continuation :: nat

definition progress_default :: qpack_progress where
  "progress_default = \<lparr>continuing = False, continuation = 0\<rparr>"

fun qpack_instruction :: "qpack_stream \<Rightarrow> byte \<Rightarrow> violation + bool" where
  "qpack_instruction Encoder first =
     (if first AND 0x80 \<noteq> 0 then Inl (violation_connection (qpack_code Encoder))
      else if first AND 0x40 \<noteq> 0 then Inl (violation_connection (qpack_code Encoder))
      else if first AND 0x20 \<noteq> 0
      then (if first AND 0x1f \<noteq> 0 then Inl (violation_connection (qpack_code Encoder)) else Inr False)
      else Inl (violation_connection (qpack_code Encoder)))"
| "qpack_instruction Decoder first =
     (if first AND 0x80 \<noteq> 0 then Inl (violation_connection (qpack_code Decoder))
      else if first AND 0x40 \<noteq> 0 then Inr (first AND 0x3f = 0x3f)
      else Inl (violation_connection (qpack_code Decoder)))"

definition progress_take :: "qpack_progress \<Rightarrow> qpack_stream \<Rightarrow> byte \<Rightarrow> violation + qpack_progress" where
  "progress_take p kind b =
     (if continuing p
      then (let n = continuation p + 1
            in if n > MAX_INTEGER_CONTINUATION then Inl (violation_connection (qpack_code kind))
               else Inr (p\<lparr>continuation := n, continuing := (b AND 0x80 \<noteq> 0)\<rparr>))
      else and_then (qpack_instruction kind b) (\<lambda>again. Inr (p\<lparr>continuing := again, continuation := 0\<rparr>)))"

fun progress_bytes :: "qpack_progress \<Rightarrow> qpack_stream \<Rightarrow> bytes \<Rightarrow> violation + qpack_progress" where
  "progress_bytes p kind [] = Inr p"
| "progress_bytes p kind (b # bs) = and_then (progress_take p kind b) (\<lambda>p. progress_bytes p kind bs)"

text \<open>The loop of \<^verbatim>\<open>serve_qpack\<close> over what the transport delivers; the flag says that it is over.\<close>

fun qpack_loop :: "qpack_progress \<Rightarrow> shared \<Rightarrow> bool \<Rightarrow> qpack_stream \<Rightarrow> read list \<Rightarrow> shared \<times> bool" where
  "qpack_loop p sh closed kind [] = (sh, False)"
| "qpack_loop p sh closed kind (Chunk bs # rs) =
     (case progress_bytes p kind bs of
        Inl v \<Rightarrow> (fst (fail sh v), True)
      | Inr p' \<Rightarrow> qpack_loop p' sh closed kind rs)"
| "qpack_loop p sh closed kind (r # rs) = (fail_if sh (critical_stream_closed closed), True)"

definition serve_qpack :: "shared \<Rightarrow> bool \<Rightarrow> qpack_stream \<Rightarrow> read list \<Rightarrow> shared \<times> bool" where
  "serve_qpack sh closed kind rs =
     (if qpack_seen kind sh then (fst (fail sh duplicate), True)
      else qpack_loop progress_default (mark_seen kind sh) closed kind rs)"

section \<open>Unidirectional streams\<close>

text \<open>What follows the bytes a stream has delivered so far.\<close>

datatype stream_tail = Open | Finished | Broken quinn_read_error

datatype type_read = TypePending | TypeNone | TypeFailed stream_error | TypeRead u64 bytes

definition read_exact :: "nat \<Rightarrow> bytes \<Rightarrow> stream_tail \<Rightarrow> (type_read + bytes \<times> bytes)" where
  "read_exact n bs ending =
     (if n \<le> length bs then Inr (take n bs, drop n bs)
      else case ending of
        Open \<Rightarrow> Inl TypePending
      | Finished \<Rightarrow> Inl TypeNone
      | Broken e \<Rightarrow> Inl (TypeFailed (stream_error_from_read e)))"

definition read_stream_type :: "bytes \<Rightarrow> stream_tail \<Rightarrow> type_read" where
  "read_stream_type bs ending =
     (case read_exact 1 bs ending of
        Inl r \<Rightarrow> r
      | Inr (buf, bs) \<Rightarrow>
          let len = push_bit (unat (drop_bit 6 (hd buf))) (1 :: nat)
          in case (if len > 1 then read_exact (len - 1) bs ending else Inr ([], bs)) of
               Inl r \<Rightarrow> r
             | Inr (tail_bytes, bs) \<Rightarrow>
                 (case peek_varint (buf @ tail_bytes) of
                    None \<Rightarrow> TypeNone
                  | Some (v, _) \<Rightarrow> TypeRead v bs))"

text \<open>
  \<^verbatim>\<open>serve_stream\<close> up to the task it hands the stream to. A type still pending when the timeout
  elapses stops the stream.
\<close>

datatype uni_action = RunControl bytes | RunQpack qpack_stream bytes | StopStream code | Over

definition serve_stream :: "shared \<Rightarrow> type_read \<Rightarrow> shared \<times> uni_action" where
  "serve_stream sh typed =
     (case typed of
        TypePending \<Rightarrow> (sh, StopStream H3_STREAM_CREATION_ERROR)
      | TypeNone \<Rightarrow> (sh, Over)
      | TypeFailed _ \<Rightarrow> (sh, Over)
      | TypeRead t rest \<Rightarrow>
          if t = STREAM_CONTROL then
            (if control_seen sh then (fst (fail sh duplicate), Over)
             else (sh\<lparr>control_seen := True\<rparr>, RunControl rest))
          else if t = STREAM_PUSH then (fst (fail sh (violation_connection H3_STREAM_CREATION_ERROR)), Over)
          else if t = STREAM_QPACK_ENCODER then (sh, RunQpack Encoder rest)
          else if t = STREAM_QPACK_DECODER then (sh, RunQpack Decoder rest)
          else (sh, StopStream H3_STREAM_CREATION_ERROR))"

section \<open>Requests and GOAWAY\<close>

record h3_connection =
  last_accepted :: "u64 option"
  going_away :: "u64 option"

definition connection_start :: h3_connection where
  "connection_start = \<lparr>last_accepted = None, going_away = None\<rparr>"

definition next_request_id :: "u64 option \<Rightarrow> u64" where
  "next_request_id latest =
     (case latest of None \<Rightarrow> 0 | Some i \<Rightarrow> min (saturating_add i REQUEST_STREAM_STEP) VARINT_MAX)"

text \<open>One turn of \<^verbatim>\<open>accept\<close> on the stream \<open>i\<close>: served, or rejected with \<^verbatim>\<open>H3_REQUEST_REJECTED\<close>.\<close>

definition accept_stream :: "h3_connection \<Rightarrow> u64 \<Rightarrow> h3_connection \<times> bool" where
  "accept_stream c i =
     (if (case going_away c of None \<Rightarrow> False | Some first_rejected \<Rightarrow> i \<ge> first_rejected) then (c, False)
      else (c\<lparr>last_accepted := Some i\<rparr>, True))"

text \<open>\<^verbatim>\<open>shutdown\<close>: the identifier it announces, and the frame it writes.\<close>

definition goaway_identifier :: "h3_connection \<Rightarrow> u64" where
  "goaway_identifier c =
     (let nxt = next_request_id (last_accepted c)
      in case going_away c of None \<Rightarrow> nxt | Some sent \<Rightarrow> min sent nxt)"

definition shutdown :: "h3_connection \<Rightarrow> h3_connection \<times> bytes option" where
  "shutdown c =
     (let i = goaway_identifier c
      in (c\<lparr>going_away := Some i\<rparr>,
          Option.bind (put_header [] GOAWAY (of_nat (varint_len i))) (\<lambda>b. put_varint b i)))"

section \<open>The preface\<close>

text \<open>The bytes of \<^verbatim>\<open>open_critical_streams\<close>, stream by stream.\<close>

definition control_preface :: "bytes option" where
  "control_preface =
     Option.bind settings_payload (\<lambda>s.
     Option.bind (put_varint [] STREAM_CONTROL) (\<lambda>b.
     Option.bind (put_header b SETTINGS (of_nat (length s))) (\<lambda>b. Some (b @ s))))"

definition open_typed :: "u64 \<Rightarrow> bytes option" where
  "open_typed stream_type = put_varint [] stream_type"

definition open_critical_streams :: "bytes list option" where
  "open_critical_streams =
     Option.bind control_preface (\<lambda>c.
     Option.bind (open_typed STREAM_QPACK_ENCODER) (\<lambda>e.
     Option.bind (open_typed STREAM_QPACK_DECODER) (\<lambda>d. Some [c, e, d])))"

end
