(* ===== verification/H3_Connection_Safety.thy ===== *)
theory H3_Connection_Safety
  imports H3_Connection
begin

text \<open>
  What the connection of \<^verbatim>\<open>src/src/h3/connection.rs\<close> promises: one violation per connection, datagrams
  delivered in order or counted, control and QPACK streams that accept exactly what the protocol
  allows, and GOAWAY identifiers that keep their word.
\<close>

section \<open>One violation per connection\<close>

lemma fail_first:
  "snd (fail sh v) = LocalConn (case local_error sh of None \<Rightarrow> v | Some w \<Rightarrow> w)"
  "local_error (fst (fail sh v)) = Some (case local_error sh of None \<Rightarrow> v | Some w \<Rightarrow> w)"
  "closes (fst (fail sh v)) = closes sh @ [code (case local_error sh of None \<Rightarrow> v | Some w \<Rightarrow> w)]"
  "sessions (fst (fail sh v)) = sessions sh" "dropped_datagrams (fst (fail sh v)) = dropped_datagrams sh"
  by (auto simp: fail_def record_violation_def split: option.splits)

text \<open>
  The first violation of a connection is the one everything reports: whatever violations are raised
  afterwards, each caller and every \<^verbatim>\<open>close\<close> call gets the first one, and a transport that answers
  "locally closed" is reported as it, too.
\<close>
theorem first_violation_wins:
  "snd (fail (foldl (\<lambda>sh v. fst (fail sh v)) (fst (fail sh v)) vs) w) = snd (fail sh v)
   \<and> closes (foldl (\<lambda>sh v. fst (fail sh v)) (fst (fail shared_default v)) vs) = replicate (Suc (length vs)) (code v)
   \<and> interpret_error (foldl (\<lambda>sh v. fst (fail sh v)) (fst (fail sh v)) vs) LocallyClosed = snd (fail sh v)"
proof -
  let ?run = "\<lambda>sh vs. foldl (\<lambda>sh v. fst (fail sh v)) sh vs"
  have keep: "local_error (?run sh vs) = Some e" if "local_error sh = Some e" for sh e vs
    using that by (induction vs arbitrary: sh) (simp_all add: fail_first)
  have cl: "closes (?run sh vs) = closes sh @ replicate (length vs) (code e)" if "local_error sh = Some e" for sh e vs
    using that
  proof (induction vs arbitrary: sh)
    case (Cons v vs)
    then show ?case using Cons.IH[of "fst (fail sh v)"] by (simp add: fail_first)
  qed simp
  have "closes (?run (fst (fail shared_default v)) vs) = replicate (Suc (length vs)) (code v)"
    using cl[of "fst (fail shared_default v)" v vs] by (simp add: fail_first shared_default_def)
  then show ?thesis
    using keep[of "fst (fail sh v)" _ vs] by (simp add: fail_first interpret_error_def)
qed

section \<open>Datagram routing\<close>

definition shared_inv :: "shared \<Rightarrow> bool" where
  "shared_inv sh \<longleftrightarrow> (\<forall>q queue. sessions sh q = Some queue \<longrightarrow> length queue \<le> INBOUND_QUEUE_DEPTH)"

lemma count_drop_sels [simp]:
  "sessions (count_drop sh k) = sessions sh" "dropped_datagrams (count_drop sh k) = dropped_datagrams sh + 1"
  "local_error (count_drop sh k) = local_error sh" "closes (count_drop sh k) = closes sh"
  by (cases k; simp)+

text \<open>The sessions a datagram changes, as a specification over queues.\<close>

definition enqueue :: "(u64 \<Rightarrow> bytes list option) \<Rightarrow> u64 \<Rightarrow> bytes \<Rightarrow> u64 \<Rightarrow> bytes list option" where
  "enqueue ss q p = (case ss q of Some queue \<Rightarrow> ss(q := Some (queue @ [p])) | None \<Rightarrow> ss)"

definition routable :: "shared \<Rightarrow> datagram \<Rightarrow> bool" where
  "routable sh d \<longleftrightarrow> context_id d = CONTEXT_ID_UDP_PAYLOAD
     \<and> (case sessions sh (quarter_stream_id d) of None \<Rightarrow> False | Some queue \<Rightarrow> length queue < INBOUND_QUEUE_DEPTH)"

text \<open>
  Every datagram has exactly one fate. One that decodes, is for UDP payload and finds a session with
  room is appended to that session's queue and changes nothing else; any other that is not a protocol
  violation is dropped and counted once; an unusable quarter stream identifier closes the connection
  with \<^verbatim>\<open>H3_DATAGRAM_ERROR\<close> and ends the task.
\<close>
theorem datagram_fate:
  "case decode dgram of
     Inr d \<Rightarrow> snd (route_datagram sh dgram)
       \<and> (if routable sh d
          then sessions (fst (route_datagram sh dgram)) = enqueue (sessions sh) (quarter_stream_id d) (payload d)
            \<and> dropped_datagrams (fst (route_datagram sh dgram)) = dropped_datagrams sh
          else sessions (fst (route_datagram sh dgram)) = sessions sh
            \<and> dropped_datagrams (fst (route_datagram sh dgram)) = dropped_datagrams sh + 1)
       \<and> closes (fst (route_datagram sh dgram)) = closes sh
   | Inl MissingContextId \<Rightarrow> snd (route_datagram sh dgram)
       \<and> sessions (fst (route_datagram sh dgram)) = sessions sh
       \<and> dropped_datagrams (fst (route_datagram sh dgram)) = dropped_datagrams sh + 1
       \<and> closes (fst (route_datagram sh dgram)) = closes sh
   | Inl _ \<Rightarrow> \<not> snd (route_datagram sh dgram)
       \<and> sessions (fst (route_datagram sh dgram)) = sessions sh
       \<and> fst (route_datagram sh dgram) = fst (fail sh (violation_connection H3_DATAGRAM_ERROR))"
  by (auto simp: route_datagram_def deliver_def routable_def enqueue_def fail_first split: sum.splits decode_error.splits option.splits)

text \<open>The operations on sessions, in any order.\<close>

datatype session_op = Register u64 | Receive u64 | DropReceiver u64 | Datagram bytes | Fail violation

fun session_step :: "shared \<Rightarrow> session_op \<Rightarrow> shared" where
  "session_step sh (Register q) = fst (register_datagrams sh q)"
| "session_step sh (Receive q) = fst (receiver_recv sh q)"
| "session_step sh (DropReceiver q) = drop_receiver sh q"
| "session_step sh (Datagram b) = fst (route_datagram sh b)"
| "session_step sh (Fail v) = fst (fail sh v)"

lemma session_step_inv: "shared_inv sh \<Longrightarrow> shared_inv (session_step sh op)"
  by (cases op) (auto simp: shared_inv_def register_datagrams_def receiver_recv_def drop_receiver_def route_datagram_def
      deliver_def fail_first split: option.splits sum.splits list.splits if_splits, fastforce?)

text \<open>What one operation puts into, and takes from, the queue of a session.\<close>

fun delivered :: "shared \<Rightarrow> session_op \<Rightarrow> u64 \<Rightarrow> bytes list" where
  "delivered sh (Datagram b) q =
     (case decode b of Inr d \<Rightarrow> if routable sh d \<and> quarter_stream_id d = q then [payload d] else [] | Inl _ \<Rightarrow> [])"
| "delivered sh _ q = []"

fun taken :: "shared \<Rightarrow> session_op \<Rightarrow> u64 \<Rightarrow> bytes list" where
  "taken sh (Receive r) q = (if r = q then (case snd (receiver_recv sh q) of Some p \<Rightarrow> [p] | None \<Rightarrow> []) else [])"
| "taken sh _ q = []"

fun along :: "(shared \<Rightarrow> session_op \<Rightarrow> u64 \<Rightarrow> bytes list) \<Rightarrow> shared \<Rightarrow> session_op list \<Rightarrow> u64 \<Rightarrow> bytes list" where
  "along f sh [] q = []"
| "along f sh (op # ops) q = f sh op q @ along f (session_step sh op) ops q"

lemma session_step_queue:
  assumes "sessions sh q = Some queue" "op \<noteq> DropReceiver q"
  shows "\<exists>queue'. sessions (session_step sh op) q = Some queue' \<and> taken sh op q @ queue' = queue @ delivered sh op q"
proof (cases op)
  case (Register r)
  then show ?thesis using assms by (auto simp: register_datagrams_def split: option.splits)
next
  case (Receive r)
  then show ?thesis using assms by (auto simp: receiver_recv_def split: option.splits list.splits)
next
  case (DropReceiver r)
  then show ?thesis using assms by (auto simp: drop_receiver_def)
next
  case (Datagram b)
  then show ?thesis
    using assms by (auto simp: route_datagram_def deliver_def routable_def fail_first split: sum.splits option.splits)
next
  case (Fail v)
  then show ?thesis using assms by (simp add: fail_first)
qed

lemma session_fifo_run:
  assumes "sessions sh q = Some queue" "shared_inv sh" "DropReceiver q \<notin> set ops"
  shows "\<exists>queue'. sessions (foldl session_step sh ops) q = Some queue' \<and> length queue' \<le> INBOUND_QUEUE_DEPTH
    \<and> along taken sh ops q @ queue' = queue @ along delivered sh ops q"
  using assms
proof (induction ops arbitrary: sh queue)
  case Nil
  then show ?case by (auto simp: shared_inv_def)
next
  case (Cons op ops)
  obtain q1 where q1: "sessions (session_step sh op) q = Some q1" "taken sh op q @ q1 = queue @ delivered sh op q"
    using session_step_queue[OF Cons.prems(1), of op] Cons.prems(3) by auto
  obtain q2 where q2: "sessions (foldl session_step (session_step sh op) ops) q = Some q2" "length q2 \<le> INBOUND_QUEUE_DEPTH"
    "along taken (session_step sh op) ops q @ q2 = q1 @ along delivered (session_step sh op) ops q"
    using Cons.IH[OF q1(1) session_step_inv[OF Cons.prems(2)]] Cons.prems(3) by auto
  have "taken sh op q @ along taken (session_step sh op) ops q @ q2
      = queue @ delivered sh op q @ along delivered (session_step sh op) ops q"
    using q1(2) q2(3) by (metis append_assoc)
  with q2 show ?case by simp
qed

text \<open>
  C34. A session's queue is first-in first-out and bounded: whatever other sessions, datagrams, refused
  registrations and errors happen in between, what its receiver takes followed by what is still
  queued is what was queued at first followed by the payloads routed to it, in order, with never more
  than 64 waiting.
\<close>
theorem session_fifo:
  assumes "sessions sh q = Some queue" "shared_inv sh" "DropReceiver q \<notin> set ops"
  shows "\<exists>queue'. sessions (foldl session_step sh ops) q = Some queue' \<and> length queue' \<le> INBOUND_QUEUE_DEPTH
    \<and> along taken sh ops q @ queue' = queue @ along delivered sh ops q"
  using assms by (rule session_fifo_run)

theorem session_fifo_witness:
  "along taken (fst (register_datagrams shared_default 1)) [Datagram [1, 0, 7], Datagram [1, 0, 8], Register 1, Receive 1] 1
     @ [[8]] = along delivered (fst (register_datagrams shared_default 1)) [Datagram [1, 0, 7], Datagram [1, 0, 8], Register 1, Receive 1] 1"
proof -
  let ?sh = "fst (register_datagrams shared_default 1)"
    and ?ops = "[Datagram [1, 0, 7], Datagram [1, 0, 8], Register 1, Receive 1]"
  have s: "sessions ?sh 1 = Some []" "shared_inv ?sh" "DropReceiver 1 \<notin> set ?ops"
    by (simp_all add: register_datagrams_def shared_default_def shared_inv_def)
  have d: "decode [1, 0, b] = Inr \<lparr>quarter_stream_id = 1, context_id = 0, payload = [b]\<rparr>" for b
    by (simp add: decode_def take_varint_def peek_varint_def MAX_QUARTER_STREAM_ID_eq)
  obtain queue where "sessions (foldl session_step ?sh ?ops) 1 = Some queue"
    "along taken ?sh ?ops 1 @ queue = [] @ along delivered ?sh ?ops 1"
    using session_fifo[OF s] by blast
  then show ?thesis
    by (simp add: d register_datagrams_def shared_default_def route_datagram_def deliver_def CONTEXT_ID_UDP_PAYLOAD_def
        INBOUND_QUEUE_DEPTH_def receiver_recv_def routable_def)
qed

section \<open>The control stream\<close>

fun control_run :: "control \<Rightarrow> shared \<Rightarrow> item list \<Rightarrow> violation + control \<times> shared" where
  "control_run c sh [] = Inr (c, sh)"
| "control_run c sh (it # its) = and_then (control_accept c sh it) (\<lambda>(c, sh). control_run c sh its)"

fun goaway_ids :: "item list \<Rightarrow> u64 list" where
  "goaway_ids [] = []"
| "goaway_ids (IFrame (FGoaway i) # its) = i # goaway_ids its"
| "goaway_ids (_ # its) = goaway_ids its"

fun push_ids :: "item list \<Rightarrow> u64 list" where
  "push_ids [] = []"
| "push_ids (IFrame (FMaxPushId i) # its) = i # push_ids its"
| "push_ids (_ # its) = push_ids its"

fun allowed_on_control :: "item \<Rightarrow> bool" where
  "allowed_on_control (IFrame (FGoaway _)) = True"
| "allowed_on_control (IFrame (FMaxPushId _)) = True"
| "allowed_on_control (ISkipped _) = True"
| "allowed_on_control _ = False"

definition control_ok :: "item list \<Rightarrow> bool" where
  "control_ok its \<longleftrightarrow> (case its of [] \<Rightarrow> True
     | IFrame (FSettings s) # rest \<Rightarrow> list_all allowed_on_control rest
         \<and> sorted_wrt (\<ge>) (goaway_ids rest) \<and> sorted_wrt (\<le>) (push_ids rest)
     | _ \<Rightarrow> False)"

abbreviation opt_list :: "'a option \<Rightarrow> 'a list" where
  "opt_list x \<equiv> (case x of None \<Rightarrow> [] | Some a \<Rightarrow> [a])"

lemma control_run_settled:
  "settings_seen c \<Longrightarrow> (\<exists>r. control_run c sh its = Inr r) \<longleftrightarrow> list_all allowed_on_control its
     \<and> sorted_wrt (\<ge>) (opt_list (goaway c) @ goaway_ids its) \<and> sorted_wrt (\<le>) (opt_list (max_push_id c) @ push_ids its)"
proof (induction its arbitrary: c sh)
  case (Cons it its)
  show ?case
  proof (cases it)
    case (IData b)
    then show ?thesis using Cons.prems by simp
  next
    case (ISkipped k)
    then show ?thesis using Cons by simp
  next
    case (IFrame f)
    show ?thesis
    proof (cases f)
      case (FGoaway i)
      then show ?thesis
        using Cons.IH[of "c\<lparr>goaway := Some i\<rparr>" sh] Cons.prems IFrame by (auto simp: not_less split: option.splits intro: order_trans)
    next
      case (FMaxPushId i)
      then show ?thesis
        using Cons.IH[of "c\<lparr>max_push_id := Some i\<rparr>" sh] Cons.prems IFrame by (auto simp: not_less split: option.splits intro: order_trans)
    qed (use Cons.prems IFrame in auto)
  qed
qed (auto split: option.splits)

lemma control_error_fatal: "control_accept c sh it = Inl v \<Longrightarrow> fatal v"
  by (cases it) (auto simp: unexpected_def missing_settings_def split: frame.splits bool.splits if_splits)

text \<open>
  C33. The control stream accepts exactly what RFC 9114 allows a client to send: SETTINGS first and once,
  then only GOAWAY frames whose identifiers never grow, MAX_PUSH_ID frames that never shrink, and
  unknown frames; every other frame is a connection error.
\<close>
theorem control_stream_iff:
  "((\<exists>r. control_run control_default sh its = Inr r) \<longleftrightarrow> control_ok its)
   \<and> {v. control_accept c sh it = Inl v} \<subseteq> {v. fatal v}"
proof -
  have "(\<exists>r. control_run control_default sh its = Inr r) \<longleftrightarrow> control_ok its"
  proof (cases its)
    case (Cons it rest)
    show ?thesis
    proof (cases "\<exists>s. it = IFrame (FSettings s)")
      case True
      then obtain s where it: "it = IFrame (FSettings s)" by blast
      show ?thesis
        using control_run_settled[of "control_default\<lparr>settings_seen := True\<rparr>" _ rest]
        by (simp add: Cons it control_ok_def control_default_def)
    next
      case False
      then have "control_accept control_default sh it = Inl missing_settings"
        by (cases it) (auto simp: control_default_def split: frame.splits)
      moreover have "\<not> control_ok its" using False Cons by (auto simp: control_ok_def split: item.splits frame.splits)
      ultimately show ?thesis by (simp add: Cons)
    qed
  qed (simp add: control_ok_def)
  then show ?thesis using control_error_fatal[of c sh it] by blast
qed

section \<open>The QPACK streams\<close>

lemma encoder_byte:
  "qpack_instruction Encoder b = (if b = 0x20 then Inr False else Inl (violation_connection QPACK_ENCODER_STREAM_ERROR))"
  by (rule all_bytes) code_simp

lemma encoder_stream:
  "progress_bytes progress_default Encoder bs = Inr p \<longleftrightarrow> list_all (\<lambda>b. b = 0x20) bs \<and> p = progress_default"
  by (induction bs) (auto simp: progress_take_def progress_default_def encoder_byte simp del: qpack_instruction.simps)

text \<open>One instruction of the decoder stream: a Stream Cancellation and its prefixed integer.\<close>

definition cancellation :: "bytes \<Rightarrow> bool" where
  "cancellation i \<longleftrightarrow>
     (case i of [] \<Rightarrow> False
      | first # rest \<Rightarrow> first AND 0xc0 = 0x40
          \<and> (if first AND 0x3f \<noteq> 0x3f then rest = []
             else rest \<noteq> [] \<and> length rest \<le> MAX_INTEGER_CONTINUATION \<and> last rest AND 0x80 = 0
               \<and> list_all (\<lambda>b. b AND 0x80 \<noteq> 0) (butlast rest)))"

lemma progress_append:
  "progress_bytes p k (xs @ ys) = and_then (progress_bytes p k xs) (\<lambda>p. progress_bytes p k ys)"
  by (induction xs arbitrary: p) (auto simp: and_then_def split: sum.splits)

lemma continuation_run:
  "continuing p \<Longrightarrow> rest \<noteq> [] \<Longrightarrow> last rest AND 0x80 = 0 \<Longrightarrow> list_all (\<lambda>b. b AND 0x80 \<noteq> 0) (butlast rest)
    \<Longrightarrow> continuation p + length rest \<le> MAX_INTEGER_CONTINUATION
    \<Longrightarrow> \<exists>n. progress_bytes p k rest = Inr \<lparr>continuing = False, continuation = n\<rparr>"
proof (induction rest arbitrary: p)
  case (Cons b rest)
  show ?case
  proof (cases "rest = []")
    case True
    then show ?thesis using Cons.prems by (cases p) (simp add: progress_take_def Let_def)
  next
    case False
    then show ?thesis
      using Cons.prems Cons.IH[of "\<lparr>continuing = True, continuation = continuation p + 1\<rparr>"]
      by (cases p) (simp add: progress_take_def Let_def)
  qed
qed simp

lemma decoder_first: "first AND 0xc0 = 0x40 \<longleftrightarrow> first AND 0x80 = 0 \<and> first AND 0x40 \<noteq> (0 :: byte)"
  by (rule all_bytes) code_simp

lemma cancellation_run:
  assumes "cancellation i" "\<not> continuing p"
  shows "\<exists>n. progress_bytes p Decoder i = Inr \<lparr>continuing = False, continuation = n\<rparr>"
proof -
  obtain first rest where i: "i = first # rest" "first AND 0x80 = 0" "first AND 0x40 \<noteq> 0"
    using assms(1) decoder_first by (cases i) (auto simp: cancellation_def)
  show ?thesis
  proof (cases "first AND 0x3f = 0x3f")
    case True
    then have "\<exists>n. progress_bytes \<lparr>continuing = True, continuation = 0\<rparr> Decoder rest = Inr \<lparr>continuing = False, continuation = n\<rparr>"
      using assms(1) i by (intro continuation_run) (simp_all add: cancellation_def)
    then show ?thesis using i True assms(2) by (cases p) (simp add: progress_take_def)
  next
    case False
    then show ?thesis using assms i by (cases p) (simp add: progress_take_def cancellation_def)
  qed
qed

definition ends_integer :: "nat \<Rightarrow> bytes \<Rightarrow> bool" where
  "ends_integer used rest \<longleftrightarrow> rest \<noteq> [] \<and> used + length rest \<le> MAX_INTEGER_CONTINUATION \<and> last rest AND 0x80 = 0
     \<and> list_all (\<lambda>b. b AND 0x80 \<noteq> 0) (butlast rest)"

lemma ends_integer_Cons:
  "b AND 0x80 \<noteq> 0 \<Longrightarrow> ends_integer (Suc n) rest \<Longrightarrow> ends_integer n (b # rest)"
  by (auto simp: ends_integer_def)

lemma decoder_sound:
  assumes "progress_bytes p Decoder bs = Inr p'" "\<not> continuing p'"
  shows "\<exists>rest is. bs = rest @ concat is \<and> list_all cancellation is
    \<and> (if continuing p then ends_integer (continuation p) rest else rest = [])"
  using assms(1)
proof (induction bs arbitrary: p)
  case Nil
  then show ?case using assms(2) by (intro exI[of _ "[]"]) simp
next
  case (Cons b bs)
  obtain p1 where p1: "progress_take p Decoder b = Inr p1" "progress_bytes p1 Decoder bs = Inr p'"
    using Cons.prems by (auto simp: and_then_Inr_iff)
  obtain rest "is" where r: "bs = rest @ concat is" "list_all cancellation is"
    "if continuing p1 then ends_integer (continuation p1) rest else rest = []"
    using Cons.IH[OF p1(2)] by blast
  show ?case
  proof (cases "continuing p")
    case True
    then have c: "p1 = p\<lparr>continuation := Suc (continuation p), continuing := (b AND 0x80 \<noteq> 0)\<rparr>" "Suc (continuation p) \<le> MAX_INTEGER_CONTINUATION"
      using p1(1) by (auto simp: progress_take_def Let_def split: if_splits)
    have "ends_integer (continuation p) (b # rest)"
    proof (cases "b AND 0x80 = 0")
      case True
      then show ?thesis using r(3) c by (simp add: ends_integer_def)
    next
      case False
      then show ?thesis using r(3) c by (intro ends_integer_Cons) simp_all
    qed
    then show ?thesis using r True by (intro exI[of _ "b # rest"] exI[of _ "is"]) simp
  next
    case False
    then have c: "b AND 0x80 = 0" "b AND 0x40 \<noteq> 0" "p1 = p\<lparr>continuing := (b AND 0x3f = 0x3f), continuation := 0\<rparr>"
      using p1(1) by (auto simp: progress_take_def and_then_Inr_iff split: if_splits)
    have "cancellation (b # rest)"
      using r(3) c decoder_first[of b] by (auto simp: cancellation_def ends_integer_def split: if_splits)
    then show ?thesis using r False by (intro exI[of _ "[]"] exI[of _ "(b # rest) # is"]) simp
  qed
qed

lemma decoder_complete:
  "list_all cancellation is \<Longrightarrow> \<not> continuing p \<Longrightarrow>
    \<exists>p'. progress_bytes p Decoder (concat is) = Inr p' \<and> \<not> continuing p'"
proof (induction "is" arbitrary: p)
  case (Cons i "is")
  obtain n where "progress_bytes p Decoder i = Inr \<lparr>continuing = False, continuation = n\<rparr>"
    using cancellation_run[of i p] Cons.prems by auto
  then show ?case
    using Cons.IH[of "\<lparr>continuing = False, continuation = n\<rparr>"] Cons.prems by (simp add: progress_append)
qed simp

text \<open>
  With a dynamic table of capacity zero the peer's encoder stream may carry only "Set Dynamic Table
  Capacity 0", and anything else is \<^verbatim>\<open>QPACK_ENCODER_STREAM_ERROR\<close>; its decoder stream, read up to the
  end of an instruction, is accepted exactly when it is a sequence of Stream Cancellations with integers
  of at most nine continuation bytes.
\<close>
theorem qpack_streams_accept:
  "(progress_bytes progress_default Encoder bs = Inr p \<longleftrightarrow> list_all (\<lambda>b. b = 0x20) bs \<and> p = progress_default)
   \<and> ((\<exists>p. progress_bytes progress_default Decoder bs = Inr p \<and> \<not> continuing p)
        \<longleftrightarrow> (\<exists>is. bs = concat is \<and> list_all cancellation is))"
  using encoder_stream[of bs p] decoder_sound[of progress_default bs] decoder_complete[of _ progress_default]
  by (auto simp: progress_default_def)

section \<open>GOAWAY\<close>

text \<open>
  The requests a connection accepts and the GOAWAY identifiers it sends. Request streams have
  identifiers divisible by four and arrive in increasing order.
\<close>

definition fresh_request :: "h3_connection \<Rightarrow> u64 \<Rightarrow> bool" where
  "fresh_request c i \<longleftrightarrow> i \<le> VARINT_MAX \<and> unat i mod 4 = 0 \<and> (case last_accepted c of None \<Rightarrow> True | Some l \<Rightarrow> l < i)"

inductive h3_run :: "h3_connection \<Rightarrow> u64 list \<Rightarrow> u64 list \<Rightarrow> bool" where
  start: "h3_run connection_start [] []"
| accepted: "h3_run c as gs \<Longrightarrow> fresh_request c i \<Longrightarrow> accept_stream c i = (c', True) \<Longrightarrow> h3_run c' (as @ [i]) gs"
| rejected: "h3_run c as gs \<Longrightarrow> fresh_request c i \<Longrightarrow> accept_stream c i = (c', False) \<Longrightarrow> h3_run c' as gs"
| going: "h3_run c as gs \<Longrightarrow> shutdown c = (c', b) \<Longrightarrow> h3_run c' as (gs @ [goaway_identifier c])"

definition goaway_inv :: "h3_connection \<Rightarrow> u64 list \<Rightarrow> u64 list \<Rightarrow> bool" where
  "goaway_inv c as gs \<longleftrightarrow>
     sorted_wrt (\<ge>) gs \<and> (\<forall>a\<in>set as. \<forall>g\<in>set gs. a < g)
     \<and> (case last_accepted c of None \<Rightarrow> as = [] | Some l \<Rightarrow> l \<le> VARINT_MAX \<and> unat l mod 4 = 0 \<and> (\<forall>a\<in>set as. a \<le> l))
     \<and> (case going_away c of None \<Rightarrow> gs = [] | Some g \<Rightarrow> g \<le> VARINT_MAX \<and> g \<in> set gs \<and> (\<forall>h\<in>set gs. g \<le> h))"

lemma next_request_id_above:
  assumes "l \<le> VARINT_MAX" "unat l mod 4 = 0"
  shows "l < next_request_id (Some l)" "next_request_id (Some l) \<le> VARINT_MAX"
proof -
  have l: "unat l \<le> 2 ^ 62 - 1" using assms(1) by (simp add: word_le_nat_alt VARINT_MAX_eq)
  obtain k where k: "unat l = 4 * k" using assms(2) by (metis mod_eq_0_iff_dvd dvdE)
  then have "unat l \<noteq> 2 ^ 62 - 1" by (simp, presburger)
  then have "unat l < min (unat l + 4) (2 ^ 62 - 1)" using l by simp
  moreover have "unat (next_request_id (Some l)) = min (unat l + 4) (2 ^ 62 - 1)"
    using l by (auto simp: next_request_id_def min_def word_le_nat_alt unat_saturating_add REQUEST_STREAM_STEP_def VARINT_MAX_eq)
  ultimately show "l < next_request_id (Some l)" "next_request_id (Some l) \<le> VARINT_MAX"
    by (simp_all add: word_less_nat_alt word_le_nat_alt VARINT_MAX_eq)
qed

lemma goaway_identifier_above:
  assumes "goaway_inv c as gs"
  shows "(\<forall>a\<in>set as. a < goaway_identifier c) \<and> goaway_identifier c \<le> VARINT_MAX \<and> (\<forall>g\<in>set gs. goaway_identifier c \<le> g)"
proof -
  let ?n = "next_request_id (last_accepted c)"
  have n: "(\<forall>a\<in>set as. a < ?n) \<and> ?n \<le> VARINT_MAX"
  proof (cases "last_accepted c")
    case None
    then show ?thesis using assms by (simp add: goaway_inv_def next_request_id_def)
  next
    case (Some l)
    then have l: "l \<le> VARINT_MAX" "unat l mod 4 = 0" "\<forall>a\<in>set as. a \<le> l" using assms by (simp_all add: goaway_inv_def)
    then show ?thesis using Some next_request_id_above[OF l(1,2)] by (auto intro: le_less_trans)
  qed
  show ?thesis
  proof (cases "going_away c")
    case None
    then show ?thesis using n assms by (simp add: goaway_identifier_def goaway_inv_def)
  next
    case (Some g)
    then have "g \<in> set gs" "\<forall>h\<in>set gs. g \<le> h" using assms by (simp_all add: goaway_inv_def)
    moreover from this have "\<forall>a\<in>set as. a < g" using assms by (simp add: goaway_inv_def)
    ultimately show ?thesis using Some n by (auto simp: goaway_identifier_def min_def Let_def intro: order_trans)
  qed
qed

lemma h3_run_inv: "h3_run c as gs \<Longrightarrow> goaway_inv c as gs"
proof (induction rule: h3_run.induct)
  case start
  then show ?case by (simp add: goaway_inv_def connection_start_def)
next
  case (accepted c as gs i c')
  then have c': "c' = c\<lparr>last_accepted := Some i\<rparr>" "\<forall>g. going_away c = Some g \<longrightarrow> i < g"
    by (auto simp: accept_stream_def not_le split: if_splits option.splits)
  have old: "\<forall>a\<in>set as. a \<le> i"
    using accepted by (auto simp: goaway_inv_def fresh_request_def split: option.splits)
  have new: "\<forall>g\<in>set gs. i < g"
    using accepted.IH c'(2) by (auto simp: goaway_inv_def split: option.splits intro: less_le_trans)
  show ?case
    using accepted.IH accepted.hyps(2) old new by (simp add: c'(1) goaway_inv_def fresh_request_def split: option.splits)
next
  case (rejected c as gs i c')
  then show ?case by (auto simp: accept_stream_def split: if_splits)
next
  case (going c as gs c' b)
  then have c': "c' = c\<lparr>going_away := Some (goaway_identifier c)\<rparr>" by (auto simp: shutdown_def Let_def)
  show ?case
    using going.IH goaway_identifier_above[OF going.IH]
    by (auto simp: c' goaway_inv_def sorted_wrt_append split: option.splits)
qed

lemma goaway_bytes:
  "i \<le> VARINT_MAX \<Longrightarrow> Option.bind (put_header [] GOAWAY (of_nat (varint_len i))) (\<lambda>b. put_varint b i)
     = Some (wire_frame_bytes (GOAWAY, enc_varint i))"
proof -
  assume i: "i \<le> VARINT_MAX"
  have "varint_len i \<le> 8" by (simp add: varint_len_def)
  then have l: "(of_nat (varint_len i) :: u64) \<le> VARINT_MAX" by (intro of_nat_le_VARINT_MAX) (simp add: VARINT_MAX_eq)
  have g: "GOAWAY \<le> VARINT_MAX" by (simp add: GOAWAY_def VARINT_MAX_eq)
  show ?thesis
    using i by (simp add: put_header_enc[OF g l] put_varint_enc wire_frame_bytes_def length_enc_varint)
qed

text \<open>
  C35. GOAWAY keeps its word: the identifiers a connection sends never grow, and every request it
  accepts, before or after, has an identifier below all of them, so what the peer is told was not
  processed really was not. Each GOAWAY can be written: its identifier is a legal varint.
\<close>
theorem goaway_contract:
  assumes "h3_run c as gs"
  shows "sorted_wrt (\<ge>) gs \<and> list_all (\<lambda>a. list_all (\<lambda>g. a < g) gs) as \<and> snd (shutdown c) \<noteq> None"
proof -
  note inv = h3_run_inv[OF assms]
  have le: "goaway_identifier c \<le> VARINT_MAX" using goaway_identifier_above[OF inv] by blast
  then show ?thesis using inv goaway_bytes[OF le] by (simp add: goaway_inv_def shutdown_def Let_def list_all_iff)
qed

theorem goaway_contract_witness:
  "\<exists>c. h3_run c [0, 4] [8, 8] \<and> snd (shutdown c) \<noteq> None"
proof -
  let ?c1 = "\<lparr>last_accepted = Some 0, going_away = None\<rparr>" and ?c2 = "\<lparr>last_accepted = Some 4, going_away = None\<rparr>"
    and ?c3 = "\<lparr>last_accepted = Some 4, going_away = Some 8\<rparr>"
  have id: "goaway_identifier ?c2 = 8" "goaway_identifier ?c3 = 8"
    by (simp_all add: goaway_identifier_def next_request_id_def saturating_add_def REQUEST_STREAM_STEP_def VARINT_MAX_eq min_def)
  have "h3_run ?c1 ([] @ [0]) []"
    by (rule h3_run.accepted[OF h3_run.start]) (simp_all add: fresh_request_def accept_stream_def connection_start_def)
  then have "h3_run ?c2 [0, 4] []"
    using h3_run.accepted[of ?c1 "[0]" "[]" 4 ?c2] by (simp add: fresh_request_def accept_stream_def VARINT_MAX_eq)
  then have "h3_run ?c3 [0, 4] [8]"
    using h3_run.going[of ?c2 "[0, 4]" "[]" ?c3] id(1) by (simp add: shutdown_def)
  then have "h3_run ?c3 [0, 4] [8]"
    using h3_run.rejected[of ?c3 "[0, 4]" "[8]" 8 ?c3] by (simp add: fresh_request_def accept_stream_def VARINT_MAX_eq)
  then have "h3_run ?c3 [0, 4] [8, 8]"
    using h3_run.going[of ?c3 "[0, 4]" "[8]" ?c3] id(2) by (simp add: shutdown_def)
  with goaway_contract[OF this] show ?thesis by blast
qed

end
