(* ===== verification/Frame_Reader.thy ===== *)
theory Frame_Reader
  imports Frame_Decoding
begin

text \<open>
  The frame reader of \<^verbatim>\<open>src/src/h3/frame.rs\<close> read to the end: \<open>stream_run\<close> collects the events of
  every item \<open>reader_next\<close> yields and how the stream ends. It is what the loops over the reader in
  \<^verbatim>\<open>src/src/h3/stream.rs\<close> refine, and it is determined by the bytes, not by the chunks.
\<close>

section \<open>Progress\<close>

declare reader_next.simps [simp del]

text \<open>The reader's loop, as a rule: one case for every way a turn of it ends.\<close>

lemma reader_next_rule [consumes 1, case_names error item ended pending failed fin chunk]:
  assumes eq: "reader_next s reads = res0"
    and "\<And>r h reads d h' e. next_item (decoder r, h) = ((d, h'), Inl e) \<Longrightarrow>
      P (r, h) reads ((r\<lparr>decoder := d\<rparr>, h'), reads, Ready (Inl e))"
    and "\<And>r h reads d h' x. next_item (decoder r, h) = ((d, h'), Inr (Some x)) \<Longrightarrow>
      P (r, h) reads ((r\<lparr>decoder := d\<rparr>, h'), reads, Ready (Inr (Some x)))"
    and "\<And>r h reads d h'. next_item (decoder r, h) = ((d, h'), Inr None) \<Longrightarrow> finished r \<Longrightarrow>
      P (r, h) reads ((r\<lparr>decoder := d\<rparr>, h'), reads, Ready (Inr None))"
    and "\<And>r h d h'. next_item (decoder r, h) = ((d, h'), Inr None) \<Longrightarrow> \<not> finished r \<Longrightarrow>
      P (r, h) [] ((r\<lparr>decoder := d\<rparr>, h'), [], Pending)"
    and "\<And>r h rs d h' e. next_item (decoder r, h) = ((d, h'), Inr None) \<Longrightarrow> \<not> finished r \<Longrightarrow>
      P (r, h) (ReadError e # rs) ((r\<lparr>decoder := d\<rparr>, h'), rs, Ready (Inl (Stream (stream_error_from_read e))))"
    and "\<And>r h rs d h'. next_item (decoder r, h) = ((d, h'), Inr None) \<Longrightarrow> \<not> finished r \<Longrightarrow>
      P (r, h) (Fin # rs) ((r\<lparr>decoder := d, finished := True\<rparr>, h'), rs,
        Ready (if at_frame_boundary d then Inr None else Inl (Protocol (violation_connection H3_FRAME_ERROR))))"
    and "\<And>r h c rs d h' res. next_item (decoder r, h) = ((d, h'), Inr None) \<Longrightarrow> \<not> finished r \<Longrightarrow>
      P (r\<lparr>decoder := frame_push d c\<rparr>, h') rs res \<Longrightarrow> P (r, h) (Chunk c # rs) res"
  shows "P s reads res0"
  unfolding eq[symmetric]
proof (induction s reads rule: reader_next.induct)
  case (1 r h reads)
  obtain d h' res where n: "next_item (decoder r, h) = ((d, h'), res)" by (metis prod.exhaust)
  consider (e) e where "res = Inl e" | (x) y where "res = Inr (Some y)" | (m) "res = Inr None"
    by (cases res) (auto simp: option.exhaust_sel)
  then show ?case
  proof cases
    case m
    show ?thesis
    proof (cases "finished r")
      case False
      show ?thesis
      proof (cases reads)
        case (Cons a rs)
        show ?thesis
        proof (cases a)
          case (Chunk c)
          from assms(8)[OF n[unfolded m] False "1.IH"[OF n[symmetric] refl m refl False Cons Chunk]] show ?thesis
            using n m False Cons Chunk by (simp add: reader_next.simps[of r])
        qed (use n m False Cons assms(6,7) in \<open>simp_all add: reader_next.simps[of r]\<close>)
      qed (use n m False assms(5) in \<open>simp add: reader_next.simps[of r]\<close>)
    qed (use n m assms(4) in \<open>simp add: reader_next.simps[of r]\<close>)
  qed (use n assms(2,3) in \<open>simp_all add: reader_next.simps[of r]\<close>)
qed

lemma reader_next_progress:
  assumes "reader_next s reads = (s', reads', Ready (Inr (Some x)))"
  shows "length reads' < length reads \<or> reads' = reads \<and> weight (decoder (fst s'), snd s') < weight (decoder (fst s), snd s)"
  using assms
  by (induction s reads "(s', reads', Ready (Inr (Some x)))" rule: reader_next_rule)
    (auto split: if_splits dest: fd.next_decreases)

section \<open>Reading a stream to its end\<close>

datatype stream_end = EndFin | EndPending | EndError frame_error

function stream_run :: "frame_reader \<times> budget \<Rightarrow> read list \<Rightarrow> event list \<times> stream_end" where
  "stream_run s reads =
     (case reader_next s reads of
        (s', reads', Pending) \<Rightarrow> ([], EndPending)
      | (s', reads', Ready (Inl e)) \<Rightarrow> ([], EndError e)
      | (s', reads', Ready (Inr None)) \<Rightarrow> ([], EndFin)
      | (s', reads', Ready (Inr (Some x))) \<Rightarrow> apfst ((@) (events_of x)) (stream_run s' reads'))"
  by pat_completeness auto
termination
  by (relation "measures [\<lambda>(s, reads). length reads, \<lambda>(s, reads). weight (decoder (fst s), snd s)]")
    (auto dest!: sym[of _ "reader_next _ _"] dest: reader_next_progress)

declare stream_run.simps [simp del]

text \<open>What follows once the decoder asks for more.\<close>

fun read_on :: "frame_reader \<times> budget \<Rightarrow> read list \<Rightarrow> event list \<times> stream_end" where
  "read_on (r, h) reads =
     (if finished r then ([], EndFin)
      else case reads of
        [] \<Rightarrow> ([], EndPending)
      | ReadError e # rs \<Rightarrow> ([], EndError (Stream (stream_error_from_read e)))
      | Chunk c # rs \<Rightarrow> stream_run (r\<lparr>decoder := frame_push (decoder r) c\<rparr>, h) rs
      | Fin # rs \<Rightarrow> ([], if at_frame_boundary (decoder r) then EndFin
                     else EndError (Protocol (violation_connection H3_FRAME_ERROR))))"

declare read_on.simps [simp del]

lemma stream_run_error: "next_item (decoder r, h) = (s', Inl e) \<Longrightarrow> stream_run (r, h) reads = ([], EndError e)"
  by (cases s') (simp add: stream_run.simps[of "(r, h)"] reader_next.simps[of r])

lemma stream_run_item:
  "next_item (decoder r, h) = ((d, h'), Inr (Some x)) \<Longrightarrow>
     stream_run (r, h) reads = apfst ((@) (events_of x)) (stream_run (r\<lparr>decoder := d\<rparr>, h') reads)"
  by (simp add: stream_run.simps[of "(r, h)"] reader_next.simps[of r h reads])

lemma stream_run_more:
  "next_item (decoder r, h) = ((d, h'), Inr None) \<Longrightarrow> stream_run (r, h) reads = read_on (r\<lparr>decoder := d\<rparr>, h') reads"
proof -
  assume n: "next_item (decoder r, h) = ((d, h'), Inr None)"
  show ?thesis
  proof (cases "\<not> finished r \<and> (\<exists>c rs. reads = Chunk c # rs)")
    case True
    then obtain c rs where c: "reads = Chunk c # rs" "\<not> finished r" by blast
    with n have "reader_next (r, h) reads = reader_next (r\<lparr>decoder := frame_push d c\<rparr>, h') rs"
      by (simp add: reader_next.simps[of r])
    then have "stream_run (r, h) reads = stream_run (r\<lparr>decoder := frame_push d c\<rparr>, h') rs"
      by (simp add: stream_run.simps[of "(r, h)"] stream_run.simps[of "(r\<lparr>decoder := frame_push d c\<rparr>, h')"])
    with c show ?thesis by (simp add: read_on.simps)
  next
    case False
    with n show ?thesis
      by (auto simp: read_on.simps stream_run.simps[of "(r, h)"] reader_next.simps[of r] split: list.splits read.splits)
  qed
qed

lemma stream_run_drain:
  assumes "run_frames (decoder r, h) = Some (vs, (d, h'), e)"
  shows "stream_run (r, h) reads =
    (case e of Some err \<Rightarrow> (vs, EndError err) | None \<Rightarrow> apfst ((@) vs) (read_on (r\<lparr>decoder := d\<rparr>, h') reads))"
  using assms
proof (induction "weight (decoder r, h)" arbitrary: r h vs rule: less_induct)
  case less
  obtain t res where n: "next_item (decoder r, h) = (t, res)" by (cases "next_item (decoder r, h)")
  obtain d1 h1 where t: "t = (d1, h1)" by (cases t)
  consider (e) err where "res = Inl err" | (n) "res = Inr None" | (x) x where "res = Inr (Some x)"
    by (cases res) (auto simp: option.exhaust_sel)
  then show ?case
  proof cases
    case e
    with n less.prems show ?thesis by (auto simp: drain_error stream_run_error)
  next
    case n': n
    with n t less.prems show ?thesis by (auto simp: drain_more stream_run_more apfst_def map_prod_def split: prod.splits)
  next
    case (x x)
    with n t have nx: "next_item (decoder r, h) = ((d1, h1), Inr (Some x))" by simp
    from less.prems drain_item[of next_item, OF nx, of events_of] obtain ws
      where ws: "run_frames (decoder (r\<lparr>decoder := d1\<rparr>), h1) = Some (ws, (d, h'), e)" "vs = events_of x @ ws"
      by (cases "run_frames (d1, h1)") auto
    have "weight (decoder (r\<lparr>decoder := d1\<rparr>), h1) < weight (decoder r, h)" using fd.next_decreases[OF nx] by simp
    from less.hyps[OF this ws(1)] ws(2) stream_run_item[OF nx] show ?thesis
      by (auto simp: apfst_def map_prod_def split: prod.splits option.splits)
  qed
qed

text \<open>
  The chunks of a stream do not matter: what is read is what the decoder makes of their
  concatenation, followed by what comes after them.
\<close>

lemma stream_run_chunks:
  assumes "\<not> finished r" "outcome (run_frames (frame_feed (decoder r, h) (concat cs))) = Some (vs, res)"
  shows "stream_run (r, h) (map Chunk cs @ rest) =
    (case res of Inl err \<Rightarrow> (vs, EndError err) | Inr (d, h') \<Rightarrow> apfst ((@) vs) (read_on (r\<lparr>decoder := d\<rparr>, h') rest))"
  using assms
proof (induction cs arbitrary: r h vs)
  case Nil
  then obtain d h' e where "run_frames (decoder r, h) = Some (vs, (d, h'), e)"
    and "res = (case e of None \<Rightarrow> Inr (d, h') | Some e \<Rightarrow> Inl e)"
    by (auto simp: outcome_def split: option.splits)
  with stream_run_drain[of r h vs d h' e rest] show ?case by (simp split: option.splits)
next
  case (Cons c cs)
  obtain ws s1 e where d: "run_frames (decoder r, h) = Some (ws, s1, e)"
    using fd.drain_returns[of "(decoder r, h)"] by auto
  obtain d1 h1 where s1: "s1 = (d1, h1)" by (cases s1)
  note step = fd.drain_feed[OF d, of "concat (c # cs)"]
  note run = stream_run_drain[OF d[unfolded s1], of "map Chunk (c # cs) @ rest"]
  show ?case
  proof (cases e)
    case (Some err)
    with step obtain s'' where "run_frames (frame_feed (decoder r, h) (concat (c # cs))) = Some (ws, s'', Some err)" by auto
    with Cons.prems run Some show ?thesis by (auto simp: outcome_def)
  next
    case None
    let ?r = "r\<lparr>decoder := frame_push d1 c\<rparr>"
    from step None have i: "consumed s1"
      and r: "run_frames (frame_feed (decoder r, h) (concat (c # cs))) = emit ws (run_frames (frame_feed s1 (concat (c # cs))))"
      by auto
    have "frame_feed s1 (concat (c # cs)) = frame_feed (decoder ?r, h1) (concat cs)"
      using i s1 by (simp add: consumed_def frame_push_def)
    with Cons.prems(2) r obtain us where us: "outcome (run_frames (frame_feed (decoder ?r, h1) (concat cs))) = Some (us, res)"
      "vs = ws @ us" by (auto simp: outcome_emit)
    have "stream_run (r, h) (map Chunk (c # cs) @ rest) = apfst ((@) ws) (stream_run (?r, h1) (map Chunk cs @ rest))"
      using run None Cons.prems(1) by (simp add: read_on.simps)
    with Cons.IH[of ?r h1 us] us Cons.prems(1) show ?thesis
      by (auto simp: apfst_def map_prod_def split: prod.splits sum.splits)
  qed
qed

text \<open>A sequence of whole frames, from a decoder between frames that may hold the first bytes of it.\<close>

lemma stream_run_wire_frames:
  assumes "\<not> finished r" "between_frames (decoder r)" "chunk (decoder r) @ concat cs = concat (map wire_frame_bytes fs)"
    and "list_all (wire_frame_ok (stream (decoder r))) fs"
    and "list_ex is_buffered fs \<Longrightarrow> h + unat MAX_BUFFERED_FRAME \<le> HEADERS_BUFFER_BUDGET"
    and "stream (decoder r) = Request \<Longrightarrow> unat (skipped (decoder r)) + length (filter is_skipped fs) \<le> unat MAX_SKIPPED_FRAMES"
  shows "stream_run (r, h) (map Chunk cs @ [Fin]) = (concat (map wire_frame_events fs), EndFin)"
proof -
  let ?d = "decoder r\<lparr>chunk := concat (map wire_frame_bytes fs)\<rparr>"
  have "\<exists>d'. run_frames (?d, h) = Some (concat (map wire_frame_events fs), (d', h), None) \<and> between_frames d' \<and> chunk d' = []"
    using assms by (intro run_wire_frames) (simp_all add: between_frames_def at_frame_boundary_def)
  then obtain d' where "outcome (run_frames (frame_feed (decoder r, h) (concat cs))) = Some (concat (map wire_frame_events fs), Inr (d', h))"
    "between_frames d'"
    using assms(3) by (auto simp: outcome_def)
  with stream_run_chunks[OF assms(1) this(1), of "[Fin]"] assms(1) show ?thesis
    by (simp add: read_on.simps between_frames_def)
qed

end
