(* ===== verification/Exchange.thy ===== *)
theory Exchange
  imports Request Frame_Reader H3_Connection
begin

text \<open>
  \<^verbatim>\<open>src/src/h3/stream.rs\<close>: one request stream, from its first byte to the tunnel that runs on it.
  What is done to the sending half is recorded in order (\<open>send_event\<close>), and so are the codes of the
  \<^verbatim>\<open>stop\<close> calls on the receiving half. The waits are explicit: reads that run out before the idle
  timeout are the elapsed branch, and a \<open>write_outcome\<close> says what the transport makes of one write.
\<close>

section \<open>Halves of a stream\<close>

datatype send_event = Written bytes | ResetWith code | FinSent

type_synonym send_half = "send_event list"

text \<open>A write is taken whole, fails or stalls after some bytes.\<close>

datatype write_outcome = Taken | WriteFails nat quinn_write_error | Stalled nat

datatype 'a poll = Returned 'a | Waiting | Panicked

fun write_all_chunks :: "send_half \<Rightarrow> bytes \<Rightarrow> write_outcome \<Rightarrow> send_half \<times> (stream_error + unit) poll" where
  "write_all_chunks send bs Taken = (send @ [Written bs], Returned (Inr ()))"
| "write_all_chunks send bs (WriteFails n e) = (send @ [Written (take n bs)], Returned (Inl (stream_error_from_write e)))"
| "write_all_chunks send bs (Stalled n) = (send @ [Written (take n bs)], Waiting)"

record h3_stream =
  send :: send_half
  frames :: frame_reader
  stops :: "code list"

record h3_reader =
  rframes :: frame_reader
  rstops :: "code list"

definition resolver_new :: h3_stream where
  "resolver_new = \<lparr>send = [], frames = frame_reader_new Request, stops = []\<rparr>"

section \<open>Reading the request\<close>

function read_block :: "frame_reader \<times> budget \<Rightarrow> read list \<Rightarrow> (frame_reader \<times> budget) \<times> read list \<times> (frame_error + bytes) poll" where
  "read_block s reads =
     (case reader_next s reads of
        (s', reads', Pending) \<Rightarrow> (s', reads', Waiting)
      | (s', reads', Ready (Inl e)) \<Rightarrow> (s', reads', Returned (Inl e))
      | (s', reads', Ready (Inr (Some (IFrame (FHeaders block))))) \<Rightarrow> (s', reads', Returned (Inr block))
      | (s', reads', Ready (Inr (Some (ISkipped _)))) \<Rightarrow> read_block s' reads'
      | (s', reads', Ready (Inr (Some _))) \<Rightarrow> (s', reads', Returned (Inl (Protocol (violation_connection H3_FRAME_UNEXPECTED))))
      | (s', reads', Ready (Inr None)) \<Rightarrow> (s', reads', Returned (Inl (Protocol (violation_stream H3_REQUEST_INCOMPLETE)))))"
  by pat_completeness auto
termination
  by (relation "measures [\<lambda>(s, reads). length reads, \<lambda>(s, reads). weight (decoder (fst s), snd s)]")
    (auto dest!: sym[of _ "reader_next _ _"] dest: reader_next_progress)

declare read_block.simps [simp del]

definition parse_request :: "bytes \<Rightarrow> frame_error + request" where
  "parse_request block =
     (case and_then (qpack_decode block (unat MAX_FIELD_SECTION_SIZE)) build_request of
        Inl v \<Rightarrow> Inl (Protocol v)
      | Inr r \<Rightarrow> Inr r)"

definition read_request :: "frame_reader \<times> budget \<Rightarrow> read list \<Rightarrow> (frame_reader \<times> budget) \<times> read list \<times> (frame_error + request) poll" where
  "read_request s reads =
     (case read_block s reads of
        (s', reads', Waiting) \<Rightarrow> (s', reads', Waiting)
      | (s', reads', Panicked) \<Rightarrow> (s', reads', Panicked)
      | (s', reads', Returned (Inl e)) \<Rightarrow> (s', reads', Returned (Inl e))
      | (s', reads', Returned (Inr block)) \<Rightarrow> (s', reads', Returned (parse_request block)))"

text \<open>
  \<^verbatim>\<open>answer\<close>: what is done about an error, to the connection, the receiving half and the sending
  half where it is still there. The write past the header array is the only panic of the model.
\<close>

fun answer :: "shared \<Rightarrow> code list \<Rightarrow> send_half option \<Rightarrow> frame_error \<Rightarrow> shared \<times> code list \<times> send_half option \<times> stream_error poll" where
  "answer sh stop snd_half (Stream e) = (sh, stop, snd_half, Returned e)"
| "answer sh stop snd_half (Protocol v) =
     (if fatal v then (case fail sh v of (sh', e) \<Rightarrow> (sh', stop, snd_half, Returned (Connection e)))
      else (sh, stop @ [code v], map_option (\<lambda>s. s @ [ResetWith (code v)]) snd_half, Returned (LocalStream v)))"
| "answer sh stop snd_half Panic = (sh, stop, snd_half, Panicked)"

section \<open>Responding\<close>

definition response_block :: "status \<Rightarrow> fields \<Rightarrow> bytes" where
  "response_block st fs = qpack_encode ((byte_string '':status'', st) # fs)"

definition respond_with :: "send_half \<Rightarrow> status \<Rightarrow> fields \<Rightarrow> write_outcome \<Rightarrow> send_half \<times> (stream_error + unit) poll" where
  "respond_with s st fs w =
     (let block = response_block st fs
      in case put_header [] HEADERS (of_nat (length block)) of
           None \<Rightarrow> (s, Panicked)
         | Some hd_bytes \<Rightarrow> write_all_chunks s (hd_bytes @ block) w)"

datatype respond_error = Failed stream_error | Expired

definition respond_within :: "send_half \<Rightarrow> status \<Rightarrow> fields \<Rightarrow> write_outcome \<Rightarrow> send_half \<times> (respond_error + unit) poll" where
  "respond_within s st fs w =
     (case respond_with s st fs w of
        (s', Returned (Inr u)) \<Rightarrow> (s', Returned (Inr u))
      | (s', Returned (Inl e)) \<Rightarrow> (s', Returned (Inl (Failed e)))
      | (s', Waiting) \<Rightarrow> (s' @ [ResetWith H3_REQUEST_CANCELLED], Returned (Inl Expired))
      | (s', Panicked) \<Rightarrow> (s', Panicked))"

definition REQUEST_HEADER_FIELDS_TOO_LARGE :: status where
  "REQUEST_HEADER_FIELDS_TOO_LARGE = byte_string ''431''"

text \<open>
  \<^verbatim>\<open>resolve\<close>, with the reads that arrive within the idle timeout and what becomes of the one response
  it may write.
\<close>

definition resolve :: "shared \<times> budget \<Rightarrow> h3_stream \<Rightarrow> read list \<Rightarrow> write_outcome \<Rightarrow>
    (shared \<times> budget) \<times> h3_stream \<times> read list \<times> (stream_error + request) poll" where
  "resolve g st reads w =
     (case g of (sh, held) \<Rightarrow>
      case read_request (frames st, held) reads of
        ((fr, held'), reads', Waiting) \<Rightarrow>
          (let v = violation_stream H3_REQUEST_INCOMPLETE
           in ((sh, held'), st\<lparr>frames := fr, send := send st @ [ResetWith (code v)], stops := stops st @ [code v]\<rparr>,
               reads', Returned (Inl (LocalStream v))))
      | ((fr, held'), reads', Panicked) \<Rightarrow> ((sh, held'), st\<lparr>frames := fr\<rparr>, reads', Panicked)
      | ((fr, held'), reads', Returned (Inr r)) \<Rightarrow> ((sh, held'), st\<lparr>frames := fr\<rparr>, reads', Returned (Inr r))
      | ((fr, held'), reads', Returned (Inl e)) \<Rightarrow>
          (case (case e of Protocol v \<Rightarrow> if field_section v \<and> \<not> fatal v then Some v else None | _ \<Rightarrow> None) of
             Some v \<Rightarrow>
               (case respond_within (send st) REQUEST_HEADER_FIELDS_TOO_LARGE [] w of (send', res) \<Rightarrow>
                  ((sh, held'),
                   st\<lparr>frames := fr, stops := stops st @ [code v], send := (if res = Returned (Inr ()) then send' @ [FinSent] else send')\<rparr>,
                   reads', if res = Panicked then Panicked else Returned (Inl (LocalStream v))))
           | None \<Rightarrow>
               (case answer sh (stops st) (Some (send st)) e of (sh', stop', send', res) \<Rightarrow>
                  ((sh', held'), st\<lparr>frames := fr, stops := stop', send := the send'\<rparr>, reads',
                   case res of Returned err \<Rightarrow> Returned (Inl err) | Waiting \<Rightarrow> Waiting | Panicked \<Rightarrow> Panicked))))"

section \<open>The tunnel's halves\<close>

definition stream_datagrams :: "shared \<Rightarrow> u64 \<Rightarrow> shared \<times> u64 option" where
  "stream_datagrams sh i = register_datagrams sh (quarter_stream_id_of i)"

definition split_stream :: "h3_stream \<Rightarrow> send_half \<times> h3_reader" where
  "split_stream st =
     (send st, \<lparr>rframes = (frames st)\<lparr>decoder := connect_completed (decoder (frames st))\<rparr>, rstops = stops st\<rparr>)"

definition send_data :: "send_half \<Rightarrow> bytes \<Rightarrow> write_outcome \<Rightarrow> send_half \<times> (stream_error + unit) poll" where
  "send_data s bs w =
     (case put_header [] DATA (of_nat (length bs)) of
        None \<Rightarrow> (s, Panicked)
      | Some hd_bytes \<Rightarrow> write_all_chunks s (hd_bytes @ bs) w)"

definition reset_half :: "send_half \<Rightarrow> code \<Rightarrow> send_half" where
  "reset_half s c = s @ [ResetWith c]"

text \<open>\<^verbatim>\<open>stopped\<close>: how the peer's \<^verbatim>\<open>STOP_SENDING\<close>, or the end of the response stream, is reported.\<close>

datatype quinn_stopped_error = StoppedConnectionLost quinn_connection_error | OtherStoppedError

fun stopped :: "quinn_stopped_error + code option \<Rightarrow> stream_error" where
  "stopped (Inr (Some c)) = RemoteTerminate c"
| "stopped (Inr None) = LocalStream (violation_stream H3_NO_ERROR)"
| "stopped (Inl (StoppedConnectionLost e)) = Connection (connection_error_from e)"
| "stopped (Inl OtherStoppedError) = LocalStream (violation_stream H3_INTERNAL_ERROR)"

text \<open>\<^verbatim>\<open>reset_by_peer\<close> over what \<^verbatim>\<open>readable\<close> answers turn by turn; \<open>None\<close> is still waiting.\<close>

fun reset_by_peer :: "(quinn_read_error + bool) list \<Rightarrow> stream_error option" where
  "reset_by_peer [] = None"
| "reset_by_peer (Inr True # rs) = reset_by_peer rs"
| "reset_by_peer (Inr False # rs) = None"
| "reset_by_peer (Inl (ReadReset c) # rs) = Some (RemoteTerminate c)"
| "reset_by_peer (Inl (ReadConnectionLost e) # rs) = Some (Connection (connection_error_from e))"
| "reset_by_peer (Inl OtherReadError # rs) = None"

function recv_loop :: "frame_reader \<times> budget \<Rightarrow> read list \<Rightarrow> (frame_reader \<times> budget) \<times> read list \<times> (frame_error + bytes option) poll" where
  "recv_loop s reads =
     (case reader_next s reads of
        (s', reads', Pending) \<Rightarrow> (s', reads', Waiting)
      | (s', reads', Ready (Inl e)) \<Rightarrow> (s', reads', Returned (Inl e))
      | (s', reads', Ready (Inr None)) \<Rightarrow> (s', reads', Returned (Inr None))
      | (s', reads', Ready (Inr (Some (ISkipped _)))) \<Rightarrow> recv_loop s' reads'
      | (s', reads', Ready (Inr (Some (IData bs)))) \<Rightarrow>
          (if bs = [] then recv_loop s' reads' else (s', reads', Returned (Inr (Some bs))))
      | (s', reads', Ready (Inr (Some (IFrame _)))) \<Rightarrow>
          (s', reads', Returned (Inl (Protocol (violation_connection H3_FRAME_UNEXPECTED)))))"
  by pat_completeness auto
termination
  by (relation "measures [\<lambda>(s, reads). length reads, \<lambda>(s, reads). weight (decoder (fst s), snd s)]")
    (auto dest!: sym[of _ "reader_next _ _"] dest: reader_next_progress)

declare recv_loop.simps [simp del]

definition report :: "shared \<Rightarrow> h3_reader \<Rightarrow> frame_error \<Rightarrow> shared \<times> h3_reader \<times> stream_error poll" where
  "report sh r e =
     (case answer sh (rstops r) None e of (sh', stop', _, res) \<Rightarrow> (sh', r\<lparr>rstops := stop'\<rparr>, res))"

definition recv_data :: "shared \<times> budget \<Rightarrow> h3_reader \<Rightarrow> read list \<Rightarrow>
    (shared \<times> budget) \<times> h3_reader \<times> read list \<times> (stream_error + bytes option) poll" where
  "recv_data g r reads =
     (case g of (sh, held) \<Rightarrow>
      case recv_loop (rframes r, held) reads of
        ((fr, held'), reads', Returned (Inr x)) \<Rightarrow> ((sh, held'), r\<lparr>rframes := fr\<rparr>, reads', Returned (Inr x))
      | ((fr, held'), reads', Waiting) \<Rightarrow> ((sh, held'), r\<lparr>rframes := fr\<rparr>, reads', Waiting)
      | ((fr, held'), reads', Panicked) \<Rightarrow> ((sh, held'), r\<lparr>rframes := fr\<rparr>, reads', Panicked)
      | ((fr, held'), reads', Returned (Inl e)) \<Rightarrow>
          (case report sh (r\<lparr>rframes := fr\<rparr>) e of (sh', r', res) \<Rightarrow>
             ((sh', held'), r', reads', case res of Returned err \<Rightarrow> Returned (Inl err) | Waiting \<Rightarrow> Waiting | Panicked \<Rightarrow> Panicked)))"

end
