(* ===== verification/Exchange_Safety.thy ===== *)
theory Exchange_Safety
  imports Exchange Frame_Rules
begin

text \<open>
  What happens on a request stream: which request a stream stands for, what is done about one that is
  refused, and that a tunnel carries the bytes written into it.
\<close>

section \<open>The request a stream stands for\<close>

text \<open>Specification over the events of the whole stream: skips are passed over, and HEADERS comes first.\<close>

fun block_of :: "event list \<Rightarrow> stream_end \<Rightarrow> (frame_error + bytes) poll" where
  "block_of (EvSkipped _ # vs) en = block_of vs en"
| "block_of (EvFrame (FHeaders block) # vs) en = Returned (Inr block)"
| "block_of (_ # vs) en = Returned (Inl (Protocol (violation_connection H3_FRAME_UNEXPECTED)))"
| "block_of [] EndPending = Waiting"
| "block_of [] (EndError e) = Returned (Inl e)"
| "block_of [] EndFin = Returned (Inl (Protocol (violation_stream H3_REQUEST_INCOMPLETE)))"

lemma block_of_item:
  "block_of (events_of x @ vs) en =
     (case x of
        IFrame (FHeaders block) \<Rightarrow> Returned (Inr block)
      | ISkipped _ \<Rightarrow> block_of vs en
      | _ \<Rightarrow> Returned (Inl (Protocol (violation_connection H3_FRAME_UNEXPECTED))))"
  by (cases x rule: events_of.cases) (auto split: frame.splits)

lemma read_block_refines: "snd (snd (read_block s reads)) = case_prod block_of (stream_run s reads)"
proof (induction s reads rule: read_block.induct)
  case (1 s reads)
  obtain s' reads' res where n: "reader_next s reads = (s', reads', res)" by (cases "reader_next s reads")
  obtain vs en where r: "stream_run s' reads' = (vs, en)" by (cases "stream_run s' reads'")
  show ?case
    using n r 1 block_of_item[of _ vs en]
    by (subst read_block.simps, subst stream_run.simps)
      (auto split: reader_result.splits sum.splits option.splits item.splits frame.splits)
qed

definition request_of :: "event list \<times> stream_end \<Rightarrow> (frame_error + request) poll" where
  "request_of run =
     (case case_prod block_of run of
        Returned (Inr block) \<Rightarrow> Returned (parse_request block)
      | Returned (Inl e) \<Rightarrow> Returned (Inl e)
      | Waiting \<Rightarrow> Waiting
      | Panicked \<Rightarrow> Panicked)"

lemma read_request_refines: "snd (snd (read_request s reads)) = request_of (stream_run s reads)"
  using read_block_refines[of s reads]
  by (cases "read_block s reads") (auto simp: read_request_def request_of_def split: poll.splits sum.splits)

section \<open>Errors of the stream\<close>

lemma reader_next_error:
  assumes "reader_next s reads = (s', reads', Ready (Inl e))"
  shows "frame_layer_error e \<or> (\<exists>x. e = Stream x)"
  using assms
proof (induction s reads "(s', reads', Ready (Inl e) :: reader_result)" rule: reader_next_rule)
  case (error r h)
  then show ?case using next_item_error[of "decoder r" h e] by simp
qed (auto simp: frame_layer_error_def split: if_splits)

lemma stream_run_error_end: "snd (stream_run s reads) = EndError e \<Longrightarrow> frame_layer_error e \<or> (\<exists>x. e = Stream x)"
proof (induction s reads rule: stream_run.induct)
  case (1 s reads)
  obtain s' reads' res where n: "reader_next s reads = (s', reads', res)" by (cases "reader_next s reads")
  show ?case
    using n 1 reader_next_error[of s reads s' reads' e]
    by (subst (asm) (2) stream_run.simps) (auto split: reader_result.splits sum.splits option.splits)
qed

lemma block_of_error:
  "block_of vs en \<noteq> Panicked"
  "block_of vs en = Returned (Inl e) \<Longrightarrow> en = EndError e \<or>
     e = Protocol (violation_connection H3_FRAME_UNEXPECTED) \<or> e = Protocol (violation_stream H3_REQUEST_INCOMPLETE)"
  by (induction vs en rule: block_of.induct) auto

lemma qpack_decode_error:
  "qpack_decode block m = Inl e \<Longrightarrow> e \<in> {qpack_stream_error, qpack_connection_error, field_section_too_large}"
  by (auto simp: qpack_decode_def dynamic_reference_def and_then_Inl_iff split: if_splits
      dest: take_int_error decode_fields_error)

lemma build_request_error: "build_request sect = Inl e \<Longrightarrow> e = malformed"
  by (auto simp: build_request_def and_then_Inl_iff dest: scan_section_error finish_request_error)

text \<open>What a stream refused as a request can be refused for: costing the connection, or only the stream.\<close>

definition refusal :: "violation \<Rightarrow> bool" where
  "refusal v \<longleftrightarrow>
     (if fatal v then code v \<in> {H3_FRAME_UNEXPECTED, H3_FRAME_ERROR, H3_SETTINGS_ERROR, QPACK_DECOMPRESSION_FAILED}
      else code v \<in> {H3_REQUEST_INCOMPLETE, H3_EXCESSIVE_LOAD, QPACK_DECOMPRESSION_FAILED, H3_MESSAGE_ERROR})"

lemma parse_request_error: "parse_request block = Inl e \<Longrightarrow> \<exists>v. e = Protocol v \<and> refusal v"
  by (auto simp: parse_request_def and_then_Inl_iff refusal_def qpack_stream_error_def qpack_connection_error_def malformed_def
      split: sum.splits dest!: qpack_decode_error build_request_error)

lemma request_of_cases:
  obtains (request) block r where "request_of (stream_run s reads) = Returned (Inr r)" "parse_request block = Inr r"
      "case_prod block_of (stream_run s reads) = Returned (Inr block)"
  | (waiting) "request_of (stream_run s reads) = Waiting"
  | (transport) e where "request_of (stream_run s reads) = Returned (Inl (Stream e))"
  | (refused) v where "request_of (stream_run s reads) = Returned (Inl (Protocol v))" "refusal v"
proof -
  obtain vs en where r: "stream_run s reads = (vs, en)" by (cases "stream_run s reads")
  show ?thesis
  proof (cases "block_of vs en")
    case (Returned x)
    show ?thesis
    proof (cases x)
      case (Inl e)
      with Returned have "(\<exists>y. e = Stream y) \<or> (\<exists>v. e = Protocol v \<and> refusal v)"
        using block_of_error(2)[of vs en e] stream_run_error_end[of s reads e] r
        by (auto simp: refusal_def frame_layer_error_def split: if_splits)
      with Returned Inl r show ?thesis by (auto simp: request_of_def intro: transport refused)
    next
      case (Inr block)
      show ?thesis
      proof (cases "parse_request block")
        case Inl': (Inl e)
        from parse_request_error[OF this] Inl' Returned Inr r show ?thesis
          by (auto simp: request_of_def intro: refused)
      qed (use Returned Inr r in \<open>auto simp: request_of_def intro: request\<close>)
    qed
  qed (use r block_of_error(1)[of vs en] in \<open>auto simp: request_of_def intro: waiting\<close>)
qed

section \<open>Responses\<close>

definition response_bytes :: "status \<Rightarrow> fields \<Rightarrow> bytes" where
  "response_bytes st fs = wire_frame_bytes (HEADERS, response_block st fs)"

lemma respond_with_eq:
  assumes "length (response_block st fs) \<le> unat VARINT_MAX"
  shows "respond_with s st fs w = write_all_chunks s (response_bytes st fs) w"
proof -
  have "HEADERS \<le> VARINT_MAX" by (simp add: HEADERS_def VARINT_MAX_eq)
  with assms show ?thesis
    by (simp add: respond_with_def Let_def response_bytes_def wire_frame_bytes_def put_header_enc of_nat_le_VARINT_MAX)
qed

lemma response_431: "response_block REQUEST_HEADER_FIELDS_TOO_LARGE [] = [0, 0, 0x5f, 0x09, 3, 0x34, 0x33, 0x31]"
  by (simp add: response_block_def qpack_encode_def find_static_def STATIC_TABLE_def STATIC_TEXT_def
      REQUEST_HEADER_FIELDS_TOO_LARGE_def put_int_def put_string_def byte_string_def Let_def put_int_loop.simps[of "0x9"])

lemma respond_431:
  "respond_within s REQUEST_HEADER_FIELDS_TOO_LARGE [] w =
     (let bs = response_bytes REQUEST_HEADER_FIELDS_TOO_LARGE []
      in case w of
           Taken \<Rightarrow> (s @ [Written bs], Returned (Inr ()))
         | WriteFails n e \<Rightarrow> (s @ [Written (take n bs)], Returned (Inl (Failed (stream_error_from_write e))))
         | Stalled n \<Rightarrow> (s @ [Written (take n bs), ResetWith H3_REQUEST_CANCELLED], Returned (Inl Expired)))"
  by (cases w) (simp_all add: respond_within_def respond_with_eq response_431 VARINT_MAX_eq Let_def)

section \<open>Whole frames\<close>

lemma stream_run_prefix:
  assumes "list_all (wire_frame_ok s) fs" "concat cs = concat (map wire_frame_bytes fs) @ rest"
    and "list_ex is_buffered fs \<Longrightarrow> h + unat MAX_BUFFERED_FRAME \<le> HEADERS_BUFFER_BUDGET"
    and "s = Request \<Longrightarrow> length (filter is_skipped fs) \<le> unat MAX_SKIPPED_FRAMES"
  shows "\<exists>vs en. stream_run (frame_reader_new s, h) (map Chunk cs @ later) = (concat (map wire_frame_events fs) @ vs, en)"
proof -
  let ?d = "frame_new s\<lparr>chunk := concat cs\<rparr>"
  have "\<exists>d'. run_frames (?d, h) = emit (concat (map wire_frame_events fs)) (run_frames (d', h))
      \<and> between_frames d' \<and> chunk d' = rest"
    using assms by (intro run_wire_frames_rest)
      (simp_all add: frame_new_def between_frames_def at_frame_boundary_def)
  then obtain d' where d': "run_frames (?d, h) = emit (concat (map wire_frame_events fs)) (run_frames (d', h))" by blast
  obtain vs t where "run_frames (d', h) = Some (vs, t)" using fd.drain_returns[of "(d', h)"] by auto
  with d' have "\<exists>res. outcome (run_frames (frame_feed (decoder (frame_reader_new s), h) (concat cs)))
      = Some (concat (map wire_frame_events fs) @ vs, res)"
    by (cases t) (auto simp: frame_reader_new_def frame_new_def outcome_def)
  then obtain res where o: "outcome (run_frames (frame_feed (decoder (frame_reader_new s), h) (concat cs)))
      = Some (concat (map wire_frame_events fs) @ vs, res)" ..
  have "\<not> finished (frame_reader_new s)" by (simp add: frame_reader_new_def)
  from stream_run_chunks[OF this o, of later] show ?thesis
    by (auto simp: apfst_def map_prod_def split: sum.splits prod.splits)
qed

lemma block_of_skips: "list_all is_skipped us \<Longrightarrow> block_of (concat (map wire_frame_events us) @ vs) en = block_of vs en"
  by (induction us) (auto simp: is_skipped_def wire_frame_events_def)

lemma headers_ok:
  "length block \<le> unat MAX_BUFFERED_FRAME \<Longrightarrow> wire_frame_ok Request (HEADERS, block) \<and> wire_frame_events (HEADERS, block) = [EvFrame (FHeaders block)]"
  by (simp add: wire_frame_ok_def wire_frame_events_def RESERVED_HTTP2_TYPES_def misplaced_def from_type_def frame_types
      MAX_BUFFERED_FRAME_def MAX_FIELD_SECTION_SIZE_def VARINT_MAX_eq)

section \<open>Tunnel data\<close>

lemma recv_loop_progress:
  "recv_loop s reads = (s', reads', Returned (Inr (Some bs))) \<Longrightarrow>
     length reads' < length reads \<or> reads' = reads \<and> weight (decoder (fst s'), snd s') < weight (decoder (fst s), snd s)"
proof (induction s reads rule: recv_loop.induct)
  case (1 s reads)
  obtain s1 reads1 res where n: "reader_next s reads = (s1, reads1, res)" by (cases "reader_next s reads")
  have p: "length reads1 < length reads \<or> reads1 = reads \<and> weight (decoder (fst s1), snd s1) < weight (decoder (fst s), snd s)"
    if "res = Ready (Inr (Some x))" for x
    using reader_next_progress[of s reads s1 reads1 x] n that by blast
  show ?case
    using "1.prems" "1.IH"[OF n[symmetric] refl] p n
    by (subst (asm) recv_loop.simps)
      (fastforce split: reader_result.splits sum.splits option.splits item.splits if_splits)
qed

text \<open>Reading until the end: the pieces, and what the last call did and returned.\<close>

function recv_all :: "shared \<times> budget \<Rightarrow> h3_reader \<Rightarrow> read list \<Rightarrow> bytes list \<times> shared \<times> code list \<times> (stream_error + unit) poll" where
  "recv_all g r reads =
     (case recv_data g r reads of
        (g', r', reads', Returned (Inr (Some bs))) \<Rightarrow> apfst ((#) bs) (recv_all g' r' reads')
      | (g', r', reads', Returned (Inr None)) \<Rightarrow> ([], fst g', rstops r', Returned (Inr ()))
      | (g', r', reads', Returned (Inl e)) \<Rightarrow> ([], fst g', rstops r', Returned (Inl e))
      | (g', r', reads', Waiting) \<Rightarrow> ([], fst g', rstops r', Waiting)
      | (g', r', reads', Panicked) \<Rightarrow> ([], fst g', rstops r', Panicked))"
  by pat_completeness auto

lemma recv_data_some:
  "recv_data (sh, held) r reads = (g', r', reads', Returned (Inr (Some bs))) \<longleftrightarrow>
     (\<exists>fr held'. recv_loop (rframes r, held) reads = ((fr, held'), reads', Returned (Inr (Some bs)))
        \<and> g' = (sh, held') \<and> r' = r\<lparr>rframes := fr\<rparr>)"
  by (auto simp: recv_data_def split: prod.splits poll.splits sum.splits)

termination recv_all
  by (relation "measures [\<lambda>(g, r, reads). length reads, \<lambda>(g, r, reads). weight (decoder (rframes r), snd g)]")
    (auto dest!: sym[of _ "recv_data _ _ _"] recv_loop_progress simp: recv_data_some)

declare recv_all.simps [simp del]

text \<open>Specification over the events of the stream.\<close>

fun tunnel_of :: "event list \<Rightarrow> stream_end \<Rightarrow> bytes \<times> stream_end" where
  "tunnel_of [] en = ([], en)"
| "tunnel_of (EvByte b # vs) en = apfst ((#) b) (tunnel_of vs en)"
| "tunnel_of (EvFrame _ # vs) en = ([], EndError (Protocol (violation_connection H3_FRAME_UNEXPECTED)))"
| "tunnel_of (_ # vs) en = tunnel_of vs en"

lemma tunnel_of_bytes: "tunnel_of (map EvByte bs @ vs) en = apfst ((@) bs) (tunnel_of vs en)"
  by (induction bs) (auto simp: apfst_def map_prod_def split: prod.splits)

lemma tunnel_of_item:
  "tunnel_of (events_of x @ vs) en =
     (case x of
        IData bs \<Rightarrow> apfst ((@) bs) (tunnel_of vs en)
      | ISkipped _ \<Rightarrow> tunnel_of vs en
      | IFrame _ \<Rightarrow> ([], EndError (Protocol (violation_connection H3_FRAME_UNEXPECTED))))"
  using tunnel_of_bytes[of _ vs en]
  by (cases x rule: events_of.cases) (auto simp: apfst_def map_prod_def split: prod.splits)

lemma recv_loop_refines:
  "case recv_loop s reads of
     (s', reads', Returned (Inr (Some bs))) \<Rightarrow> bs \<noteq> [] \<and>
       case_prod tunnel_of (stream_run s reads) = apfst ((@) bs) (case_prod tunnel_of (stream_run s' reads'))
   | (_, _, Returned (Inr None)) \<Rightarrow> case_prod tunnel_of (stream_run s reads) = ([], EndFin)
   | (_, _, Returned (Inl e)) \<Rightarrow> case_prod tunnel_of (stream_run s reads) = ([], EndError e)
   | (_, _, Waiting) \<Rightarrow> case_prod tunnel_of (stream_run s reads) = ([], EndPending)
   | (_, _, Panicked) \<Rightarrow> False"
proof (induction s reads rule: recv_loop.induct)
  case (1 s reads)
  obtain s' reads' res where n: "reader_next s reads = (s', reads', res)" by (cases "reader_next s reads")
  obtain vs en where r: "stream_run s' reads' = (vs, en)" by (cases "stream_run s' reads'")
  have e: "stream_run s reads = (events_of x @ vs, en)" if "res = Ready (Inr (Some x))" for x
    using n r that by (simp add: stream_run.simps[of s])
  have same: "recv_loop s reads = recv_loop s' reads'" "case_prod tunnel_of (stream_run s reads) = case_prod tunnel_of (stream_run s' reads')"
    if "res = Ready (Inr (Some (ISkipped k))) \<or> res = Ready (Inr (Some (IData [])))" for k
    using that n r e by (auto simp: recv_loop.simps[of s] tunnel_of_item)
  consider (again) k where "res = Ready (Inr (Some (ISkipped k))) \<or> res = Ready (Inr (Some (IData [])))"
    | (data) b bs where "res = Ready (Inr (Some (IData (b # bs))))" | (frame) f where "res = Ready (Inr (Some (IFrame f)))"
    | (other) "res = Pending \<or> (\<exists>e. res = Ready (Inl e)) \<or> res = Ready (Inr None)"
    by (metis item.exhaust list.exhaust option.exhaust sum.exhaust reader_result.exhaust)
  then show ?case
  proof cases
    case again
    then show ?thesis using "1.IH"[OF n[symmetric] refl] unfolding same[OF again] by auto
  next
    case data
    with e n r show ?thesis by (simp add: recv_loop.simps[of s] tunnel_of_item del: events_of.simps)
  next
    case frame
    with e n r show ?thesis by (simp add: recv_loop.simps[of s])
  next
    case other
    with n show ?thesis by (auto simp: recv_loop.simps[of s] stream_run.simps[of s])
  qed
qed

definition ending :: "shared \<Rightarrow> code list \<Rightarrow> stream_end \<Rightarrow> shared \<times> code list \<times> (stream_error + unit) poll" where
  "ending sh stop en =
     (case en of
        EndFin \<Rightarrow> (sh, stop, Returned (Inr ()))
      | EndPending \<Rightarrow> (sh, stop, Waiting)
      | EndError e \<Rightarrow>
          (case answer sh stop None e of
             (sh', stop', _, Returned err) \<Rightarrow> (sh', stop', Returned (Inl err))
           | (sh', stop', _, Waiting) \<Rightarrow> (sh', stop', Waiting)
           | (sh', stop', _, Panicked) \<Rightarrow> (sh', stop', Panicked)))"

lemma recv_all_refines:
  assumes "case_prod tunnel_of (stream_run (rframes r, held) reads) = (bs, en)"
  shows "\<exists>pieces. recv_all (sh, held) r reads = (pieces, ending sh (rstops r) en) \<and> concat pieces = bs \<and> [] \<notin> set pieces"
  using assms
proof (induction "(sh, held)" r reads arbitrary: held bs rule: recv_all.induct)
  case (1 r reads held bs)
  obtain fr held' reads' res where l: "recv_loop (rframes r, held) reads = ((fr, held'), reads', res)" by (metis prod.exhaust)
  note ref = recv_loop_refines[of "(rframes r, held)" reads, unfolded l]
  show ?case
  proof (cases "\<exists>d. res = Returned (Inr (Some d))")
    case True
    then obtain d where d: "res = Returned (Inr (Some d))" ..
    have rd: "recv_data (sh, held) r reads = ((sh, held'), r\<lparr>rframes := fr\<rparr>, reads', Returned (Inr (Some d)))"
      using l d by (simp add: recv_data_some)
    obtain bs' en' where t: "case_prod tunnel_of (stream_run (fr, held') reads') = (bs', en')"
      by (cases "case_prod tunnel_of (stream_run (fr, held') reads')")
    with ref d "1.prems" have b: "bs = d @ bs'" "en' = en" "d \<noteq> []" by auto
    have "\<exists>pieces. recv_all (sh, held') (r\<lparr>rframes := fr\<rparr>) reads' = (pieces, ending sh (rstops r) en)
        \<and> concat pieces = bs' \<and> [] \<notin> set pieces"
      using "1.hyps"[OF rd[symmetric] refl refl refl refl refl, of bs'] t b by simp
    then obtain pieces where "recv_all (sh, held') (r\<lparr>rframes := fr\<rparr>) reads' = (pieces, ending sh (rstops r) en)"
      "concat pieces = bs'" "[] \<notin> set pieces" by blast
    then show ?thesis by (intro exI[of _ "d # pieces"]) (use b rd in \<open>simp add: recv_all.simps[of "(sh, held)"]\<close>)
  next
    case False
    then have "recv_all (sh, held) r reads = ([], ending sh (rstops r) en) \<and> bs = []"
      using ref l "1.prems"
      by (auto simp: recv_all.simps[of "(sh, held)"] recv_data_def report_def ending_def
          split: poll.splits sum.splits option.splits prod.splits)
    then show ?thesis by auto
  qed
qed

text \<open>A whole body, written piece by piece, and the bytes a sending half has written.\<close>

fun send_all :: "send_half \<Rightarrow> bytes list \<Rightarrow> send_half" where
  "send_all s [] = s"
| "send_all s (d # ds) = send_all (fst (send_data s d Taken)) ds"

fun written :: "send_half \<Rightarrow> bytes" where
  "written [] = []"
| "written (Written bs # es) = bs @ written es"
| "written (_ # es) = written es"

lemma written_append [simp]: "written (a @ b) = written a @ written b"
  by (induction a rule: written.induct) auto

lemma written_send_all:
  assumes "list_all (\<lambda>d. length d \<le> unat VARINT_MAX) ds"
  shows "written (send_all s ds) = written s @ concat (map (\<lambda>d. wire_frame_bytes (DATA, d)) ds)"
  using assms
proof (induction ds arbitrary: s)
  case (Cons d ds)
  have "DATA \<le> VARINT_MAX" by (simp add: DATA_def VARINT_MAX_eq)
  with Cons.prems have "send_data s d Taken = (s @ [Written (wire_frame_bytes (DATA, d))], Returned (Inr ()))"
    by (simp add: send_data_def wire_frame_bytes_def put_header_enc of_nat_le_VARINT_MAX)
  with Cons show ?case by simp
qed simp

lemma data_frame_ok: "length d \<le> unat VARINT_MAX \<Longrightarrow> wire_frame_ok Tunnel (DATA, d)"
  by (simp add: wire_frame_ok_def RESERVED_HTTP2_TYPES_def misplaced_def from_type_def frame_types VARINT_MAX_eq)

lemma tunnel_of_data:
  "tunnel_of (concat (map wire_frame_events (map (Pair DATA) ds))) EndFin = (concat ds, EndFin)"
proof (induction ds)
  case (Cons d ds)
  then show ?case by (simp add: wire_frame_events_def tunnel_of_item del: events_of.simps)
qed simp

section \<open>Properties\<close>

lemma resolved_request:
  assumes "resolve (sh, held) resolver_new reads w = (g, st, reads', Returned (Inr r))"
  obtains block sect where "case_prod block_of (stream_run (frame_reader_new Request, held) reads) = Returned (Inr block)"
    "qpack_decode block (unat MAX_FIELD_SECTION_SIZE) = Inr sect" "well_formed_request sect r"
proof -
  let ?s = "(frame_reader_new Request, held)"
  have "request_of (stream_run ?s reads) = Returned (Inr r)"
    using assms read_request_refines[of ?s reads]
    by (auto simp: resolve_def resolver_new_def Let_def split: prod.splits poll.splits sum.splits option.splits if_splits)
  then obtain block where "case_prod block_of (stream_run ?s reads) = Returned (Inr block)" "parse_request block = Inr r"
    by (auto simp: request_of_def split: poll.splits sum.splits)
  then show thesis
    using that build_request_eq by (auto simp: parse_request_def and_then_Inr_iff split: sum.splits)
qed

text \<open>
  C37. Resolving a request stream, whatever arrives on it and whatever becomes of the writes, ends in one
  of six ways and never panics. It yields the request of a field section that was decoded from the first
  frame and is well-formed, and then touches nothing; or the transport failed, and nothing is touched; or
  the request did not arrive in time and both directions are ended with \<^verbatim>\<open>H3_REQUEST_INCOMPLETE\<close>; or a
  rule whose breach costs the connection was broken, and the connection is failed with it; or the field
  section was too large and, once receiving is stopped, a 431 is written; or the request is refused with
  one of four codes, by which both directions of this stream alone are ended.
\<close>

theorem resolve_outcomes:
  "case resolve (sh, held) resolver_new reads w of ((sh', held'), st, reads', res) \<Rightarrow>
     (\<exists>block sect r. res = Returned (Inr r) \<and> case_prod block_of (stream_run (frame_reader_new Request, held) reads) = Returned (Inr block)
        \<and> qpack_decode block (unat MAX_FIELD_SECTION_SIZE) = Inr sect \<and> well_formed_request sect r
        \<and> sh' = sh \<and> send st = [] \<and> stops st = [])
   \<or> (\<exists>e. res = Returned (Inl e) \<and> request_of (stream_run (frame_reader_new Request, held) reads) = Returned (Inl (Stream e))
        \<and> sh' = sh \<and> send st = [] \<and> stops st = [])
   \<or> (res = Returned (Inl (LocalStream (violation_stream H3_REQUEST_INCOMPLETE))) \<and> sh' = sh
        \<and> send st = [ResetWith H3_REQUEST_INCOMPLETE] \<and> stops st = [H3_REQUEST_INCOMPLETE])
   \<or> (\<exists>v. fatal v \<and> refusal v \<and> sh' = fst (fail sh v) \<and> res = Returned (Inl (Connection (snd (fail sh v))))
        \<and> send st = [] \<and> stops st = [])
   \<or> (\<exists>v. field_section v \<and> \<not> fatal v \<and> refusal v \<and> res = Returned (Inl (LocalStream v)) \<and> sh' = sh \<and> stops st = [code v]
        \<and> (send st = (let bs = response_bytes REQUEST_HEADER_FIELDS_TOO_LARGE [] in
             case w of Taken \<Rightarrow> [Written bs, FinSent] | WriteFails n _ \<Rightarrow> [Written (take n bs)]
             | Stalled n \<Rightarrow> [Written (take n bs), ResetWith H3_REQUEST_CANCELLED])))
   \<or> (\<exists>v. \<not> field_section v \<and> \<not> fatal v \<and> refusal v \<and> res = Returned (Inl (LocalStream v)) \<and> sh' = sh
        \<and> send st = [ResetWith (code v)] \<and> stops st = [code v])"
proof -
  let ?s = "(frame_reader_new Request, held)"
  obtain s' reads' res where r: "read_request ?s reads = (s', reads', res)" by (cases "read_request ?s reads")
  obtain fr held' where s': "s' = (fr, held')" by (cases s')
  have res: "res = request_of (stream_run ?s reads)" using read_request_refines[of ?s reads] r by simp
  note rdefs = resolve_def resolver_new_def r s'
  show ?thesis
  proof (cases rule: request_of_cases[of ?s reads])
    case (request block r')
    then obtain sect where "qpack_decode block (unat MAX_FIELD_SECTION_SIZE) = Inr sect" "build_request sect = Inr r'"
      by (auto simp: parse_request_def and_then_Inr_iff split: sum.splits)
    with request res show ?thesis using build_request_eq[of sect r'] by (auto simp: rdefs)
  next
    case waiting
    with res show ?thesis by (simp add: rdefs)
  next
    case (transport e)
    with res show ?thesis by (simp add: rdefs)
  next
    case (refused v)
    show ?thesis
    proof (cases "field_section v \<and> \<not> fatal v")
      case True
      with refused res show ?thesis by (cases w) (auto simp: rdefs respond_431 Let_def)
    next
      case False
      with refused res show ?thesis by (auto simp: rdefs split: prod.splits)
    qed
  qed
qed

lemma request_received:
  assumes "concat cs = concat (map wire_frame_bytes us) @ wire_frame_bytes (HEADERS, qpack_encode fs) @ rest"
    and "list_all is_skipped us" "list_all (wire_frame_ok Request) us" "length us \<le> unat MAX_SKIPPED_FRAMES"
    and "sum_list (map (field_size \<circ> as_field) fs) \<le> unat MAX_FIELD_SECTION_SIZE"
    and "length (qpack_encode fs) \<le> unat MAX_BUFFERED_FRAME"
    and "held + unat MAX_BUFFERED_FRAME \<le> HEADERS_BUFFER_BUDGET"
  shows "case resolve (sh, held) resolver_new (map Chunk cs @ later) w of ((sh', _), st, _, res) \<Rightarrow>
    sh' = sh \<and> (case build_request (map as_field fs) of
       Inr r \<Rightarrow> res = Returned (Inr r) \<and> send st = [] \<and> stops st = []
     | Inl _ \<Rightarrow> res = Returned (Inl (LocalStream (violation_stream H3_MESSAGE_ERROR)))
         \<and> send st = [ResetWith H3_MESSAGE_ERROR] \<and> stops st = [H3_MESSAGE_ERROR])"
proof -
  let ?s = "(frame_reader_new Request, held)" and ?reads = "map Chunk cs @ later"
  have "filter is_skipped [(HEADERS, qpack_encode fs)] = []" by (simp add: is_skipped_def from_type_def frame_types)
  with assms headers_ok[of "qpack_encode fs"]
  have "\<exists>vs en. stream_run ?s ?reads = (concat (map wire_frame_events (us @ [(HEADERS, qpack_encode fs)])) @ vs, en)"
    by (intro stream_run_prefix[where rest = rest]) (auto simp: list_all_iff filter_id_conv[THEN iffD2])
  then obtain vs en where "case_prod block_of (stream_run ?s ?reads) = Returned (Inr (qpack_encode fs))"
    using headers_ok[OF assms(6)] assms(2) by (auto simp: block_of_skips)
  then have res: "snd (snd (read_request ?s ?reads)) = Returned (parse_request (qpack_encode fs))"
    by (simp add: read_request_refines request_of_def)
  have dec: "qpack_decode (qpack_encode fs) (unat MAX_FIELD_SECTION_SIZE) = Inr (map as_field fs)"
    using assms(5) by (intro qpack_decode_encode) (simp_all add: MAX_FIELD_SECTION_SIZE_def)
  obtain fr held' reads' where "read_request ?s ?reads = ((fr, held'), reads', Returned (parse_request (qpack_encode fs)))"
    using res by (metis prod.exhaust_sel)
  then show ?thesis
    using build_request_error[of "map as_field fs"]
    by (auto simp: resolve_def resolver_new_def parse_request_def dec malformed_def split: sum.splits)
qed

text \<open>
  C11. A request sent is the request served. Fields encoded by QPACK into a HEADERS frame, after at most
  4096 unknown frames, cut into chunks anyhow and followed by anything, resolve to exactly the request
  \<^verbatim>\<open>build_request\<close> makes of them, leaving stream and connection untouched; where it refuses them, both
  directions of the stream are ended with \<^verbatim>\<open>H3_MESSAGE_ERROR\<close> and the connection lives on.
\<close>

theorem request_roundtrip:
  assumes "concat cs = concat (map wire_frame_bytes us) @ wire_frame_bytes (HEADERS, qpack_encode fs) @ rest"
    and "list_all is_skipped us" "list_all (wire_frame_ok Request) us" "length us \<le> unat MAX_SKIPPED_FRAMES"
    and "sum_list (map (field_size \<circ> as_field) fs) \<le> unat MAX_FIELD_SECTION_SIZE"
    and "length (qpack_encode fs) \<le> unat MAX_BUFFERED_FRAME"
    and "held + unat MAX_BUFFERED_FRAME \<le> HEADERS_BUFFER_BUDGET"
  shows "case resolve (sh, held) resolver_new (map Chunk cs @ later) w of ((sh', _), st, _, res) \<Rightarrow>
    sh' = sh \<and> (case build_request (map as_field fs) of
       Inr r \<Rightarrow> res = Returned (Inr r) \<and> send st = [] \<and> stops st = []
     | Inl _ \<Rightarrow> res = Returned (Inl (LocalStream (violation_stream H3_MESSAGE_ERROR)))
         \<and> send st = [ResetWith H3_MESSAGE_ERROR] \<and> stops st = [H3_MESSAGE_ERROR])"
  using assms by (rule request_received)

lemma sample_request:
  "qpack_encode [(byte_string '':method'', byte_string ''CONNECT''), (byte_string '':authority'', byte_string ''a'')]
     = [0, 0, 0xcf, 0x50, 1, 0x61]"
  "build_request (map as_field [(byte_string '':method'', byte_string ''CONNECT''), (byte_string '':authority'', byte_string ''a'')])
     = Inr ((request_new Connect)\<lparr>req_authority := Some (byte_string ''a'')\<rparr>)"
  by code_simp+

theorem request_roundtrip_witness:
  "case resolve (shared_default, 0) resolver_new
      (map Chunk [[0x21, 0, 1], [6, 0, 0, 0xcf], [0x50, 1, 0x61]] @ []) Taken of ((sh', _), st, _, res) \<Rightarrow>
    sh' = shared_default \<and> res = Returned (Inr ((request_new Connect)\<lparr>req_authority := Some (byte_string ''a'')\<rparr>))
      \<and> send st = [] \<and> stops st = []"
proof -
  let ?fs = "[(byte_string '':method'', byte_string ''CONNECT''), (byte_string '':authority'', byte_string ''a'')]"
  have "concat [[0x21, 0, 1], [6, 0, 0, 0xcf], [0x50, 1, 0x61]]
      = concat (map wire_frame_bytes [(0x21, [])]) @ wire_frame_bytes (HEADERS, qpack_encode ?fs) @ []"
    unfolding sample_request
    by (simp add: wire_frame_bytes_def put_header_def put_varint_def varint_len_def VARINT_MAX_eq HEADERS_def)
  from request_roundtrip[OF this, of 0 shared_default "[]" Taken] show ?thesis
    unfolding sample_request
    by (simp add: is_skipped_def wire_frame_ok_def from_type_def misplaced_def RESERVED_HTTP2_TYPES_def frame_types
        VARINT_MAX_eq MAX_SKIPPED_FRAMES_def MAX_FIELD_SECTION_SIZE_def MAX_BUFFERED_FRAME_def HEADERS_BUFFER_BUDGET_def
        as_field_def field_size_def byte_string_def FIELD_OVERHEAD_def)
qed

text \<open>
  A tunnel carries what is written into it: whatever is sent in DATA frames, cut into chunks anyhow
  and with its first bytes possibly already in the decoder when the tunnel began, is received as the same
  bytes in the same order, in non-empty pieces, up to a clean end; the stream is not stopped and the
  connection untouched, even when other streams have used up the buffering budget.
\<close>

theorem tunnel_roundtrip:
  assumes "list_all (\<lambda>d. length d \<le> unat VARINT_MAX) ds"
    and "chunk (decoder (rframes r)) @ concat cs = written (send_all [] ds)"
    and "between_frames (decoder (rframes r))" "stream (decoder (rframes r)) = Tunnel" "\<not> finished (rframes r)"
  shows "\<exists>pieces. recv_all (sh, held) r (map Chunk cs @ [Fin]) = (pieces, sh, rstops r, Returned (Inr ()))
    \<and> concat pieces = concat ds \<and> [] \<notin> set pieces"
proof -
  let ?fs = "map (Pair DATA) ds"
  have ok: "list_all (wire_frame_ok Tunnel) ?fs" "\<not> list_ex is_buffered ?fs"
    using assms(1) data_frame_ok by (auto simp: list_all_iff list_ex_iff is_buffered_def from_type_def frame_types)
  have "stream_run (rframes r, held) (map Chunk cs @ [Fin]) = (concat (map wire_frame_events ?fs), EndFin)"
    using assms ok by (intro stream_run_wire_frames) (simp_all add: written_send_all comp_def)
  then have "case_prod tunnel_of (stream_run (rframes r, held) (map Chunk cs @ [Fin])) = (concat ds, EndFin)"
    by (simp only: case_prod_conv tunnel_of_data)
  from recv_all_refines[OF this, of sh] show ?thesis by (simp add: ending_def)
qed

theorem tunnel_roundtrip_witness:
  "\<exists>pieces. recv_all (shared_default, 0) \<lparr>rframes = \<lparr>decoder = (frame_new Tunnel)\<lparr>chunk := [0]\<rparr>, finished = False\<rparr>, rstops = []\<rparr>
      (map Chunk [[2, 7], [8, 0], [0, 0, 1], [9]] @ [Fin]) = (pieces, shared_default, [], Returned (Inr ()))
    \<and> concat pieces = concat [[7, 8], [], [9]] \<and> [] \<notin> set pieces"
proof -
  let ?r = "\<lparr>rframes = \<lparr>decoder = (frame_new Tunnel)\<lparr>chunk := [0]\<rparr>, finished = False\<rparr>, rstops = []\<rparr>"
  have "chunk (decoder (rframes ?r)) @ concat [[2, 7], [8, 0], [0, 0, 1], [9]] = written (send_all [] [[7, 8], [], [9]])"
    by (simp add: send_data_def put_header_def put_varint_def varint_len_def VARINT_MAX_eq DATA_def)
  from tunnel_roundtrip[OF _ this, of shared_default 0] show ?thesis
    by (simp add: frame_new_def between_frames_def at_frame_boundary_def VARINT_MAX_eq)
qed

end
