(* ===== verification/Strings.thy ===== *)
theory Strings
  imports Prelude
begin

text \<open>The methods of \<^verbatim>\<open>str\<close> the sources cut strings with; a \<^verbatim>\<open>str\<close> is its bytes.\<close>

definition split_once :: "byte \<Rightarrow> bytes \<Rightarrow> (bytes \<times> bytes) option" where
  "split_once c s = map_option (\<lambda>i. (take i s, drop (Suc i) s)) (position (\<lambda>b. b = c) s)"

definition rsplit_once :: "byte \<Rightarrow> bytes \<Rightarrow> (bytes \<times> bytes) option" where
  "rsplit_once c s = map_option (\<lambda>(x, y). (rev y, rev x)) (split_once c (rev s))"

definition strip_prefix :: "bytes \<Rightarrow> bytes \<Rightarrow> bytes option" where
  "strip_prefix p s = (if take (length p) s = p then Some (drop (length p) s) else None)"

definition strip_suffix :: "bytes \<Rightarrow> bytes \<Rightarrow> bytes option" where
  "strip_suffix p s = map_option rev (strip_prefix (rev p) (rev s))"

fun split_on :: "byte \<Rightarrow> bytes \<Rightarrow> bytes list" where
  "split_on c [] = [[]]"
| "split_on c (b # s) =
     (if b = c then [] # split_on c s
      else case split_on c s of x # xs \<Rightarrow> (b # x) # xs | [] \<Rightarrow> [[b]])"

lemma split_once_iff: "split_once c s = Some (x, y) \<longleftrightarrow> s = x @ c # y \<and> c \<notin> set x"
proof
  assume "split_once c s = Some (x, y)"
  then obtain i where i: "position (\<lambda>b. b = c) s = Some i" "x = take i s" "y = drop (Suc i) s"
    by (auto simp: split_once_def)
  then show "s = x @ c # y \<and> c \<notin> set x"
    using id_take_nth_drop[of i s] by (auto simp: position_Some list_all_iff)
next
  assume s: "s = x @ c # y \<and> c \<notin> set x"
  then have "position (\<lambda>b. b = c) s = Some (length x)" by (auto simp: position_Some list_all_iff nth_append)
  with s show "split_once c s = Some (x, y)" by (simp add: split_once_def)
qed

lemma rsplit_once_iff: "rsplit_once c s = Some (x, y) \<longleftrightarrow> s = x @ c # y \<and> c \<notin> set y"
proof -
  have "rsplit_once c s = Some (x, y) \<longleftrightarrow> split_once c (rev s) = Some (rev y, rev x)"
    by (auto simp: rsplit_once_def)
  also have "\<dots> \<longleftrightarrow> rev s = rev y @ c # rev x \<and> c \<notin> set (rev y)" by (rule split_once_iff)
  also have "rev s = rev y @ c # rev x \<longleftrightarrow> s = x @ c # y"
    by (metis append.assoc append_Cons append_Nil rev.simps(2) rev_append rev_rev_ident)
  finally show ?thesis by simp
qed

lemma strip_prefix_iff: "strip_prefix p s = Some t \<longleftrightarrow> s = p @ t"
  by (auto simp: strip_prefix_def) (metis append_take_drop_id)

lemma strip_suffix_iff: "strip_suffix p s = Some t \<longleftrightarrow> s = t @ p"
proof -
  have "strip_suffix p s = Some t \<longleftrightarrow> strip_prefix (rev p) (rev s) = Some (rev t)" by (auto simp: strip_suffix_def)
  also have "\<dots> \<longleftrightarrow> s = t @ p" by (metis rev_append rev_rev_ident strip_prefix_iff)
  finally show ?thesis .
qed

lemma split_on_whole: "c \<notin> set s \<Longrightarrow> split_on c s = [s]"
  by (induction s) auto

lemma split_on_append: "c \<notin> set x \<Longrightarrow> split_on c (x @ c # y) = x # split_on c y"
  by (induction x) auto

lemma split_on_nonempty [simp]: "split_on c s \<noteq> []"
  by (induction s) (auto split: list.splits)

end
