(* ===== verification/Auth.thy ===== *)
theory Auth
  imports Message Logfmt Strings
begin

text \<open>
  \<^verbatim>\<open>src/src/auth.rs\<close>: HTTP Basic credentials of a proxy request. The comparisons of
  \<^verbatim>\<open>subtle::ConstantTimeEq\<close> are equality; that they take constant time is not a property of their values.
\<close>

section \<open>Base64\<close>

definition sextet :: "byte \<Rightarrow> byte option" where
  "sextet b =
     (if 0x41 \<le> b \<and> b \<le> 0x5a then Some (b - 0x41)
      else if 0x61 \<le> b \<and> b \<le> 0x7a then Some (b - 0x61 + 26)
      else if 0x30 \<le> b \<and> b \<le> 0x39 then Some (b - 0x30 + 52)
      else if b = 0x2b then Some 62
      else if b = 0x2f then Some 63
      else None)"

fun quantum_bits :: "u32 \<Rightarrow> bytes \<Rightarrow> u32 option" where
  "quantum_bits bits [] = Some bits"
| "quantum_bits bits (b # bs) =
     (case sextet b of None \<Rightarrow> None | Some s \<Rightarrow> quantum_bits (push_bit 6 bits OR ucast s) bs)"

definition decode_quantum :: "nat \<Rightarrow> bytes \<Rightarrow> bytes option" where
  "decode_quantum padding quantum =
     (if padding > 2 then None
      else case quantum_bits 0 (take (4 - padding) quantum) of
        None \<Rightarrow> None
      | Some bits \<Rightarrow> Some (take (3 - padding) (drop 1 (be_bytes 4 (push_bit (6 * padding) bits)))))"

fun decode_quanta :: "bytes \<Rightarrow> bytes option" where
  "decode_quanta (a # b # c # d # rest) =
     (let padding = (if rest = [] then length (filter (\<lambda>x. x = 0x3d) [a, b, c, d]) else 0)
      in case decode_quantum padding [a, b, c, d] of
           None \<Rightarrow> None
         | Some octets \<Rightarrow> map_option ((@) octets) (decode_quanta rest))"
| "decode_quanta _ = Some []"

definition decode_base64 :: "bytes \<Rightarrow> bytes option" where
  "decode_base64 input =
     (if input = [] \<or> length input mod 4 \<noteq> 0 then None else decode_quanta input)"

section \<open>Verdicts\<close>

datatype denied = Missing | MalformedCredentials string | Rejected bytes

fun denied_username :: "denied \<Rightarrow> bytes option" where
  "denied_username (Rejected u) = Some u"
| "denied_username _ = None"

record denials =
  reported :: denied
  others :: "denied list"

definition denials_from :: "denied \<Rightarrow> denials" where
  "denials_from d = \<lparr>reported = d, others = []\<rparr>"

definition denials_push :: "denials \<Rightarrow> denied \<Rightarrow> denials" where
  "denials_push ds d = ds\<lparr>others := others ds @ [d]\<rparr>"

definition claims :: "denials \<Rightarrow> bytes option list" where
  "claims ds = denied_username (reported ds) # map denied_username (others ds)"

definition denials_charged :: "denials \<Rightarrow> nat" where
  "denials_charged ds = 1 + length (others ds)"

section \<open>Checking credentials\<close>

record user =
  user_name :: bytes
  user_password :: bytes

type_synonym authenticator = "user list"

definition CREDENTIAL_FIELDS :: "bytes list" where
  "CREDENTIAL_FIELDS = [byte_string ''proxy-authorization'', byte_string ''authorization'']"

definition MAX_CREDENTIAL_VALUES :: nat where
  "MAX_CREDENTIAL_VALUES = length CREDENTIAL_FIELDS"

definition is_disabled :: "authenticator \<Rightarrow> bool" where
  "is_disabled a \<longleftrightarrow> a = []"

fun is_configured :: "authenticator \<Rightarrow> bytes \<Rightarrow> bool" where
  "is_configured [] u \<longleftrightarrow> False"
| "is_configured (x # xs) u \<longleftrightarrow> user_name x = u \<or> is_configured xs u"

text \<open>The loop of \<^verbatim>\<open>verify\<close> goes through every user and keeps the last that matches.\<close>

fun verify_loop :: "bytes option \<Rightarrow> authenticator \<Rightarrow> bytes \<Rightarrow> bytes \<Rightarrow> bytes option" where
  "verify_loop matched [] u p = matched"
| "verify_loop matched (x # xs) u p =
     verify_loop (if user_name x = u \<and> user_password x = p then Some (user_name x) else matched) xs u p"

definition verify :: "authenticator \<Rightarrow> bytes \<Rightarrow> bytes \<Rightarrow> bytes option" where
  "verify a u p = verify_loop None a u p"

definition basic_token :: "bytes \<Rightarrow> denied + bytes" where
  "basic_token v =
     (case split_once 0x20 v of
        None \<Rightarrow> Inl (MalformedCredentials ''credentials have no auth scheme'')
      | Some (scheme, tok) \<Rightarrow>
          if \<not> eq_ignore_ascii_case scheme (byte_string ''basic'')
          then Inl (MalformedCredentials ''auth scheme is not Basic'')
          else Inr (dropWhile (\<lambda>b. b = 0x20) tok))"

definition check :: "authenticator \<Rightarrow> field_value \<Rightarrow> denied + bytes" where
  "check a v =
     and_then (ok_or (to_str v) (MalformedCredentials ''credentials are not valid UTF-8'')) (\<lambda>v.
     and_then (basic_token v) (\<lambda>tok.
     and_then (ok_or (decode_base64 tok) (MalformedCredentials ''credentials are not valid base64'')) (\<lambda>decoded.
     and_then (ok_or (position (\<lambda>b. b = 0x3a) decoded)
        (MalformedCredentials ''credentials have no user-id/password colon'')) (\<lambda>colon.
     (let u = take colon decoded; p = drop (colon + 1) decoded
      in ok_or (verify a u p) (Rejected (bounded_bytes u)))))))"

definition credentials :: "fields \<Rightarrow> field_value list" where
  "credentials fs = concat (map (fields_get_all fs) CREDENTIAL_FIELDS)"

definition credential_values :: "fields \<Rightarrow> nat" where
  "credential_values fs = length (credentials fs)"

definition is_credential_field :: "bytes \<Rightarrow> bool" where
  "is_credential_field n \<longleftrightarrow> list_ex (\<lambda>f. eq_ignore_ascii_case n f) CREDENTIAL_FIELDS"

fun authenticate_loop :: "authenticator \<Rightarrow> denials option \<Rightarrow> field_value list \<Rightarrow> denials + bytes option" where
  "authenticate_loop a ds [] = Inl (case ds of None \<Rightarrow> denials_from Missing | Some ds \<Rightarrow> ds)"
| "authenticate_loop a ds (v # vs) =
     (case check a v of
        Inr u \<Rightarrow> Inr (Some u)
      | Inl reason \<Rightarrow>
          authenticate_loop a (Some (case ds of None \<Rightarrow> denials_from reason | Some ds \<Rightarrow> denials_push ds reason)) vs)"

definition authenticate :: "authenticator \<Rightarrow> fields \<Rightarrow> denials + bytes option" where
  "authenticate a fs = (if is_disabled a then Inr None else authenticate_loop a None (credentials fs))"

definition challenge_fields :: fields where
  "challenge_fields = fields_append [] (byte_string ''proxy-authenticate'') (byte_string ''Basic realm=\"masque\"'')"

section \<open>Base64 is what it encodes\<close>

definition alphabet :: bytes where
  "alphabet = byte_string ''ABCDEFGHIJKLMNOPQRSTUVWXYZabcdefghijklmnopqrstuvwxyz0123456789+/''"

text \<open>RFC 4648: the symbol of each six bits, most significant first.\<close>

definition symbol :: "u32 \<Rightarrow> nat \<Rightarrow> byte" where
  "symbol bits k = alphabet ! unat (take_bit 6 (drop_bit (6 * k) bits))"

fun base64 :: "bytes \<Rightarrow> bytes" where
  "base64 [] = []"
| "base64 [a] = (let w = push_bit 16 (ucast a) in [symbol w 3, symbol w 2, 0x3d, 0x3d])"
| "base64 [a, b] = (let w = push_bit 16 (ucast a) OR push_bit 8 (ucast b) in [symbol w 3, symbol w 2, symbol w 1, 0x3d])"
| "base64 (a # b # c # rest) =
     (let w = push_bit 16 (ucast a) OR push_bit 8 (ucast b) OR ucast c
      in [symbol w 3, symbol w 2, symbol w 1, symbol w 0] @ base64 rest)"

lemma alphabet_eq: "alphabet = map of_nat ([65..<91] @ [97..<123] @ [48..<58] @ [43, 47])"
  by (simp add: alphabet_def byte_string_def)

lemma alphabet_sextet:
  "list_all (\<lambda>i. sextet (alphabet ! i) = Some (of_nat i) \<and> alphabet ! i \<noteq> 0x3d
     \<and> alphabet ! i < 0x80 \<and> alphabet ! i \<noteq> 0x20) [0..<64]"
  by (simp add: alphabet_eq sextet_def upt_conv_Cons)

lemma sextet_symbol:
  "sextet (symbol w k) = Some (ucast (take_bit 6 (drop_bit (6 * k) w)))" "symbol w k \<noteq> 0x3d"
proof -
  let ?s = "take_bit 6 (drop_bit (6 * k) w)"
  have "unat ?s < 64" by (simp add: unat_take_bit_mod)
  then have "sextet (alphabet ! unat ?s) = Some (of_nat (unat ?s)) \<and> alphabet ! unat ?s \<noteq> 0x3d"
    using alphabet_sextet by (simp add: list_all_iff del: upt_Suc)
  then show "sextet (symbol w k) = Some (ucast ?s)" "symbol w k \<noteq> 0x3d"
    by (simp_all add: symbol_def unsigned_ucast_eq)
qed

lemma shift_in_sextet:
  "push_bit (6 * k) (push_bit 6 v OR ucast (ucast (take_bit 6 (drop_bit (6 * k) w)) :: byte)) OR take_bit (6 * k) w
   = push_bit (6 * Suc k) v OR take_bit (6 * Suc k) (w :: u32)"
proof (rule bit_eqI)
  fix n
  assume "possible_bit TYPE(u32) n"
  then have n: "n < 32" by simp
  consider "n < 6 * k" | "6 * k \<le> n" "n - 6 * k < 6" | "6 * k \<le> n" "6 \<le> n - 6 * k" by linarith
  then show "bit (push_bit (6 * k) (push_bit 6 v OR ucast (ucast (take_bit 6 (drop_bit (6 * k) w)) :: byte)) OR take_bit (6 * k) w) n
    = bit (push_bit (6 * Suc k) v OR take_bit (6 * Suc k) w) n"
    using n by cases (auto simp: bit_simps not_le add.commute)
qed

lemma quantum_bits_symbols:
  "quantum_bits v (map (symbol w) (rev [0..<k])) = Some (push_bit (6 * k) v OR take_bit (6 * k) w)"
proof (induction k arbitrary: v)
  case (Suc k)
  have "quantum_bits v (map (symbol w) (rev [0..<Suc k]))
      = quantum_bits (push_bit 6 v OR ucast (ucast (take_bit 6 (drop_bit (6 * k) w)) :: byte)) (map (symbol w) (rev [0..<k]))"
    by (simp add: sextet_symbol)
  also have "\<dots> = Some (push_bit (6 * Suc k) v OR take_bit (6 * Suc k) w)"
    by (simp only: Suc.IH shift_in_sextet)
  finally show ?case .
qed simp

lemma symbol_shift: "symbol (drop_bit (6 * j) w) k = symbol w (k + j)"
  by (simp add: symbol_def add.commute distrib_left)

lemma downward:
  "rev [0..<4] = [3, 2, 1, 0 :: nat]" "rev [0..<3] = [2, 1, 0 :: nat]" "rev [0..<2] = [1, 0 :: nat]"
  by code_simp+

lemma quantum_symbols:
  "quantum_bits 0 [symbol w 3, symbol w 2, symbol w 1, symbol w 0] = Some (take_bit 24 w)"
  "quantum_bits 0 [symbol w 3, symbol w 2, symbol w 1] = Some (take_bit 18 (drop_bit 6 w))"
  "quantum_bits 0 [symbol w 3, symbol w 2] = Some (take_bit 12 (drop_bit 12 w))"
proof -
  show "quantum_bits 0 [symbol w 3, symbol w 2, symbol w 1, symbol w 0] = Some (take_bit 24 w)"
    using quantum_bits_symbols[of 0 w 4] by (simp add: downward del: quantum_bits.simps)
  show "quantum_bits 0 [symbol w 3, symbol w 2, symbol w 1] = Some (take_bit 18 (drop_bit 6 w))"
    using quantum_bits_symbols[of 0 "drop_bit (6 * 1) w" 3] unfolding downward symbol_shift
    by (simp add: symbol_shift eval_nat_numeral del: quantum_bits.simps)
  show "quantum_bits 0 [symbol w 3, symbol w 2] = Some (take_bit 12 (drop_bit 12 w))"
    using quantum_bits_symbols[of 0 "drop_bit (6 * 2) w" 2] unfolding downward list.map symbol_shift
    by (simp add: eval_nat_numeral del: quantum_bits.simps)
qed

lemma be_bytes_4: "be_bytes 4 w = [ucast (drop_bit 24 w), ucast (drop_bit 16 w), ucast (drop_bit 8 w), ucast w]"
  by (simp add: eval_nat_numeral)

lemma octets_3:
  fixes a b c :: byte
  defines "w \<equiv> take_bit 24 (push_bit 16 (ucast a) OR push_bit 8 (ucast b) OR ucast c :: u32)"
  shows "ucast (drop_bit 16 w) = a" "ucast (drop_bit 8 w) = b" "ucast w = c"
  unfolding w_def by (rule bit_eqI; auto simp: bit_simps dest: bit_imp_le_length)+

lemma octets_2:
  fixes a b :: byte
  defines "w \<equiv> push_bit 6 (take_bit 18 (drop_bit 6 (push_bit 16 (ucast a) OR push_bit 8 (ucast b) :: u32)))"
  shows "ucast (drop_bit 16 w) = a" "ucast (drop_bit 8 w) = b"
  unfolding w_def by (rule bit_eqI; auto simp: bit_simps dest: bit_imp_le_length)+

lemma octets_1:
  fixes a :: byte
  defines "w \<equiv> push_bit 12 (take_bit 12 (drop_bit 12 (push_bit 16 (ucast a) :: u32)))"
  shows "ucast (drop_bit 16 w) = a"
  unfolding w_def by (rule bit_eqI; auto simp: bit_simps dest: bit_imp_le_length)+

lemma decode_quantum_symbols:
  "decode_quantum 0 [symbol w 3, symbol w 2, symbol w 1, symbol w 0]
     = Some (take 3 (drop 1 (be_bytes 4 (take_bit 24 w))))"
  "decode_quantum 1 [symbol w 3, symbol w 2, symbol w 1, x]
     = Some (take 2 (drop 1 (be_bytes 4 (push_bit 6 (take_bit 18 (drop_bit 6 w))))))"
  "decode_quantum 2 [symbol w 3, symbol w 2, x, y]
     = Some (take 1 (drop 1 (be_bytes 4 (push_bit 12 (take_bit 12 (drop_bit 12 w))))))"
  by (simp_all add: decode_quantum_def quantum_symbols quantum_symbols[unfolded One_nat_def] del: quantum_bits.simps)

lemma base64_length: "length (base64 x) mod 4 = 0" "base64 x = [] \<longleftrightarrow> x = []"
  by (induction x rule: base64.induct) (auto simp: Let_def)

lemma decode_quanta_base64: "decode_quanta (base64 x) = Some x"
proof (induction x rule: base64.induct)
  case (2 a)
  show ?case
    using decode_quantum_symbols(3)[of "push_bit 16 (ucast a)"] octets_1[of a]
    by (simp add: Let_def be_bytes_4 sextet_symbol numeral_2_eq_2)
next
  case (3 a b)
  show ?case
    using decode_quantum_symbols(2)[of "push_bit 16 (ucast a) OR push_bit 8 (ucast b)"] octets_2[of a b]
    by (simp add: Let_def be_bytes_4 sextet_symbol)
next
  case (4 a b c rest)
  then show ?case
    using decode_quantum_symbols(1)[of "push_bit 16 (ucast a) OR push_bit 8 (ucast b) OR ucast c"] octets_3[of a b c]
    by (simp add: Let_def be_bytes_4 sextet_symbol base64_length)
qed simp

lemma decode_base64_encode: "x \<noteq> [] \<Longrightarrow> decode_base64 (base64 x) = Some x"
  by (simp add: decode_base64_def base64_length decode_quanta_base64)

lemma symbol_ascii: "symbol w k < 0x80" "symbol w k \<noteq> 0x20"
proof -
  have "unat (take_bit 6 (drop_bit (6 * k) w)) < 64" by (simp add: unat_take_bit_mod)
  then show "symbol w k < 0x80" "symbol w k \<noteq> 0x20"
    using alphabet_sextet by (simp_all add: list_all_iff symbol_def del: upt_Suc)
qed

lemma base64_ascii: "list_all (\<lambda>b. b < 0x80 \<and> b \<noteq> 0x20) (base64 x)"
  by (induction x rule: base64.induct) (simp_all add: Let_def symbol_ascii)

section \<open>What a credential presents\<close>

text \<open>A field value presents the user-id \<open>u\<close> with the password \<open>p\<close>.\<close>

definition presents :: "bytes \<Rightarrow> bytes \<Rightarrow> bytes \<Rightarrow> bool" where
  "presents v u p \<longleftrightarrow> utf8_valid v \<and>
     (\<exists>scheme rest. v = scheme @ 0x20 # rest \<and> eq_ignore_ascii_case scheme (byte_string ''basic'')
        \<and> decode_base64 (dropWhile (\<lambda>b. b = 0x20) rest) = Some (u @ 0x3a # p) \<and> 0x3a \<notin> set u)"

lemma basic_no_space: "eq_ignore_ascii_case scheme (byte_string ''basic'') \<Longrightarrow> 0x20 \<notin> set scheme"
proof
  assume "eq_ignore_ascii_case scheme (byte_string ''basic'')" "0x20 \<in> set scheme"
  then have "set (map to_ascii_lowercase scheme) = set (map to_ascii_lowercase (byte_string ''basic''))"
    by (simp only: eq_ignore_ascii_case_def)
  moreover have "to_ascii_lowercase 0x20 \<in> set (map to_ascii_lowercase scheme)"
    using \<open>0x20 \<in> set scheme\<close> by simp
  ultimately have "to_ascii_lowercase 0x20 \<in> set (map to_ascii_lowercase (byte_string ''basic''))" by blast
  moreover have "to_ascii_lowercase 0x20 \<notin> set (map to_ascii_lowercase (byte_string ''basic''))" by code_simp
  ultimately show False by simp
qed

lemma basic_token_iff:
  "basic_token v = Inr t \<longleftrightarrow>
     (\<exists>scheme rest. v = scheme @ 0x20 # rest \<and> eq_ignore_ascii_case scheme (byte_string ''basic'') \<and> t = dropWhile (\<lambda>b. b = 0x20) rest)"
proof
  assume "basic_token v = Inr t"
  then show "\<exists>scheme rest. v = scheme @ 0x20 # rest \<and> eq_ignore_ascii_case scheme (byte_string ''basic'')
      \<and> t = dropWhile (\<lambda>b. b = 0x20) rest"
    by (cases "split_once 0x20 v") (fastforce simp: basic_token_def split_once_iff split: prod.splits if_splits)+
next
  assume "\<exists>scheme rest. v = scheme @ 0x20 # rest \<and> eq_ignore_ascii_case scheme (byte_string ''basic'')
      \<and> t = dropWhile (\<lambda>b. b = 0x20) rest"
  then obtain scheme rest where v: "v = scheme @ 0x20 # rest" "eq_ignore_ascii_case scheme (byte_string ''basic'')"
    "t = dropWhile (\<lambda>b. b = 0x20) rest" by blast
  then have "split_once 0x20 v = Some (scheme, rest)" by (simp add: split_once_iff basic_no_space)
  with v show "basic_token v = Inr t" by (simp add: basic_token_def)
qed

lemma verify_loop_iff: "verify_loop m a u p = (if \<exists>x\<in>set a. user_name x = u \<and> user_password x = p then Some u else m)"
  by (induction a arbitrary: m) auto

lemma colon_iff:
  fixes d :: bytes
  shows "(\<exists>i. position (\<lambda>b. b = 0x3a) d = Some i \<and> u = take i d \<and> p = drop (Suc i) d) \<longleftrightarrow> d = u @ 0x3a # p \<and> 0x3a \<notin> set u"
  using split_once_iff[of "0x3a" d u p] by (auto simp: split_once_def)

lemma check_iff:
  "check a v = Inr u \<longleftrightarrow> (\<exists>p x. presents v u p \<and> x \<in> set a \<and> user_name x = u \<and> user_password x = p)"
proof -
  let ?Q = "\<lambda>u p. \<exists>x\<in>set a. user_name x = u \<and> user_password x = p"
  have "check a v = Inr u \<longleftrightarrow> utf8_valid v \<and> (\<exists>t d i. basic_token v = Inr t \<and> decode_base64 t = Some d \<and>
      position (\<lambda>b. b = 0x3a) d = Some i \<and> ?Q (take i d) (drop (Suc i) d) \<and> u = take i d)"
    by (auto simp: check_def question_mark_iffs to_str_def from_utf8_def Let_def verify_def verify_loop_iff split: if_splits)
  also have "\<dots> \<longleftrightarrow> utf8_valid v \<and> (\<exists>t d. basic_token v = Inr t \<and> decode_base64 t = Some d \<and>
      (\<exists>p. (\<exists>i. position (\<lambda>b. b = 0x3a) d = Some i \<and> u = take i d \<and> p = drop (Suc i) d) \<and> ?Q u p))"
    by blast
  also have "\<dots> \<longleftrightarrow> (\<exists>p x. presents v u p \<and> x \<in> set a \<and> user_name x = u \<and> user_password x = p)"
    unfolding colon_iff presents_def basic_token_iff by blast
  finally show ?thesis .
qed

lemma is_configured_iff: "is_configured a u \<longleftrightarrow> u \<in> user_name ` set a"
  by (induction a) auto

text \<open>What every client sends: \<^verbatim>\<open>Basic\<close> and the base64 of name, colon and password, for a name without a colon.\<close>

lemma check_basic:
  assumes "0x3a \<notin> set u"
  shows "check a (byte_string ''Basic '' @ base64 (u @ 0x3a # p)) = ok_or (verify a u p) (Rejected (bounded_bytes u))"
proof -
  let ?d = "u @ 0x3a # p"
  let ?v = "byte_string ''Basic '' @ base64 ?d"
  have b: "byte_string ''Basic '' = byte_string ''Basic'' @ [0x20]" "eq_ignore_ascii_case (byte_string ''Basic'') (byte_string ''basic'')"
    "list_all (\<lambda>b. b < 0x80) (byte_string ''Basic '')"
    by (simp_all add: byte_string_def eq_ignore_ascii_case_def to_ascii_lowercase_def is_ascii_uppercase_def)
  have "dropWhile (\<lambda>b. b = 0x20) (base64 ?d) = base64 ?d"
    using base64_ascii[of ?d] by (cases "base64 ?d") auto
  then have "basic_token ?v = Inr (base64 ?d)" unfolding basic_token_iff b(1) using b(2) by force
  moreover have "utf8_valid ?v"
    using b(3) base64_ascii[of ?d] by (intro utf8_valid_ascii) (auto simp: list_all_iff)
  moreover have "position (\<lambda>b. b = 0x3a) ?d = Some (length u)"
    using assms by (auto simp: position_Some list_all_iff nth_append)
  ultimately show ?thesis
    by (simp add: check_def to_str_def from_utf8_def decode_base64_encode Let_def)
qed

lemma authenticate_loop_Inr: "authenticate_loop a ds vs = Inr r \<Longrightarrow> \<exists>u v. r = Some u \<and> v \<in> set vs \<and> check a v = Inr u"
  by (induction a ds vs rule: authenticate_loop.induct) (auto split: sum.splits)

lemma authenticate_loop_first: "v \<in> set vs \<Longrightarrow> check a v = Inr u \<Longrightarrow> \<exists>u. authenticate_loop a ds vs = Inr (Some u)"
  by (induction a ds vs rule: authenticate_loop.induct) (auto split: sum.splits)

lemma authenticate_loop_Inl:
  "authenticate_loop a ds vs = Inl e \<Longrightarrow>
     denials_charged e = (case ds of None \<Rightarrow> max 1 (length vs) | Some ds \<Rightarrow> denials_charged ds + length vs)"
  by (induction a ds vs rule: authenticate_loop.induct)
    (auto split: sum.splits option.splits simp: denials_charged_def denials_from_def denials_push_def)

section \<open>Properties\<close>

text \<open>
  C13. With users configured, a request is admitted exactly when one of its credential values is a Basic
  credential of a configured user: the name and the password of one and the same user. The user it is
  admitted as presented such a value. Without users every request passes, as nobody. A refusal charges
  one failure for every value tried, and one when there was none.
\<close>

theorem authenticate_iff:
  "(authenticate a fs = Inr None \<longleftrightarrow> a = [])
   \<and> ((\<exists>u. authenticate a fs = Inr (Some u)) \<longleftrightarrow>
        (\<exists>v x. v \<in> set (credentials fs) \<and> x \<in> set a \<and> presents v (user_name x) (user_password x)))
   \<and> {u. authenticate a fs = Inr (Some u)} \<subseteq>
        {u. \<exists>v x. v \<in> set (credentials fs) \<and> x \<in> set a \<and> user_name x = u \<and> presents v u (user_password x)}
   \<and> {denials_charged ds |ds. authenticate a fs = Inl ds} \<subseteq> {max 1 (credential_values fs)}"
proof (cases "a = []")
  case True
  then show ?thesis by (simp add: authenticate_def is_disabled_def)
next
  case False
  then show ?thesis
    using authenticate_loop_first[of _ "credentials fs" a]
    by (auto simp: authenticate_def is_disabled_def credential_values_def check_iff
        dest!: authenticate_loop_Inr authenticate_loop_Inl) blast+
qed

text \<open>A configured user who sends the credentials every client sends is admitted, whatever bytes the password holds.\<close>

theorem basic_credentials_admit:
  assumes "x \<in> set a" "0x3a \<notin> set (user_name x)"
    and "credentials fs = [byte_string ''Basic '' @ base64 (user_name x @ 0x3a # user_password x)]"
  shows "authenticate a fs = Inr (Some (user_name x))"
  using assms by (auto simp: authenticate_def is_disabled_def check_basic verify_def verify_loop_iff)

theorem basic_credentials_admit_witness:
  "authenticate [\<lparr>user_name = byte_string ''al'', user_password = byte_string ''p:w''\<rparr>]
     [(byte_string ''Proxy-Authorization'', byte_string ''Basic YWw6cDp3'')] = Inr (Some (byte_string ''al''))"
proof -
  let ?x = "\<lparr>user_name = byte_string ''al'', user_password = byte_string ''p:w''\<rparr>"
  let ?fs = "[(byte_string ''Proxy-Authorization'', byte_string ''Basic YWw6cDp3'')]"
  have "credentials ?fs = [byte_string ''Basic '' @ base64 (user_name ?x @ 0x3a # user_password ?x)]" by code_simp
  moreover have "0x3a \<notin> set (user_name ?x)" by code_simp
  ultimately have "authenticate [?x] ?fs = Inr (Some (user_name ?x))"
    by (intro basic_credentials_admit[where fs = ?fs]) simp_all
  then show ?thesis by simp
qed

end
