(* ===== verification/Quota.thy ===== *)
theory Quota
  imports Prelude
begin

text \<open>
  \<^verbatim>\<open>src/src/tunnel/quota.rs\<close>: a connection's tunnel budget and the drain that waits for it to empty.
  The semaphore is its number of permits and \<^verbatim>\<open>Notify\<close> its stored permit together with the one task
  that may be parked on it. Dropping a slot or a pending request is a program of atomic actions, run
  in that order but interleaved with everything else.
\<close>

section \<open>The quota\<close>

record quota =
  permits :: nat
  limit :: u32
  pending :: u32
  notified :: bool

definition quota_new :: "u32 \<Rightarrow> quota" where
  "quota_new l = \<lparr>permits = unat l, limit = l, pending = 0, notified = False\<rparr>"

definition acquire :: "quota \<Rightarrow> quota option" where
  "acquire q = (if permits q > 0 then Some (q\<lparr>permits := permits q - 1\<rparr>) else None)"

definition enter :: "quota \<Rightarrow> quota" where
  "enter q = q\<lparr>pending := pending q + 1\<rparr>"

definition live :: "quota \<Rightarrow> u32" where
  "live q = limit q - (if permits q < 2 ^ 32 then of_nat (permits q) else limit q)"

definition is_busy :: "quota \<Rightarrow> bool" where
  "is_busy q \<longleftrightarrow> live q > 0 \<or> pending q > 0"

datatype drop_action = ReturnPermit | Decrement | Notify

definition slot_drop :: "drop_action list" where
  "slot_drop = [ReturnPermit, Notify]"

definition pending_drop :: "drop_action list" where
  "pending_drop = [Decrement, Notify]"

text \<open>
  The drain, \<^verbatim>\<open>wait_until_idle\<close>: about to test the condition, past the test and about to wait, parked,
  or returned.
\<close>

datatype waiter = Testing | Awaiting | Parked | Drained

fun notify_one :: "quota \<times> waiter \<Rightarrow> quota \<times> waiter" where
  "notify_one (q, Parked) = (q, Testing)"
| "notify_one (q, w) = (q\<lparr>notified := True\<rparr>, w)"

fun perform :: "drop_action \<Rightarrow> quota \<times> waiter \<Rightarrow> quota \<times> waiter" where
  "perform ReturnPermit (q, w) = (q\<lparr>permits := permits q + 1\<rparr>, w)"
| "perform Decrement (q, w) = (q\<lparr>pending := pending q - 1\<rparr>, w)"
| "perform Notify qw = notify_one qw"

fun wait_until_idle :: "quota \<times> waiter \<Rightarrow> quota \<times> waiter" where
  "wait_until_idle (q, Testing) = (q, if is_busy q then Awaiting else Drained)"
| "wait_until_idle (q, Awaiting) = (if notified q then (q\<lparr>notified := False\<rparr>, Testing) else (q, Parked))"
| "wait_until_idle (q, w) = (q, w)"

section \<open>Interleavings\<close>

text \<open>
  All tasks of a connection: the slots and pending requests held, what is left to do of the drops under
  way, and the drain, which may be abandoned and begun again at any time.
\<close>

record drain_state =
  quota_of :: quota
  waiter_of :: waiter
  held_slots :: nat
  held_pending :: nat
  drops :: "drop_action list list"

definition drain_init :: "u32 \<Rightarrow> drain_state" where
  "drain_init l = \<lparr>quota_of = quota_new l, waiter_of = Testing, held_slots = 0, held_pending = 0, drops = []\<rparr>"

definition with_quota :: "drain_state \<Rightarrow> quota \<times> waiter \<Rightarrow> drain_state" where
  "with_quota s qw = s\<lparr>quota_of := fst qw, waiter_of := snd qw\<rparr>"

abbreviation undone :: "drop_action \<Rightarrow> drain_state \<Rightarrow> nat" where
  "undone a s \<equiv> count_list (concat (drops s)) a"

inductive drain_step :: "drain_state \<Rightarrow> drain_state \<Rightarrow> bool" where
  acquire: "acquire (quota_of s) = Some q \<Longrightarrow> drain_step s (s\<lparr>quota_of := q, held_slots := held_slots s + 1\<rparr>)"
| enter: "held_pending s + undone Decrement s + 1 < 2 ^ 32 \<Longrightarrow>
    drain_step s (s\<lparr>quota_of := enter (quota_of s), held_pending := held_pending s + 1\<rparr>)"
| drop_slot: "held_slots s > 0 \<Longrightarrow> drain_step s (s\<lparr>held_slots := held_slots s - 1, drops := slot_drop # drops s\<rparr>)"
| drop_pending: "held_pending s > 0 \<Longrightarrow>
    drain_step s (s\<lparr>held_pending := held_pending s - 1, drops := pending_drop # drops s\<rparr>)"
| act: "drops s = ds @ (a # as) # es \<Longrightarrow>
    drain_step s (with_quota (s\<lparr>drops := ds @ as # es\<rparr>) (perform a (quota_of s, waiter_of s)))"
| wait: "drain_step s (with_quota s (wait_until_idle (quota_of s, waiter_of s)))"
| restart: "waiter_of s \<noteq> Drained \<Longrightarrow> drain_step s (s\<lparr>waiter_of := Testing\<rparr>)"

inductive drain_reach :: "u32 \<Rightarrow> drain_state \<Rightarrow> bool" for l where
  init: "drain_reach l (drain_init l)"
| step: "drain_reach l s \<Longrightarrow> drain_step s s' \<Longrightarrow> drain_reach l s'"

text \<open>
  Counts add up, every drop that still has its count to give back announces it afterwards, and while
  the drain is past its test the connection is busy or an announcement is stored or on its way.
\<close>

definition drain_inv :: "u32 \<Rightarrow> drain_state \<Rightarrow> bool" where
  "drain_inv l s \<longleftrightarrow>
     limit (quota_of s) = l
     \<and> permits (quota_of s) + held_slots s + undone ReturnPermit s = unat l
     \<and> unat (pending (quota_of s)) = held_pending s + undone Decrement s
     \<and> set (drops s) \<subseteq> {slot_drop, pending_drop, [Notify], []}
     \<and> (waiter_of s = Awaiting \<or> waiter_of s = Parked \<longrightarrow>
          is_busy (quota_of s) \<or> undone Notify s > 0 \<or> notified (quota_of s))
     \<and> (waiter_of s = Parked \<longrightarrow> \<not> notified (quota_of s))"

lemma live_eq: "permits q \<le> unat (limit q) \<Longrightarrow> unat (live q) = unat (limit q) - permits q"
proof -
  assume le: "permits q \<le> unat (limit q)"
  moreover have "unat (limit q) < 2 ^ 32" using unsigned_less[of "limit q"] by simp
  ultimately have "permits q < 2 ^ 32" by simp
  moreover from this have u: "unat (of_nat (permits q) :: u32) = permits q" by (simp add: unat_of_nat)
  ultimately show ?thesis using le by (simp add: live_def unat_sub word_le_nat_alt)
qed

lemma is_busy_iff: "permits q \<le> unat (limit q) \<Longrightarrow> is_busy q \<longleftrightarrow> permits q < unat (limit q) \<or> unat (pending q) > 0"
  using live_eq[of q] by (simp add: is_busy_def word_less_nat_alt)

lemma is_busy_notified [simp]: "is_busy (q\<lparr>notified := b\<rparr>) = is_busy q"
  by (simp add: is_busy_def live_def)

lemma drain_inv_init: "drain_inv l (drain_init l)"
  by (simp add: drain_inv_def drain_init_def quota_new_def)

lemma drain_inv_act:
  assumes "drain_inv l s" "drops s = ds @ (a # as) # es"
  shows "drain_inv l (with_quota (s\<lparr>drops := ds @ as # es\<rparr>) (perform a (quota_of s, waiter_of s)))"
proof -
  from assms have as: "a # as \<in> {slot_drop, pending_drop, [Notify]}" by (auto simp: drain_inv_def)
  have le: "permits (quota_of s) \<le> unat (limit (quota_of s))" using assms(1) by (simp add: drain_inv_def)
  show ?thesis
  proof (cases a)
    case Notify
    with as have "as = []" by (auto simp: slot_drop_def pending_drop_def)
    with assms Notify show ?thesis
      by (cases "waiter_of s") (auto simp: drain_inv_def with_quota_def)
  next
    case ReturnPermit
    with as have "as = [Notify]" by (auto simp: slot_drop_def pending_drop_def)
    with assms ReturnPermit show ?thesis by (auto simp: drain_inv_def with_quota_def)
  next
    case Decrement
    with as have "as = [Notify]" by (auto simp: slot_drop_def pending_drop_def)
    moreover have "unat (pending (quota_of s) - 1) = unat (pending (quota_of s)) - 1"
      using assms Decrement by (intro unat_minus_one) (auto simp: drain_inv_def)
    ultimately show ?thesis using assms Decrement by (auto simp: drain_inv_def with_quota_def)
  qed
qed

lemma drain_inv_step:
  assumes "drain_step s s'" "drain_inv l s"
  shows "drain_inv l s'"
  using assms
proof (induction rule: drain_step.induct)
  case (acquire s q)
  then show ?case
    by (auto simp: drain_inv_def acquire_def is_busy_iff split: if_splits)
next
  case (enter s)
  then have "unat (pending (quota_of s) + 1) = unat (pending (quota_of s)) + 1"
    by (simp add: drain_inv_def unat_word_ariths)
  with enter show ?case by (auto simp: drain_inv_def enter_def is_busy_def word_less_nat_alt)
next
  case (drop_slot s)
  then show ?case by (auto simp: drain_inv_def slot_drop_def)
next
  case (drop_pending s)
  then show ?case by (auto simp: drain_inv_def pending_drop_def)
next
  case (act s ds a as es)
  then show ?case by (intro drain_inv_act)
next
  case (wait s)
  then show ?case by (cases "waiter_of s") (auto simp: drain_inv_def with_quota_def)
next
  case (restart s)
  then show ?case by (auto simp: drain_inv_def)
qed

lemma drain_inv_reach: "drain_reach l s \<Longrightarrow> drain_inv l s"
  by (induction rule: drain_reach.induct) (auto intro: drain_inv_init drain_inv_step)

lemma drained_idle:
  assumes "drain_inv l s" "waiter_of s \<noteq> Drained" "snd (wait_until_idle (quota_of s, waiter_of s)) = Drained"
  shows "held_slots s = 0 \<and> held_pending s = 0 \<and> undone ReturnPermit s = 0 \<and> undone Decrement s = 0"
proof -
  have "\<not> is_busy (quota_of s)" using assms(2,3) by (cases "waiter_of s") (auto split: if_splits)
  then show ?thesis using assms(1) by (auto simp: drain_inv_def is_busy_iff)
qed

section \<open>Properties\<close>



end
