(* ===== verification/Runs.thy ===== *)
theory Runs
  imports Main
begin

text \<open>
  Components that are driven by a sequence of operations, and what holds of them along every such
  sequence. A component says what its invariant is and that each operation keeps it, and has it then
  in every state its operations lead to.
\<close>

locale operations =
  fixes apply_op :: "'s \<Rightarrow> 'o \<Rightarrow> 's"
    and inv :: "'s \<Rightarrow> bool"
  assumes inv_op: "inv s \<Longrightarrow> inv (apply_op s x)"
begin

lemma inv_run: "inv s \<Longrightarrow> inv (foldl apply_op s ops)"
  by (induction ops arbitrary: s) (auto intro: inv_op)

text \<open>A measure no operation raises stays below where it began.\<close>

lemma run_decreasing:
  assumes "\<And>s x. inv s \<Longrightarrow> (m (apply_op s x) :: 'b :: preorder) \<le> m s" "inv s"
  shows "m (foldl apply_op s ops) \<le> m s"
  using assms(2)
proof (induction ops arbitrary: s)
  case (Cons x ops)
  from Cons.IH[OF inv_op[OF Cons.prems]] assms(1)[OF Cons.prems] show ?case by (auto intro: order_trans)
qed simp

text \<open>Something an operation adds to one place and books in another is conserved.\<close>

lemma run_conserved:
  assumes "\<And>s x. inv s \<Longrightarrow> m (apply_op s x) = m s" "inv s"
  shows "m (foldl apply_op s ops) = m s"
  using assms(2) by (induction ops arbitrary: s) (simp_all add: assms(1) inv_op)

end

locale started_operations = operations apply_op inv for apply_op :: "'s \<Rightarrow> 'o \<Rightarrow> 's" and inv +
  fixes start :: 's
  assumes inv_start: "inv start"
begin

lemma inv_reached: "inv (foldl apply_op start ops)"
  by (rule inv_run[OF inv_start])

end

end
