(* ===== verification/Roster.thy ===== *)
theory Roster
  imports Policy Runs
begin

text \<open>
  \<^verbatim>\<open>src/src/quic/roster.rs\<close> and the \<^verbatim>\<open>AuthGate\<close> of \<^verbatim>\<open>src/src/quic/transport.rs\<close>: the connections of the
  server in order of arrival, and which of them make room for a new one. The map is the list of its
  entries in key order; the gate a slot shares with its connection is a component of the slot, and
  the wake-ups sent to evicted connections are recorded.
\<close>

type_synonym auth_gate = bool

definition gate_closed :: auth_gate where
  "gate_closed = False"

definition gate_mark :: "auth_gate \<Rightarrow> auth_gate \<times> bool" where
  "gate_mark g = (True, \<not> g)"

record slot =
  remote :: socket_addr
  authenticated :: auth_gate

record roster =
  slots :: "(u64 \<times> slot) list"
  next_sequence :: u64
  woken :: "u64 list"

definition roster_new :: roster where
  "roster_new = \<lparr>slots = [], next_sequence = 0, woken = []\<rparr>"

fun btree_insert :: "u64 \<Rightarrow> 'a \<Rightarrow> (u64 \<times> 'a) list \<Rightarrow> (u64 \<times> 'a) list" where
  "btree_insert k x [] = [(k, x)]"
| "btree_insert k x ((j, y) # m) =
     (if k < j then (k, x) # (j, y) # m else if k = j then (k, x) # m else (j, y) # btree_insert k x m)"

definition btree_remove :: "u64 \<Rightarrow> (u64 \<times> 'a) list \<Rightarrow> (u64 \<times> 'a) list" where
  "btree_remove k m = filter (\<lambda>(j, _). j \<noteq> k) m"

definition roster_len :: "roster \<Rightarrow> nat" where
  "roster_len r = length (slots r)"

definition register :: "roster \<Rightarrow> socket_addr \<Rightarrow> auth_gate \<Rightarrow> roster \<times> u64" where
  "register r addr gate =
     (let sequence = next_sequence r
      in (r\<lparr>next_sequence := sequence + 1,
            slots := btree_insert sequence \<lparr>remote = addr, authenticated = gate\<rparr> (slots r)\<rparr>, sequence))"

definition drop_registration :: "roster \<Rightarrow> u64 \<Rightarrow> roster" where
  "drop_registration r sequence = r\<lparr>slots := btree_remove sequence (slots r)\<rparr>"

text \<open>The gate of a registered connection opens.\<close>

definition mark_slot :: "roster \<Rightarrow> u64 \<Rightarrow> roster" where
  "mark_slot r sequence =
     r\<lparr>slots := map (\<lambda>(k, s). (k, if k = sequence then s\<lparr>authenticated := fst (gate_mark (authenticated s))\<rparr> else s)) (slots r)\<rparr>"

definition evict_oldest_from :: "roster \<Rightarrow> (roster \<times> socket_addr) option" where
  "evict_oldest_from r =
     (case find (\<lambda>(_, s). \<not> authenticated s) (slots r) of
        None \<Rightarrow> None
      | Some (sequence, s) \<Rightarrow>
          Some (r\<lparr>slots := btree_remove sequence (slots r), woken := woken r @ [sequence]\<rparr>, remote s))"

lemma find_in: "find P xs = Some x \<Longrightarrow> x \<in> set xs \<and> P x"
  by (auto simp: find_Some_iff)

lemma evict_oldest_shrinks:
  assumes "evict_oldest_from r = Some (r', a)"
  shows "length (slots r') < length (slots r)"
proof -
  obtain k s where "find (\<lambda>(_, s). \<not> authenticated s) (slots r) = Some (k, s)" "slots r' = btree_remove k (slots r)"
    using assms by (auto simp: evict_oldest_from_def split: option.splits)
  then have "(k, s) \<in> set (slots r)" using find_in by fast
  then show ?thesis
    using length_filter_less[of "(k, s)" "slots r" "\<lambda>(j, _). j \<noteq> k"] \<open>slots r' = _\<close> by (simp add: btree_remove_def)
qed

function evict_until_below :: "roster \<Rightarrow> nat \<Rightarrow> roster \<times> socket_addr list" where
  "evict_until_below r cap =
     (if length (slots r) \<ge> cap
      then case evict_oldest_from r of
             None \<Rightarrow> (r, [])
           | Some (r', victim) \<Rightarrow> apsnd ((#) victim) (evict_until_below r' cap)
      else (r, []))"
  by pat_completeness auto
termination
  by (relation "measure (\<lambda>(r, cap). length (slots r))") (auto dest: evict_oldest_shrinks)

declare evict_until_below.simps [simp del]

section \<open>What eviction leaves\<close>

text \<open>The entries that stay when the first \<open>n\<close> of those not authenticated go.\<close>

fun without_oldest :: "nat \<Rightarrow> (u64 \<times> slot) list \<Rightarrow> (u64 \<times> slot) list" where
  "without_oldest n [] = []"
| "without_oldest n ((k, s) # m) =
     (if authenticated s then (k, s) # without_oldest n m
      else case n of 0 \<Rightarrow> (k, s) # m | Suc n' \<Rightarrow> without_oldest n' m)"

abbreviation strangers :: "roster \<Rightarrow> (u64 \<times> slot) list" where
  "strangers r \<equiv> filter (\<lambda>(_, s). \<not> authenticated s) (slots r)"

definition roster_inv :: "roster \<Rightarrow> bool" where
  "roster_inv r \<longleftrightarrow> sorted_wrt (\<lambda>x y. fst x < fst y) (slots r)"

lemma without_oldest_0: "without_oldest 0 m = m"
  by (induction m) auto

lemma without_oldest_none: "filter (\<lambda>(_, s). \<not> authenticated s) m = [] \<Longrightarrow> without_oldest n m = m"
  by (induction m) (auto split: if_splits)

lemma without_oldest_Suc:
  assumes "sorted_wrt (\<lambda>x y. fst x < fst y) m" "find (\<lambda>(_, s). \<not> authenticated s) m = Some (k, s)"
  shows "without_oldest (Suc n) m = without_oldest n (btree_remove k m)
    \<and> filter (\<lambda>(_, s). \<not> authenticated s) m = (k, s) # filter (\<lambda>(_, s). \<not> authenticated s) (btree_remove k m)
    \<and> length m = Suc (length (btree_remove k m))"
  using assms
proof (induction m)
  case (Cons x m)
  obtain j t where x: "x = (j, t)" by (cases x)
  have keep: "btree_remove j m = m" using Cons.prems(1) x by (auto simp: btree_remove_def filter_id_conv)
  show ?case
  proof (cases "authenticated t")
    case True
    with Cons.prems x have f: "find (\<lambda>(_, s). \<not> authenticated s) m = Some (k, s)" by simp
    then have "j \<noteq> k" using find_in[OF f] Cons.prems(1) x by auto
    with Cons.IH f Cons.prems(1) x True show ?thesis by (simp add: btree_remove_def)
  next
    case False
    with Cons.prems(2) x have "k = j" "s = t" by auto
    with False x keep show ?thesis by (simp add: btree_remove_def)
  qed
qed simp

lemma btree_insert_set: "fst ` set (btree_insert k x m) = insert k (fst ` set m)"
  by (induction k x m rule: btree_insert.induct) auto

lemma btree_insert_sorted:
  "sorted_wrt (\<lambda>x y. fst x < fst y) m \<Longrightarrow> sorted_wrt (\<lambda>x y. fst x < fst y) (btree_insert k x m)"
proof (induction k x m rule: btree_insert.induct)
  case (2 k x j y m)
  have "\<forall>p\<in>set (btree_insert k x m). j < fst p" if "j < k"
    using 2(2) that btree_insert_set[of k x m] by (metis (no_types, lifting) imageE image_eqI insertE sorted_wrt.simps(2) fst_conv)
  with 2 show ?case by auto
qed simp

lemma btree_remove_sorted: "sorted_wrt P m \<Longrightarrow> sorted_wrt P (btree_remove k m)"
  by (simp add: btree_remove_def sorted_wrt_filter)

section \<open>Every sequence of accepts, evictions, authentications and ends\<close>

datatype roster_op = Register socket_addr | Leave u64 | Authenticate u64 | MakeRoom nat

fun roster_apply :: "roster \<Rightarrow> roster_op \<Rightarrow> roster" where
  "roster_apply r (Register a) = fst (register r a gate_closed)"
| "roster_apply r (Leave k) = drop_registration r k"
| "roster_apply r (Authenticate k) = mark_slot r k"
| "roster_apply r (MakeRoom cap) = fst (evict_until_below r cap)"

text \<open>How many have to go, as far as there are that many.\<close>

definition evictions_due :: "roster \<Rightarrow> nat \<Rightarrow> nat" where
  "evictions_due r cap = min (length (strangers r)) (Suc (length (slots r)) - cap)"

lemma evict_until_below_eq:
  assumes "roster_inv r"
  shows "evict_until_below r cap =
    (r\<lparr>slots := without_oldest (evictions_due r cap) (slots r),
       woken := woken r @ map fst (take (evictions_due r cap) (strangers r))\<rparr>,
     map (remote \<circ> snd) (take (evictions_due r cap) (strangers r)))"
  using assms unfolding evictions_due_def
proof (induction r cap rule: evict_until_below.induct)
  case (1 r cap)
  show ?case
  proof (cases "cap \<le> length (slots r)")
    case False
    then show ?thesis by (simp add: evict_until_below.simps without_oldest_0)
  next
    case True
    show ?thesis
    proof (cases "find (\<lambda>(_, s). \<not> authenticated s) (slots r)")
      case None
      then have "strangers r = []" by (auto simp: find_None_iff filter_empty_conv)
      with None show ?thesis
        by (simp add: evict_until_below.simps[of r] evict_oldest_from_def without_oldest_none)
    next
      case (Some x)
      obtain k s where x: "x = (k, s)" by (cases x)
      let ?r = "r\<lparr>slots := btree_remove k (slots r), woken := woken r @ [k]\<rparr>"
      note wo = without_oldest_Suc[OF 1(2)[unfolded roster_inv_def] Some[unfolded x]]
      have e: "evict_oldest_from r = Some (?r, remote s)" using Some x by (simp add: evict_oldest_from_def)
      have "roster_inv ?r" using 1(2) by (simp add: roster_inv_def btree_remove_sorted)
      from "1.IH"[OF True e refl this] True e wo show ?thesis
        by (simp add: evict_until_below.simps[of r] Suc_diff_le)
    qed
  qed
qed

lemma without_oldest_sorted: "sorted_wrt P m \<Longrightarrow> sorted_wrt P (without_oldest n m)"
proof (induction n m rule: without_oldest.induct)
  case (2 n k s m)
  have "set (without_oldest n m) \<subseteq> set m" for n m
    by (induction n m rule: without_oldest.induct) (auto split: nat.splits)
  with 2 show ?case by (fastforce split: nat.splits)
qed simp

lemma without_oldest_members: "filter (\<lambda>(_, s). authenticated s) (without_oldest n m) = filter (\<lambda>(_, s). authenticated s) m"
  by (induction n m rule: without_oldest.induct) (auto split: nat.splits)

lemma without_oldest_strangers:
  "filter (\<lambda>(_, s). \<not> authenticated s) (without_oldest n m) = drop n (filter (\<lambda>(_, s). \<not> authenticated s) m)"
  by (induction n m rule: without_oldest.induct) (auto split: nat.splits)

lemma without_oldest_length:
  "n \<le> length (filter (\<lambda>(_, s). \<not> authenticated s) m) \<Longrightarrow> length (without_oldest n m) = length m - n"
proof -
  assume n: "n \<le> length (filter (\<lambda>(_, s). \<not> authenticated s) m)"
  have "length xs = length (filter (\<lambda>(_, s). authenticated s) xs) + length (filter (\<lambda>(_, s). \<not> authenticated s) xs)" for xs :: "(u64 \<times> slot) list"
    by (induction xs) auto
  from this[of m] this[of "without_oldest n m"] n show ?thesis
    by (simp add: without_oldest_members without_oldest_strangers)
qed

interpretation roster: started_operations roster_apply roster_inv roster_new
proof (unfold_locales, goal_cases)
  case (1 r x)
  then show ?case
    by (cases x)
      (auto simp: roster_inv_def register_def drop_registration_def mark_slot_def Let_def sorted_wrt_map case_prod_beta
        btree_insert_sorted btree_remove_sorted evict_until_below_eq[unfolded roster_inv_def] without_oldest_sorted)
next
  case 2
  then show ?case by (simp add: roster_inv_def roster_new_def)
qed

section \<open>Properties\<close>

text \<open>
  Making room at the cap, in every state the server can get into: the victims are the connections that
  never authenticated, oldest first, as many as it takes to get below the cap and no more; each is told;
  every authenticated connection keeps its slot. Afterwards there is room, or everyone left is authenticated.
\<close>

theorem eviction_fair:
  "let r = foldl roster_apply roster_new ops; (r', victims) = evict_until_below r cap
   in victims = map (remote \<circ> snd) (take (evictions_due r cap) (strangers r))
    \<and> woken r' = woken r @ map fst (take (evictions_due r cap) (strangers r))
    \<and> filter (\<lambda>(_, s). authenticated s) (slots r') = filter (\<lambda>(_, s). authenticated s) (slots r)
    \<and> strangers r' = drop (evictions_due r cap) (strangers r)
    \<and> roster_len r' = roster_len r - evictions_due r cap
    \<and> (if cap = 0 \<or> strangers r' = [] then True else roster_len r' < cap)"
proof -
  let ?r = "foldl roster_apply roster_new ops"
  have "roster_inv ?r" by (rule roster.inv_reached)
  note eq = evict_until_below_eq[OF this, of cap]
  show ?thesis
    unfolding Let_def eq
    by (auto simp: without_oldest_members without_oldest_strangers without_oldest_length
        roster_len_def evictions_due_def min_def split: if_splits)
qed

end
