(* ===== verification/Proxy_Status.thy ===== *)
theory Proxy_Status
  imports Exchange Policy
begin

text \<open>
  \<^verbatim>\<open>src/src/tunnel/status.rs\<close>: how a request that is not proxied is answered, and what a client is told
  about the reason. The text of an address is the parameter \<open>show_addr\<close>. An I/O error is its kind
  and the operating system's number.
\<close>

section \<open>Reasons\<close>

datatype proxy_error =
    DnsError
  | DnsTimeout
  | DestinationIpProhibited
  | DestinationUnavailable
  | ConnectionRefused
  | ConnectionTimeout
  | ProxyInternalError
  | ConnectionLimitReached
  | HttpRequestDenied

datatype error_kind = KindConnectionRefused | KindTimedOut | KindInvalidInput | OtherKind

record io_error =
  kind :: error_kind
  raw_os_error :: "int option"

record unreachable =
  next_hop :: "socket_addr option"
  error :: io_error

definition no_addresses :: unreachable where
  "no_addresses = \<lparr>next_hop = None, error = \<lparr>kind = KindInvalidInput, raw_os_error = None\<rparr>\<rparr>"

datatype resolve_failure = ResolveFailed | ResolveTimedOut

fun resolve_proxy_error :: "resolve_failure \<Rightarrow> proxy_error" where
  "resolve_proxy_error ResolveFailed = DnsError"
| "resolve_proxy_error ResolveTimedOut = DnsTimeout"

fun error_field_value :: "proxy_error \<Rightarrow> string" where
  "error_field_value DnsError = ''volto; error=dns_error''"
| "error_field_value DnsTimeout = ''volto; error=dns_timeout''"
| "error_field_value DestinationIpProhibited = ''volto; error=destination_ip_prohibited''"
| "error_field_value DestinationUnavailable = ''volto; error=destination_unavailable''"
| "error_field_value ConnectionRefused = ''volto; error=connection_refused''"
| "error_field_value ConnectionTimeout = ''volto; error=connection_timeout''"
| "error_field_value ProxyInternalError = ''volto; error=proxy_internal_error''"
| "error_field_value ConnectionLimitReached = ''volto; error=connection_limit_reached''"
| "error_field_value HttpRequestDenied = ''volto; error=http_request_denied''"

definition PROXY_STATUS :: bytes where
  "PROXY_STATUS = byte_string ''proxy-status''"

definition error_fields :: "proxy_error \<Rightarrow> fields" where
  "error_fields e = fields_append [] PROXY_STATUS (byte_string (error_field_value e))"

definition discloses_next_hop :: "proxy_error \<Rightarrow> bool" where
  "discloses_next_hop e \<longleftrightarrow> e = ConnectionRefused \<or> e = ConnectionTimeout \<or> e = DestinationUnavailable"

fun sf_escape :: "bytes \<Rightarrow> bytes" where
  "sf_escape [] = []"
| "sf_escape (b # bs) = (if b = 0x22 \<or> b = 0x5c then [0x5c, b] else [b]) @ sf_escape bs"

definition sf_string :: "bytes \<Rightarrow> bytes" where
  "sf_string s = [0x22] @ sf_escape s @ [0x22]"

definition fields_with_next_hop :: "(socket_addr \<Rightarrow> bytes) \<Rightarrow> proxy_error \<Rightarrow> socket_addr option \<Rightarrow> fields" where
  "fields_with_next_hop show_addr e hop =
     (case (if discloses_next_hop e then hop else None) of
        None \<Rightarrow> error_fields e
      | Some address \<Rightarrow>
          let v = byte_string (error_field_value e) @ byte_string ''; next-hop='' @ sf_string (show_addr address)
          in fields_append [] PROXY_STATUS
               (case field_value_parse v of Some v \<Rightarrow> v | None \<Rightarrow> byte_string (error_field_value e)))"

definition EMFILE :: int where "EMFILE = 24"
definition ENFILE :: int where "ENFILE = 23"
definition ENOBUFS :: int where "ENOBUFS = 105"
definition ENOMEM :: int where "ENOMEM = 12"
definition EADDRNOTAVAIL :: int where "EADDRNOTAVAIL = 99"

definition is_local_exhaustion :: "io_error \<Rightarrow> bool" where
  "is_local_exhaustion e \<longleftrightarrow> raw_os_error e \<in> {Some EMFILE, Some ENFILE, Some ENOBUFS, Some ENOMEM, Some EADDRNOTAVAIL}"

definition from_connect_error :: "io_error \<Rightarrow> proxy_error" where
  "from_connect_error e =
     (if is_local_exhaustion e then ProxyInternalError
      else case kind e of
        KindConnectionRefused \<Rightarrow> ConnectionRefused
      | KindTimedOut \<Rightarrow> ConnectionTimeout
      | _ \<Rightarrow> DestinationUnavailable)"

fun recommended_status :: "proxy_error \<Rightarrow> status" where
  "recommended_status DnsError = byte_string ''502''"
| "recommended_status ConnectionRefused = byte_string ''502''"
| "recommended_status DnsTimeout = byte_string ''504''"
| "recommended_status ConnectionTimeout = byte_string ''504''"
| "recommended_status DestinationUnavailable = byte_string ''503''"
| "recommended_status ConnectionLimitReached = byte_string ''503''"
| "recommended_status DestinationIpProhibited = byte_string ''403''"
| "recommended_status HttpRequestDenied = byte_string ''403''"
| "recommended_status ProxyInternalError = byte_string ''500''"

section \<open>Answers\<close>

text \<open>The last case is the panic of the frame header's encoder on a block that no length can announce.\<close>

datatype responded = Sent | NotSent | ResponseExpired | ResponsePanicked

definition landed :: "responded \<Rightarrow> bool" where
  "landed r \<longleftrightarrow> r = Sent"

definition respond :: "h3_stream \<Rightarrow> status \<Rightarrow> fields \<Rightarrow> write_outcome \<Rightarrow> h3_stream \<times> responded" where
  "respond st sc fs w =
     (case respond_within (send st) sc fs w of (send', res) \<Rightarrow>
        (st\<lparr>send := send'\<rparr>,
         case res of
           Returned (Inr _) \<Rightarrow> Sent
         | Returned (Inl (Failed _)) \<Rightarrow> NotSent
         | Returned (Inl Expired) \<Rightarrow> ResponseExpired
         | _ \<Rightarrow> ResponsePanicked))"

definition refuse_with :: "h3_stream \<Rightarrow> status \<Rightarrow> fields \<Rightarrow> write_outcome \<Rightarrow> h3_stream" where
  "refuse_with st sc fs w =
     (case respond (st\<lparr>stops := stops st @ [H3_NO_ERROR]\<rparr>) sc fs w of (st', r) \<Rightarrow>
        if landed r then st'\<lparr>send := send st' @ [FinSent]\<rparr> else st')"

definition refuse :: "h3_stream \<Rightarrow> status \<Rightarrow> write_outcome \<Rightarrow> h3_stream" where
  "refuse st sc w = refuse_with st sc [] w"

definition refuse_because :: "h3_stream \<Rightarrow> proxy_error \<Rightarrow> write_outcome \<Rightarrow> h3_stream" where
  "refuse_because st e w = refuse_with st (recommended_status e) (error_fields e) w"

definition refuse_unreachable :: "(socket_addr \<Rightarrow> bytes) \<Rightarrow> h3_stream \<Rightarrow> unreachable \<Rightarrow> write_outcome \<Rightarrow> h3_stream" where
  "refuse_unreachable show_addr st f w =
     (let e = from_connect_error (error f)
      in refuse_with st (recommended_status e) (fields_with_next_hop show_addr e (next_hop f)) w)"

definition accept_then_close :: "h3_stream \<Rightarrow> fields \<Rightarrow> write_outcome \<Rightarrow> h3_stream" where
  "accept_then_close st fs w =
     (case respond (st\<lparr>stops := stops st @ [H3_NO_ERROR]\<rparr>) (byte_string ''200'') fs w of (st', r) \<Rightarrow>
        if landed r then st'\<lparr>send := send st' @ [FinSent]\<rparr> else st')"

end
