(* ===== verification/Tunnel_Context.thy ===== *)
theory Tunnel_Context
  imports Auth Quota Roster Proxy_Status
begin

text \<open>
  \<^verbatim>\<open>Context\<close> of \<^verbatim>\<open>src/src/tunnel/mod.rs\<close>: what the requests of one connection share -- the failed
  authentications, the tunnel quota, the budget of unanswered UDP packets -- and the admission of a
  target. The connection's \<^verbatim>\<open>close\<close> calls and the stream credit given to the peer are recorded.
\<close>

section \<open>State\<close>

definition CONNECTION_UNANSWERED_MULTIPLIER :: u32 where
  "CONNECTION_UNANSWERED_MULTIPLIER = 8"

record auth_failures =
  configured :: "(bytes \<times> u32) list"
  unconfigured :: u32
  anonymous :: u32

definition no_failures :: auth_failures where
  "no_failures = \<lparr>configured = [], unconfigured = 0, anonymous = 0\<rparr>"

definition failures_total :: "auth_failures \<Rightarrow> u32" where
  "failures_total f = foldl saturating_add 0 (map snd (configured f) @ [unconfigured f, anonymous f])"

datatype ip_family_preference = PreferSystem | PreferIpv4 | PreferIpv6

record tunnel_context =
  datagrams_allowed :: bool
  auth :: authenticator
  failures :: auth_failures
  max_auth_failures :: u32
  gate :: auth_gate
  stream_credit :: "u32 option"
  ctx_policy :: policy
  ctx_quota :: quota
  max_streams_bidi :: u32
  tunnels :: u64
  ip_family :: ip_family_preference
  unanswered_packet_budget :: u32
  unanswered_connection_budget :: u32
  unanswered_connection_total :: u32
  unanswered_closures :: sampler
  policy_refusals :: sampler
  limit_refusals :: sampler
  quic_closes :: "code list"

definition saturating_mul :: "u32 \<Rightarrow> u32 \<Rightarrow> u32" where
  "saturating_mul a b = (if unat a * unat b < 2 ^ 32 then a * b else - 1)"

text \<open>The settings \<^verbatim>\<open>Context::new\<close> takes from the configuration.\<close>

record settings_of_context =
  set_users :: authenticator
  set_policy :: policy
  set_max_auth_failures :: u32
  set_max_targets :: u32
  set_max_streams_bidi :: u32
  set_ip_family :: ip_family_preference
  set_unanswered :: u32

definition context_new :: "settings_of_context \<Rightarrow> bool \<Rightarrow> auth_gate \<Rightarrow> tunnel_context" where
  "context_new c peer g =
     (let total = saturating_mul (set_unanswered c) CONNECTION_UNANSWERED_MULTIPLIER
      in \<lparr>datagrams_allowed = peer, auth = set_users c, failures = no_failures, max_auth_failures = set_max_auth_failures c,
          gate = g, stream_credit = None, ctx_policy = set_policy c, ctx_quota = quota_new (set_max_targets c),
          max_streams_bidi = set_max_streams_bidi c, tunnels = 0, ip_family = set_ip_family c,
          unanswered_packet_budget = set_unanswered c, unanswered_connection_budget = total,
          unanswered_connection_total = total, unanswered_closures = sampler_new, policy_refusals = sampler_new,
          limit_refusals = sampler_new, quic_closes = []\<rparr>)"

section \<open>Unanswered packets\<close>

definition charge_unanswered :: "tunnel_context \<Rightarrow> tunnel_context \<times> bool" where
  "charge_unanswered c =
     (if unanswered_packet_budget c = 0 then (c, True)
      else if unanswered_connection_budget c > 0
      then (c\<lparr>unanswered_connection_budget := unanswered_connection_budget c - 1\<rparr>, True)
      else (c, False))"

definition refund_unanswered :: "tunnel_context \<Rightarrow> u32 \<Rightarrow> tunnel_context" where
  "refund_unanswered c amount =
     (if unanswered_packet_budget c = 0 \<or> amount = 0 then c
      else c\<lparr>unanswered_connection_budget :=
             min (saturating_add (unanswered_connection_budget c) amount) (unanswered_connection_total c)\<rparr>)"

section \<open>Failed and successful authentications\<close>

fun bump_bucket :: "bytes \<Rightarrow> (bytes \<times> u32) list \<Rightarrow> (bytes \<times> u32) list" where
  "bump_bucket u [] = [(u, saturating_add 0 1)]"
| "bump_bucket u ((v, n) # m) = (if v = u then (v, saturating_add n 1) # m else (v, n) # bump_bucket u m)"

definition record_auth_failure :: "tunnel_context \<Rightarrow> bytes option \<Rightarrow> tunnel_context \<times> bool" where
  "record_auth_failure c user =
     (let f = failures c;
          f' = (case user of
                  Some u \<Rightarrow>
                    if is_configured (auth c) u then f\<lparr>configured := bump_bucket u (configured f)\<rparr>
                    else f\<lparr>unconfigured := saturating_add (unconfigured f) 1\<rparr>
                | None \<Rightarrow> f\<lparr>anonymous := saturating_add (anonymous f) 1\<rparr>)
      in (c\<lparr>failures := f'\<rparr>, max_auth_failures c > 0 \<and> failures_total f' \<ge> max_auth_failures c))"

definition mark_authenticated :: "tunnel_context \<Rightarrow> bytes option \<Rightarrow> tunnel_context" where
  "mark_authenticated c user =
     (let (g, first) = gate_mark (gate c);
          c = c\<lparr>gate := g\<rparr>;
          c = (if first then c\<lparr>stream_credit := Some (max_streams_bidi c)\<rparr> else c);
          f = (failures c)\<lparr>anonymous := 0\<rparr>;
          f = (case user of None \<Rightarrow> f | Some u \<Rightarrow> f\<lparr>configured := filter (\<lambda>(v, _). v \<noteq> u) (configured f)\<rparr>)
      in c\<lparr>failures := f\<rparr>)"

text \<open>The loop over the claims of a refused request.\<close>

fun record_claims :: "tunnel_context \<Rightarrow> bytes option list \<Rightarrow> bool \<Rightarrow> tunnel_context \<times> bool" where
  "record_claims c [] spent = (c, spent)"
| "record_claims c (x # xs) spent =
     (case record_auth_failure c x of (c', s) \<Rightarrow> record_claims c' xs (spent \<or> s))"

section \<open>Admitting a target\<close>

definition is_ipv6_addr :: "socket_addr \<Rightarrow> bool" where
  "is_ipv6_addr a \<longleftrightarrow> (case ip a of V6 _ \<Rightarrow> True | V4 _ \<Rightarrow> False)"

definition prefer_family :: "socket_addr list \<Rightarrow> ip_family_preference \<Rightarrow> socket_addr list" where
  "prefer_family as p =
     (case p of
        PreferSystem \<Rightarrow> as
      | PreferIpv4 \<Rightarrow> sort_key (\<lambda>a. is_ipv6_addr a \<noteq> False) as
      | PreferIpv6 \<Rightarrow> sort_key (\<lambda>a. is_ipv6_addr a \<noteq> True) as)"

definition ip_is_loopback :: "ip_addr \<Rightarrow> bool" where
  "ip_is_loopback a = (case a of V4 v \<Rightarrow> v4_is_loopback v | V6 v \<Rightarrow> v6_is_loopback v)"

text \<open>\<open>holds\<close> answers whether a socket can be bound to an address: whether this host has it.\<close>

definition is_the_proxys_own :: "(ip_addr \<Rightarrow> bool) \<Rightarrow> ip_addr \<Rightarrow> bool" where
  "is_the_proxys_own holds a =
     (let a = canonical a in \<not> ip_is_loopback a \<and> holds a)"

text \<open>What the lookup within its budget came to is an argument; \<open>None\<close> where it is not made.\<close>

definition admit_target ::
  "(ip_addr \<Rightarrow> bool) \<Rightarrow> u16 \<Rightarrow> (resolve_failure + socket_addr list) \<Rightarrow> fields \<Rightarrow> tunnel_context \<Rightarrow> h3_stream \<Rightarrow> write_outcome \<Rightarrow>
     tunnel_context \<times> h3_stream \<times> socket_addr list option" where
  "admit_target holds prt lookup accepted_fields c st w =
     (if \<not> allows_port (ctx_policy c) prt then (c, refuse_because st HttpRequestDenied w, None)
      else case lookup of
        Inl failure \<Rightarrow> (c, refuse_because st (resolve_proxy_error failure) w, None)
      | Inr resolved \<Rightarrow>
          let addresses = prefer_family resolved (ip_family c);
              allowed = filter (\<lambda>a. \<not> is_the_proxys_own holds (ip a)) (allowed_addresses (ctx_policy c) addresses)
          in if allowed = [] then
               (if is_dns_blackhole addresses then (c, accept_then_close st accepted_fields w, None)
                else (c\<lparr>policy_refusals := fst (sampler_record (policy_refusals c))\<rparr>,
                      refuse_because st DestinationIpProhibited w, None))
             else (c, st, Some allowed))"

section \<open>Counting failures\<close>

text \<open>
  What became of the credentials of a connection's requests, latest first: a request was admitted under a
  name or none, or refused with the names it claimed. A request is its fields: one with more credential
  values than it may carry is answered before any of them is tried, any other is authenticated. A
  connection that is closed takes no more requests.
\<close>

datatype attempt = Admitted "bytes option" | Refused "bytes option list"

fun attempt_step :: "attempt list \<times> tunnel_context option \<Rightarrow> fields \<Rightarrow> attempt list \<times> tunnel_context option" where
  "attempt_step (h, None) fs = (h, None)"
| "attempt_step (h, Some c) fs =
     (if credential_values fs > MAX_CREDENTIAL_VALUES then (h, Some c)
      else case authenticate (auth c) fs of
        Inr u \<Rightarrow> (Admitted u # h, Some (mark_authenticated c u))
      | Inl ds \<Rightarrow>
          (case record_claims c (claims ds) False of (c', spent) \<Rightarrow>
             (Refused (claims ds) # h, if spent then None else Some c')))"

text \<open>Failures under a name since it last succeeded, under no name since anyone did, and under unknown names ever.\<close>

fun failed_as :: "bytes \<Rightarrow> attempt list \<Rightarrow> nat" where
  "failed_as u [] = 0"
| "failed_as u (Admitted v # h) = (if v = Some u then 0 else failed_as u h)"
| "failed_as u (Refused cs # h) = count_list cs (Some u) + failed_as u h"

fun failed_anonymous :: "attempt list \<Rightarrow> nat" where
  "failed_anonymous [] = 0"
| "failed_anonymous (Admitted v # h) = 0"
| "failed_anonymous (Refused cs # h) = count_list cs None + failed_anonymous h"

fun failed_unknown :: "authenticator \<Rightarrow> attempt list \<Rightarrow> nat" where
  "failed_unknown a [] = 0"
| "failed_unknown a (Admitted v # h) = failed_unknown a h"
| "failed_unknown a (Refused cs # h) =
     length (filter (\<lambda>x. \<exists>u. x = Some u \<and> \<not> is_configured a u) cs) + failed_unknown a h"

definition failed_total :: "authenticator \<Rightarrow> attempt list \<Rightarrow> nat" where
  "failed_total a h = (\<Sum>u\<in>user_name ` set a. failed_as u h) + failed_unknown a h + failed_anonymous h"

text \<open>The counters agree with the history as long as nothing has saturated.\<close>

definition bucket :: "(bytes \<times> u32) list \<Rightarrow> bytes \<Rightarrow> nat" where
  "bucket m u = (case map_of m u of None \<Rightarrow> 0 | Some n \<Rightarrow> unat n)"

lemma bucket_bump:
  "unat (saturating_add 0 1 :: u32) = 1 \<Longrightarrow> bucket m u < 2 ^ 32 - 1 \<Longrightarrow>
     bucket (bump_bucket u m) v = bucket m v + (if v = u then 1 else 0)
     \<and> fst ` set (bump_bucket u m) = insert u (fst ` set m)
     \<and> (distinct (map fst m) \<longrightarrow> distinct (map fst (bump_bucket u m)))"
proof (induction m)
  case Nil
  then show ?case by (auto simp: bucket_def)
next
  case (Cons x m)
  obtain w n where x: "x = (w, n)" by (cases x)
  show ?case
  proof (cases "w = u")
    case True
    with Cons.prems x have "unat (saturating_add n 1) = unat n + 1" by (simp add: bucket_def unat_saturating_add)
    with True x show ?thesis by (auto simp: bucket_def)
  next
    case False
    then have "bucket (x # m) u = bucket m u" "bucket (bump_bucket u (x # m)) v = (if v = w then unat n else bucket (bump_bucket u m) v)"
      "bucket (x # m) v = (if v = w then unat n else bucket m v)"
      using x by (auto simp: bucket_def)
    with Cons False x show ?thesis by auto
  qed
qed

lemma bucket_remove: "bucket (filter (\<lambda>(v, _). v \<noteq> u) m) v = (if v = u then 0 else bucket m v)"
  by (induction m) (auto simp: bucket_def)

lemma sum_buckets:
  assumes "distinct (map fst m)" "fst ` set m \<subseteq> S" "finite S"
  shows "sum_list (map (unat \<circ> snd) m) = (\<Sum>u\<in>S. bucket m u)"
  using assms(1,2)
proof (induction m)
  case Nil
  then show ?case by (simp add: bucket_def)
next
  case (Cons x m)
  obtain w n where x: "x = (w, n)" by (cases x)
  have w: "w \<in> S" "bucket m w = 0"
    using Cons.prems x by (auto simp: bucket_def split: option.splits dest!: map_of_SomeD intro: rev_image_eqI)
  have "(\<Sum>u\<in>S. bucket (x # m) u) = (\<Sum>u\<in>S. bucket m u + (if u = w then unat n else 0))"
    by (rule sum.cong) (use w x in \<open>auto simp: bucket_def\<close>)
  also have "\<dots> = (\<Sum>u\<in>S. bucket m u) + unat n" using w assms(3) by (simp add: sum.distrib)
  finally show ?case using Cons x by simp
qed

lemma saturating_sum:
  "unat (foldl saturating_add (v :: u32) xs) = min (unat v + sum_list (map unat xs)) (2 ^ 32 - 1)"
proof (induction xs arbitrary: v)
  case Nil
  have "unat v < 2 ^ 32" using unsigned_less[of v] by simp
  then show ?case by simp
next
  case (Cons x xs)
  then show ?case by (auto simp: unat_saturating_add min_def)
qed

definition counts :: "authenticator \<Rightarrow> attempt list \<Rightarrow> auth_failures \<Rightarrow> bool" where
  "counts a h f \<longleftrightarrow>
     distinct (map fst (configured f)) \<and> fst ` set (configured f) \<subseteq> user_name ` set a
     \<and> (\<forall>u\<in>user_name ` set a. bucket (configured f) u = failed_as u h)
     \<and> unat (unconfigured f) = failed_unknown a h \<and> unat (anonymous f) = failed_anonymous h"

lemma counts_total:
  assumes "counts a h f"
  shows "unat (failures_total f) = min (failed_total a h) (2 ^ 32 - 1)"
proof -
  have "sum_list (map (unat \<circ> snd) (configured f)) = (\<Sum>u\<in>user_name ` set a. failed_as u h)"
    using assms sum_buckets[of "configured f" "user_name ` set a"] by (auto simp: counts_def intro!: sum.cong)
  moreover have "unat (failures_total f)
      = min (sum_list (map (unat \<circ> snd) (configured f)) + (unat (unconfigured f) + unat (anonymous f))) (2 ^ 32 - 1)"
    unfolding failures_total_def by (simp add: saturating_sum del: foldl_append)
  ultimately show ?thesis using assms by (simp add: failed_total_def counts_def)
qed

lemma count_snoc: "count_list (cs @ [x]) y = count_list cs y + (if x = y then 1 else 0)"
  by (induction cs) auto

lemma failed_total_snoc:
  "failed_total a (Refused (cs @ [x]) # h) = failed_total a (Refused cs # h) + 1"
proof (cases "\<exists>u. x = Some u \<and> is_configured a u")
  case True
  then obtain u where u: "x = Some u" "u \<in> user_name ` set a" by (auto simp: is_configured_iff)
  have "(\<Sum>v\<in>user_name ` set a. count_list cs (Some v) + (if x = Some v then 1 else 0) + failed_as v h)
      = (\<Sum>v\<in>user_name ` set a. count_list cs (Some v) + failed_as v h) + (\<Sum>v\<in>user_name ` set a. if u = v then 1 else 0)"
    unfolding sum.distrib[symmetric] using u by (intro sum.cong) auto
  with u True show ?thesis by (simp add: failed_total_def sum.delta count_snoc del: count_list_append)
next
  case False
  then have "(\<Sum>v\<in>user_name ` set a. count_list cs (Some v) + (if x = Some v then 1 else 0) + failed_as v h)
      = (\<Sum>v\<in>user_name ` set a. count_list cs (Some v) + failed_as v h)"
    by (intro sum.cong) (auto simp: is_configured_iff)
  with False show ?thesis by (cases x) (auto simp: failed_total_def count_snoc simp del: count_list_append)
qed

lemma failed_total_refused: "failed_total a (Refused cs # h) = failed_total a h + length cs"
proof (induction cs rule: rev_induct)
  case Nil
  then show ?case by (simp add: failed_total_def)
next
  case (snoc x cs)
  then show ?case using failed_total_snoc[of a cs x h] by simp
qed

lemma failed_as_le_total:
  "u \<in> user_name ` set a \<Longrightarrow> failed_as u h \<le> failed_total a h"
  "failed_unknown a h \<le> failed_total a h" "failed_anonymous h \<le> failed_total a h"
proof -
  show "failed_as u h \<le> failed_total a h" if "u \<in> user_name ` set a"
    using member_le_sum[of u "user_name ` set a" "\<lambda>u. failed_as u h"] that by (simp add: failed_total_def)
qed (simp_all add: failed_total_def)

lemma counts_failure:
  assumes "counts (auth c) (Refused cs # h) (failures c)" "failed_total (auth c) (Refused cs # h) < 2 ^ 32 - 1"
  shows "counts (auth c) (Refused (cs @ [x]) # h) (failures (fst (record_auth_failure c x)))"
proof -
  note le = le_less_trans[OF _ assms(2)]
  show ?thesis
  proof (cases x)
    case None
    then show ?thesis
      using assms(1) le[OF failed_as_le_total(3)]
      by (auto simp: record_auth_failure_def Let_def counts_def unat_saturating_add)
  next
    case (Some u)
    show ?thesis
    proof (cases "is_configured (auth c) u")
      case False
      then show ?thesis
        using assms(1) le[OF failed_as_le_total(2)] Some
        by (auto simp: record_auth_failure_def Let_def counts_def unat_saturating_add is_configured_iff)
    next
      case True
      then have u: "u \<in> user_name ` set (auth c)" by (simp add: is_configured_iff)
      have "bucket (configured (failures c)) u < 2 ^ 32 - 1"
        using assms(1) u le[OF failed_as_le_total(1)[OF u]] by (auto simp: counts_def)
      note bump = bucket_bump[OF _ this]
      from Some True u assms(1) bump show ?thesis
        by (auto simp: record_auth_failure_def Let_def counts_def unat_saturating_add)
    qed
  qed
qed

lemma record_auth_failure_same [simp]:
  "auth (fst (record_auth_failure c x)) = auth c" "max_auth_failures (fst (record_auth_failure c x)) = max_auth_failures c"
  by (simp_all add: record_auth_failure_def Let_def)

lemma failed_total_mono: "failed_total a (Refused cs # h) \<le> failed_total a (Refused (cs @ ds) # h)"
proof (induction ds rule: rev_induct)
  case (snoc x ds)
  then show ?case using failed_total_snoc[of a "cs @ ds" x h] by simp
qed simp

lemma record_claims_spent: "snd (record_claims c cs True)"
  by (induction cs arbitrary: c) (auto split: prod.splits)

lemma record_claims_same:
  "auth (fst (record_claims c cs sp)) = auth c \<and> max_auth_failures (fst (record_claims c cs sp)) = max_auth_failures c"
proof (induction cs arbitrary: c sp)
  case (Cons x cs)
  have "record_claims c (x # cs) sp = record_claims (fst (record_auth_failure c x)) cs (sp \<or> snd (record_auth_failure c x))"
    by (simp split: prod.splits)
  then show ?case using Cons by simp
qed simp

lemma record_claims_counts:
  assumes "counts (auth c) (Refused ds # h) (failures c)" "0 < max_auth_failures c"
    and "failed_total (auth c) (Refused ds # h) < unat (max_auth_failures c)"
  shows "case record_claims c cs False of (c', spent) \<Rightarrow>
    auth c' = auth c \<and> max_auth_failures c' = max_auth_failures c
    \<and> (spent \<longleftrightarrow> unat (max_auth_failures c) \<le> failed_total (auth c) (Refused (ds @ cs) # h))
    \<and> (\<not> spent \<longrightarrow> counts (auth c) (Refused (ds @ cs) # h) (failures c'))"
  using assms
proof (induction cs arbitrary: c ds)
  case (Cons x cs)
  let ?c = "fst (record_auth_failure c x)" and ?n = "failed_total (auth c) (Refused (ds @ [x]) # h)"
  have "unat (max_auth_failures c) < 2 ^ 32" using unsigned_less[of "max_auth_failures c"] by simp
  then have m: "unat (max_auth_failures c) \<le> 2 ^ 32 - 1" by simp
  have k: "counts (auth c) (Refused (ds @ [x]) # h) (failures ?c)"
    using Cons.prems m by (intro counts_failure) auto
  have n: "?n \<le> unat (max_auth_failures c)" using Cons.prems(3) failed_total_snoc[of "auth c" ds x h] by simp
  have s: "snd (record_auth_failure c x) \<longleftrightarrow> unat (max_auth_failures c) \<le> ?n"
    using counts_total[OF k] Cons.prems(2) n m
    by (auto simp: record_auth_failure_def Let_def word_le_nat_alt)
  have step: "record_claims c (x # cs) False = record_claims ?c cs (snd (record_auth_failure c x))"
    by (simp split: prod.splits)
  show ?case
  proof (cases "snd (record_auth_failure c x)")
    case True
    moreover have "auth c' = auth c \<and> max_auth_failures c' = max_auth_failures c"
      if "record_claims ?c cs True = (c', sp)" for c' sp using record_claims_same[of ?c cs True] that by simp
    ultimately show ?thesis
      using s record_claims_spent[of ?c cs] failed_total_mono[of "auth c" "ds @ [x]" h cs]
      unfolding step by (auto split: prod.splits)
  next
    case False
    with s have "?n < unat (max_auth_failures c)" by simp
    with Cons.IH[of ?c "ds @ [x]"] k Cons.prems(2) False show ?thesis unfolding step by simp
  qed
qed auto

definition attempts_inv :: "authenticator \<Rightarrow> u32 \<Rightarrow> attempt list \<times> tunnel_context option \<Rightarrow> bool" where
  "attempts_inv a m s \<longleftrightarrow> 0 < m
     \<and> (\<forall>cs. Refused cs \<in> set (fst s) \<longrightarrow> 0 < length cs \<and> length cs \<le> MAX_CREDENTIAL_VALUES)
     \<and> (case snd s of
          None \<Rightarrow> unat m \<le> failed_total a (fst s) \<and> failed_total a (fst s) < unat m + MAX_CREDENTIAL_VALUES
        | Some c \<Rightarrow> auth c = a \<and> max_auth_failures c = m \<and> counts a (fst s) (failures c) \<and> failed_total a (fst s) < unat m)"

lemma counts_refused_Nil [simp]:
  "counts a (Refused [] # h) f = counts a h f" "failed_total a (Refused [] # h) = failed_total a h"
  by (simp_all add: counts_def failed_total_def)

lemma failed_total_admitted: "failed_total a (Admitted u # h) \<le> failed_total a h"
  unfolding failed_total_def by (intro add_mono sum_mono) auto

lemma counts_admitted: "counts a h f \<Longrightarrow> counts a (Admitted u # h)
    (case u of None \<Rightarrow> f\<lparr>anonymous := 0\<rparr> | Some u \<Rightarrow> f\<lparr>anonymous := 0, configured := filter (\<lambda>(v, _). v \<noteq> u) (configured f)\<rparr>)"
  by (auto simp: counts_def bucket_remove distinct_map_filter split: option.splits)

lemma claims_length:
  assumes "authenticate a fs = Inl ds" "credential_values fs \<le> MAX_CREDENTIAL_VALUES"
  shows "0 < length (claims ds) \<and> length (claims ds) \<le> MAX_CREDENTIAL_VALUES"
proof -
  have "length (claims ds) = max 1 (credential_values fs)"
    using assms(1) authenticate_loop_Inl[of a None "credentials fs" ds]
    by (simp add: authenticate_def denials_charged_def claims_def credential_values_def split: if_splits)
  with assms(2) show ?thesis by (simp add: MAX_CREDENTIAL_VALUES_def CREDENTIAL_FIELDS_def)
qed

text \<open>A refused request closes the connection exactly when its claims bring the failures to the limit.\<close>

lemma attempt_refused:
  assumes "attempts_inv a m (h, Some c)" "credential_values fs \<le> MAX_CREDENTIAL_VALUES" "authenticate a fs = Inl ds"
  shows "snd (attempt_step (h, Some c) fs) = None \<longleftrightarrow> unat m \<le> failed_total a (Refused (claims ds) # h)"
  using assms record_claims_counts[of c "[]" h "claims ds"] by (auto simp: attempts_inv_def split: prod.splits)

interpretation attempts: operations attempt_step "attempts_inv a m" for a m
proof (unfold_locales, goal_cases)
  case (1 s fs)
  obtain h oc where s: "s = (h, oc)" by (cases s)
  show ?case
  proof (cases oc)
    case None
    with s 1 show ?thesis by (simp add: attempts_inv_def)
  next
    case (Some c)
    consider "credential_values fs > MAX_CREDENTIAL_VALUES" | u where "credential_values fs \<le> MAX_CREDENTIAL_VALUES" "authenticate a fs = Inr u"
      | ds where "credential_values fs \<le> MAX_CREDENTIAL_VALUES" "authenticate a fs = Inl ds"
      by (cases "authenticate a fs"; cases "credential_values fs \<le> MAX_CREDENTIAL_VALUES") (auto simp: not_le)
    then show ?thesis
    proof cases
      case 1
      with \<open>attempts_inv a m s\<close> s Some show ?thesis by simp
    next
      case (2 u)
      with 1 s Some show ?thesis
        using counts_admitted[of a h "failures c" u] failed_total_admitted[of a u h]
        by (auto simp: attempts_inv_def mark_authenticated_def gate_mark_def Let_def split: option.splits if_splits)
    next
      case (3 ds)
      have n: "0 < length (claims ds)" "length (claims ds) \<le> MAX_CREDENTIAL_VALUES" using claims_length[OF 3(2,1)] by auto
      from 3 1 s Some n show ?thesis
        using record_claims_counts[of c "[]" h "claims ds"] failed_total_refused[of a "claims ds" h]
        by (auto simp: attempts_inv_def split: prod.splits if_splits)
    qed
  qed
qed

section \<open>Sorting by a flag\<close>

lemma insort_key_flag:
  "insort_key P x (filter (\<lambda>x. \<not> P x) xs @ filter P xs) =
     (if P x then filter (\<lambda>x. \<not> P x) xs @ x # filter P xs else x # filter (\<lambda>x. \<not> P x) xs @ filter P xs)"
proof (induction xs)
  case (Cons y ys)
  show ?case
  proof (cases "P x")
    case True
    have "insort_key P x (filter P zs) = x # filter P zs" for zs using True by (induction zs) auto
    moreover have "insort_key P x (as @ bs) = as @ insort_key P x bs" if "list_all (\<lambda>a. \<not> P a) as" for as bs
      using that True by (induction as) auto
    ultimately show ?thesis using True by (simp add: list_all_iff)
  next
    case False
    then show ?thesis by (cases "filter (\<lambda>x. \<not> P x) (y # ys) @ filter P (y # ys)") auto
  qed
qed auto

lemma sort_key_two: "sort_key P xs = filter (\<lambda>x. \<not> P x) xs @ filter P xs"
  by (induction xs) (auto simp: insort_key_flag)

lemma admit_target_some:
  assumes "admit_target holds prt lookup fs c st w = (c', st', Some as)"
  shows "\<exists>resolved. lookup = Inr resolved \<and> allows_port (ctx_policy c) prt \<and> c' = c \<and> st' = st \<and> as \<noteq> []
    \<and> set as = {a \<in> set resolved. allows_address (ctx_policy c) (ip a)
         \<and> (ip_is_loopback (canonical (ip a)) \<or> \<not> holds (canonical (ip a)))}
    \<and> (let ok = \<lambda>a. allows_address (ctx_policy c) (ip a) \<and> \<not> is_the_proxys_own holds (ip a)
       in as = (case ip_family c of
            PreferSystem \<Rightarrow> filter ok resolved
          | PreferIpv4 \<Rightarrow> filter (\<lambda>a. ok a \<and> \<not> is_ipv6_addr a) resolved @ filter (\<lambda>a. ok a \<and> is_ipv6_addr a) resolved
          | PreferIpv6 \<Rightarrow> filter (\<lambda>a. ok a \<and> is_ipv6_addr a) resolved @ filter (\<lambda>a. ok a \<and> \<not> is_ipv6_addr a) resolved))"
proof -
  have two: "sort_key P xs = filter (\<lambda>x. \<not> P x) xs @ filter P xs" for P :: "socket_addr \<Rightarrow> bool" and xs
    by (rule sort_key_two)
  from assms obtain resolved where r: "lookup = Inr resolved" "allows_port (ctx_policy c) prt" "c' = c" "st' = st" "as \<noteq> []"
    "as = filter (\<lambda>a. \<not> is_the_proxys_own holds (ip a)) (allowed_addresses (ctx_policy c) (prefer_family resolved (ip_family c)))"
    by (auto simp: admit_target_def Let_def split: if_splits sum.splits)
  have "set (prefer_family resolved f) = set resolved" for f by (simp add: prefer_family_def split: ip_family_preference.splits)
  then have "set as = {a \<in> set resolved. allows_address (ctx_policy c) (ip a) \<and> (ip_is_loopback (canonical (ip a)) \<or> \<not> holds (canonical (ip a)))}"
    using r(6) by (auto simp: allowed_addresses_def is_the_proxys_own_def Let_def)
  moreover have "let ok = \<lambda>a. allows_address (ctx_policy c) (ip a) \<and> \<not> is_the_proxys_own holds (ip a)
       in as = (case ip_family c of
            PreferSystem \<Rightarrow> filter ok resolved
          | PreferIpv4 \<Rightarrow> filter (\<lambda>a. ok a \<and> \<not> is_ipv6_addr a) resolved @ filter (\<lambda>a. ok a \<and> is_ipv6_addr a) resolved
          | PreferIpv6 \<Rightarrow> filter (\<lambda>a. ok a \<and> is_ipv6_addr a) resolved @ filter (\<lambda>a. ok a \<and> \<not> is_ipv6_addr a) resolved)"
    using r(6) by (auto simp: allowed_addresses_def prefer_family_def two Let_def conj_ac split: ip_family_preference.splits)
  ultimately show ?thesis using r(1-5) by blast
qed

section \<open>Properties\<close>

text \<open>
  C14. Guessing is bounded. Take any requests on one connection, with a limit on authentication failures, and
  count as its failures, for every configured user, those since that user last succeeded, for no user
  those since anyone succeeded, and for unknown users all there ever were. While the connection is open they
  are fewer than the limit. A refused request is charged one failure for every value it carries, one if it
  carries none, and never more than \<^verbatim>\<open>MAX_CREDENTIAL_VALUES\<close>; it closes the connection exactly when that
  brings the failures to the limit, so a closed connection has reached the limit and exceeded it by
  fewer than \<^verbatim>\<open>MAX_CREDENTIAL_VALUES\<close>. A request that is admitted, or has more values than it may, closes
  nothing, and the latter is charged nothing.
\<close>

theorem auth_failure_budget:
  assumes "foldl attempt_step ([], Some (context_new cfg peer g)) xs = (h, oc)" "0 < set_max_auth_failures cfg"
  shows "(case oc of
       None \<Rightarrow> unat (set_max_auth_failures cfg) \<le> failed_total (set_users cfg) h
           \<and> failed_total (set_users cfg) h < unat (set_max_auth_failures cfg) + MAX_CREDENTIAL_VALUES
     | Some c \<Rightarrow> failed_total (set_users cfg) h < unat (set_max_auth_failures cfg)
         \<and> (if credential_values fs > MAX_CREDENTIAL_VALUES then attempt_step (h, oc) fs = (h, oc)
            else case authenticate (set_users cfg) fs of
              Inr u \<Rightarrow> snd (attempt_step (h, oc) fs) \<noteq> None
            | Inl ds \<Rightarrow> fst (attempt_step (h, oc) fs) = Refused (claims ds) # h
                \<and> (snd (attempt_step (h, oc) fs) = None
                     \<longleftrightarrow> unat (set_max_auth_failures cfg) \<le> failed_total (set_users cfg) h + length (claims ds))))
    \<and> list_all (\<lambda>x. case x of Refused cs \<Rightarrow> 0 < length cs \<and> length cs \<le> MAX_CREDENTIAL_VALUES | Admitted _ \<Rightarrow> True) h"
proof -
  have "counts (set_users cfg) [] no_failures" by (simp add: counts_def no_failures_def bucket_def)
  then have "attempts_inv (set_users cfg) (set_max_auth_failures cfg) ([], Some (context_new cfg peer g))"
    using assms(2) by (simp add: attempts_inv_def context_new_def Let_def failed_total_def word_less_nat_alt)
  from attempts.inv_run[OF this, of xs] assms(1)
  have inv: "attempts_inv (set_users cfg) (set_max_auth_failures cfg) (h, oc)" by simp
  then have h: "list_all (\<lambda>x. case x of Refused cs \<Rightarrow> 0 < length cs \<and> length cs \<le> MAX_CREDENTIAL_VALUES | Admitted _ \<Rightarrow> True) h"
    by (auto simp: attempts_inv_def list_all_iff split: attempt.split)
  show ?thesis
  proof (cases oc)
    case None
    with inv h show ?thesis by (simp add: attempts_inv_def)
  next
    case (Some c)
    then have c: "auth c = set_users cfg" "failed_total (set_users cfg) h < unat (set_max_auth_failures cfg)"
      using inv by (simp_all add: attempts_inv_def)
    show ?thesis
    proof (cases "authenticate (set_users cfg) fs")
      case (Inl ds)
      with attempt_refused[OF inv[unfolded Some], of fs ds] c h Some show ?thesis
        by (simp add: failed_total_refused split: prod.split)
    next
      case (Inr u)
      with c h Some show ?thesis by simp
    qed
  qed
qed

text \<open>The instance: a limit of two, one request without credentials, and then one with two wrong ones.\<close>

theorem auth_failure_budget_witness:
  "let cfg = \<lparr>set_users = [\<lparr>user_name = [0x61], user_password = [0x62]\<rparr>], set_policy = \<lparr>allow_private_networks = False, denied_ports = []\<rparr>,
       set_max_auth_failures = 2, set_max_targets = 4, set_max_streams_bidi = 8, set_ip_family = PreferSystem, set_unanswered = 0\<rparr>;
       fs = [(byte_string ''authorization'', []), (byte_string ''proxy-authorization'', [])];
       s = foldl attempt_step ([], Some (context_new cfg True False)) [[], fs]
   in s = ([Refused [None, None], Refused [None]], None) \<and> failed_total (set_users cfg) (fst s) < 4"
proof -
  let ?cfg = "\<lparr>set_users = [\<lparr>user_name = [0x61], user_password = [0x62]\<rparr>], set_policy = \<lparr>allow_private_networks = False, denied_ports = []\<rparr>,
       set_max_auth_failures = 2, set_max_targets = 4, set_max_streams_bidi = 8, set_ip_family = PreferSystem, set_unanswered = 0\<rparr>"
  let ?fs = "[(byte_string ''authorization'', []), (byte_string ''proxy-authorization'', [])] :: fields"
  let ?c = "context_new ?cfg True False"
  have two: "MAX_CREDENTIAL_VALUES = 2" by (simp add: MAX_CREDENTIAL_VALUES_def CREDENTIAL_FIELDS_def)
  have v: "credentials [] = []" "credentials ?fs = [[], []]" by code_simp+
  have k: "check a [] = Inl (MalformedCredentials ''credentials have no auth scheme'')" for a
    by (simp add: check_def to_str_def from_utf8_def basic_token_def split_once_def)
  have a: "authenticate (set_users ?cfg) [] = Inl \<lparr>reported = Missing, others = []\<rparr>"
    "authenticate (set_users ?cfg) ?fs = Inl \<lparr>reported = MalformedCredentials ''credentials have no auth scheme'',
        others = [MalformedCredentials ''credentials have no auth scheme'']\<rparr>"
    unfolding authenticate_def v by (simp_all add: is_disabled_def k denials_from_def denials_push_def)
  have run: "foldl attempt_step ([], Some ?c) [[], ?fs] = ([Refused [None, None], Refused [None]], None)"
    by (simp add: a[simplified] v two credential_values_def claims_def record_auth_failure_def context_new_def Let_def no_failures_def failures_total_def
        saturating_add_def word_le_nat_alt)
  from auth_failure_budget[OF run] run show ?thesis by (simp add: Let_def two)
qed

text \<open>
  Only addresses the policy permits are ever handed to a tunnel: when a target is admitted its port is
  allowed, there is at least one address, and every address is one the lookup returned, is allowed by the
  policy and is not one of this host's own, loopback aside. The addresses of the preferred family come
  first, in the order of the lookup within each family. Nothing has been said to the client yet.
\<close>

theorem admit_target_sound:
  assumes "admit_target holds prt lookup fs c st w = (c', st', Some as)"
  shows "\<exists>resolved. lookup = Inr resolved \<and> allows_port (ctx_policy c) prt \<and> c' = c \<and> st' = st \<and> as \<noteq> []
    \<and> set as = {a \<in> set resolved. allows_address (ctx_policy c) (ip a)
         \<and> (ip_is_loopback (canonical (ip a)) \<or> \<not> holds (canonical (ip a)))}
    \<and> (let ok = \<lambda>a. allows_address (ctx_policy c) (ip a) \<and> \<not> is_the_proxys_own holds (ip a)
       in as = (case ip_family c of
            PreferSystem \<Rightarrow> filter ok resolved
          | PreferIpv4 \<Rightarrow> filter (\<lambda>a. ok a \<and> \<not> is_ipv6_addr a) resolved @ filter (\<lambda>a. ok a \<and> is_ipv6_addr a) resolved
          | PreferIpv6 \<Rightarrow> filter (\<lambda>a. ok a \<and> is_ipv6_addr a) resolved @ filter (\<lambda>a. ok a \<and> \<not> is_ipv6_addr a) resolved))"
  using assms by (rule admit_target_some)

definition sample_settings :: settings_of_context where
  "sample_settings = \<lparr>set_users = [], set_policy = \<lparr>allow_private_networks = False, denied_ports = [25]\<rparr>,
     set_max_auth_failures = 2, set_max_targets = 4, set_max_streams_bidi = 8, set_ip_family = PreferIpv4, set_unanswered = 0\<rparr>"

theorem admit_target_sound_witness:
  "\<exists>resolved. [\<lparr>ip = V4 0x0a000001, port = 443\<rparr>, \<lparr>ip = V4 0x08080808, port = 443\<rparr>, \<lparr>ip = V4 0x09090909, port = 443\<rparr>] = resolved
     \<and> [\<lparr>ip = V4 0x08080808, port = 443\<rparr>] \<noteq> []
     \<and> set [\<lparr>ip = V4 0x08080808, port = 443\<rparr>] = {a \<in> set resolved. allows_address (set_policy sample_settings) (ip a)
         \<and> (ip_is_loopback (canonical (ip a)) \<or> \<not> canonical (ip a) = V4 0x09090909)}"
proof -
  let ?as = "[\<lparr>ip = V4 0x0a000001, port = 443\<rparr>, \<lparr>ip = V4 0x08080808, port = 443\<rparr>, \<lparr>ip = V4 0x09090909, port = 443\<rparr>]"
  let ?h = "\<lambda>a. a = V4 0x09090909" and ?c = "context_new sample_settings True False"
  have c: "ctx_policy ?c = \<lparr>allow_private_networks = False, denied_ports = [25]\<rparr>" "ip_family ?c = PreferIpv4"
    by (simp_all add: context_new_def sample_settings_def Let_def)
  have "\<not> allows_address \<lparr>allow_private_networks = False, denied_ports = [25]\<rparr> (V4 0x0a000001)"
    "allows_address \<lparr>allow_private_networks = False, denied_ports = [25]\<rparr> (V4 0x08080808)"
    "\<not> v4_is_loopback 0x08080808" "\<not> v4_is_loopback 0x09090909" by code_simp+
  then have "filter (\<lambda>a. \<not> is_the_proxys_own ?h (ip a)) (allowed_addresses (ctx_policy ?c) (prefer_family ?as (ip_family ?c)))
      = [\<lparr>ip = V4 0x08080808, port = 443\<rparr>]" "allows_port (ctx_policy ?c) 443"
    unfolding c
    by (simp_all add: prefer_family_def is_ipv6_addr_def allowed_addresses_def is_the_proxys_own_def ip_is_loopback_def allows_port_def)
  then have adm: "admit_target ?h 443 (Inr ?as) [] ?c resolver_new Taken = (?c, resolver_new, Some [\<lparr>ip = V4 0x08080808, port = 443\<rparr>])"
    by (simp add: admit_target_def Let_def)
  have pol: "ctx_policy ?c = set_policy sample_settings" by (simp add: context_new_def Let_def)
  obtain resolved where "Inr ?as = (Inr resolved :: resolve_failure + socket_addr list)"
    "set [\<lparr>ip = V4 0x08080808, port = 443\<rparr>] = {a \<in> set resolved. allows_address (ctx_policy ?c) (ip a)
         \<and> (ip_is_loopback (canonical (ip a)) \<or> \<not> canonical (ip a) = V4 0x09090909)}"
    using admit_target_sound[OF adm] by blast
  then show ?thesis unfolding pol by (intro exI[of _ ?as] conjI refl) simp_all
qed

end
