(* ===== verification/Targets.thy ===== *)
theory Targets
  imports Message Logfmt Strings
begin

text \<open>
  The target a request names: \<^verbatim>\<open>split_authority\<close> of \<^verbatim>\<open>src/src/tunnel/tcp.rs\<close> for CONNECT, and
  \<^verbatim>\<open>validate\<close> and \<^verbatim>\<open>parse_target\<close> of \<^verbatim>\<open>src/src/tunnel/udp.rs\<close> for the connect-udp template, with the
  route and field rules of \<^verbatim>\<open>src/src/tunnel/mod.rs\<close>. A \<^verbatim>\<open>str\<close> is its bytes. Percent-decoding is a
  library's: it is the parameter \<open>pct\<close>.
\<close>

section \<open>Ports\<close>

text \<open>\<^verbatim>\<open>str::parse::<u16>\<close> on a string of digits: \<^const>\<open>None\<close> when the value does not fit.\<close>

fun parse_digits :: "nat \<Rightarrow> bytes \<Rightarrow> nat option" where
  "parse_digits v [] = Some v"
| "parse_digits v (b # bs) =
     (let v' = v * 10 + unat (b - 0x30) in if v' < 2 ^ 16 then parse_digits v' bs else None)"

definition parse_u16 :: "bytes \<Rightarrow> u16 option" where
  "parse_u16 s = map_option of_nat (parse_digits 0 s)"

section \<open>CONNECT\<close>

definition is_port :: "bytes \<Rightarrow> bool" where
  "is_port s \<longleftrightarrow> s \<noteq> [] \<and> list_all is_ascii_digit s"

definition stray_bracket :: "bytes \<Rightarrow> bool" where
  "stray_bracket h \<longleftrightarrow> 0x5b \<in> set h \<or> 0x5d \<in> set h"

definition checked_port :: "string \<Rightarrow> string \<Rightarrow> bytes \<Rightarrow> string + u16" where
  "checked_port invalid zero p =
     (if \<not> is_port p then Inl invalid
      else and_then (ok_or (parse_u16 p) invalid) (\<lambda>p. if p = 0 then Inl zero else Inr p))"

definition split_host :: "bytes \<Rightarrow> string + bytes \<times> bytes" where
  "split_host authority =
     (case strip_prefix [0x5b] authority of
        Some rest \<Rightarrow>
          and_then (ok_or (split_once 0x5d rest) ''unterminated IPv6 literal'') (\<lambda>(host, rest).
          if host = [] then Inl ''empty host''
          else if stray_bracket host then Inl ''stray bracket in host''
          else and_then (ok_or (strip_prefix [0x3a] rest) ''missing port after IPv6 literal'') (\<lambda>port. Inr (host, port)))
      | None \<Rightarrow>
          and_then (ok_or (rsplit_once 0x3a authority) ''missing port'') (\<lambda>(host, port).
          if host = [] then Inl ''empty host''
          else if 0x3a \<in> set host then Inl ''unbracketed IPv6 literal''
          else if stray_bracket host then Inl ''stray bracket in host''
          else Inr (host, port)))"

definition split_authority :: "bytes \<Rightarrow> string + bytes \<times> u16" where
  "split_authority authority =
     (if 0x40 \<in> set authority then Inl ''userinfo is not allowed in a CONNECT authority''
      else and_then (split_host authority) (\<lambda>(host, port).
           and_then (checked_port ''invalid port'' ''port must not be zero'' port) (\<lambda>port. Inr (host, port))))"

section \<open>connect-udp\<close>

definition WELL_KNOWN_PREFIX :: bytes where
  "WELL_KNOWN_PREFIX = byte_string ''/.well-known/masque/udp/''"

definition CONNECT_UDP :: bytes where
  "CONNECT_UDP = byte_string ''connect-udp''"

definition validate :: "request \<Rightarrow> string + unit" where
  "validate req =
     (if req_scheme req = None \<or> req_scheme req = Some [] then Inl ''connect-udp requires a non-empty :scheme''
      else if fields_contains (req_fields req) (byte_string ''content-length'')
      then Inl ''content-length is forbidden on a capsule stream''
      else if fields_contains (req_fields req) (byte_string ''content-type'')
      then Inl ''content-type is forbidden on a capsule stream''
      else Inr ())"

definition unbracket :: "bytes \<Rightarrow> bytes" where
  "unbracket host =
     (case Option.bind (strip_prefix [0x5b] host) (strip_suffix [0x5d]) of
        Some literal \<Rightarrow> if literal \<noteq> [] then literal else host
      | None \<Rightarrow> host)"

definition parse_target :: "(bytes \<Rightarrow> bytes) \<Rightarrow> bytes \<Rightarrow> bytes option \<Rightarrow> string + bytes \<times> u16" where
  "parse_target pct path query =
     (if query \<noteq> None \<and> query \<noteq> Some [] then Inl ''the connect-udp template accepts no query''
      else and_then (ok_or (strip_prefix WELL_KNOWN_PREFIX path) ''path is not the connect-udp template'') (\<lambda>rest.
      let rest = (case strip_suffix [0x2f] rest of Some r \<Rightarrow> r | None \<Rightarrow> rest)
      in case split_on 0x2f rest of
           host # port # others \<Rightarrow>
             if others \<noteq> [] then Inl ''too many path segments for the connect-udp template''
             else and_then (ok_or (from_utf8 (pct host)) ''target_host is not valid UTF-8'') (\<lambda>host.
                  if host = [] then Inl ''empty target_host''
                  else let host = unbracket host
                       in if stray_bracket host then Inl ''stray bracket in host''
                          else and_then (ok_or (from_utf8 (pct port)) ''target_port is not valid UTF-8'') (\<lambda>port.
                               and_then (checked_port ''invalid target_port'' ''target_port must not be zero'' port) (\<lambda>port.
                               Inr (host, port))))
         | _ \<Rightarrow> Inl ''missing target_port''))"

section \<open>Routes\<close>

datatype route = RouteTcp | RouteConnectUdp | RouteUnsupported bytes | RouteNotConnect

definition route_of :: "request \<Rightarrow> route" where
  "route_of req =
     (if req_method req \<noteq> Connect then RouteNotConnect
      else case req_protocol req of
        None \<Rightarrow> RouteTcp
      | Some p \<Rightarrow> if p = CONNECT_UDP then RouteConnectUdp else RouteUnsupported p)"

definition CONNECTION_SPECIFIC_FIELDS :: "bytes list" where
  "CONNECTION_SPECIFIC_FIELDS = map byte_string [''proxy-connection'', ''keep-alive'', ''transfer-encoding'', ''upgrade'']"

definition connection_specific_field :: "request \<Rightarrow> bytes option" where
  "connection_specific_field req = find (fields_contains (req_fields req)) CONNECTION_SPECIFIC_FIELDS"

section \<open>What is accepted\<close>

definition digits_value :: "bytes \<Rightarrow> nat" where
  "digits_value d = foldl (\<lambda>v b. v * 10 + unat (b - 0x30)) 0 d"

lemma digits_fold_ge: "v \<le> foldl (\<lambda>v b. v * 10 + unat ((b :: byte) - 0x30)) v d"
proof (induction d arbitrary: v)
  case (Cons b d)
  from Cons.IH[of "v * 10 + unat (b - 0x30)"] show ?case by simp
qed simp

lemma parse_digits_eq:
  "v < 2 ^ 16 \<Longrightarrow> parse_digits v d =
     (let n = foldl (\<lambda>v b. v * 10 + unat (b - 0x30)) v d in if n < 2 ^ 16 then Some n else None)"
proof (induction d arbitrary: v)
  case (Cons b d)
  then show ?case
    using digits_fold_ge[of "v * 10 + unat (b - 0x30)" d] by (auto simp: Let_def)
qed simp

lemma parse_u16_iff: "parse_u16 d = Some p \<longleftrightarrow> digits_value d = unat p"
proof -
  have "(of_nat (digits_value d) :: u16) = p \<and> digits_value d < 2 ^ 16 \<longleftrightarrow> digits_value d = unat p"
    using u16_less[of p] by (auto simp: unat_of_nat)
  then show ?thesis by (auto simp: parse_u16_def parse_digits_eq digits_value_def Let_def)
qed

lemma checked_port_iff: "checked_port e z d = Inr p \<longleftrightarrow> is_port d \<and> digits_value d = unat p \<and> p \<noteq> 0"
  by (auto simp: checked_port_def question_mark_iffs parse_u16_iff split: if_splits)

lemma port_no_colon: "is_port d \<Longrightarrow> 0x3a \<notin> set d"
  by (auto simp: is_port_def list_all_iff is_ascii_digit_def)

lemma split_host_iff:
  "split_host s = Inr (h, d) \<longleftrightarrow>
     h \<noteq> [] \<and> \<not> stray_bracket h \<and> (s = 0x5b # h @ 0x5d # 0x3a # d \<or> s = h @ 0x3a # d \<and> 0x3a \<notin> set h \<and> 0x3a \<notin> set d)"
proof (cases "strip_prefix [0x5b] s")
  case None
  then have "hd s \<noteq> 0x5b" if "s \<noteq> []" using that by (cases s) (auto simp: strip_prefix_def)
  moreover have "split_host s = Inr (h, d) \<longleftrightarrow> rsplit_once 0x3a s = Some (h, d) \<and> h \<noteq> [] \<and> 0x3a \<notin> set h \<and> \<not> stray_bracket h"
    using None by (auto simp: split_host_def question_mark_iffs split: if_splits)
  ultimately show ?thesis by (auto simp: rsplit_once_iff)
next
  case (Some rest)
  then have s: "s = 0x5b # rest" by (simp add: strip_prefix_iff)
  have "split_host s = Inr (h, d) \<longleftrightarrow> (\<exists>r. split_once 0x5d rest = Some (h, r) \<and> h \<noteq> [] \<and> \<not> stray_bracket h \<and> strip_prefix [0x3a] r = Some d)"
    using Some by (auto simp: split_host_def question_mark_iffs split: if_splits)
  also have "\<dots> \<longleftrightarrow> h \<noteq> [] \<and> \<not> stray_bracket h \<and> rest = h @ 0x5d # 0x3a # d"
    by (auto simp: split_once_iff strip_prefix_iff stray_bracket_def)
  finally show ?thesis using s by (auto simp: stray_bracket_def append_eq_Cons_conv Cons_eq_append_conv)
qed

lemma digit_of_nat: "n < 10 \<Longrightarrow> is_ascii_digit (0x30 + of_nat n) \<and> unat ((0x30 + of_nat n :: byte) - 0x30) = n"
  by (auto simp: is_ascii_digit_def word_le_nat_alt unat_word_ariths unat_of_nat)

lemma decimal_digits: "is_port (decimal n) \<and> digits_value (decimal n) = n"
proof (induction n rule: decimal.induct)
  case (1 n)
  show ?case
  proof (cases "n < 10")
    case True
    then show ?thesis using digit_of_nat[of n] by (simp add: decimal.simps[of n] is_port_def digits_value_def)
  next
    case False
    then show ?thesis
      using 1 digit_of_nat[of "n mod 10"] by (simp add: decimal.simps[of n] is_port_def digits_value_def)
  qed
qed

section \<open>Properties\<close>

text \<open>
  The targets a CONNECT authority can name are exactly these: a host without brackets or colons, or a
  bracketed literal without further brackets, then a colon and a decimal port between 1 and 65535 in any
  number of digits, and no userinfo anywhere. Host and port are read off as written.
\<close>

theorem split_authority_iff:
  "split_authority s = Inr (h, p) \<longleftrightarrow>
     0x40 \<notin> set s \<and> h \<noteq> [] \<and> \<not> stray_bracket h \<and> p \<noteq> 0 \<and>
     (\<exists>d. is_port d \<and> digits_value d = unat p \<and>
        (s = [0x5b] @ h @ [0x5d, 0x3a] @ d \<or> s = h @ [0x3a] @ d \<and> 0x3a \<notin> set h))"
proof -
  have "split_authority s = Inr (h, p) \<longleftrightarrow>
      0x40 \<notin> set s \<and> (\<exists>d. split_host s = Inr (h, d) \<and> is_port d \<and> digits_value d = unat p \<and> p \<noteq> 0)"
    by (auto simp: split_authority_def and_then_Inr_iff checked_port_iff)
  then show ?thesis using port_no_colon by (auto simp: split_host_iff)
qed

text \<open>
  A connect-udp path made from the template -- for a host that is not bracketed and holds no slash, and a
  port between 1 and 65535, both left alone by percent-decoding -- names that host and port, with or
  without the closing slash and an empty query.
\<close>

theorem parse_target_roundtrip:
  assumes "h \<noteq> []" "\<not> stray_bracket h" "0x2f \<notin> set h" "utf8_valid h" "p \<noteq> 0"
    and "pct h = h" "pct (decimal (unat p)) = decimal (unat p)"
    and "q = None \<or> q = Some []" "closing = [] \<or> closing = [0x2f]"
  shows "parse_target pct (WELL_KNOWN_PREFIX @ h @ [0x2f] @ decimal (unat p) @ closing) q = Inr (h, p)"
proof -
  let ?d = "decimal (unat p)"
  have d: "is_port ?d" "digits_value ?d = unat p" using decimal_digits by auto
  then have no: "0x2f \<notin> set ?d" "?d \<noteq> []" by (auto simp: is_port_def list_all_iff is_ascii_digit_def)
  have last: "strip_suffix [0x2f] (h @ [0x2f] @ ?d) = None"
  proof (cases "strip_suffix [0x2f] (h @ [0x2f] @ ?d)")
    case (Some t)
    then have "last (h @ [0x2f] @ ?d) = 0x2f" by (simp only: strip_suffix_iff last_snoc)
    with no show ?thesis using last_in_set[of ?d] by simp
  qed
  have rest: "(case strip_suffix [0x2f] (h @ 0x2f # ?d @ closing) of Some r \<Rightarrow> r | None \<Rightarrow> h @ 0x2f # ?d @ closing) = h @ 0x2f # ?d"
    using assms(9) last strip_suffix_iff[of "[0x2f]" "h @ 0x2f # ?d @ [0x2f]" "h @ 0x2f # ?d"] by auto
  have ub: "unbracket h = h"
    using assms(2) by (auto simp: unbracket_def stray_bracket_def strip_prefix_iff split: option.splits bind_split)
  have "from_utf8 ?d = Some ?d" by (intro from_utf8_ascii decimal_ascii)
  moreover have "from_utf8 h = Some h" using assms(4) by (simp add: from_utf8_def)
  moreover have "split_on 0x2f (h @ [0x2f] @ ?d) = [h, ?d]"
    using assms(3) no(1) by (simp add: split_on_append split_on_whole)
  moreover have "strip_prefix WELL_KNOWN_PREFIX (WELL_KNOWN_PREFIX @ x) = Some x" for x by (simp add: strip_prefix_iff)
  moreover have "checked_port e z ?d = Inr p" for e z using d assms(5) by (simp add: checked_port_iff)
  ultimately show ?thesis
    using assms(1,2,6,7,8) ub by (auto simp: parse_target_def Let_def rest)
qed

text \<open>The instance's decoder: a percent sign and two hexadecimal digits stand for a byte, all else for itself.\<close>

definition hex_digit :: "byte \<Rightarrow> byte option" where
  "hex_digit b =
     (if is_ascii_digit b then Some (b - 0x30)
      else if 0x41 \<le> b \<and> b \<le> 0x46 then Some (b - 0x37)
      else if 0x61 \<le> b \<and> b \<le> 0x66 then Some (b - 0x57)
      else None)"

fun percent_decode :: "bytes \<Rightarrow> bytes" where
  "percent_decode (b # x # y # rest) =
     (case (hex_digit x, hex_digit y) of
        (Some h, Some l) \<Rightarrow>
          (if b = 0x25 then (h * 16 + l) # percent_decode rest else b # percent_decode (x # y # rest))
      | _ \<Rightarrow> b # percent_decode (x # y # rest))"
| "percent_decode bs = bs"

theorem parse_target_roundtrip_witness:
  "parse_target percent_decode (byte_string ''/.well-known/masque/udp/a.b/443/'') None
     = Inr (byte_string ''a.b'', 443)"
proof -
  have "byte_string ''/.well-known/masque/udp/a.b/443/''
      = WELL_KNOWN_PREFIX @ byte_string ''a.b'' @ [0x2f] @ decimal (unat (443 :: u16)) @ [0x2f]"
    by (simp add: WELL_KNOWN_PREFIX_def byte_string_def decimal.simps)
  moreover have "parse_target percent_decode (WELL_KNOWN_PREFIX @ byte_string ''a.b'' @ [0x2f] @ decimal (unat (443 :: u16)) @ [0x2f]) None
      = Inr (byte_string ''a.b'', 443)"
    by (rule parse_target_roundtrip)
      (simp_all add: byte_string_def stray_bracket_def decimal.simps utf8_valid_ascii hex_digit_def is_ascii_digit_def)
  ultimately show ?thesis by simp
qed

end
