(* ===== verification/Request_Handling.thy ===== *)
theory Request_Handling
  imports Tunnel_Context Targets Exchange_Safety
begin

text \<open>
  \<^verbatim>\<open>handle_request\<close> of \<^verbatim>\<open>src/src/conn.rs\<close> with what it calls up to the point where bytes flow: \<^verbatim>\<open>run\<close> of
  \<^verbatim>\<open>src/src/tunnel/tcp.rs\<close> and of \<^verbatim>\<open>src/src/tunnel/udp.rs\<close>. What the outside world answers -- the resolver,
  the operating system, the target, the client's flow control -- is the record \<open>world\<close>.
\<close>

section \<open>Reaching the target\<close>

datatype connect_outcome = Connected | ConnectFails io_error | NoAnswer

record world =
  lookup :: "bytes \<Rightarrow> u16 \<Rightarrow> resolve_failure + socket_addr list"
  holds :: "ip_addr \<Rightarrow> bool"
  connect :: "socket_addr \<Rightarrow> connect_outcome"
  open_udp :: "socket_addr \<Rightarrow> io_error option"
  connect_budget :: bool
  show_addr :: "socket_addr \<Rightarrow> bytes"
  pct :: "bytes \<Rightarrow> bytes"
  response_write :: write_outcome

text \<open>
  \<^verbatim>\<open>connect_any_with\<close>: without a budget an address that never answers is waited for, with one it is
  the end of the attempt.
\<close>

fun connect_any_with :: "(socket_addr \<Rightarrow> connect_outcome) \<Rightarrow> bool \<Rightarrow> unreachable option \<Rightarrow> socket_addr list \<Rightarrow> (unreachable + socket_addr) poll" where
  "connect_any_with con budget latest [] = Returned (Inl (case latest of None \<Rightarrow> no_addresses | Some u \<Rightarrow> u))"
| "connect_any_with con budget latest (a # as) =
     (case con a of
        Connected \<Rightarrow> Returned (Inr a)
      | ConnectFails e \<Rightarrow> connect_any_with con budget (Some \<lparr>next_hop = Some a, error = e\<rparr>) as
      | NoAnswer \<Rightarrow>
          if budget then Returned (Inl \<lparr>next_hop = Some a, error = \<lparr>kind = KindTimedOut, raw_os_error = None\<rparr>\<rparr>)
          else Waiting)"

definition connect_any :: "world \<Rightarrow> socket_addr list \<Rightarrow> (unreachable + socket_addr) poll" where
  "connect_any e as = connect_any_with (connect e) (connect_budget e) None as"

fun bind_any :: "(socket_addr \<Rightarrow> io_error option) \<Rightarrow> unreachable option \<Rightarrow> socket_addr list \<Rightarrow> unreachable + socket_addr" where
  "bind_any opn latest [] = Inl (case latest of None \<Rightarrow> no_addresses | Some u \<Rightarrow> u)"
| "bind_any opn latest (a # as) =
     (case opn a of
        None \<Rightarrow> Inr a
      | Some e \<Rightarrow> bind_any opn (Some \<lparr>next_hop = Some a, error = e\<rparr>) as)"

section \<open>Tunnels\<close>

datatype disposition =
    Unresolved stream_error
  | NoTunnel
  | ConnectionClosed
  | TcpTunnel bytes u16 socket_addr
  | UdpTunnel bytes u16 socket_addr
  | Unfinished

definition OK :: status where "OK = byte_string ''200''"
definition BAD_REQUEST :: status where "BAD_REQUEST = byte_string ''400''"
definition PROXY_AUTHENTICATION_REQUIRED :: status where "PROXY_AUTHENTICATION_REQUIRED = byte_string ''407''"
definition INTERNAL_SERVER_ERROR :: status where "INTERNAL_SERVER_ERROR = byte_string ''500''"
definition NOT_IMPLEMENTED :: status where "NOT_IMPLEMENTED = byte_string ''501''"

definition tcp_run :: "world \<Rightarrow> bytes \<Rightarrow> tunnel_context \<Rightarrow> h3_stream \<Rightarrow> tunnel_context \<times> h3_stream \<times> disposition" where
  "tcp_run e authority c st =
     (case split_authority authority of
        Inl _ \<Rightarrow> (c, refuse st BAD_REQUEST (response_write e), NoTunnel)
      | Inr (host, prt) \<Rightarrow>
          (case admit_target (holds e) prt (lookup e host prt) [] c st (response_write e) of
             (c, st, None) \<Rightarrow> (c, st, NoTunnel)
           | (c, st, Some allowed) \<Rightarrow>
               (case connect_any e allowed of
                  Returned (Inl failure) \<Rightarrow> (c, refuse_unreachable (show_addr e) st failure (response_write e), NoTunnel)
                | Returned (Inr target) \<Rightarrow>
                    (case respond st OK [] (response_write e) of (st, sent) \<Rightarrow>
                       if landed sent then (c, st, TcpTunnel host prt target) else (c, st, NoTunnel))
                | _ \<Rightarrow> (c, st, Unfinished))))"

definition capsule_fields :: fields where
  "capsule_fields = fields_append [] (byte_string ''capsule-protocol'') (byte_string ''?1'')"

text \<open>The receiver of the stream's datagrams is given back where no session begins.\<close>

definition udp_run :: "world \<Rightarrow> request \<Rightarrow> u64 \<Rightarrow> shared \<Rightarrow> tunnel_context \<Rightarrow> h3_stream \<Rightarrow> shared \<times> tunnel_context \<times> h3_stream \<times> disposition" where
  "udp_run e req stream_id sh c st =
     (case validate req of
        Inl _ \<Rightarrow> (sh, c, refuse st BAD_REQUEST (response_write e), NoTunnel)
      | Inr _ \<Rightarrow>
      case parse_target (pct e) (case req_path req of None \<Rightarrow> [] | Some p \<Rightarrow> p) (req_query req) of
        Inl _ \<Rightarrow> (sh, c, refuse st BAD_REQUEST (response_write e), NoTunnel)
      | Inr (host, prt) \<Rightarrow>
      case stream_datagrams sh stream_id of
        (sh, None) \<Rightarrow> (sh, c, refuse st INTERNAL_SERVER_ERROR (response_write e), NoTunnel)
      | (sh, Some inbound) \<Rightarrow>
      case admit_target (holds e) prt (lookup e host prt) capsule_fields c st (response_write e) of
        (c, st, None) \<Rightarrow> (drop_receiver sh inbound, c, st, NoTunnel)
      | (c, st, Some allowed) \<Rightarrow>
      case bind_any (open_udp e) None allowed of
        Inl failure \<Rightarrow> (drop_receiver sh inbound, c, refuse_unreachable (show_addr e) st failure (response_write e), NoTunnel)
      | Inr target \<Rightarrow>
          (case respond st OK capsule_fields (response_write e) of (st, sent) \<Rightarrow>
             if landed sent then (sh, c, st, UdpTunnel host prt target)
             else (drop_receiver sh inbound, c, st, NoTunnel)))"

section \<open>The whole request\<close>

text \<open>A slot given back, its drop run to the end.\<close>

definition slot_returned :: "quota \<Rightarrow> quota" where
  "slot_returned q = fst (fold perform slot_drop (q, Testing))"

definition AUTH_FAILURE_LIMIT_CODE :: code where
  "AUTH_FAILURE_LIMIT_CODE = 0x10b"

text \<open>From the request to the credentials: go on with the context, or it is over.\<close>

definition authorise :: "world \<Rightarrow> request \<Rightarrow> tunnel_context \<Rightarrow> h3_stream \<Rightarrow> tunnel_context \<times> h3_stream \<times> disposition option" where
  "authorise e req c st =
     (if connection_specific_field req \<noteq> None then (c, refuse st BAD_REQUEST (response_write e), Some NoTunnel)
      else if credential_values (req_fields req) > MAX_CREDENTIAL_VALUES
      then (c, refuse st BAD_REQUEST (response_write e), Some NoTunnel)
      else case authenticate (auth c) (req_fields req) of
        Inr user \<Rightarrow> (mark_authenticated c user, st, None)
      | Inl ds \<Rightarrow>
          (case record_claims c (claims ds) False of (c, spent) \<Rightarrow>
             if spent then (c\<lparr>quic_closes := quic_closes c @ [AUTH_FAILURE_LIMIT_CODE]\<rparr>, st, Some ConnectionClosed)
             else (c, refuse_with st PROXY_AUTHENTICATION_REQUIRED challenge_fields (response_write e), Some NoTunnel)))"

text \<open>With a slot in hand, the route the request takes.\<close>

definition run_route :: "world \<Rightarrow> request \<Rightarrow> u64 \<Rightarrow> shared \<Rightarrow> tunnel_context \<Rightarrow> h3_stream \<Rightarrow> shared \<times> tunnel_context \<times> h3_stream \<times> disposition" where
  "run_route e req stream_id sh c st =
     (case route_of req of
        RouteTcp \<Rightarrow>
          (case req_authority req of
             Some authority \<Rightarrow> (sh, tcp_run e authority c st)
           | None \<Rightarrow> (sh, c, refuse st BAD_REQUEST (response_write e), NoTunnel))
      | RouteConnectUdp \<Rightarrow> udp_run e req stream_id sh c st
      | RouteUnsupported _ \<Rightarrow> (sh, c, refuse st NOT_IMPLEMENTED (response_write e), NoTunnel)
      | RouteNotConnect \<Rightarrow> (sh, c, refuse st NOT_IMPLEMENTED (response_write e), NoTunnel))"

fun opened :: "disposition \<Rightarrow> bool" where
  "opened (TcpTunnel _ _ _) = True"
| "opened (UdpTunnel _ _ _) = True"
| "opened Unfinished = True"
| "opened _ = False"

definition serve_request :: "world \<Rightarrow> request \<Rightarrow> u64 \<Rightarrow> shared \<Rightarrow> tunnel_context \<Rightarrow> h3_stream \<Rightarrow> shared \<times> tunnel_context \<times> h3_stream \<times> disposition" where
  "serve_request e req stream_id sh c st =
     (case authorise e req c st of
        (c, st, Some d) \<Rightarrow> (sh, c, st, d)
      | (c, st, None) \<Rightarrow>
          (case acquire (ctx_quota c) of
             None \<Rightarrow> (sh, c\<lparr>limit_refusals := fst (sampler_record (limit_refusals c))\<rparr>,
                      refuse_because st ConnectionLimitReached (response_write e), NoTunnel)
           | Some q \<Rightarrow>
               (case run_route e req stream_id sh (c\<lparr>ctx_quota := q, tunnels := tunnels c + 1\<rparr>) st of
                  (sh, c, st, d) \<Rightarrow>
                    (sh, if opened d then c else c\<lparr>ctx_quota := slot_returned (ctx_quota c)\<rparr>, st, d))))"

definition handle_request :: "world \<Rightarrow> u64 \<Rightarrow> shared \<times> budget \<Rightarrow> tunnel_context \<Rightarrow> read list \<Rightarrow>
    (shared \<times> budget) \<times> tunnel_context \<times> h3_stream \<times> read list \<times> disposition" where
  "handle_request e stream_id g c reads =
     (case resolve g resolver_new reads (response_write e) of
        ((sh, held), st, reads, Returned (Inr req)) \<Rightarrow>
          (case serve_request e req stream_id sh c st of (sh, c, st, d) \<Rightarrow> ((sh, held), c, st, reads, d))
      | (g, st, reads, Returned (Inl err)) \<Rightarrow> (g, c, st, reads, Unresolved err)
      | (g, st, reads, _) \<Rightarrow> (g, c, st, reads, Unfinished))"

end
