(* ===== verification/Request_Safety.thy ===== *)
theory Request_Safety
  imports Request_Handling
begin

text \<open>
  What a request can bring about: a tunnel only for the authorised and only to permitted addresses, nothing
  at all beyond an answer for anyone else, one answer for every request, and every slot given back.
\<close>

section \<open>Steps of the handler\<close>

lemma respond_stops [simp]: "stops (fst (respond st sc fs w)) = stops st"
  by (simp add: respond_def split: prod.splits)

lemma connect_any_member: "connect_any_with con b l as = Returned (Inr t) \<Longrightarrow> t \<in> set as"
  by (induction con b l as rule: connect_any_with.induct) (auto split: connect_outcome.splits if_splits)

lemma bind_any_member: "bind_any opn l as = Inr t \<Longrightarrow> t \<in> set as"
  by (induction opn l as rule: bind_any.induct) (auto split: option.splits)

text \<open>An address the policy of the connection and the host's own interfaces leave open to a target.\<close>

definition permitted :: "world \<Rightarrow> tunnel_context \<Rightarrow> bytes \<Rightarrow> u16 \<Rightarrow> socket_addr \<Rightarrow> bool" where
  "permitted e c host prt t \<longleftrightarrow>
     allows_port (ctx_policy c) prt \<and> (\<exists>resolved. lookup e host prt = Inr resolved \<and> t \<in> set resolved)
     \<and> allows_address (ctx_policy c) (ip t)
     \<and> (ip_is_loopback (canonical (ip t)) \<or> \<not> holds e (canonical (ip t)))"

lemma admit_permitted:
  assumes "admit_target (holds e) prt (lookup e host prt) fs c st w = (c', st', Some as)" "t \<in> set as"
  shows "permitted e c host prt t \<and> c' = c \<and> st' = st"
  using admit_target_some[OF assms(1)] assms(2) by (auto simp: permitted_def)

lemma admit_none:
  assumes "admit_target hl prt lk fs c st w = (c', st', None)"
  shows "ctx_quota c' = ctx_quota c \<and> quic_closes c' = quic_closes c \<and> failures c' = failures c
    \<and> ((\<exists>x. st' = refuse_because st x w) \<or> st' = accept_then_close st fs w)"
  using assms by (auto simp: admit_target_def Let_def split: if_splits sum.splits)

text \<open>How a request without a tunnel has been answered.\<close>

definition answered :: "h3_stream \<Rightarrow> write_outcome \<Rightarrow> h3_stream \<Rightarrow> bool" where
  "answered st w st' \<longleftrightarrow>
     (\<exists>sc fs. st' = refuse_with st sc fs w
        \<and> sc \<in> byte_string ` {''400'', ''403'', ''407'', ''500'', ''501'', ''502'', ''503'', ''504''})
     \<or> (\<exists>fs. st' = accept_then_close st fs w)
     \<or> (\<exists>fs. st' = fst (respond st OK fs w) \<and> \<not> landed (snd (respond st OK fs w)))"

lemma answered_refuse:
  "answered st w (refuse st BAD_REQUEST w)" "answered st w (refuse st INTERNAL_SERVER_ERROR w)"
  "answered st w (refuse st NOT_IMPLEMENTED w)" "answered st w (refuse_with st PROXY_AUTHENTICATION_REQUIRED fs w)"
  by (auto simp: answered_def refuse_def BAD_REQUEST_def INTERNAL_SERVER_ERROR_def NOT_IMPLEMENTED_def PROXY_AUTHENTICATION_REQUIRED_def)

lemma answered_because: "answered st w (refuse_because st x w)"
  by (cases x) (auto simp: answered_def refuse_because_def)

lemma answered_unreachable: "answered st w (refuse_unreachable sa st f w)"
  by (cases "from_connect_error (error f)") (auto simp: answered_def refuse_unreachable_def Let_def)

lemma answered_close: "answered st w (accept_then_close st fs w)"
  by (auto simp: answered_def)

lemma answered_unlanded: "respond st OK fs w = (st', r) \<Longrightarrow> \<not> landed r \<Longrightarrow> answered st w st'"
  by (auto simp: answered_def intro!: exI[of _ fs])

lemmas answers = answered_refuse answered_because answered_unreachable answered_close

text \<open>What a route leaves behind: the answer, or the tunnel with the \<^verbatim>\<open>200\<close> that announced it.\<close>

definition route_outcome :: "world \<Rightarrow> tunnel_context \<Rightarrow> h3_stream \<Rightarrow> tunnel_context \<Rightarrow> h3_stream \<Rightarrow> disposition \<Rightarrow> bool" where
  "route_outcome e c st c' st' d \<longleftrightarrow>
     ctx_quota c' = ctx_quota c \<and> quic_closes c' = quic_closes c \<and> failures c' = failures c \<and>
     (case d of
        NoTunnel \<Rightarrow> answered st (response_write e) st'
      | TcpTunnel host prt t \<Rightarrow> c' = c \<and> permitted e c host prt t \<and> respond st OK [] (response_write e) = (st', Sent)
      | UdpTunnel host prt t \<Rightarrow> c' = c \<and> permitted e c host prt t \<and> respond st OK capsule_fields (response_write e) = (st', Sent)
      | Unfinished \<Rightarrow> c' = c \<and> st' = st
      | _ \<Rightarrow> False)"

lemma tcp_run_outcome: "case tcp_run e authority c st of (c', st', d) \<Rightarrow> route_outcome e c st c' st' d"
proof (cases "split_authority authority")
  case (Inl x)
  then show ?thesis by (simp add: tcp_run_def route_outcome_def answers)
next
  case (Inr hp)
  obtain host prt where hp: "hp = (host, prt)" by (cases hp)
  obtain c1 st1 r where a: "admit_target (holds e) prt (lookup e host prt) [] c st (response_write e) = (c1, st1, r)"
    by (metis prod.exhaust)
  show ?thesis
  proof (cases r)
    case None
    with a admit_none[of "holds e" prt "lookup e host prt" "[]" c st "response_write e" c1 st1] Inr hp show ?thesis
      by (auto simp: tcp_run_def route_outcome_def answers)
  next
    case (Some as)
    note ok = admit_permitted[OF a[unfolded Some]]
    have c1: "c1 = c" "st1 = st" using admit_target_some[OF a[unfolded Some]] by auto
    show ?thesis
    proof (cases "connect_any e as")
      case (Returned x)
      then show ?thesis
        using Inr hp a Some c1 ok connect_any_member[of "connect e" "connect_budget e" None as]
        by (cases x) (auto simp: tcp_run_def route_outcome_def answers landed_def connect_any_def
            split: prod.splits intro: answered_unlanded)
    qed (use Inr hp a Some c1 in \<open>simp_all add: tcp_run_def route_outcome_def\<close>)
  qed
qed

lemma udp_run_outcome: "case udp_run e req i sh c st of (sh', c', st', d) \<Rightarrow> route_outcome e c st c' st' d"
proof (cases "validate req")
  case (Inl x)
  then show ?thesis by (simp add: udp_run_def route_outcome_def answers)
next
  case v: (Inr u)
  show ?thesis
  proof (cases "parse_target (pct e) (case req_path req of None \<Rightarrow> [] | Some p \<Rightarrow> p) (req_query req)")
    case (Inl x)
    with v show ?thesis by (simp add: udp_run_def route_outcome_def answers)
  next
    case (Inr hp)
    obtain host prt where hp: "hp = (host, prt)" by (cases hp)
    obtain c1 st1 r where a: "admit_target (holds e) prt (lookup e host prt) capsule_fields c st (response_write e) = (c1, st1, r)"
      by (metis prod.exhaust)
    show ?thesis
    proof (cases r)
      case None
      with a admit_none[of "holds e" prt "lookup e host prt" capsule_fields c st "response_write e" c1 st1] v Inr hp show ?thesis
        by (auto simp: udp_run_def route_outcome_def answers split: prod.splits option.splits)
    next
      case (Some as)
      note ok = admit_permitted[OF a[unfolded Some]]
      have c1: "c1 = c" "st1 = st" using admit_target_some[OF a[unfolded Some]] by auto
      show ?thesis
        using v Inr hp a Some c1 ok bind_any_member[of "open_udp e" None as]
        by (auto simp: udp_run_def route_outcome_def answers landed_def
            split: prod.splits option.splits sum.splits intro: answered_unlanded)
    qed
  qed
qed

lemma run_route_outcome: "case run_route e req i sh c st of (sh', c', st', d) \<Rightarrow> route_outcome e c st c' st' d"
  using tcp_run_outcome[where e = e and c = c and st = st] udp_run_outcome[where e = e and req = req and i = i and sh = sh and c = c and st = st]
  by (auto simp: run_route_def route_outcome_def answers split: route.splits option.splits prod.splits)

section \<open>Authorisation\<close>

lemma record_claims_failures: "\<exists>f. fst (record_claims c cs sp) = c\<lparr>failures := f\<rparr>"
proof (induction cs arbitrary: c sp)
  case Nil
  show ?case by (rule exI[of _ "failures c"]) simp
next
  case (Cons x cs)
  obtain f where f: "fst (record_auth_failure c x) = c\<lparr>failures := f\<rparr>" by (auto simp: record_auth_failure_def Let_def)
  then have "record_claims c (x # cs) sp = record_claims (c\<lparr>failures := f\<rparr>) cs (sp \<or> snd (record_auth_failure c x))"
    by (cases "record_auth_failure c x") simp
  then show ?case using Cons[of "c\<lparr>failures := f\<rparr>" "sp \<or> snd (record_auth_failure c x)"] by auto
qed

definition authorised :: "tunnel_context \<Rightarrow> request \<Rightarrow> bool" where
  "authorised c req \<longleftrightarrow> auth c = [] \<or>
     (\<exists>v x. v \<in> set (credentials (req_fields req)) \<and> x \<in> set (auth c) \<and> presents v (user_name x) (user_password x))"

lemma authenticate_authorised: "authenticate (auth c) (req_fields req) = Inr u \<Longrightarrow> authorised c req"
  by (auto simp: authenticate_def authorised_def is_disabled_def check_iff split: if_splits dest!: authenticate_loop_Inr) blast

lemma authorise_none:
  assumes "authorise e req c st = (c', st', None)"
  shows "st' = st \<and> authorised c req \<and> gate c' \<and> ctx_quota c' = ctx_quota c \<and> ctx_policy c' = ctx_policy c
    \<and> quic_closes c' = quic_closes c"
  using assms authenticate_authorised
  by (auto simp: authorise_def mark_authenticated_def gate_mark_def Let_def split: if_splits sum.splits prod.splits option.splits)

lemma authorise_some:
  assumes "authorise e req c st = (c', st', Some d)"
  shows "\<exists>f. c' = (if d = ConnectionClosed then c\<lparr>failures := f, quic_closes := quic_closes c @ [AUTH_FAILURE_LIMIT_CODE]\<rparr>
      else c\<lparr>failures := f\<rparr>)"
    and "d = NoTunnel \<and> answered st (response_write e) st' \<or> d = ConnectionClosed \<and> st' = st"
proof -
  obtain f where "\<And>cs sp c1 s. record_claims c cs False = (c1, s) \<Longrightarrow> \<exists>f. c1 = c\<lparr>failures := f\<rparr>"
    using record_claims_failures[of c _ False] by (metis fst_conv)
  with assms show "\<exists>f. c' = (if d = ConnectionClosed then c\<lparr>failures := f, quic_closes := quic_closes c @ [AUTH_FAILURE_LIMIT_CODE]\<rparr>
      else c\<lparr>failures := f\<rparr>)"
    by (fastforce simp: authorise_def split: if_splits sum.splits prod.splits intro: exI[of _ "failures c"])
  show "d = NoTunnel \<and> answered st (response_write e) st' \<or> d = ConnectionClosed \<and> st' = st"
    using assms by (auto simp: authorise_def answers split: if_splits sum.splits prod.splits)
qed

text \<open>
  The failure counters after a request, bucket by bucket: a request that is turned away before its
  credentials are tried leaves them alone; one that is admitted clears the bucket of failures without a
  name and, under a name, that user's own; and each value of one that is refused counts one failure, in
  the bucket of the user it claimed, of unknown users, or of no user, up to the largest number there is.
\<close>

definition failures_accounted :: "tunnel_context \<Rightarrow> request \<Rightarrow> auth_failures \<Rightarrow> bytes \<Rightarrow> bool" where
  "failures_accounted c req f' u \<longleftrightarrow>
     (let f = failures c; most = 2 ^ 32 - 1
      in if connection_specific_field req \<noteq> None \<or> credential_values (req_fields req) > MAX_CREDENTIAL_VALUES then f' = f
         else case authenticate (auth c) (req_fields req) of
           Inr who \<Rightarrow> anonymous f' = 0 \<and> unconfigured f' = unconfigured f
             \<and> bucket (configured f') u = (if who = Some u then 0 else bucket (configured f) u)
         | Inl ds \<Rightarrow>
             unat (anonymous f') = min (unat (anonymous f) + count_list (claims ds) None) most
             \<and> unat (unconfigured f')
                 = min (unat (unconfigured f) + length (filter (\<lambda>x. \<exists>v. x = Some v \<and> \<not> is_configured (auth c) v) (claims ds))) most
             \<and> bucket (configured f') u
                 = (if is_configured (auth c) u then min (bucket (configured f) u + count_list (claims ds) (Some u)) most
                    else bucket (configured f) u))"

lemma bucket_bump_saturated:
  "bucket (bump_bucket u m) v = (if v = u then min (bucket m v + 1) (2 ^ 32 - 1) else bucket m v)"
proof (induction m)
  case Nil
  then show ?case by (simp add: bucket_def unat_saturating_add)
next
  case (Cons x m)
  obtain w n where x: "x = (w, n)" by (cases x)
  have "bucket ((w, k) # l) v = (if v = w then unat k else bucket l v)" for k l by (simp add: bucket_def)
  then show ?case using Cons x by (auto simp: unat_saturating_add)
qed

lemma u32_bound: "unat (n :: u32) \<le> 2 ^ 32 - 1"
proof -
  have "unat n < 2 ^ LENGTH(32)" by (rule unsigned_less)
  then show ?thesis by simp
qed

lemma bucket_bound: "bucket m u \<le> 2 ^ 32 - 1"
  using u32_bound by (simp add: bucket_def split: option.split)

lemma record_claims_buckets:
  "let f = failures c; f' = failures (fst (record_claims c cs sp)); most = 2 ^ 32 - 1
   in unat (anonymous f') = min (unat (anonymous f) + count_list cs None) most
    \<and> unat (unconfigured f') = min (unat (unconfigured f) + length (filter (\<lambda>x. \<exists>v. x = Some v \<and> \<not> is_configured (auth c) v) cs)) most
    \<and> bucket (configured f') u
        = (if is_configured (auth c) u then min (bucket (configured f) u + count_list cs (Some u)) most else bucket (configured f) u)"
proof (induction cs arbitrary: c sp)
  case Nil
  show ?case using bucket_bound[of "configured (failures c)" u] u32_bound by (simp add: Let_def min_def)
next
  case (Cons x cs)
  let ?c = "fst (record_auth_failure c x)"
  have step: "record_claims c (x # cs) sp = record_claims ?c cs (sp \<or> snd (record_auth_failure c x))"
    by (simp split: prod.split)
  have "auth ?c = auth c" by simp
  with Cons.IH[of ?c "sp \<or> snd (record_auth_failure c x)"] show ?case
    unfolding step Let_def
    by (cases x) (auto simp: record_auth_failure_def Let_def unat_saturating_add bucket_bump_saturated)
qed

lemma authorise_failures:
  assumes "authorise e req c st = (c', st', r)"
  shows "failures_accounted c req (failures c') u"
proof (cases "connection_specific_field req \<noteq> None \<or> credential_values (req_fields req) > MAX_CREDENTIAL_VALUES")
  case True
  then have "c' = c" using assms by (auto simp: authorise_def split: if_splits)
  with True show ?thesis by (simp add: failures_accounted_def)
next
  case False
  show ?thesis
  proof (cases "authenticate (auth c) (req_fields req)")
    case (Inl ds)
    with False assms have "failures c' = failures (fst (record_claims c (claims ds) False))"
      by (auto simp: authorise_def split: prod.splits if_splits)
    with False Inl record_claims_buckets[of c "claims ds" False u] show ?thesis
      by (simp add: failures_accounted_def Let_def)
  next
    case (Inr who)
    with False assms have "c' = mark_authenticated c who" by (simp add: authorise_def)
    with False Inr show ?thesis
      by (cases who) (auto simp: failures_accounted_def mark_authenticated_def Let_def bucket_remove split: prod.splits)
  qed
qed

lemma slot_returned_eq: "slot_returned q = q\<lparr>permits := permits q + 1, notified := True\<rparr>"
  by (simp add: slot_returned_def slot_drop_def)

section \<open>An example\<close>

definition sample_context :: tunnel_context where
  "sample_context = context_new (sample_settings\<lparr>set_users := [\<lparr>user_name = byte_string ''a'', user_password = byte_string ''b''\<rparr>]\<rparr>) True False"

definition sample_world :: world where
  "sample_world = \<lparr>lookup = (\<lambda>h p. Inr [\<lparr>ip = V4 0x08080808, port = p\<rparr>]), holds = (\<lambda>a. False), connect = (\<lambda>a. Connected),
     open_udp = (\<lambda>a. None), connect_budget = True, show_addr = (\<lambda>a. []), pct = percent_decode, response_write = Taken\<rparr>"

definition sample_connect :: "fields \<Rightarrow> request" where
  "sample_connect fs = (request_new Connect)\<lparr>req_authority := Some (byte_string ''a:443''), req_fields := fs\<rparr>"

lemma response_200: "response_block OK [] = [0, 0, 0xd9]"
  by (simp add: response_block_def qpack_encode_def find_static_def STATIC_TABLE_def STATIC_TEXT_def OK_def put_int_def
      put_string_def byte_string_def Let_def)

lemma respond_200: "respond st OK [] Taken = (st\<lparr>send := send st @ [Written (response_bytes OK [])]\<rparr>, Sent)"
  by (simp add: respond_def respond_within_def respond_with_eq response_200 VARINT_MAX_eq)

lemma sample_authority: "split_authority (byte_string ''a:443'') = Inr (byte_string ''a'', 443)"
  by (simp add: split_authority_def split_host_def strip_prefix_def rsplit_once_def split_once_def stray_bracket_def
      checked_port_def is_port_def parse_u16_def byte_string_def is_ascii_digit_def)

lemma sample_tunnel:
  "snd (snd (snd (serve_request sample_world (sample_connect [(byte_string ''proxy-authorization'', byte_string ''Basic YTpi'')])
     0 shared_default sample_context st))) = TcpTunnel (byte_string ''a'') 443 \<lparr>ip = V4 0x08080808, port = 443\<rparr>"
proof -
  let ?fs = "[(byte_string ''proxy-authorization'', byte_string ''Basic YTpi'')]"
  have "connection_specific_field (sample_connect ?fs) = None" "credential_values ?fs \<le> MAX_CREDENTIAL_VALUES"
    "authenticate [\<lparr>user_name = byte_string ''a'', user_password = byte_string ''b''\<rparr>] ?fs = Inr (Some (byte_string ''a''))"
    "allows_address \<lparr>allow_private_networks = False, denied_ports = [25]\<rparr> (V4 0x08080808)"
    by code_simp+
  moreover have "admit_target (\<lambda>a. False) 443 (Inr [\<lparr>ip = V4 0x08080808, port = 443\<rparr>]) [] c st w = (c, st, Some [\<lparr>ip = V4 0x08080808, port = 443\<rparr>])"
    if "ctx_policy c = \<lparr>allow_private_networks = False, denied_ports = [25]\<rparr>" "ip_family c = PreferIpv4" for c st w
    using that \<open>allows_address _ _\<close>
    by (simp add: admit_target_def allows_port_def prefer_family_def allowed_addresses_def is_the_proxys_own_def Let_def)
  ultimately show ?thesis
    by (simp add: serve_request_def authorise_def sample_context_def context_new_def Let_def sample_settings_def
        mark_authenticated_def gate_mark_def acquire_def quota_new_def run_route_def route_of_def sample_connect_def request_new_def
        tcp_run_def sample_authority sample_world_def connect_any_def respond_200 landed_def)
qed

text \<open>The fields of the answer that announces a tunnel.\<close>

fun tunnel_fields :: "disposition \<Rightarrow> fields" where
  "tunnel_fields (UdpTunnel _ _ _) = capsule_fields"
| "tunnel_fields _ = []"

lemma tunnel_facts:
  assumes "serve_request e req i sh c st = (sh', c', st', d)" "d = TcpTunnel host prt t \<or> d = UdpTunnel host prt t"
  shows "authorised c req \<and> req_method req = Connect \<and> permitted e c host prt t
    \<and> 0 < permits (ctx_quota c) \<and> permits (ctx_quota c') = permits (ctx_quota c) - 1 \<and> gate c'
    \<and> respond st OK (tunnel_fields d) (response_write e) = (st', Sent)"
proof -
  obtain c1 st1 r where a: "authorise e req c st = (c1, st1, r)" by (metis prod.exhaust)
  have r: "r = None" using assms a authorise_some(2)[of e req c st c1 st1] by (cases r) (auto simp: serve_request_def)
  note au = authorise_none[OF a[unfolded r]]
  obtain q where q: "acquire (ctx_quota c1) = Some q" using assms a r by (auto simp: serve_request_def split: option.splits)
  obtain c2 where o: "run_route e req i sh (c1\<lparr>ctx_quota := q, tunnels := tunnels c1 + 1\<rparr>) st1 = (sh', c2, st', d)" "c' = c2"
    using assms a r q by (auto simp: serve_request_def split: prod.splits)
  have out: "route_outcome e (c1\<lparr>ctx_quota := q, tunnels := tunnels c1 + 1\<rparr>) st1 c2 st' d"
    using run_route_outcome[where e = e and req = req and i = i and sh = sh and c = "c1\<lparr>ctx_quota := q, tunnels := tunnels c1 + 1\<rparr>" and st = st1] o by simp
  have "req_method req = Connect"
    using o(1) assms(2) by (auto simp: run_route_def route_of_def split: if_splits option.splits)
  moreover have "c2 = c1\<lparr>ctx_quota := q, tunnels := tunnels c1 + 1\<rparr>" "respond st1 OK (tunnel_fields d) (response_write e) = (st', Sent)"
    "permitted e (c1\<lparr>ctx_quota := q, tunnels := tunnels c1 + 1\<rparr>) host prt t"
    using out assms(2) by (auto simp: route_outcome_def)
  moreover have "0 < permits (ctx_quota c)" "permits q = permits (ctx_quota c) - 1"
    using q au by (auto simp: acquire_def split: if_splits)
  ultimately show ?thesis using au o(2) by (simp add: permitted_def)
qed

lemma respond_sent:
  assumes "respond st OK (tunnel_fields d) w = (st', Sent)"
  shows "send st' = send st @ [Written (response_bytes OK (tunnel_fields d))] \<and> stops st' = stops st"
proof -
  let ?fs = "tunnel_fields d"
  have "sum_list (map (field_size \<circ> as_field) ((byte_string '':status'', OK) # ?fs)) \<le> 200"
    by (cases d) (simp_all add: as_field_def field_size_def FIELD_OVERHEAD_def capsule_fields_def fields_append_def OK_def byte_string_def)
  then have "length (response_block OK ?fs) \<le> unat VARINT_MAX"
    using qpack_encode_length[of "(byte_string '':status'', OK) # ?fs"] by (simp add: response_block_def VARINT_MAX_eq)
  then show ?thesis using assms by (cases w) (auto simp: respond_def respond_within_def respond_with_eq)
qed

text \<open>The host and port of a tunnel are those the request asked for.\<close>

fun asks_for :: "world \<Rightarrow> request \<Rightarrow> disposition \<Rightarrow> bool" where
  "asks_for e req (TcpTunnel host prt _) \<longleftrightarrow> (\<exists>a. req_authority req = Some a \<and> split_authority a = Inr (host, prt))"
| "asks_for e req (UdpTunnel host prt _) \<longleftrightarrow>
     parse_target (pct e) (case req_path req of None \<Rightarrow> [] | Some p \<Rightarrow> p) (req_query req) = Inr (host, prt)"
| "asks_for e req _ \<longleftrightarrow> True"

lemma run_route_target:
  assumes "run_route e req i sh c st = (sh', c', st', d)"
  shows "asks_for e req d"
proof -
  have tcp: "asks_for e req d1" if "tcp_run e a c st = (c1, st1, d1)" "req_authority req = Some a" for a c1 st1 d1
    using that by (auto simp: tcp_run_def split: sum.splits prod.splits option.splits poll.splits if_splits)
  have udp: "asks_for e req d1" if "udp_run e req i sh c st = (sh1, c1, st1, d1)" for sh1 c1 st1 d1
    using that by (auto simp: udp_run_def split: sum.splits prod.splits option.splits if_splits)
  show ?thesis using assms tcp udp by (auto simp: run_route_def split: route.splits option.splits)
qed

lemma tunnel_target:
  assumes "serve_request e req i sh c st = (sh', c', st', d)"
  shows "asks_for e req d"
proof -
  obtain c1 st1 r where a: "authorise e req c st = (c1, st1, r)" by (metis prod.exhaust)
  show ?thesis
    using assms a authorise_some(2)[of e req c st c1 st1] run_route_target[of e req i sh]
    by (cases r) (auto simp: serve_request_def split: option.splits prod.splits)
qed

lemma handle_request_tunnel:
  assumes "handle_request e i (sh, used) c reads = (g', c', st', reads', d)" "d = TcpTunnel host prt t \<or> d = UdpTunnel host prt t"
  shows "\<exists>req sh1 st sh' reads1. resolve (sh, used) resolver_new reads (response_write e) = (sh1, st, reads1, Returned (Inr req))
    \<and> send st = [] \<and> stops st = [] \<and> serve_request e req i (fst sh1) c st = (sh', c', st', d)"
proof -
  obtain g1 st reads1 r where r: "resolve (sh, used) resolver_new reads (response_write e) = (g1, st, reads1, r)"
    by (cases "resolve (sh, used) resolver_new reads (response_write e)")
  obtain sh1 held1 where g1: "g1 = (sh1, held1)" by (cases g1)
  from assms r g1 obtain req where req: "r = Returned (Inr req)"
    by (auto simp: handle_request_def split: poll.splits sum.splits)
  moreover have "send st = [] \<and> stops st = []"
    using r req by (auto simp: resolve_def resolver_new_def Let_def split: prod.splits poll.splits sum.splits option.splits if_splits)
  moreover obtain sh' c1 st1 d1 where "serve_request e req i sh1 c st = (sh', c1, st1, d1)"
    by (cases "serve_request e req i sh1 c st")
  ultimately show ?thesis using assms(1) r g1 by (auto simp: handle_request_def)
qed

text \<open>The example from the bytes of its stream.\<close>

definition sample_section :: "(bytes \<times> bytes) list" where
  "sample_section = [(byte_string '':method'', byte_string ''CONNECT''), (byte_string '':authority'', byte_string ''a:443''),
     (byte_string ''proxy-authorization'', byte_string ''Basic YTpi'')]"

lemma sample_section_request:
  "build_request (map as_field sample_section)
   = Inr (sample_connect [(byte_string ''proxy-authorization'', byte_string ''Basic YTpi'')])"
  by code_simp

lemma sample_request_handled:
  "\<exists>g' c' st' reads'. handle_request sample_world 0 (shared_default, 0) sample_context
      [Chunk (wire_frame_bytes (HEADERS, qpack_encode sample_section))]
    = (g', c', st', reads', TcpTunnel (byte_string ''a'') 443 \<lparr>ip = V4 0x08080808, port = 443\<rparr>)"
proof -
  let ?req = "sample_connect [(byte_string ''proxy-authorization'', byte_string ''Basic YTpi'')]"
  let ?reads = "[Chunk (wire_frame_bytes (HEADERS, qpack_encode sample_section))]"
  have "sum_list (map (field_size \<circ> as_field) sample_section) = 154"
    by (simp add: sample_section_def as_field_def field_size_def FIELD_OVERHEAD_def byte_string_def)
  with qpack_encode_length[of sample_section] have "length (qpack_encode sample_section) \<le> unat MAX_BUFFERED_FRAME"
    "sum_list (map (field_size \<circ> as_field) sample_section) \<le> unat MAX_FIELD_SECTION_SIZE"
    "unat MAX_BUFFERED_FRAME \<le> HEADERS_BUFFER_BUDGET"
    by (simp_all add: MAX_BUFFERED_FRAME_def MAX_FIELD_SECTION_SIZE_def HEADERS_BUFFER_BUDGET_def)
  with request_received[of "[wire_frame_bytes (HEADERS, qpack_encode sample_section)]" "[]" sample_section "[]" 0 shared_default "[]" Taken]
    sample_section_request
  obtain used st reads' where r: "resolve (shared_default, 0) resolver_new ?reads Taken
      = ((shared_default, used), st, reads', Returned (Inr ?req))"
    by (auto split: prod.splits)
  obtain sh' c' st' d where "serve_request sample_world ?req 0 shared_default sample_context st = (sh', c', st', d)"
    by (cases "serve_request sample_world ?req 0 shared_default sample_context st")
  with sample_tunnel[of st] r show ?thesis by (simp add: handle_request_def sample_world_def)
qed

section \<open>Properties\<close>

text \<open>
  C1. A tunnel is only ever opened for a well-formed request that is authorised. Whatever bytes a request
  stream delivers, if they end in a tunnel, the first frame's field section decodes to a well-formed CONNECT
  request that presents the credentials of a configured user, unless there are no users; the tunnel leads to
  the host and port this request asks for, on an allowed port, at an address that the lookup of that
  host returned, that the policy allows and that is not the proxy's own. It takes one of the free slots, and the
  client has been sent the 200 and nothing else.
\<close>

theorem tunnel_authorised:
  assumes "handle_request e i (sh, used) c reads = (g', c', st', reads', d)"
    and "d = TcpTunnel host prt t \<or> d = UdpTunnel host prt t"
  shows "\<exists>block sect req. case_prod block_of (stream_run (frame_reader_new Request, used) reads) = Returned (Inr block)
    \<and> qpack_decode block (unat MAX_FIELD_SECTION_SIZE) = Inr sect \<and> well_formed_request sect req
    \<and> req_method req = Connect \<and> authorised c req \<and> asks_for e req d \<and> permitted e c host prt t
    \<and> 0 < permits (ctx_quota c) \<and> permits (ctx_quota c') = permits (ctx_quota c) - 1 \<and> gate c'
    \<and> send st' = [Written (response_bytes OK (tunnel_fields d))] \<and> stops st' = []"
proof -
  from handle_request_tunnel[OF assms] obtain req sh1 st sh' reads1 where
    res: "resolve (sh, used) resolver_new reads (response_write e) = (sh1, st, reads1, Returned (Inr req))"
    and st: "send st = []" "stops st = []" and srv: "serve_request e req i (fst sh1) c st = (sh', c', st', d)" by blast
  obtain block sect where "case_prod block_of (stream_run (frame_reader_new Request, used) reads) = Returned (Inr block)"
    "qpack_decode block (unat MAX_FIELD_SECTION_SIZE) = Inr sect" "well_formed_request sect req"
    by (rule resolved_request[OF res])
  moreover note tunnel_facts[OF srv assms(2)] tunnel_target[OF srv]
  moreover from this have "send st' = [Written (response_bytes OK (tunnel_fields d))] \<and> stops st' = []"
    using respond_sent[of st d "response_write e" st'] st by simp
  ultimately show ?thesis by blast
qed

theorem tunnel_authorised_witness:
  "\<exists>sect req. well_formed_request sect req \<and> authorised sample_context req \<and> req_authority req \<noteq> None
   \<and> permitted sample_world sample_context (byte_string ''a'') 443 \<lparr>ip = V4 0x08080808, port = 443\<rparr>
   \<and> 0 < permits (ctx_quota sample_context)"
proof -
  obtain g' c' st' reads' where "handle_request sample_world 0 (shared_default, 0) sample_context
      [Chunk (wire_frame_bytes (HEADERS, qpack_encode sample_section))]
    = (g', c', st', reads', TcpTunnel (byte_string ''a'') 443 \<lparr>ip = V4 0x08080808, port = 443\<rparr>)"
    using sample_request_handled by blast
  from tunnel_authorised[OF this, of "byte_string ''a''" 443 "\<lparr>ip = V4 0x08080808, port = 443\<rparr>"] show ?thesis by auto
qed

text \<open>
  C2. Who is not authorised reaches nothing: whatever the resolver, the network and the host would have
  answered, the same happens. No lookup decides anything, no datagrams are claimed, no slot and no
  budget is touched; the request is answered once, or the connection is closed for its failures.
\<close>

theorem unauthorised_isolated:
  assumes "\<not> authorised c req" "response_write e' = response_write e"
  shows "serve_request e' req i sh c st = serve_request e req i sh c st
    \<and> (case serve_request e req i sh c st of (sh', c', st', d) \<Rightarrow>
         sh' = sh \<and> (\<exists>f. c' = (if d = ConnectionClosed
             then c\<lparr>failures := f, quic_closes := quic_closes c @ [AUTH_FAILURE_LIMIT_CODE]\<rparr> else c\<lparr>failures := f\<rparr>))
         \<and> (d = NoTunnel \<and> answered st (response_write e) st' \<or> d = ConnectionClosed \<and> st' = st))"
proof -
  obtain c1 st1 r where a: "authorise e req c st = (c1, st1, r)" by (metis prod.exhaust)
  moreover have "authorise e' req c st = authorise e req c st" by (simp only: authorise_def assms(2))
  moreover obtain d where "r = Some d" using a authorise_none[of e req c st c1 st1] assms(1) by (cases r) auto
  ultimately show ?thesis using authorise_some[of e req c st c1 st1 d] by (simp add: serve_request_def)
qed

theorem unauthorised_isolated_witness:
  "let req = sample_connect []; e = sample_world\<lparr>lookup := \<lambda>h p. Inl ResolveTimedOut\<rparr>
   in serve_request e req 0 shared_default sample_context resolver_new
     = serve_request sample_world req 0 shared_default sample_context resolver_new"
proof -
  have "\<not> authorised sample_context (sample_connect [])"
    by (simp add: authorised_def sample_context_def sample_connect_def context_new_def Let_def credentials_def
        CREDENTIAL_FIELDS_def fields_get_all_def request_new_def)
  from unauthorised_isolated[OF this, of "sample_world\<lparr>lookup := \<lambda>h p. Inl ResolveTimedOut\<rparr>" sample_world 0 shared_default resolver_new]
  show ?thesis by (simp add: Let_def)
qed

text \<open>
  C32. Every request is answered once and every slot and every failure accounted for: a request that opens
  no tunnel has been answered in one of the ways the proxy answers, or its connection closed, and the slots
  free are those that were free before; one that opens a tunnel, or is still waiting for its target, holds
  one. Each counter of failed authentications is what it was, plus one for every refused value charged to
  it, or cleared by the success that answers for it; nothing after authentication touches them.
\<close>

theorem request_accounting:
  "case serve_request e req i sh c st of (sh', c', st', d) \<Rightarrow>
     permits (ctx_quota c') + (if opened d then 1 else 0) = permits (ctx_quota c)
   \<and> failures_accounted c req (failures c') u
   \<and> (case d of
        NoTunnel \<Rightarrow> answered st (response_write e) st' \<and> quic_closes c' = quic_closes c
      | ConnectionClosed \<Rightarrow> st' = st \<and> quic_closes c' = quic_closes c @ [AUTH_FAILURE_LIMIT_CODE]
      | TcpTunnel _ _ _ \<Rightarrow> respond st OK [] (response_write e) = (st', Sent) \<and> quic_closes c' = quic_closes c
      | UdpTunnel _ _ _ \<Rightarrow> respond st OK capsule_fields (response_write e) = (st', Sent) \<and> quic_closes c' = quic_closes c
      | Unfinished \<Rightarrow> st' = st \<and> quic_closes c' = quic_closes c
      | Unresolved _ \<Rightarrow> False)"
proof -
  obtain c1 st1 r where a: "authorise e req c st = (c1, st1, r)" by (metis prod.exhaust)
  have fl: "failures_accounted c req (failures c1) u" by (rule authorise_failures[OF a])
  show ?thesis
  proof (cases r)
    case (Some d)
    obtain f where f: "c1 = (if d = ConnectionClosed then c\<lparr>failures := f, quic_closes := quic_closes c @ [AUTH_FAILURE_LIMIT_CODE]\<rparr>
        else c\<lparr>failures := f\<rparr>)" using authorise_some(1)[OF a[unfolded Some]] by blast
    from authorise_some(2)[OF a[unfolded Some]] f a Some fl show ?thesis by (auto simp: serve_request_def)
  next
    case None
    note au = authorise_none[OF a[unfolded None]]
    show ?thesis
    proof (cases "acquire (ctx_quota c1)")
      case None': None
      with a None au fl show ?thesis by (simp add: serve_request_def answers)
    next
      case (Some q)
      let ?c = "c1\<lparr>ctx_quota := q, tunnels := tunnels c1 + 1\<rparr>"
      obtain sh2 c2 st2 d where o: "run_route e req i sh ?c st1 = (sh2, c2, st2, d)" by (metis prod.exhaust)
      have "route_outcome e ?c st1 c2 st2 d" using run_route_outcome[where e = e and req = req and i = i and sh = sh and c = ?c and st = st1] o by simp
      moreover have "Suc (permits q) = permits (ctx_quota c)"
        using Some au by (auto simp: acquire_def split: if_splits)
      ultimately show ?thesis
        using a None au Some o fl by (cases d) (auto simp: serve_request_def route_outcome_def slot_returned_eq)
    qed
  qed
qed

end
