(* ===== verification/Udp_Session.thy ===== *)
theory Udp_Session
  imports Request_Handling Capsule
begin

text \<open>
  \<^verbatim>\<open>Session\<close> of \<^verbatim>\<open>src/src/tunnel/udp.rs\<close>: a CONNECT-UDP session between the client's datagrams and capsules
  and the target's socket. Time is a number that events carry. What the session does to the outside is
  recorded in order: packets to the target, datagrams to the client, and the calls on both halves of the
  request stream. The operating system's answer to a packet is the function \<open>sock\<close>; what QUIC says of a
  datagram -- its largest size and the free buffer -- comes with the event.
\<close>

section \<open>State\<close>

definition EMSGSIZE :: int where "EMSGSIZE = 90"
definition EPERM :: int where "EPERM = 1"
definition EACCES :: int where "EACCES = 13"

definition is_per_packet_error :: "io_error \<Rightarrow> bool" where
  "is_per_packet_error e \<longleftrightarrow> raw_os_error e \<in> {Some EMSGSIZE, Some EPERM, Some EACCES, Some ENOBUFS}"

datatype session_step = Continue | Stop | Aborted code

record session =
  quarter_id :: u64
  writer :: send_half
  reader_stops :: "code list"
  capsules :: capsule_decoder
  unanswered_budget :: "u32 option"
  charged_unanswered :: u32
  oversize_drops :: sampler
  evictions :: sampler
  deadline :: nat
  stall_budget :: nat
  to_target :: "bytes list"
  to_client :: "bytes list"

definition session_new :: "tunnel_context \<Rightarrow> u64 \<Rightarrow> send_half \<Rightarrow> code list \<Rightarrow> nat \<Rightarrow> nat \<Rightarrow> session" where
  "session_new c stream_id w stop stall now =
     \<lparr>quarter_id = quarter_stream_id_of stream_id, writer = w, reader_stops = stop, capsules = capsule_new,
      unanswered_budget = (if unanswered_packet_budget c = 0 then None else Some (unanswered_packet_budget c)),
      charged_unanswered = 0, oversize_drops = sampler_new, evictions = sampler_new, deadline = now + stall,
      stall_budget = stall, to_target = [], to_client = []\<rparr>"

definition touch :: "nat \<Rightarrow> session \<Rightarrow> session" where
  "touch now s = s\<lparr>deadline := now + stall_budget s\<rparr>"

definition reset_writer :: "session \<Rightarrow> code \<Rightarrow> session" where
  "reset_writer s c = s\<lparr>writer := reset_half (writer s) c\<rparr>"

section \<open>Towards the target\<close>

definition send_packet :: "(bytes \<Rightarrow> io_error option) \<Rightarrow> nat \<Rightarrow> session \<Rightarrow> bytes \<Rightarrow> session \<times> session_step" where
  "send_packet sock now s p =
     (case sock p of
        None \<Rightarrow> (touch now (s\<lparr>to_target := to_target s @ [p]\<rparr>), Continue)
      | Some e \<Rightarrow> if is_per_packet_error e then (s, Continue) else (s, Stop))"

definition forward_to_target ::
  "(bytes \<Rightarrow> io_error option) \<Rightarrow> nat \<Rightarrow> session \<times> tunnel_context \<Rightarrow> bytes \<Rightarrow> (session \<times> tunnel_context) \<times> session_step" where
  "forward_to_target sock now sc p =
     (case sc of (s, c) \<Rightarrow>
      if length p > MAX_UDP_PAYLOAD then ((reset_writer s H3_DATAGRAM_ERROR, c), Aborted H3_DATAGRAM_ERROR)
      else case unanswered_budget s of
        None \<Rightarrow> (case send_packet sock now s p of (s, r) \<Rightarrow> ((s, c), r))
      | Some remaining \<Rightarrow>
          if remaining = 0 then ((s, c), Continue)
          else case charge_unanswered c of
            (c, False) \<Rightarrow>
              ((reset_writer s H3_REQUEST_CANCELLED, c\<lparr>unanswered_closures := fst (sampler_record (unanswered_closures c))\<rparr>),
               Aborted H3_REQUEST_CANCELLED)
          | (c, True) \<Rightarrow>
              (case send_packet sock now (s\<lparr>unanswered_budget := Some (remaining - 1), charged_unanswered := charged_unanswered s + 1\<rparr>) p of
                 (s, r) \<Rightarrow> ((s, c), r)))"

section \<open>Towards the client\<close>

datatype graded = Clear | Report u64 | Quiet

definition grade :: "nat \<Rightarrow> nat \<Rightarrow> sampler \<Rightarrow> sampler \<times> graded" where
  "grade v lim sm =
     (if v \<le> lim then (sm, Clear)
      else case sampler_record sm of (sm, Some n) \<Rightarrow> (sm, Report n) | (sm, None) \<Rightarrow> (sm, Quiet))"

text \<open>What the connection says when a packet is to be sent to the client.\<close>

record quic_side =
  max_datagram_size :: "nat option"
  send_buffer_space :: nat
  capsule_write :: write_outcome

definition datagram_limit :: "tunnel_context \<Rightarrow> quic_side \<Rightarrow> nat option" where
  "datagram_limit c q = (if datagrams_allowed c then max_datagram_size q else None)"

definition forward_to_client :: "quic_side \<Rightarrow> nat \<Rightarrow> session \<times> tunnel_context \<Rightarrow> bytes \<Rightarrow> (session \<times> tunnel_context) \<times> session_step poll" where
  "forward_to_client q now sc packet =
     (case sc of (s, c) \<Rightarrow>
      let c = refund_unanswered c (charged_unanswered s);
          s = touch now (s\<lparr>unanswered_budget := None, charged_unanswered := 0\<rparr>)
      in case datagram_limit c q of
           Some lim \<Rightarrow>
             (case grade (encoded_len (quarter_id s) CONTEXT_ID_UDP_PAYLOAD (length packet)) lim (oversize_drops s) of
                (sm, Clear) \<Rightarrow>
                  (case encode_udp_payload (quarter_id s) packet of
                     None \<Rightarrow> ((s, c), Panicked)
                   | Some encoded \<Rightarrow>
                       (case grade (length encoded) (send_buffer_space q) (evictions s) of
                          (sm', _) \<Rightarrow> ((s\<lparr>oversize_drops := sm, evictions := sm', to_client := to_client s @ [encoded]\<rparr>, c), Returned Continue)))
              | (sm, _) \<Rightarrow> ((s\<lparr>oversize_drops := sm\<rparr>, c), Returned Continue))
         | None \<Rightarrow>
             (case encode_datagram CONTEXT_ID_UDP_PAYLOAD packet of
                None \<Rightarrow> ((s, c), Panicked)
              | Some encoded \<Rightarrow>
                  (case send_data (writer s) encoded (capsule_write q) of
                     (w, Returned (Inr _)) \<Rightarrow> ((s\<lparr>writer := w\<rparr>, c), Returned Continue)
                   | (w, Returned (Inl _)) \<Rightarrow> ((s\<lparr>writer := w\<rparr>, c), Returned Stop)
                   | (w, Waiting) \<Rightarrow>
                       ((reset_writer (s\<lparr>writer := w\<rparr>) H3_REQUEST_CANCELLED, c), Returned (Aborted H3_REQUEST_CANCELLED))
                   | (w, Panicked) \<Rightarrow> ((s\<lparr>writer := w\<rparr>, c), Panicked))))"

section \<open>The request stream\<close>

lemma forward_to_target_capsules [simp]: "capsules (fst (fst (forward_to_target sock now sc p))) = capsules (fst sc)"
  by (simp add: forward_to_target_def send_packet_def reset_writer_def touch_def split: prod.splits option.splits bool.splits)

function capsule_loop ::
  "(bytes \<Rightarrow> io_error option) \<Rightarrow> nat \<Rightarrow> session \<times> tunnel_context \<Rightarrow> (session \<times> tunnel_context) \<times> session_step" where
  "capsule_loop sock now sc =
     (case next_capsule (capsules (fst sc)) of
        (d, Inr (Some (CapsuleDatagram cid p))) \<Rightarrow>
          if cid \<noteq> CONTEXT_ID_UDP_PAYLOAD then capsule_loop sock now (apfst (capsules_update (\<lambda>_. d)) sc)
          else (case forward_to_target sock now (apfst (capsules_update (\<lambda>_. d)) sc) p of
                  (sc', Continue) \<Rightarrow> capsule_loop sock now sc'
                | (sc', over) \<Rightarrow> (sc', over))
      | (d, Inr None) \<Rightarrow> (apfst (capsules_update (\<lambda>_. d)) sc, Continue)
      | (d, Inl e) \<Rightarrow>
          (apfst (\<lambda>s. reset_writer (s\<lparr>capsules := d\<rparr>) H3_DATAGRAM_ERROR) sc, Aborted H3_DATAGRAM_ERROR))"
  by pat_completeness auto
termination
proof (relation "measure (\<lambda>(sock, now, sc). length (buffer (capsules (fst sc))))", goal_cases)
  case (2 sock now sc d r o x cid p)
  then show ?case using cd.next_decreases[of "capsules (fst sc)" d x] by simp
next
  case (3 sock now sc d r o x cid p sc' st)
  then have "capsules (fst sc') = d"
    using forward_to_target_capsules[of sock now "apfst (capsules_update (\<lambda>_. d)) sc" p] by (metis fst_apfst fst_conv session.select_convs(4) session.surjective session.update_convs(4))
  with 3 show ?case using cd.next_decreases[of "capsules (fst sc)" d x] by simp
qed simp

declare capsule_loop.simps [simp del]

definition handle_stream_chunk ::
  "(bytes \<Rightarrow> io_error option) \<Rightarrow> nat \<Rightarrow> session \<times> tunnel_context \<Rightarrow> stream_error + bytes option \<Rightarrow>
     (session \<times> tunnel_context) \<times> session_step" where
  "handle_stream_chunk sock now sc got =
     (case got of
        Inr (Some bs) \<Rightarrow> capsule_loop sock now (apfst (\<lambda>s. s\<lparr>capsules := capsule_push (capsules s) bs\<rparr>) sc)
      | Inr None \<Rightarrow>
          if at_capsule_boundary (capsules (fst sc)) then (sc, Stop)
          else (apfst (\<lambda>s. reset_writer s H3_MESSAGE_ERROR) sc, Aborted H3_MESSAGE_ERROR)
      | Inl _ \<Rightarrow> (sc, Stop))"

section \<open>The session's loop\<close>

definition read_verdict :: "io_error \<Rightarrow> session_step" where
  "read_verdict e = (if is_per_packet_error e then Continue else Stop)"

datatype session_event =
    Inbound "bytes option"
  | SocketRead "io_error + bytes"
  | StreamRead "stream_error + bytes option"

text \<open>
  One turn of the loop: when it is entered, when one of the three sources is ready (never, or the
  event and its time), the time at which what it does is done, and what the outside answers.
\<close>

record turn =
  entered :: nat
  source :: "(nat \<times> session_event) option"
  done_at :: nat
  sends :: "bytes \<Rightarrow> io_error option"
  quic :: quic_side

definition before_deadline :: "nat \<Rightarrow> nat \<Rightarrow> (nat \<times> 'a) option \<Rightarrow> 'a option" where
  "before_deadline dl now work =
     (if now \<ge> dl then None
      else case work of Some (t, x) \<Rightarrow> if t < dl then Some x else None | None \<Rightarrow> None)"

fun dispatch :: "turn \<Rightarrow> session \<times> tunnel_context \<Rightarrow> session_event \<Rightarrow> (session \<times> tunnel_context) \<times> session_step poll" where
  "dispatch t sc (Inbound (Some p)) = apsnd Returned (forward_to_target (sends t) (done_at t) sc p)"
| "dispatch t sc (Inbound None) = (sc, Returned Stop)"
| "dispatch t sc (SocketRead (Inr p)) = forward_to_client (quic t) (done_at t) sc (take MAX_UDP_PAYLOAD p)"
| "dispatch t sc (SocketRead (Inl e)) = (sc, Returned (read_verdict e))"
| "dispatch t sc (StreamRead got) = apsnd Returned (handle_stream_chunk (sends t) (done_at t) sc got)"

definition stop_reader :: "code \<Rightarrow> session \<Rightarrow> session" where
  "stop_reader c s = s\<lparr>reader_stops := reader_stops s @ [c]\<rparr>"

definition finish_half :: "send_half \<Rightarrow> send_half" where
  "finish_half w = w @ [FinSent]"

definition end_session :: "session \<Rightarrow> session" where
  "end_session s = (stop_reader H3_NO_ERROR s)\<lparr>writer := finish_half (writer s)\<rparr>"

datatype session_status = Running | Over | Crashed

definition session_turn :: "session \<times> tunnel_context \<Rightarrow> turn \<Rightarrow> (session \<times> tunnel_context) \<times> session_status" where
  "session_turn sc t =
     (case before_deadline (deadline (fst sc)) (entered t) (source t) of
        None \<Rightarrow> (apfst end_session sc, Over)
      | Some ev \<Rightarrow>
          (case dispatch t sc ev of
             (sc', Returned Continue) \<Rightarrow> (sc', Running)
           | (sc', Returned Stop) \<Rightarrow> (apfst end_session sc', Over)
           | (sc', Returned (Aborted c)) \<Rightarrow> (apfst (stop_reader c) sc', Over)
           | (sc', _) \<Rightarrow> (sc', Crashed)))"

fun session_run :: "session \<times> tunnel_context \<Rightarrow> turn list \<Rightarrow> (session \<times> tunnel_context) \<times> session_status" where
  "session_run sc [] = (sc, Running)"
| "session_run sc (t # ts) =
     (case session_turn sc t of
        (sc', Running) \<Rightarrow> session_run sc' ts
      | (sc', st) \<Rightarrow> (sc', st))"

end
