(* ===== verification/Udp_Safety.thy ===== *)
theory Udp_Safety
  imports Udp_Session Runs
begin

text \<open>
  What holds of the UDP sessions of a connection: however their turns interleave, the packets sent to
  targets that have not answered are paid for from one budget and never exceed it; a packet from the
  target reaches the client intact, as a QUIC datagram or as a capsule; and what the client writes as
  capsules is what the target is sent, however the stream was cut.
\<close>

section \<open>One session\<close>

definition session_ok :: "tunnel_context \<Rightarrow> session \<Rightarrow> bool" where
  "session_ok c s \<longleftrightarrow> quarter_id s \<le> MAX_QUARTER_STREAM_ID \<and>
     (case unanswered_budget s of
        None \<Rightarrow> charged_unanswered s = 0
      | Some r \<Rightarrow> unat r + unat (charged_unanswered s) = unat (unanswered_packet_budget c) \<and>
          unanswered_packet_budget c \<noteq> 0 \<and> length (to_target s) \<le> unat (charged_unanswered s))"

text \<open>What a session and its connection have together, and that it stays within the connection's total.\<close>

definition funds :: "session \<times> tunnel_context \<Rightarrow> nat" where
  "funds sc = unat (unanswered_connection_budget (snd sc)) + unat (charged_unanswered (fst sc))"

definition sound :: "session \<times> tunnel_context \<Rightarrow> bool" where
  "sound sc \<longleftrightarrow> session_ok (snd sc) (fst sc) \<and> funds sc \<le> unat (unanswered_connection_total (snd sc))"

definition kept :: "session \<times> tunnel_context \<Rightarrow> session \<times> tunnel_context \<Rightarrow> bool" where
  "kept sc sc' \<longleftrightarrow> sound sc' \<and> funds sc' = funds sc \<and>
     unanswered_packet_budget (snd sc') = unanswered_packet_budget (snd sc) \<and>
     unanswered_connection_total (snd sc') = unanswered_connection_total (snd sc)"

lemma kept_refl: "sound sc \<Longrightarrow> kept sc sc"
  by (simp add: kept_def)

lemma kept_trans: "kept a b \<Longrightarrow> kept b c \<Longrightarrow> kept a c"
  by (simp add: kept_def)

lemma kept_sound: "kept a b \<Longrightarrow> sound b"
  by (simp add: kept_def)

lemmas session_defs = reset_writer_def touch_def stop_reader_def end_session_def

lemma kept_cosmetic [simp]:
  "kept a (s\<lparr>capsules := d\<rparr>, c) = kept a (s, c)"
  "kept a (s\<lparr>writer := w\<rparr>, c) = kept a (s, c)"
  "kept a (s\<lparr>deadline := n\<rparr>, c) = kept a (s, c)"
  "kept a (s\<lparr>reader_stops := cs\<rparr>, c) = kept a (s, c)"
  "kept a (s\<lparr>oversize_drops := sm\<rparr>, c) = kept a (s, c)"
  "kept a (s\<lparr>evictions := sm\<rparr>, c) = kept a (s, c)"
  "kept a (s\<lparr>to_client := ps\<rparr>, c) = kept a (s, c)"
  "kept a (s, c\<lparr>unanswered_closures := sm\<rparr>) = kept a (s, c)"
  by (simp_all add: kept_def sound_def session_ok_def funds_def cong: option.case_cong)

lemma unat_charge: "w \<noteq> 0 \<Longrightarrow> unat (w - 1) = unat (w :: u32) - 1"
  by (simp add: unat_minus_one)

lemma unat_charged:
  assumes "unat r + unat (w :: u32) = unat (b :: u32)" "(r :: u32) \<noteq> 0"
  shows "unat (w + 1) = unat w + 1"
proof -
  have "unat b < 2 ^ 32" using unsigned_less[of b] by simp
  moreover have "0 < unat r" using assms(2) by (simp add: unat_gt_0)
  ultimately show ?thesis using assms(1) by (simp add: unat_word_ariths)
qed

lemma kept_send_packet:
  assumes "kept a (s, c)"
    and "\<And>r. unanswered_budget s = Some r \<Longrightarrow> length (to_target s) < unat (charged_unanswered s)"
    and "send_packet sock now s p = (s', r)"
  shows "kept a (s', c)"
  using assms
  by (auto simp: send_packet_def kept_def sound_def session_ok_def funds_def touch_def Suc_leI
      split: option.splits if_splits)

lemma kept_forward_to_target:
  assumes "sound sc"
  shows "kept sc (fst (forward_to_target sock now sc p))"
proof (cases sc)
  case (Pair s c)
  with assms have k: "kept sc (s, c)" by (simp add: kept_refl)
  show ?thesis
  proof (cases "length p > MAX_UDP_PAYLOAD \<or> unanswered_budget s = Some 0")
    case True
    with Pair k show ?thesis by (auto simp: forward_to_target_def session_defs split: option.splits)
  next
    case False
    show ?thesis
    proof (cases "unanswered_budget s")
      case None
      with k have "kept sc (s', c)" if "send_packet sock now s p = (s', r)" for s' r
        using kept_send_packet[OF k _ that] by simp
      with Pair False None show ?thesis by (auto simp: forward_to_target_def split: prod.splits)
    next
      case (Some r)
      with False have r: "r \<noteq> 0" by simp
      from assms Pair Some have ok: "unat r + unat (charged_unanswered s) = unat (unanswered_packet_budget c)"
        "unanswered_packet_budget c \<noteq> 0" "length (to_target s) \<le> unat (charged_unanswered s)"
        by (auto simp: sound_def session_ok_def)
      show ?thesis
      proof (cases "unanswered_connection_budget c = 0")
        case True
        with Pair Some r False k ok show ?thesis
          by (simp add: forward_to_target_def charge_unanswered_def session_defs)
      next
        case b: False
        let ?s = "s\<lparr>unanswered_budget := Some (r - 1), charged_unanswered := charged_unanswered s + 1\<rparr>"
        let ?c = "c\<lparr>unanswered_connection_budget := unanswered_connection_budget c - 1\<rparr>"
        have n: "unat (charged_unanswered s + 1) = unat (charged_unanswered s) + 1"
          using unat_charged[of r "charged_unanswered s" "unanswered_packet_budget c"] ok r by simp
        have "0 < unat r" "0 < unat (unanswered_connection_budget c)" using r b by (simp_all add: unat_gt_0)
        with k Pair Some ok n r b have "kept sc (?s, ?c)"
          by (auto simp: kept_def sound_def session_ok_def funds_def unat_charge)
        then have "kept sc (s', ?c)" if "send_packet sock now ?s p = (s', x)" for s' x
          using kept_send_packet[OF _ _ that, of sc ?c] n ok by simp
        moreover have "unanswered_connection_budget c > 0" using b by (simp add: word_neq_0_conv)
        ultimately show ?thesis using Pair Some r False ok
          by (auto simp: forward_to_target_def charge_unanswered_def split: prod.splits)
      qed
    qed
  qed
qed


lemma refund_exact:
  assumes "unat b + unat a \<le> unat (t :: u32)"
  shows "unat (min (saturating_add b a) t) = unat b + unat (a :: u32)"
proof -
  have "unat t < 2 ^ 32" using unsigned_less[of t] by simp
  with assms have "unat (saturating_add b a) = unat b + unat a" by (simp add: unat_saturating_add)
  with assms show ?thesis by (simp add: min_def word_le_nat_alt)
qed

text \<open>A refund gives back exactly what the session charged, and nothing of anyone else's.\<close>

lemma kept_refund:
  assumes "sound (s, c)"
  shows "kept (s, c) (s\<lparr>unanswered_budget := None, charged_unanswered := 0\<rparr>, refund_unanswered c (charged_unanswered s))"
  using assms refund_exact[of "unanswered_connection_budget c" "charged_unanswered s" "unanswered_connection_total c"]
  by (auto simp: kept_def sound_def session_ok_def funds_def refund_unanswered_def split: option.splits)

text \<open>What a packet from the target can be written as: both encodings exist for every packet a socket delivers.\<close>

lemma encode_udp_payload_some:
  assumes "q \<le> MAX_QUARTER_STREAM_ID"
  shows "encode_udp_payload q p = Some (enc_varint q @ enc_varint CONTEXT_ID_UDP_PAYLOAD @ p)"
proof -
  have "q \<le> VARINT_MAX"
    using assms by (simp add: VARINT_MAX_eq MAX_QUARTER_STREAM_ID_eq word_le_nat_alt)
  then show ?thesis
    by (simp add: encode_udp_payload_def encode_def put_varint_enc CONTEXT_ID_UDP_PAYLOAD_def VARINT_MAX_eq)
qed

lemma varint_len_le: "varint_len v \<le> 8"
  by (simp add: varint_len_def)

lemma capsule_of_packet:
  assumes "length p \<le> MAX_UDP_PAYLOAD"
  shows "wire_valid (WireDatagram CONTEXT_ID_UDP_PAYLOAD p)"
    "encode_datagram CONTEXT_ID_UDP_PAYLOAD p = Some (wire_bytes (WireDatagram CONTEXT_ID_UDP_PAYLOAD p))"
    "length (wire_bytes (WireDatagram CONTEXT_ID_UDP_PAYLOAD p)) < 2 ^ 17"
proof -
  have n: "varint_len CONTEXT_ID_UDP_PAYLOAD = 1" by (simp add: CONTEXT_ID_UDP_PAYLOAD_def varint_len_def)
  with assms show "wire_valid (WireDatagram CONTEXT_ID_UDP_PAYLOAD p)"
    by (simp add: MAX_DATAGRAM_CAPSULE_VALUE_eq MAX_UDP_PAYLOAD_def CONTEXT_ID_UDP_PAYLOAD_def)
  have e: "encode_datagram CONTEXT_ID_UDP_PAYLOAD p =
      Some (enc_varint CAPSULE_TYPE_DATAGRAM @ enc_varint (of_nat (varint_len CONTEXT_ID_UDP_PAYLOAD + length p)) @ enc_varint CONTEXT_ID_UDP_PAYLOAD @ p)"
    using assms n by (intro encode_datagram_bytes) (simp_all add: CONTEXT_ID_UDP_PAYLOAD_def VARINT_MAX_eq MAX_UDP_PAYLOAD_def)
  then show "encode_datagram CONTEXT_ID_UDP_PAYLOAD p = Some (wire_bytes (WireDatagram CONTEXT_ID_UDP_PAYLOAD p))" by simp
  have v: "of_nat (varint_len CONTEXT_ID_UDP_PAYLOAD + length p) \<le> VARINT_MAX"
    using assms n by (intro of_nat_le_VARINT_MAX) (simp add: VARINT_MAX_eq MAX_UDP_PAYLOAD_def)
  show "length (wire_bytes (WireDatagram CONTEXT_ID_UDP_PAYLOAD p)) < 2 ^ 17"
    using assms e n length_enc_varint[OF v] varint_len_le[of "of_nat (varint_len CONTEXT_ID_UDP_PAYLOAD + length p)"]
    by (simp add: length_enc_varint VARINT_MAX_eq CONTEXT_ID_UDP_PAYLOAD_def CAPSULE_TYPE_DATAGRAM_def MAX_UDP_PAYLOAD_def varint_len_def
        del: of_nat_add)
qed

lemma send_packet_capsule:
  assumes "length p \<le> MAX_UDP_PAYLOAD" "bs = wire_bytes (WireDatagram CONTEXT_ID_UDP_PAYLOAD p)"
  shows "send_data w bs x = write_all_chunks w (enc_varint DATA @ enc_varint (of_nat (length bs)) @ bs) x"
proof -
  have "of_nat (length bs) \<le> VARINT_MAX"
    using capsule_of_packet(3)[OF assms(1)] assms(2) by (intro of_nat_le_VARINT_MAX) (simp add: VARINT_MAX_eq)
  then show ?thesis by (simp add: send_data_def put_header_enc VARINT_MAX_eq DATA_def)
qed

text \<open>Towards the client: nothing is spent, what was charged is refunded, and nothing panics.\<close>

lemma kept_forward_to_client:
  assumes "sound sc" "length p \<le> MAX_UDP_PAYLOAD"
  shows "kept sc (fst (forward_to_client q now sc p)) \<and> snd (forward_to_client q now sc p) \<in> range Returned"
proof (cases sc)
  case (Pair s c)
  let ?c = "refund_unanswered c (charged_unanswered s)"
  let ?s = "touch now (s\<lparr>unanswered_budget := None, charged_unanswered := 0\<rparr>)"
  have k: "kept sc (?s, ?c)" using assms(1) kept_refund Pair by (simp add: touch_def)
  have q: "quarter_id ?s \<le> MAX_QUARTER_STREAM_ID" using assms(1) Pair by (simp add: sound_def session_ok_def touch_def)
  note enc = encode_udp_payload_some[OF q] capsule_of_packet(2)[OF assms(2)] send_packet_capsule[OF assms(2) refl]
  show ?thesis
  proof (cases "datagram_limit ?c q")
    case None
    then show ?thesis
      using k by (cases "capsule_write q") (simp_all add: Pair forward_to_client_def Let_def enc(2,3) reset_writer_def del: wire_bytes.simps)
  next
    case (Some lim)
    then show ?thesis
      using k by (simp add: Pair forward_to_client_def Let_def enc(1) split: prod.split graded.split)
  qed
qed

lemma kept_capsule_loop: "sound sc \<Longrightarrow> kept sc (fst (capsule_loop sock now sc))"
proof (induction sock now sc rule: capsule_loop.induct)
  case (1 sock now sc)
  obtain s c where sc: "sc = (s, c)" by (cases sc)
  have push: "sound (s\<lparr>capsules := d\<rparr>, c)" "kept sc (s\<lparr>capsules := d\<rparr>, c)" for d
    using "1.prems" sc kept_refl kept_sound by fastforce+
  obtain d r where n: "next_capsule (capsules s) = (d, r)" by (cases "next_capsule (capsules s)")
  consider e where "r = Inl e" | "r = Inr None"
    | cid p where "r = Inr (Some (CapsuleDatagram cid p))" "cid \<noteq> CONTEXT_ID_UDP_PAYLOAD"
    | p where "r = Inr (Some (CapsuleDatagram CONTEXT_ID_UDP_PAYLOAD p))"
    by (metis capsule.exhaust old.sum.exhaust option.exhaust)
  then show ?case
  proof cases
    case 3
    with "1.IH"(1)[of d r] sc n push[of d] have "kept (s\<lparr>capsules := d\<rparr>, c) (fst (capsule_loop sock now (s\<lparr>capsules := d\<rparr>, c)))"
      by simp
    then have "kept sc (fst (capsule_loop sock now (s\<lparr>capsules := d\<rparr>, c)))" using push(2) kept_trans by blast
    then show ?thesis using sc n 3 by (subst capsule_loop.simps) simp
  next
    case (4 p)
    obtain sc' st where f: "forward_to_target sock now (s\<lparr>capsules := d\<rparr>, c) p = (sc', st)" by (cases "forward_to_target sock now (s\<lparr>capsules := d\<rparr>, c) p")
    from kept_forward_to_target[OF push(1), where sock = sock and now = now and p = p and d1 = d] f
    have k: "kept sc sc'" using kept_trans[OF push(2)] by simp
    then have "st = Continue \<Longrightarrow> kept sc' (fst (capsule_loop sock now sc'))"
      using "1.IH"(2)[of d r] sc n 4 f kept_sound by simp
    with k have "st = Continue \<Longrightarrow> kept sc (fst (capsule_loop sock now sc'))" using kept_trans by blast
    then show ?thesis using sc n 4 f k by (subst capsule_loop.simps) (simp split: session_step.splits)
  qed (use sc n push in \<open>subst capsule_loop.simps, simp add: reset_writer_def\<close>)+
qed

lemma kept_pushed_loop:
  assumes "sound (s, c)"
  shows "kept (s, c) (fst (capsule_loop sock now (s\<lparr>capsules := d\<rparr>, c)))"
proof -
  have "kept (s, c) (s\<lparr>capsules := d\<rparr>, c)" using assms kept_refl by simp
  with kept_capsule_loop[OF kept_sound[OF this]] show ?thesis by (rule kept_trans[rotated])
qed

lemma MAX_UDP_PAYLOAD_take: "length (take MAX_UDP_PAYLOAD p) \<le> MAX_UDP_PAYLOAD"
  by simp

lemma kept_dispatch:
  assumes "sound sc"
  shows "kept sc (fst (dispatch t sc ev)) \<and> snd (dispatch t sc ev) \<in> range Returned"
proof (cases "(t, sc, ev)" rule: dispatch.cases)
  case (1 t sc p)
  with assms show ?thesis by (simp add: kept_forward_to_target)
next
  case (3 t sc p)
  with assms kept_forward_to_client[OF _ MAX_UDP_PAYLOAD_take] show ?thesis by simp
next
  case (5 t sc got)
  with assms show ?thesis
    by (cases sc) (auto simp: handle_stream_chunk_def reset_writer_def kept_refl split: sum.split option.split
        intro: kept_pushed_loop)
qed (use assms in \<open>simp_all add: kept_refl\<close>)

lemma kept_session_turn:
  assumes "sound sc"
  shows "kept sc (fst (session_turn sc t)) \<and> snd (session_turn sc t) \<noteq> Crashed"
proof -
  obtain s c where sc: "sc = (s, c)" by (cases sc)
  show ?thesis
  proof (cases "before_deadline (deadline s) (entered t) (source t)")
    case None
    with sc kept_refl[OF assms] show ?thesis by (simp add: session_turn_def session_defs)
  next
    case (Some ev)
    obtain s' c' st where d: "dispatch t sc ev = ((s', c'), Returned st)" "kept sc (s', c')"
      using kept_dispatch[OF assms, of t ev] by (cases "dispatch t sc ev") auto
    then show ?thesis
      using Some sc by (cases st) (simp_all add: session_turn_def session_defs)
  qed
qed

section \<open>All the sessions of a connection\<close>

text \<open>
  The sessions opened on one connection share its context. Their turns come in any order; a session
  that is over has no more. The client's SETTINGS, which allow datagrams, may arrive at any time. Which
  targets have answered is kept beside the sessions, by their numbers, and steers nothing: the target of a
  session has answered when the session's socket delivered a packet in time.
\<close>

record udp_sessions =
  conn_ctx :: tunnel_context
  udp_live :: "(session \<times> session_status) list"
  udp_heard :: "nat list"

definition target_answers :: "session \<Rightarrow> turn \<Rightarrow> bool" where
  "target_answers s t \<longleftrightarrow>
     (case before_deadline (deadline s) (entered t) (source t) of Some (SocketRead (Inr _)) \<Rightarrow> True | _ \<Rightarrow> False)"

datatype udp_op =
    OpenSession u64 send_half "code list" nat nat
  | SessionTurn nat turn
  | SettingsArrive

fun udp_apply :: "udp_sessions \<Rightarrow> udp_op \<Rightarrow> udp_sessions" where
  "udp_apply g (OpenSession i w stop stall now) =
     (if i \<le> VARINT_MAX
      then g\<lparr>udp_live := udp_live g @ [(session_new (conn_ctx g) i w stop stall now, Running)]\<rparr> else g)"
| "udp_apply g (SessionTurn n t) =
     (if n < length (udp_live g) \<and> snd (udp_live g ! n) = Running
      then case session_turn (fst (udp_live g ! n), conn_ctx g) t of
             ((s, c), st) \<Rightarrow>
               g\<lparr>conn_ctx := c, udp_live := (udp_live g)[n := (s, st)],
                 udp_heard := (if target_answers (fst (udp_live g ! n)) t then n # udp_heard g else udp_heard g)\<rparr>
      else g)"
| "udp_apply g SettingsArrive = g\<lparr>conn_ctx := (conn_ctx g)\<lparr>datagrams_allowed := True\<rparr>\<rparr>"

definition charges :: "udp_sessions \<Rightarrow> nat" where
  "charges g = (\<Sum>x\<leftarrow>udp_live g. unat (charged_unanswered (fst x)))"

text \<open>A session pays for its packets until its target has answered.\<close>

definition paying :: "udp_sessions \<Rightarrow> bool" where
  "paying g \<longleftrightarrow> (\<forall>n<length (udp_live g). n \<notin> set (udp_heard g) \<longrightarrow>
     unanswered_packet_budget (conn_ctx g) = 0 \<or> unanswered_budget (fst (udp_live g ! n)) \<noteq> None)"

definition udp_inv :: "udp_sessions \<Rightarrow> bool" where
  "udp_inv g \<longleftrightarrow> list_all (\<lambda>(s, st). session_ok (conn_ctx g) s \<and> st \<noteq> Crashed) (udp_live g) \<and> paying g \<and>
     set (udp_heard g) \<subseteq> {..<length (udp_live g)} \<and>
     unat (unanswered_connection_budget (conn_ctx g)) + charges g = unat (unanswered_connection_total (conn_ctx g))"

lemma session_ok_new: "i \<le> VARINT_MAX \<Longrightarrow> session_ok c (session_new c i w stop stall now)"
  by (auto simp: session_ok_def session_new_def quarter_stream_id_of_def MAX_QUARTER_STREAM_ID_eq VARINT_MAX_eq
      word_le_nat_alt unat_drop_bit_eq drop_bit_nat_def)

lemma session_new_fresh:
  "charged_unanswered (session_new c i w stop stall now) = 0"
  "unanswered_budget (session_new c i w stop stall now) = None \<longleftrightarrow> unanswered_packet_budget c = 0"
  by (simp_all add: session_new_def)

lemma session_ok_cong:
  "unanswered_packet_budget c = unanswered_packet_budget c' \<Longrightarrow> session_ok c s = session_ok c' s"
  by (simp add: session_ok_def cong: option.case_cong)

lemma sum_list_update_nat:
  "n < length xs \<Longrightarrow> sum_list (map f (xs[n := y])) + f (xs ! n) = sum_list (map f xs) + (f y :: nat)"
  by (induction xs arbitrary: n) (auto split: nat.split simp: nth_Cons')

lemma budget_forward_to_target:
  "unanswered_budget (fst sc) \<noteq> None \<Longrightarrow> unanswered_budget (fst (fst (forward_to_target sock now sc p))) \<noteq> None"
  by (cases sc)
    (auto simp: forward_to_target_def send_packet_def session_defs split: prod.splits option.splits bool.splits if_splits)

lemma budget_capsule_loop:
  "unanswered_budget (fst sc) \<noteq> None \<Longrightarrow> unanswered_budget (fst (fst (capsule_loop sock now sc))) \<noteq> None"
proof (induction sock now sc rule: capsule_loop.induct)
  case (1 sock now sc)
  obtain s c where sc: "sc = (s, c)" by (cases sc)
  obtain d r where n: "next_capsule (capsules s) = (d, r)" by (cases "next_capsule (capsules s)")
  have push: "unanswered_budget (fst (s\<lparr>capsules := d\<rparr>, c)) \<noteq> None" using "1.prems" sc by simp
  consider e where "r = Inl e" | "r = Inr None"
    | cid p where "r = Inr (Some (CapsuleDatagram cid p))" "cid \<noteq> CONTEXT_ID_UDP_PAYLOAD"
    | p where "r = Inr (Some (CapsuleDatagram CONTEXT_ID_UDP_PAYLOAD p))"
    by (metis capsule.exhaust old.sum.exhaust option.exhaust)
  then show ?case
  proof cases
    case 3
    with "1.IH"(1)[of d r] sc n push show ?thesis by (subst capsule_loop.simps) simp
  next
    case (4 p)
    obtain sc' st where f: "forward_to_target sock now (s\<lparr>capsules := d\<rparr>, c) p = (sc', st)"
      by (cases "forward_to_target sock now (s\<lparr>capsules := d\<rparr>, c) p")
    with budget_forward_to_target[OF push, of sock now p] have b: "unanswered_budget (fst sc') \<noteq> None" by simp
    then show ?thesis
      using "1.IH"(2)[of d r] sc n 4 f by (subst capsule_loop.simps) (simp split: session_step.splits)
  qed (use sc n push in \<open>subst capsule_loop.simps, simp add: reset_writer_def\<close>)+
qed

lemma budget_session_turn:
  assumes "unanswered_budget (fst sc) \<noteq> None" "\<not> target_answers (fst sc) t"
  shows "unanswered_budget (fst (fst (session_turn sc t))) \<noteq> None"
proof (cases "before_deadline (deadline (fst sc)) (entered t) (source t)")
  case None
  with assms(1) show ?thesis by (cases sc) (simp add: session_turn_def session_defs)
next
  case (Some ev)
  have "unanswered_budget (fst (fst (dispatch t sc ev))) \<noteq> None"
  proof (cases "(t, sc, ev)" rule: dispatch.cases)
    case (1 t sc p)
    with assms(1) budget_forward_to_target[of sc] show ?thesis by simp
  next
    case (3 t sc p)
    with Some assms(2) show ?thesis by (simp add: target_answers_def)
  next
    case (5 t' sc' got)
    have "unanswered_budget (fst (apfst (\<lambda>s. s\<lparr>capsules := capsule_push (capsules s) bs\<rparr>) sc)) \<noteq> None" for bs
      using assms(1) by (cases sc) simp
    from budget_capsule_loop[OF this] 5 assms(1) show ?thesis
      by (cases sc) (auto simp: handle_stream_chunk_def reset_writer_def split: sum.split option.split)
  qed (use assms(1) in simp_all)
  then show ?thesis
    using Some
    by (cases "dispatch t sc ev")
      (auto simp: session_turn_def session_defs apfst_def map_prod_def split: poll.split session_step.split prod.split)
qed

lemma udp_inv_turn:
  assumes "udp_inv g" "n < length (udp_live g)" "udp_live g ! n = (s, Running)"
    and "session_turn (s, conn_ctx g) t = ((s', c'), st)"
  shows "udp_inv (g\<lparr>conn_ctx := c', udp_live := (udp_live g)[n := (s', st)],
    udp_heard := (if target_answers s t then n # udp_heard g else udp_heard g)\<rparr>)"
proof -
  let ?f = "\<lambda>x. unat (charged_unanswered (fst x))"
  have ok: "session_ok (conn_ctx g) s"
    using assms(1-3) by (auto simp: udp_inv_def list_all_length)
  have "?f (udp_live g ! n) \<le> charges g"
    unfolding charges_def using assms(2) by (intro member_le_sum_list) simp_all
  then have snd: "sound (s, conn_ctx g)"
    using ok assms(1,3) by (simp add: sound_def funds_def udp_inv_def)
  from kept_session_turn[OF this, of t] assms(4) have k: "kept (s, conn_ctx g) (s', c')" "st \<noteq> Crashed" by simp_all
  then have same: "session_ok c' = session_ok (conn_ctx g)" "session_ok c' s'"
    by (auto simp: kept_def sound_def fun_eq_iff dest: session_ok_cong)
  let ?heard = "if target_answers s t then n # udp_heard g else udp_heard g"
  let ?g = "g\<lparr>conn_ctx := c', udp_live := (udp_live g)[n := (s', st)], udp_heard := ?heard\<rparr>"
  have "charges ?g + unat (charged_unanswered s) = charges g + unat (charged_unanswered s')"
    using sum_list_update_nat[OF assms(2), of ?f "(s', st)"] assms(3) by (simp add: charges_def)
  moreover have "paying ?g"
  proof -
    have p: "paying g" using assms(1) by (simp add: udp_inv_def)
    have b: "unanswered_packet_budget c' = unanswered_packet_budget (conn_ctx g)" using k(1) by (simp add: kept_def)
    have new: "unanswered_packet_budget c' = 0 \<or> unanswered_budget s' \<noteq> None" if "n \<notin> set ?heard"
      using p assms(2-4) that budget_session_turn[of "(s, conn_ctx g)" t] by (auto simp: paying_def b split: if_splits)
    have "unanswered_packet_budget c' = 0 \<or> unanswered_budget (fst ((udp_live g)[n := (s', st)] ! m)) \<noteq> None"
      if "m < length (udp_live g)" "m \<notin> set ?heard" for m
    proof (cases "m = n")
      case True
      with new that assms(2) show ?thesis by simp
    next
      case False
      have "m \<notin> set (udp_heard g)" using that(2) by (cases "target_answers s t") simp_all
      with p b that(1) False show ?thesis by (simp add: paying_def)
    qed
    then show ?thesis unfolding paying_def by simp
  qed
  moreover have "list_all (\<lambda>(s, st). session_ok c' s \<and> st \<noteq> Crashed) ((udp_live g)[n := (s', st)])"
    using k(2) assms(1) same by (auto simp: udp_inv_def list_all_iff dest!: set_update_subset_insert[THEN subsetD])
  ultimately show ?thesis
    using k(1) assms(1,2) by (auto simp: udp_inv_def kept_def funds_def)
qed

lemma udp_inv_op: "udp_inv g \<Longrightarrow> udp_inv (udp_apply g x)"
proof (induction g x rule: udp_apply.induct)
  case (1 g i w stop stall now)
  then show ?case
    by (auto simp: udp_inv_def charges_def session_ok_new session_new_fresh paying_def nth_append less_Suc_eq)
next
  case (2 g n t)
  show ?case
  proof (cases "n < length (udp_live g) \<and> snd (udp_live g ! n) = Running")
    case True
    then obtain s where s: "udp_live g ! n = (s, Running)" by (cases "udp_live g ! n") auto
    obtain s' c' st where t: "session_turn (s, conn_ctx g) t = ((s', c'), st)" by (metis surj_pair)
    from udp_inv_turn[OF 2 _ s t] True s t show ?thesis by simp
  qed (use 2 in auto)
next
  case (3 g)
  then show ?case by (simp add: udp_inv_def charges_def session_ok_def paying_def cong: option.case_cong)
qed

definition udp_start :: "settings_of_context \<Rightarrow> bool \<Rightarrow> auth_gate \<Rightarrow> udp_sessions" where
  "udp_start cfg peer g = \<lparr>conn_ctx = context_new cfg peer g, udp_live = [], udp_heard = []\<rparr>"

interpretation udp: started_operations udp_apply udp_inv "udp_start cfg peer g" for cfg peer g
  by unfold_locales (auto simp: udp_inv_op, simp add: udp_inv_def udp_start_def charges_def context_new_def Let_def paying_def)

text \<open>What a connection was configured with does not change.\<close>

definition limits_of :: "udp_sessions \<Rightarrow> u32 \<times> u32" where
  "limits_of g = (unanswered_packet_budget (conn_ctx g), unanswered_connection_total (conn_ctx g))"

lemma limits_of_op:
  assumes "udp_inv g"
  shows "limits_of (udp_apply g x) = limits_of g"
proof (cases "(g, x)" rule: udp_apply.cases)
  case (2 g' n t)
  show ?thesis
  proof (cases "n < length (udp_live g) \<and> snd (udp_live g ! n) = Running")
    case True
    let ?sc = "(fst (udp_live g ! n), conn_ctx g)"
    have "unat (charged_unanswered (fst (udp_live g ! n))) \<le> charges g"
      unfolding charges_def using True by (intro member_le_sum_list) simp_all
    with assms True have "sound ?sc"
      by (auto simp: sound_def funds_def udp_inv_def list_all_length case_prod_unfold)
    from kept_session_turn[OF this, of t] 2 True show ?thesis
      by (auto simp: limits_of_def kept_def split: prod.splits)
  qed (use 2 in auto)
qed (auto simp: limits_of_def)

lemma unat_saturating_mul_le: "unat (saturating_mul a b) \<le> unat a * unat b"
proof (cases "unat a * unat b < 2 ^ 32")
  case False
  have "unat (- 1 :: u32) < 2 ^ 32" using unsigned_less[of "- 1 :: u32"] by simp
  with False show ?thesis by (simp add: saturating_mul_def)
qed (simp add: saturating_mul_def unat_word_ariths)

text \<open>The sessions whose target has not sent them a packet.\<close>

definition silent :: "udp_sessions \<Rightarrow> session list" where
  "silent g = map (\<lambda>n. fst (udp_live g ! n)) (filter (\<lambda>n. n \<notin> set (udp_heard g)) [0..<length (udp_live g)])"

lemma silent_paid:
  assumes "udp_inv g" "unanswered_packet_budget (conn_ctx g) \<noteq> 0"
  shows "list_all (\<lambda>s. length (to_target s) \<le> unat (charged_unanswered s)
      \<and> unat (charged_unanswered s) \<le> unat (unanswered_packet_budget (conn_ctx g))) (silent g)"
    and "(\<Sum>s\<leftarrow>silent g. length (to_target s)) \<le> charges g"
proof -
  have one: "length (to_target (fst (udp_live g ! n))) \<le> unat (charged_unanswered (fst (udp_live g ! n)))
      \<and> unat (charged_unanswered (fst (udp_live g ! n))) \<le> unat (unanswered_packet_budget (conn_ctx g))"
    if "n < length (udp_live g)" "n \<notin> set (udp_heard g)" for n
  proof -
    have "unanswered_budget (fst (udp_live g ! n)) \<noteq> None"
      using assms that by (simp add: udp_inv_def paying_def)
    then obtain r where "unanswered_budget (fst (udp_live g ! n)) = Some r" by blast
    moreover have "session_ok (conn_ctx g) (fst (udp_live g ! n))"
      using assms(1) that(1) by (auto simp: udp_inv_def list_all_length case_prod_unfold)
    ultimately show ?thesis by (auto simp: session_ok_def)
  qed
  then show "list_all (\<lambda>s. length (to_target s) \<le> unat (charged_unanswered s)
      \<and> unat (charged_unanswered s) \<le> unat (unanswered_packet_budget (conn_ctx g))) (silent g)"
    by (auto simp: silent_def list_all_iff)
  let ?ns = "filter (\<lambda>n. n \<notin> set (udp_heard g)) [0..<length (udp_live g)]"
  let ?f = "\<lambda>n. unat (charged_unanswered (fst (udp_live g ! n)))"
  have "(\<Sum>s\<leftarrow>silent g. length (to_target s)) \<le> (\<Sum>n\<leftarrow>?ns. ?f n)"
    using one by (auto simp: silent_def comp_def intro!: sum_list_mono)
  also have "\<dots> \<le> (\<Sum>n\<leftarrow>[0..<length (udp_live g)]. ?f n)" by (rule sum_list_filter_le_nat)
  also have "\<dots> = charges g"
    unfolding charges_def using map_nth[of "udp_live g"]
    by (metis (mono_tags, lifting) comp_def map_eq_conv map_map)
  finally show "(\<Sum>s\<leftarrow>silent g. length (to_target s)) \<le> charges g" .
qed

section \<open>What the target is sent\<close>

definition packets :: "capsule list \<Rightarrow> bytes list" where
  "packets vs = map capsule_payload (filter (\<lambda>v. capsule_context_id v = CONTEXT_ID_UDP_PAYLOAD) vs)"

lemma packets_simps [simp]:
  "packets [] = []"
  "packets (CapsuleDatagram cid p # vs) = (if cid = CONTEXT_ID_UDP_PAYLOAD then p # packets vs else packets vs)"
  "packets (us @ vs) = packets us @ packets vs"
  by (simp_all add: packets_def)

text \<open>
  How many of \<open>n\<close> packets a session sends to a target that answers nothing meanwhile, whether its
  connection can pay for them, and what paying for \<open>k\<close> of them leaves.
\<close>

definition allowance :: "session \<Rightarrow> nat \<Rightarrow> nat" where
  "allowance s n = (case unanswered_budget s of None \<Rightarrow> n | Some r \<Rightarrow> min (unat r) n)"

definition affords :: "session \<times> tunnel_context \<Rightarrow> nat \<Rightarrow> bool" where
  "affords sc n \<longleftrightarrow> (case unanswered_budget (fst sc) of
     None \<Rightarrow> True
   | Some r \<Rightarrow> unanswered_packet_budget (snd sc) \<noteq> 0 \<and> min (unat r) n \<le> unat (unanswered_connection_budget (snd sc)))"

definition spent :: "nat \<Rightarrow> session \<times> tunnel_context \<Rightarrow> session \<times> tunnel_context \<Rightarrow> bool" where
  "spent k sc sc' \<longleftrightarrow> stall_budget (fst sc') = stall_budget (fst sc) \<and>
     (case unanswered_budget (fst sc) of
        None \<Rightarrow> unanswered_budget (fst sc') = None \<and> snd sc' = snd sc
      | Some r \<Rightarrow> k \<le> unat r \<and> unanswered_budget (fst sc') = Some (r - of_nat k)
          \<and> snd sc' = (snd sc)\<lparr>unanswered_connection_budget := unanswered_connection_budget (snd sc) - of_nat k\<rparr>)"

lemma pays_capsules [simp]:
  "allowance (s\<lparr>capsules := d\<rparr>) n = allowance s n" "affords (s\<lparr>capsules := d\<rparr>, c) n = affords (s, c) n"
  "spent k (s\<lparr>capsules := d\<rparr>, c) sc = spent k (s, c) sc"
  by (simp_all add: allowance_def affords_def spent_def split: option.split)

lemma unat_minus_of_nat: "k \<le> unat (r :: u32) \<Longrightarrow> unat (r - of_nat k) = unat r - k"
proof -
  assume k: "k \<le> unat r"
  moreover have "unat r < 2 ^ 32" using unsigned_less[of r] by simp
  ultimately have "unat (of_nat k :: u32) = k" by (simp add: unat_of_nat)
  with k show ?thesis by (simp add: unat_sub word_le_nat_alt)
qed

lemma spent_zero: "stall_budget s' = stall_budget s \<Longrightarrow> unanswered_budget s' = unanswered_budget s \<Longrightarrow> spent 0 (s, c) (s', c)"
  by (simp add: spent_def split: option.split)

lemma spent_add:
  assumes "spent k a b" "spent l b d"
  shows "spent (k + l) a d"
proof (cases "unanswered_budget (fst a)")
  case None
  with assms show ?thesis by (simp add: spent_def)
next
  case (Some r)
  with assms(1) have b: "k \<le> unat r" "unanswered_budget (fst b) = Some (r - of_nat k)" by (simp_all add: spent_def)
  with assms Some show ?thesis
    by (auto simp: spent_def unat_minus_of_nat algebra_simps)
qed

lemma allowance_add:
  assumes "spent (allowance s m) (s, c) (s', c')" "affords (s, c) (m + n)"
  shows "allowance s (m + n) = allowance s m + allowance s' n \<and> affords (s', c') n"
proof (cases "unanswered_budget s")
  case None
  with assms show ?thesis by (simp add: spent_def allowance_def affords_def)
next
  case (Some r)
  let ?k = "min (unat r) m"
  have k: "?k \<le> unat (unanswered_connection_budget c)" using assms(2) Some by (auto simp: affords_def)
  have s': "unanswered_budget s' = Some (r - of_nat ?k)" "c' = c\<lparr>unanswered_connection_budget := unanswered_connection_budget c - of_nat ?k\<rparr>"
    using assms(1) Some by (simp_all add: spent_def allowance_def)
  moreover have "unat (r - of_nat ?k) = unat r - ?k"
    "unat (unanswered_connection_budget c - of_nat ?k) = unat (unanswered_connection_budget c) - ?k"
    using k by (intro unat_minus_of_nat; simp)+
  ultimately show ?thesis using assms(2) Some k by (auto simp: allowance_def affords_def min_def)
qed

lemma take_allowance:
  assumes "spent (allowance s (length xs)) (s, c) (s', c')" "affords (s, c) (length xs + length ys)"
  shows "take (allowance s (length xs + length ys)) (xs @ ys)
    = take (allowance s (length xs)) xs @ take (allowance s' (length ys)) ys"
proof (cases "unanswered_budget s")
  case None
  with assms(1) show ?thesis by (simp add: spent_def allowance_def)
next
  case (Some r)
  note add = allowance_add[OF assms]
  show ?thesis
  proof (cases "length xs \<le> unat r")
    case True
    then have "allowance s (length xs) = length xs" using Some by (simp add: allowance_def)
    with add show ?thesis by simp
  next
    case False
    then have k: "allowance s (length xs) = unat r" "allowance s (length xs + length ys) = unat r"
      using Some by (simp_all add: allowance_def)
    with add have "allowance s' (length ys) = 0" by simp
    with k False show ?thesis by simp
  qed
qed

text \<open>One packet towards a socket that takes it: it is sent and paid for, or dropped when the session has nothing left.\<close>

lemma forward_one:
  assumes "length p \<le> MAX_UDP_PAYLOAD" "affords (s, c) (Suc n)"
  obtains s' c' where "forward_to_target (\<lambda>_. None) now (s, c) p = ((s', c'), Continue)"
    "spent (allowance s 1) (s, c) (s', c')" "to_target s' = to_target s @ take (allowance s 1) [p]" "capsules s' = capsules s"
    "deadline s' \<in> {deadline s, now + stall_budget s}"
proof (cases "unanswered_budget s")
  case None
  with assms(1) that[of "s\<lparr>to_target := to_target s @ [p], deadline := now + stall_budget s\<rparr>" c] show thesis
    by (simp add: forward_to_target_def send_packet_def touch_def spent_def allowance_def)
next
  case (Some r)
  show thesis
  proof (cases "r = 0")
    case True
    with assms(1) Some that[of s c] show thesis by (simp add: forward_to_target_def spent_def allowance_def)
  next
    case False
    then have r: "min (unat r) 1 = 1" using unat_gt_0[of r] by simp
    have "unanswered_packet_budget c \<noteq> 0" "0 < unanswered_connection_budget c"
      using assms(2) Some False unat_gt_0[of r] by (auto simp: affords_def word_less_nat_alt min_def split: if_splits)
    then show thesis
      using assms(1) Some False r
        that[of "s\<lparr>unanswered_budget := Some (r - 1), charged_unanswered := charged_unanswered s + 1, to_target := to_target s @ [p],
          deadline := now + stall_budget s\<rparr>" "c\<lparr>unanswered_connection_budget := unanswered_connection_budget c - 1\<rparr>"]
        unat_gt_0[of r]
      by (simp add: forward_to_target_def charge_unanswered_def send_packet_def touch_def spent_def allowance_def)
  qed
qed

text \<open>One chunk: with a socket that takes packets, the loop sends what the decoder delivers and the budget allows.\<close>

lemma capsule_loop_drain:
  assumes "drain next_capsule capsules_of (capsules s) = Some (vs, d, None)"
    and "affords (s, c) (length (packets vs))" "list_all (\<lambda>p. length p \<le> MAX_UDP_PAYLOAD) (packets vs)"
    and "b \<le> deadline s" "b \<le> now + stall_budget s"
  shows "\<exists>s' c'. capsule_loop (\<lambda>_. None) now (s, c) = ((s', c'), Continue) \<and> capsules s' = d \<and> b \<le> deadline s'
    \<and> spent (allowance s (length (packets vs))) (s, c) (s', c')
    \<and> to_target s' = to_target s @ take (allowance s (length (packets vs))) (packets vs)"
  using assms
proof (induction "length (buffer (capsules s))" arbitrary: s c vs rule: less_induct)
  case less
  obtain d' r where n: "next_capsule (capsules s) = (d', r)" by (cases "next_capsule (capsules s)")
  consider (err) e where "r = Inl e" | (more) "r = Inr None" | (item) cid p where "r = Inr (Some (CapsuleDatagram cid p))"
    by (metis capsule.exhaust old.sum.exhaust option.exhaust)
  then show ?case
  proof cases
    case err
    with n less.prems(1) show ?thesis by (simp add: drain_error)
  next
    case more
    have "allowance s 0 = 0" by (simp add: allowance_def split: option.split)
    with more n less.prems spent_zero[of "s\<lparr>capsules := d'\<rparr>" s c] show ?thesis by (simp add: drain_more capsule_loop.simps)
  next
    case (item cid p)
    with n less.prems(1) obtain ws where ws: "drain next_capsule capsules_of d' = Some (ws, d, None)" "vs = CapsuleDatagram cid p # ws"
      by (cases "drain next_capsule capsules_of d'") (auto simp: drain_item)
    have sh: "length (buffer d') < length (buffer (capsules s))" using cd.next_decreases n item by simp
    let ?s = "s\<lparr>capsules := d'\<rparr>"
    show ?thesis
    proof (cases "cid = CONTEXT_ID_UDP_PAYLOAD")
      case False
      have "\<exists>s' c'. capsule_loop (\<lambda>_. None) now (?s, c) = ((s', c'), Continue) \<and> capsules s' = d \<and> b \<le> deadline s'
        \<and> spent (allowance ?s (length (packets ws))) (?s, c) (s', c')
        \<and> to_target s' = to_target ?s @ take (allowance ?s (length (packets ws))) (packets ws)"
        using less.prems ws sh False by (intro less.hyps) simp_all
      with n item False ws show ?thesis by (simp add: capsule_loop.simps[of _ _ "(s, c)"])
    next
      case True
      let ?m = "length (packets ws)"
      from True ws less.prems(2,3) have l: "length p \<le> MAX_UDP_PAYLOAD" and a: "affords (?s, c) (Suc ?m)" by simp_all
      obtain s1 c1 where f: "forward_to_target (\<lambda>_. None) now (?s, c) p = ((s1, c1), Continue)"
        "spent (allowance ?s 1) (?s, c) (s1, c1)" "to_target s1 = to_target ?s @ take (allowance ?s 1) [p]" "capsules s1 = d'"
        "deadline s1 \<in> {deadline s, now + stall_budget s}"
        by (rule forward_one[OF l a, of now]) auto
      note st = allowance_add[OF f(2), of ?m] take_allowance[of ?s "[p]" c s1 c1 "packets ws"]
      have "\<exists>s' c'. capsule_loop (\<lambda>_. None) now (s1, c1) = ((s', c'), Continue) \<and> capsules s' = d \<and> b \<le> deadline s'
        \<and> spent (allowance s1 ?m) (s1, c1) (s', c') \<and> to_target s' = to_target s1 @ take (allowance s1 ?m) (packets ws)"
        using less.prems ws sh f st(1) a True by (intro less.hyps) (auto simp: spent_def)
      then obtain s' c' where l': "capsule_loop (\<lambda>_. None) now (s1, c1) = ((s', c'), Continue)" "capsules s' = d" "b \<le> deadline s'"
        "spent (allowance s1 ?m) (s1, c1) (s', c')" "to_target s' = to_target s1 @ take (allowance s1 ?m) (packets ws)" by blast
      have "spent (allowance s (Suc ?m)) (s, c) (s', c')" using spent_add[OF f(2) l'(4)] st(1) a by simp
      moreover have "to_target s' = to_target s @ take (allowance s (Suc ?m)) (p # packets ws)"
        using l'(5) f(2,3) st(2) a by simp
      moreover have "capsule_loop (\<lambda>_. None) now (s, c) = ((s', c'), Continue)"
        using n item True f(1) l'(1) by (simp add: capsule_loop.simps[of _ _ "(s, c)"])
      ultimately show ?thesis using l'(2,3) ws True by auto
    qed
  qed
qed

text \<open>A chunk that arrives in time, with a socket that takes every packet.\<close>

definition chunk_turn :: "nat \<Rightarrow> nat \<Rightarrow> turn \<Rightarrow> bytes \<Rightarrow> bool" where
  "chunk_turn lo hi t x \<longleftrightarrow> entered t < hi \<and> (\<exists>n<hi. source t = Some (n, StreamRead (Inr (Some x)))) \<and>
     lo \<le> done_at t \<and> sends t = (\<lambda>_. None)"

lemma session_run_chunks:
  assumes "list_all2 (chunk_turn lo (lo + stall_budget s)) ts cs"
    and "feed_chunks next_capsule capsules_of capsule_push (capsules s) cs = Some (vs, d, None)"
    and "affords (s, c) (length (packets vs))" "list_all (\<lambda>p. length p \<le> MAX_UDP_PAYLOAD) (packets vs)"
    and "lo + stall_budget s \<le> deadline s"
  shows "\<exists>s' c'. session_run (s, c) ts = ((s', c'), Running) \<and> capsules s' = d
    \<and> spent (allowance s (length (packets vs))) (s, c) (s', c')
    \<and> to_target s' = to_target s @ take (allowance s (length (packets vs))) (packets vs)"
  using assms
proof (induction ts arbitrary: cs s c vs)
  case Nil
  have "allowance s 0 = 0" by (simp add: allowance_def split: option.split)
  with Nil spent_zero[of s s c] show ?case by auto
next
  case (Cons t ts)
  from Cons.prems(1) obtain x cs' where cs: "cs = x # cs'" "chunk_turn lo (lo + stall_budget s) t x"
    "list_all2 (chunk_turn lo (lo + stall_budget s)) ts cs'"
    by (auto simp: list_all2_Cons1)
  from Cons.prems(2) cs(1) obtain us ws d' where d: "drain next_capsule capsules_of (capsule_push (capsules s) x) = Some (us, d', None)"
    "feed_chunks next_capsule capsules_of capsule_push d' cs' = Some (ws, d, None)" "vs = us @ ws"
    by (auto simp: emit_def split: option.splits)
  let ?s = "s\<lparr>capsules := capsule_push (capsules s) x\<rparr>"
  have "affords (s, c) (length (packets us))"
    using Cons.prems(3) d(3) by (auto simp: affords_def split: option.splits)
  then obtain s1 c1 where s1: "capsule_loop (\<lambda>_. None) (done_at t) (?s, c) = ((s1, c1), Continue)" "capsules s1 = d'"
    "lo + stall_budget s \<le> deadline s1" "spent (allowance s (length (packets us))) (s, c) (s1, c1)"
    "to_target s1 = to_target s @ take (allowance s (length (packets us))) (packets us)"
    using capsule_loop_drain[of ?s us d' c "lo + stall_budget s" "done_at t"] d(1,3) Cons.prems(4,5) cs(2)
    by (auto simp: chunk_turn_def)
  have st: "stall_budget s1 = stall_budget s" using s1(4) by (simp add: spent_def)
  have turn: "session_turn (s, c) t = ((s1, c1), Running)"
    using cs(2) Cons.prems(5) s1(1)
    by (auto simp: session_turn_def before_deadline_def chunk_turn_def handle_stream_chunk_def)
  have aff: "affords (s, c) (length (packets us) + length (packets ws))" using Cons.prems(3) d(3) by simp
  note add = allowance_add[OF s1(4) aff]
  have "\<exists>s' c'. session_run (s1, c1) ts = ((s', c'), Running) \<and> capsules s' = d
    \<and> spent (allowance s1 (length (packets ws))) (s1, c1) (s', c')
    \<and> to_target s' = to_target s1 @ take (allowance s1 (length (packets ws))) (packets ws)"
    using cs(3) d s1(2,3) st add Cons.prems(4) by (intro Cons.IH) simp_all
  then obtain s' c' where r: "session_run (s1, c1) ts = ((s', c'), Running)" "capsules s' = d"
    "spent (allowance s1 (length (packets ws))) (s1, c1) (s', c')"
    "to_target s' = to_target s1 @ take (allowance s1 (length (packets ws))) (packets ws)" by blast
  from spent_add[OF s1(4) r(3)] add have "spent (allowance s (length (packets vs))) (s, c) (s', c')" using d(3) by simp
  moreover have "to_target s' = to_target s @ take (allowance s (length (packets vs))) (packets vs)"
    using r(4) s1(5) take_allowance[OF s1(4) aff] d(3) by simp
  ultimately show ?case using turn r(1,2) by auto
qed

section \<open>Properties\<close>

text \<open>
  C7. Reflection is bounded: however the sessions of a connection are opened and their turns interleave,
  what is left of the connection's budget and what its sessions hold charged add up to the total the
  connection began with. With a budget configured, no session whose target has not sent it a single
  packet has sent that target more packets than the budget, and all such sessions together, those that
  are over included, no more than eight times that. No session crashes.
\<close>

theorem unanswered_budget_bound:
  "let g = foldl udp_apply (udp_start cfg peer gt) ops
   in unat (unanswered_connection_budget (conn_ctx g)) + charges g
        = unat (saturating_mul (set_unanswered cfg) CONNECTION_UNANSWERED_MULTIPLIER)
    \<and> (if 0 < set_unanswered cfg
       then list_all (\<lambda>s. length (to_target s) \<le> unat (set_unanswered cfg)) (silent g)
          \<and> (\<Sum>s\<leftarrow>silent g. length (to_target s)) \<le> 8 * unat (set_unanswered cfg) else True)
    \<and> Crashed \<notin> snd ` set (udp_live g)"
proof -
  let ?g = "foldl udp_apply (udp_start cfg peer gt) ops"
  have i: "udp_inv ?g" by (rule udp.inv_reached)
  have "limits_of ?g = limits_of (udp_start cfg peer gt)"
    using udp.run_conserved[of limits_of] limits_of_op udp.inv_start by blast
  then have l: "unanswered_packet_budget (conn_ctx ?g) = set_unanswered cfg"
    "unanswered_connection_total (conn_ctx ?g) = saturating_mul (set_unanswered cfg) CONNECTION_UNANSWERED_MULTIPLIER"
    by (simp_all add: limits_of_def udp_start_def context_new_def Let_def)
  have "charges ?g \<le> unat (set_unanswered cfg) * 8"
    using i l unat_saturating_mul_le[of "set_unanswered cfg" CONNECTION_UNANSWERED_MULTIPLIER]
    by (simp add: udp_inv_def CONNECTION_UNANSWERED_MULTIPLIER_def)
  moreover have "list_all (\<lambda>s. length (to_target s) \<le> unat (set_unanswered cfg)) (silent ?g)"
    "(\<Sum>s\<leftarrow>silent ?g. length (to_target s)) \<le> charges ?g" if "0 < set_unanswered cfg"
  proof -
    have "unanswered_packet_budget (conn_ctx ?g) \<noteq> 0" using that l(1) by auto
    from silent_paid[OF i this] l(1) show "list_all (\<lambda>s. length (to_target s) \<le> unat (set_unanswered cfg)) (silent ?g)"
      "(\<Sum>s\<leftarrow>silent ?g. length (to_target s)) \<le> charges ?g" by (auto simp: list_all_iff)
  qed
  ultimately show ?thesis
    using i l by (auto simp: Let_def udp_inv_def list_all_iff)
qed

text \<open>
  C21. What the client writes as capsules is what the target is sent, as far as the budget allows. Take any
  sequence of well-formed capsules, cut into chunks in any way, that arrives within the idle timeout at a
  session whose target sends nothing meanwhile and whose socket takes every packet. The UDP payloads of
  the DATAGRAM capsules with context 0 are forwarded in order, other contexts and unknown types are
  dropped: all of them when the session pays for nothing any more, and otherwise as many, from the first
  on, as its own budget has left, provided its connection can pay for those. Each one forwarded is charged
  to both budgets, and the session is left running at a capsule boundary.
\<close>

theorem capsules_to_target:
  assumes "list_all wire_valid ws" "concat cs = concat (map wire_bytes ws)" "cs \<noteq> []"
    and "ps = packets (concat (map wire_items ws))" "list_all (\<lambda>p. length p \<le> MAX_UDP_PAYLOAD) ps"
    and "capsules s = capsule_new" "lo + stall_budget s \<le> deadline s"
    and "list_all2 (chunk_turn lo (lo + stall_budget s)) ts cs" "affords (s, c) (length ps)"
  shows "\<exists>s' c'. session_run (s, c) ts = ((s', c'), Running) \<and> at_capsule_boundary (capsules s')
    \<and> to_target s' = to_target s @ take (allowance s (length ps)) ps
    \<and> (case unanswered_budget s of
         None \<Rightarrow> allowance s (length ps) = length ps \<and> c' = c
       | Some r \<Rightarrow> allowance s (length ps) = min (unat r) (length ps)
           \<and> unanswered_budget s' = Some (r - of_nat (allowance s (length ps)))
           \<and> c' = c\<lparr>unanswered_connection_budget := unanswered_connection_budget c - of_nat (allowance s (length ps))\<rparr>)"
proof -
  let ?d = "capsule_push capsule_new (concat cs)"
  have "drain next_capsule capsules_of ?d = Some (concat (map wire_items ws), ?d\<lparr>buffer := []\<rparr>, None)"
    using assms(1,2) by (intro drain_wires) (simp_all add: capsule_new_def)
  then obtain d where "feed_chunks next_capsule capsules_of capsule_push capsule_new cs
      = Some (concat (map wire_items ws), d, None)" "at_capsule_boundary d"
    using cd.feed_chunks_concat[of cs capsule_new] assms(3)
    by (auto simp: outcome_def at_capsule_boundary_def capsule_new_def split: option.splits)
  with session_run_chunks[OF assms(8), of "concat (map wire_items ws)" d c] assms(4-7,9)
  obtain s' c' where r: "session_run (s, c) ts = ((s', c'), Running)" "at_capsule_boundary (capsules s')"
    "spent (allowance s (length ps)) (s, c) (s', c')" "to_target s' = to_target s @ take (allowance s (length ps)) ps"
    by auto
  then show ?thesis
    by (intro exI[of _ s'] exI[of _ c']) (auto simp: spent_def allowance_def split: option.splits)
qed

text \<open>The instance: a fresh session under the default budget of 64 packets.\<close>

theorem capsules_to_target_witness:
  "let c = context_new (sample_settings\<lparr>set_unanswered := 64\<rparr>) True False; s = session_new c 0 [] [] 5 0
   in \<exists>s'. session_run (s, c)
     [\<lparr>entered = 0, source = Some (1, StreamRead (Inr (Some [0, 2, 0]))), done_at = 1, sends = (\<lambda>_. None),
        quic = \<lparr>max_datagram_size = None, send_buffer_space = 0, capsule_write = Taken\<rparr>\<rparr>,
      \<lparr>entered = 1, source = Some (3, StreamRead (Inr (Some [9, 0x21, 1, 7]))), done_at = 3, sends = (\<lambda>_. None),
        quic = \<lparr>max_datagram_size = None, send_buffer_space = 0, capsule_write = Taken\<rparr>\<rparr>]
     = ((s', c\<lparr>unanswered_connection_budget := unanswered_connection_budget c - 1\<rparr>), Running)
   \<and> to_target s' = [[9]] \<and> unanswered_budget s' = Some 63"
proof -
  let ?c = "context_new (sample_settings\<lparr>set_unanswered := 64\<rparr>) True False"
  let ?s = "session_new ?c 0 [] [] 5 0" and ?ws = "[WireDatagram 0 [9], WireUnknown 0x21 [7]]"
  let ?q = "\<lparr>max_datagram_size = None, send_buffer_space = 0, capsule_write = Taken\<rparr>"
  let ?ts = "[\<lparr>entered = 0, source = Some (1, StreamRead (Inr (Some [0, 2, 0]))), done_at = 1, sends = (\<lambda>_. None), quic = ?q\<rparr>,
    \<lparr>entered = 1, source = Some (3, StreamRead (Inr (Some [9, 0x21, 1, 7]))), done_at = 3, sends = (\<lambda>_. None), quic = ?q\<rparr>]"
  have ps: "packets (concat (map wire_items ?ws)) = [[9]]" by (simp add: CONTEXT_ID_UDP_PAYLOAD_def)
  have b: "unanswered_budget ?s = Some 64" "to_target ?s = []" by (simp_all add: session_new_def context_new_def Let_def)
  have "\<exists>s' c'. session_run (?s, ?c) ?ts = ((s', c'), Running) \<and> at_capsule_boundary (capsules s')
    \<and> to_target s' = to_target ?s @ take (allowance ?s (length [[9 :: byte]])) [[9]]
    \<and> (case unanswered_budget ?s of
         None \<Rightarrow> allowance ?s (length [[9 :: byte]]) = length [[9 :: byte]] \<and> c' = ?c
       | Some r \<Rightarrow> allowance ?s (length [[9 :: byte]]) = min (unat r) (length [[9 :: byte]])
           \<and> unanswered_budget s' = Some (r - of_nat (allowance ?s (length [[9 :: byte]])))
           \<and> c' = ?c\<lparr>unanswered_connection_budget := unanswered_connection_budget ?c - of_nat (allowance ?s (length [[9 :: byte]]))\<rparr>)"
    by (rule capsules_to_target[where ws = ?ws and cs = "[[0, 2, 0], [9, 0x21, 1, 7]]" and lo = 0])
      (simp_all add: ps VARINT_MAX_eq MAX_DATAGRAM_CAPSULE_VALUE_eq CAPSULE_TYPE_DATAGRAM_def varint_len_def MAX_UDP_PAYLOAD_def
        encode_datagram_def enc_varint_def put_varint_def session_new_def context_new_def Let_def chunk_turn_def affords_def
        saturating_mul_def CONNECTION_UNANSWERED_MULTIPLIER_def CONTEXT_ID_UDP_PAYLOAD_def)
  then show ?thesis by (auto simp: Let_def b allowance_def)
qed

text \<open>
  C25. A packet from the target reaches the client intact: over QUIC datagrams, when the client allows them
  and it fits, as exactly one datagram of the session that decodes to it, and otherwise is dropped without
  ending the session; without datagrams, as one DATA frame on the request stream that holds exactly one
  capsule, which a decoder reads back as the packet. Either way the session no longer pays for packets.
\<close>

theorem packet_to_client:
  assumes "quarter_id s \<le> MAX_QUARTER_STREAM_ID" "length p \<le> MAX_UDP_PAYLOAD"
  shows "case forward_to_client q now (s, c) p of ((s', c'), r) \<Rightarrow>
     unanswered_budget s' = None \<and> to_target s' = to_target s \<and>
     (case datagram_limit c q of
        Some lim \<Rightarrow> r = Returned Continue \<and> writer s' = writer s \<and>
          (if encoded_len (quarter_id s) CONTEXT_ID_UDP_PAYLOAD (length p) \<le> lim
           then \<exists>w. to_client s' = to_client s @ [w] \<and> length w \<le> lim \<and>
                  decode w = Inr \<lparr>quarter_stream_id = quarter_id s, context_id = 0, payload = p\<rparr>
           else to_client s' = to_client s)
      | None \<Rightarrow> to_client s' = to_client s \<and>
          (if capsule_write q = Taken
           then r = Returned Continue \<and>
             (\<exists>bs. writer s' = writer s @ [Written (enc_varint DATA @ enc_varint (of_nat (length bs)) @ bs)] \<and>
                drain next_capsule capsules_of (capsule_push capsule_new bs) = Some ([CapsuleDatagram 0 p], capsule_new, None))
           else writer s' \<noteq> writer s \<and> r \<noteq> Returned Continue))"
proof -
  let ?c = "refund_unanswered c (charged_unanswered s)"
  have lim: "datagram_limit ?c q = datagram_limit c q" by (simp add: datagram_limit_def refund_unanswered_def)
  show ?thesis
  proof (cases "datagram_limit c q")
    case None
    let ?w = "WireDatagram CONTEXT_ID_UDP_PAYLOAD p"
    have "drain next_capsule capsules_of (capsule_push capsule_new (wire_bytes ?w))
        = Some (wire_items ?w, capsule_new, None)"
      using drain_wires[of "[?w]" "capsule_push capsule_new (wire_bytes ?w)"] capsule_of_packet(1)[OF assms(2)]
      by (simp add: capsule_new_def del: wire_bytes.simps wire_valid.simps)
    then show ?thesis using None lim
      by (cases "capsule_write q")
        (auto simp: forward_to_client_def Let_def touch_def reset_writer_def reset_half_def CONTEXT_ID_UDP_PAYLOAD_def[symmetric]
          capsule_of_packet(2)[OF assms(2)] send_packet_capsule[OF assms(2) refl] simp del: wire_bytes.simps)
  next
    case (Some lim)
    have q: "quarter_id s \<le> VARINT_MAX"
      using assms(1) by (simp add: VARINT_MAX_eq MAX_QUARTER_STREAM_ID_eq word_le_nat_alt)
    have "decode (enc_varint (quarter_id s) @ enc_varint CONTEXT_ID_UDP_PAYLOAD @ p) = Inr \<lparr>quarter_stream_id = quarter_id s, context_id = 0, payload = p\<rparr>"
      "length (enc_varint (quarter_id s) @ enc_varint CONTEXT_ID_UDP_PAYLOAD @ p) = encoded_len (quarter_id s) CONTEXT_ID_UDP_PAYLOAD (length p)"
      using assms(1) q by (simp_all add: decode_def length_enc_varint encoded_len_def CONTEXT_ID_UDP_PAYLOAD_def VARINT_MAX_eq not_less)
    with Some lim show ?thesis
      by (simp add: forward_to_client_def Let_def touch_def encode_udp_payload_some[OF assms(1)] grade_def split: prod.split option.split)
  qed
qed

theorem packet_to_client_witness:
  "case forward_to_client \<lparr>max_datagram_size = Some 1200, send_buffer_space = 9000, capsule_write = Taken\<rparr> 3
      (session_new (context_new sample_settings True False) 4 [] [] 5 0, context_new sample_settings True False) [7, 8] of
     ((s', c'), r) \<Rightarrow> r = Returned Continue \<and> (\<exists>w. to_client s' = [w] \<and> length w \<le> 1200 \<and>
       decode w = Inr \<lparr>quarter_stream_id = 1, context_id = 0, payload = [7, 8]\<rparr>)"
proof -
  let ?q = "\<lparr>max_datagram_size = Some 1200, send_buffer_space = 9000, capsule_write = Taken\<rparr>"
  let ?c = "context_new sample_settings True False"
  let ?s = "session_new ?c 4 [] [] 5 0"
  have "quarter_id ?s \<le> MAX_QUARTER_STREAM_ID" "length [7, 8 :: byte] \<le> MAX_UDP_PAYLOAD"
    by (simp_all add: session_new_def quarter_stream_id_of_def MAX_QUARTER_STREAM_ID_eq MAX_UDP_PAYLOAD_def)
  moreover have "datagram_limit ?c ?q = Some 1200" "quarter_id ?s = 1" "to_client ?s = []"
    "encoded_len 1 CONTEXT_ID_UDP_PAYLOAD (length [7, 8 :: byte]) \<le> 1200"
    by (simp_all add: datagram_limit_def context_new_def Let_def session_new_def quarter_stream_id_of_def
        encoded_len_def varint_len_def CONTEXT_ID_UDP_PAYLOAD_def)
  ultimately show ?thesis
    using packet_to_client[where s = ?s and p = "[7, 8]" and q = ?q and now = 3 and c = ?c] by auto
qed

end
