(* ===== verification/Tcp_Relay.thy ===== *)
theory Tcp_Relay
  imports Exchange Runs "HOL-Library.Sublist"
begin

text \<open>
  The two pumps of a TCP tunnel, \<^verbatim>\<open>client_to_target\<close> and \<^verbatim>\<open>target_to_client\<close> of
  \<^verbatim>\<open>src/src/tunnel/tcp.rs\<close>, with the teardown channel and the two half-close flags they share. Both run
  in one task (\<^verbatim>\<open>join!\<close>), so between two waits a pump is atomic: one operation of the model is one poll of
  one pump, and the event says which arm of its \<^verbatim>\<open>select!\<close> was ready. The arms are biased: a teardown that
  was raised wins over every event. What the pumps call on the request stream and on the target's socket
  is recorded in order; the bytes that entered each direction are kept beside those that left it.
\<close>

section \<open>State\<close>

definition RELAY_BUF_SIZE :: nat where "RELAY_BUF_SIZE = 16 * 1024"
definition RELAY_BLOCK_SIZE :: nat where "RELAY_BLOCK_SIZE = 64 * 1024"

datatype teardown = StillRunning | ClientAbort | TargetError

fun teardown_code :: "teardown \<Rightarrow> code" where
  "teardown_code TargetError = H3_CONNECT_ERROR"
| "teardown_code ClientAbort = H3_REQUEST_CANCELLED"
| "teardown_code StillRunning = H3_REQUEST_CANCELLED"

datatype pump = Reading | Writing bytes | Ended | PumpPanicked

record relay =
  client_pump :: pump
  target_pump :: pump
  torn :: teardown
  client_finished :: bool
  target_eof :: bool
  stop_codes :: "code list"
  response :: send_half
  tcp_written :: bytes
  tcp_shutdown :: bool
  tcp_forgotten :: bool
  tcp_linger_zero :: bool
  room :: nat
  blocks :: nat
  client_data :: bytes
  target_data :: bytes
  sent_chunks :: "bytes list"

text \<open>\<^verbatim>\<open>torn_down\<close>: the reason, once there is one. The sender outlives both pumps.\<close>

definition torn_down :: "relay \<Rightarrow> teardown option" where
  "torn_down s = (if torn s \<noteq> StillRunning then Some (torn s) else None)"

definition abort_target :: "relay \<Rightarrow> relay" where
  "abort_target s = s\<lparr>tcp_linger_zero := True\<rparr>"

text \<open>A write half that is dropped shuts the socket's write side down, unless it was forgotten.\<close>

definition drop_write_half :: "relay \<Rightarrow> relay" where
  "drop_write_half s = (if tcp_forgotten s then s else s\<lparr>tcp_shutdown := True\<rparr>)"

definition forget_write_half :: "relay \<Rightarrow> relay" where
  "forget_write_half s = s\<lparr>tcp_forgotten := True\<rparr>"

definition raise_teardown :: "teardown \<Rightarrow> relay \<Rightarrow> relay" where
  "raise_teardown r s = s\<lparr>torn := r\<rparr>"

definition stop_receiving :: "code \<Rightarrow> relay \<Rightarrow> relay" where
  "stop_receiving c s = s\<lparr>stop_codes := stop_codes s @ [c]\<rparr>"

definition client_aborted :: "relay \<Rightarrow> relay" where
  "client_aborted s = raise_teardown ClientAbort (forget_write_half (abort_target s))"

section \<open>From the client to the target\<close>

text \<open>
  What a poll finds: a result of \<^verbatim>\<open>recv_data\<close>; bytes the target took of the write in progress, or an
  error after some; that the client reset the stream; that a write has been outstanding for a whole
  budget; or nothing.
\<close>

datatype client_event =
    ClientRead "stream_error + bytes option"
  | TargetTook nat
  | TargetRefused nat
  | ClientReset stream_error
  | TargetStalled
  | ClientIdle

definition client_to_target :: "relay \<Rightarrow> client_event \<Rightarrow> relay" where
  "client_to_target s ev =
     (case (client_pump s, torn_down s) of
        (Ended, _) \<Rightarrow> s
      | (PumpPanicked, _) \<Rightarrow> s
      | (_, Some reason) \<Rightarrow> (forget_write_half (stop_receiving (teardown_code reason) s))\<lparr>client_pump := Ended\<rparr>
      | (Reading, None) \<Rightarrow>
          (case ev of
             ClientRead (Inr (Some bs)) \<Rightarrow> s\<lparr>client_pump := Writing bs, client_data := client_data s @ bs\<rparr>
           | ClientRead (Inr None) \<Rightarrow> s\<lparr>client_finished := True, tcp_shutdown := True, client_pump := Ended\<rparr>
           | ClientRead (Inl _) \<Rightarrow> (client_aborted s)\<lparr>client_pump := Ended\<rparr>
           | _ \<Rightarrow> s)
      | (Writing bs, None) \<Rightarrow>
          (case ev of
             TargetTook n \<Rightarrow>
               s\<lparr>tcp_written := tcp_written s @ take n bs,
                 client_pump := (if n < length bs then Writing (drop n bs) else Reading)\<rparr>
           | TargetRefused n \<Rightarrow>
               (drop_write_half (raise_teardown TargetError (stop_receiving H3_CONNECT_ERROR
                  (s\<lparr>tcp_written := tcp_written s @ take n bs\<rparr>))))\<lparr>client_pump := Ended\<rparr>
           | ClientReset _ \<Rightarrow> (client_aborted s)\<lparr>client_pump := Ended\<rparr>
           | TargetStalled \<Rightarrow>
               if target_eof s
               then (raise_teardown TargetError (forget_write_half (abort_target (stop_receiving H3_CONNECT_ERROR s))))\<lparr>client_pump := Ended\<rparr>
               else s
           | _ \<Rightarrow> s))"

section \<open>From the target to the client\<close>

definition ensure_window :: "relay \<Rightarrow> relay" where
  "ensure_window s = (if room s < RELAY_BUF_SIZE then s\<lparr>room := RELAY_BLOCK_SIZE, blocks := blocks s + 1\<rparr> else s)"

datatype target_event =
    TargetRead "unit + bytes"
  | ClientStopped stream_error
  | Sending write_outcome
  | SendStalled nat
  | TargetIdle

text \<open>
  A read fills what room the block has; the bytes handed on take it away. A send that has not been taken
  whole is still in progress when its outcome is to stall.
\<close>

definition target_to_client :: "relay \<Rightarrow> target_event \<Rightarrow> relay" where
  "target_to_client s ev =
     (case (target_pump s, torn_down s) of
        (Ended, _) \<Rightarrow> s
      | (PumpPanicked, _) \<Rightarrow> s
      | (ph, Some reason) \<Rightarrow>
          (let w = (case (ph, ev) of (Writing bs, Sending (Stalled n)) \<Rightarrow> fst (send_data (response s) bs (Stalled n)) | _ \<Rightarrow> response s)
           in s\<lparr>response := reset_half w (teardown_code reason), target_pump := Ended\<rparr>)
      | (Reading, None) \<Rightarrow>
          (let s = ensure_window s
           in case ev of
             TargetRead (Inr bs) \<Rightarrow>
               (let got = take (room s) bs
                in if got = [] then s\<lparr>target_eof := True, response := response s @ [FinSent], target_pump := Ended\<rparr>
                   else s\<lparr>target_pump := Writing got, room := room s - length got, target_data := target_data s @ got\<rparr>)
           | TargetRead (Inl _) \<Rightarrow>
               (raise_teardown TargetError (s\<lparr>response := reset_half (response s) H3_CONNECT_ERROR\<rparr>))\<lparr>target_pump := Ended\<rparr>
           | ClientStopped _ \<Rightarrow> (raise_teardown ClientAbort (abort_target s))\<lparr>target_pump := Ended\<rparr>
           | _ \<Rightarrow> s)
      | (Writing bs, None) \<Rightarrow>
          (case ev of
             Sending out \<Rightarrow>
               (case send_data (response s) bs out of
                  (w, Returned (Inr _)) \<Rightarrow> s\<lparr>response := w, target_pump := Reading, sent_chunks := sent_chunks s @ [bs]\<rparr>
                | (w, Returned (Inl _)) \<Rightarrow> (raise_teardown ClientAbort (abort_target (s\<lparr>response := w\<rparr>)))\<lparr>target_pump := Ended\<rparr>
                | (_, Waiting) \<Rightarrow> s
                | (_, Panicked) \<Rightarrow> s\<lparr>target_pump := PumpPanicked\<rparr>)
           | SendStalled n \<Rightarrow>
               if client_finished s
               then (raise_teardown ClientAbort (abort_target
                      (s\<lparr>response := reset_half (fst (send_data (response s) bs (Stalled n))) H3_REQUEST_CANCELLED\<rparr>)))\<lparr>target_pump := Ended\<rparr>
               else s
           | _ \<Rightarrow> s))"

section \<open>The tunnel\<close>

definition relay_new :: "send_half \<Rightarrow> code list \<Rightarrow> relay" where
  "relay_new w stop =
     \<lparr>client_pump = Reading, target_pump = Reading, torn = StillRunning, client_finished = False, target_eof = False,
      stop_codes = stop, response = w, tcp_written = [], tcp_shutdown = False, tcp_forgotten = False,
      tcp_linger_zero = False, room = RELAY_BUF_SIZE, blocks = 0, client_data = [], target_data = [], sent_chunks = []\<rparr>"

datatype relay_op = ClientPoll client_event | TargetPoll target_event

fun relay_apply :: "relay \<Rightarrow> relay_op \<Rightarrow> relay" where
  "relay_apply s (ClientPoll ev) = client_to_target s ev"
| "relay_apply s (TargetPoll ev) = target_to_client s ev"

lemmas relay_helpers = torn_down_def abort_target_def drop_write_half_def forget_write_half_def raise_teardown_def
  stop_receiving_def client_aborted_def ensure_window_def

section \<open>Invariant\<close>

fun unsent :: "pump \<Rightarrow> bytes" where
  "unsent (Writing bs) = bs"
| "unsent _ = []"

definition data_frame :: "bytes \<Rightarrow> bytes" where
  "data_frame bs = enc_varint DATA @ enc_varint (of_nat (length bs)) @ bs"

text \<open>What each ending of a direction leaves behind.\<close>

definition response_ended :: "send_half \<Rightarrow> relay \<Rightarrow> bool" where
  "response_ended w s \<longleftrightarrow>
     (let sent = w @ map (Written \<circ> data_frame) (sent_chunks s)
      in if target_eof s then response s = sent @ [FinSent] \<and> concat (sent_chunks s) = target_data s
         else (\<exists>part. response s = sent @ part @ [ResetWith (teardown_code (torn s))] \<and> set part \<subseteq> range Written \<and> torn s \<noteq> StillRunning)
           \<or> (\<exists>part. response s = sent @ part \<and> set part \<subseteq> range Written \<and> torn s = ClientAbort))"

definition request_ended :: "code list \<Rightarrow> relay \<Rightarrow> bool" where
  "request_ended stop s \<longleftrightarrow>
     (if client_finished s then stop_codes s = stop \<and> tcp_shutdown s \<and> tcp_written s = client_data s
      else torn s \<noteq> StillRunning \<and> (stop_codes s = stop @ [teardown_code (torn s)] \<or> stop_codes s = stop \<and> torn s = ClientAbort)
        \<and> (if tcp_shutdown s then torn s = TargetError else tcp_forgotten s))"

definition request_inv :: "code list \<Rightarrow> relay \<Rightarrow> bool" where
  "request_inv stop s \<longleftrightarrow> prefix (tcp_written s) (client_data s) \<and> client_pump s \<noteq> PumpPanicked \<and>
     (if client_pump s = Ended then request_ended stop s
      else client_data s = tcp_written s @ unsent (client_pump s) \<and>
        \<not> client_finished s \<and> \<not> tcp_shutdown s \<and> \<not> tcp_forgotten s \<and> stop_codes s = stop)"

definition response_inv :: "send_half \<Rightarrow> relay \<Rightarrow> bool" where
  "response_inv w s \<longleftrightarrow> prefix (concat (sent_chunks s)) (target_data s) \<and> target_pump s \<noteq> PumpPanicked \<and>
     length (unsent (target_pump s)) \<le> RELAY_BLOCK_SIZE \<and> room s \<le> RELAY_BLOCK_SIZE \<and>
     (if target_pump s = Ended then response_ended w s
      else target_data s = concat (sent_chunks s) @ unsent (target_pump s) \<and>
        \<not> target_eof s \<and> response s = w @ map (Written \<circ> data_frame) (sent_chunks s))"

definition linger_inv :: "relay \<Rightarrow> bool" where
  "linger_inv s \<longleftrightarrow>
     (case torn s of StillRunning \<Rightarrow> \<not> tcp_linger_zero s | ClientAbort \<Rightarrow> tcp_linger_zero s | TargetError \<Rightarrow> True)"

definition relay_inv :: "send_half \<Rightarrow> code list \<Rightarrow> relay \<Rightarrow> bool" where
  "relay_inv w stop s \<longleftrightarrow> request_inv stop s \<and> response_inv w s \<and> linger_inv s"

lemma pump_over [simp]:
  "client_pump s = Ended \<Longrightarrow> client_to_target s ev = s"
  "target_pump s = Ended \<Longrightarrow> target_to_client s ev' = s"
  by (simp_all add: client_to_target_def target_to_client_def)

text \<open>A teardown is raised once, while it is still running; the other direction's ending does not see it change.\<close>

lemma torn_client: "torn s \<noteq> StillRunning \<Longrightarrow> torn (client_to_target s ev) = torn s"
  by (cases "client_pump s"; cases "torn s") (auto simp: client_to_target_def relay_helpers)

lemma torn_target: "torn s \<noteq> StillRunning \<Longrightarrow> torn (target_to_client s ev) = torn s"
  by (cases "target_pump s"; cases "torn s") (auto simp: target_to_client_def relay_helpers Let_def)

lemma request_inv_client:
  assumes "request_inv stop s"
  shows "request_inv stop (client_to_target s ev)"
proof (cases "client_pump s = Ended")
  case True
  with assms show ?thesis by simp
next
  case False
  with assms have i: "client_data s = tcp_written s @ unsent (client_pump s)" "\<not> client_finished s"
    "\<not> tcp_shutdown s" "\<not> tcp_forgotten s" "stop_codes s = stop" "client_pump s \<noteq> PumpPanicked"
    by (simp_all add: request_inv_def)
  show ?thesis
  proof (cases "torn s = StillRunning")
    case False
    with i \<open>client_pump s \<noteq> Ended\<close> show ?thesis
      by (cases "client_pump s") (simp_all add: request_inv_def request_ended_def client_to_target_def relay_helpers)
  next
    case True
    show ?thesis
    proof (cases "client_pump s")
      case Reading
      with i True show ?thesis
        by (simp add: request_inv_def request_ended_def client_to_target_def relay_helpers
            split: client_event.split sum.split option.split)
    next
      case (Writing bs)
      with i True show ?thesis
        by (simp add: request_inv_def request_ended_def client_to_target_def relay_helpers take_is_prefix
            split: client_event.split)
    qed (use i False in simp_all)
  qed
qed

lemma response_inv_client:
  assumes "response_inv w s"
  shows "response_inv w (client_to_target s ev)"
proof -
  let ?s = "client_to_target s ev"
  have same: "target_pump ?s = target_pump s" "sent_chunks ?s = sent_chunks s" "target_data ?s = target_data s"
    "target_eof ?s = target_eof s" "response ?s = response s" "room ?s = room s"
    by (auto simp: client_to_target_def relay_helpers split: pump.split option.split client_event.split sum.split)
  show ?thesis
  proof (cases "torn s = StillRunning")
    case True
    with assms same show ?thesis by (auto simp: response_inv_def response_ended_def Let_def split: if_splits)
  next
    case False
    with assms same torn_client[OF False] show ?thesis
      by (auto simp: response_inv_def response_ended_def Let_def split: if_splits)
  qed
qed

lemma request_inv_target:
  assumes "request_inv stop s"
  shows "request_inv stop (target_to_client s ev)"
proof -
  let ?s = "target_to_client s ev"
  have same: "client_pump ?s = client_pump s" "client_data ?s = client_data s" "tcp_written ?s = tcp_written s"
    "client_finished ?s = client_finished s" "stop_codes ?s = stop_codes s" "tcp_shutdown ?s = tcp_shutdown s"
    "tcp_forgotten ?s = tcp_forgotten s"
    by (auto simp: target_to_client_def relay_helpers Let_def
        split: pump.split option.split target_event.split sum.split prod.split poll.split)
  show ?thesis
  proof (cases "torn s = StillRunning")
    case True
    with assms same show ?thesis by (auto simp: request_inv_def request_ended_def split: if_splits)
  next
    case False
    with assms same torn_target[OF False] show ?thesis
      by (auto simp: request_inv_def request_ended_def split: if_splits)
  qed
qed

lemma send_data_frame:
  assumes "length bs \<le> RELAY_BLOCK_SIZE"
  shows "send_data w bs x = write_all_chunks w (data_frame bs) x"
proof -
  have "of_nat (length bs) \<le> VARINT_MAX"
    using assms by (intro of_nat_le_VARINT_MAX) (simp add: VARINT_MAX_eq RELAY_BLOCK_SIZE_def)
  then show ?thesis by (simp add: send_data_def put_header_enc VARINT_MAX_eq DATA_def data_frame_def)
qed

lemma response_inv_target:
  assumes "response_inv w s"
  shows "response_inv w (target_to_client s ev)"
proof (cases "target_pump s")
  case Reading
  with assms show ?thesis
    by (cases "torn s"; cases ev)
      (auto simp: response_inv_def response_ended_def target_to_client_def relay_helpers Let_def reset_half_def
        RELAY_BUF_SIZE_def RELAY_BLOCK_SIZE_def split: sum.split)
next
  case (Writing bs)
  with assms have "send_data v bs x = write_all_chunks v (data_frame bs) x" for v x
    by (intro send_data_frame) (simp add: response_inv_def)
  note send = this
  show ?thesis
  proof (cases "torn s = StillRunning")
    case True
    with assms Writing show ?thesis
    proof (cases ev)
      case (Sending x)
      with assms Writing True show ?thesis
        by (cases x) (auto simp: response_inv_def response_ended_def target_to_client_def relay_helpers send)
    qed (auto simp: response_inv_def response_ended_def target_to_client_def relay_helpers send reset_half_def)
  next
    case False
    then obtain r where t: "torn_down s = Some r" "r = torn s" "r \<noteq> StillRunning" by (simp add: torn_down_def)
    have "target_to_client s ev = s\<lparr>response := response s @ part @ [ResetWith (teardown_code r)], target_pump := Ended\<rparr> \<and> set part \<subseteq> range Written"
      if "part = (case ev of Sending (Stalled n) \<Rightarrow> [Written (take n (data_frame bs))] | _ \<Rightarrow> [])" for part
      using Writing t that by (auto simp: target_to_client_def send reset_half_def split: target_event.split write_outcome.split)
    then obtain part where p: "set part \<subseteq> range Written"
      "target_to_client s ev = s\<lparr>response := response s @ part @ [ResetWith (teardown_code r)], target_pump := Ended\<rparr>"
      by blast
    have "response s = w @ map (Written \<circ> data_frame) (sent_chunks s)" "\<not> target_eof s"
      "prefix (concat (sent_chunks s)) (target_data s)" "room s \<le> RELAY_BLOCK_SIZE"
      using assms Writing by (simp_all add: response_inv_def)
    with p(1) t show ?thesis by (auto simp: p(2) response_inv_def response_ended_def)
  qed
qed (use assms in \<open>simp_all add: response_inv_def\<close>)

lemma linger_inv_op: "linger_inv s \<Longrightarrow> linger_inv (relay_apply s x)"
  by (cases "(s, x)" rule: relay_apply.cases)
    (auto simp: linger_inv_def client_to_target_def target_to_client_def relay_helpers Let_def
      split: pump.split option.split client_event.split target_event.split sum.split prod.split poll.split teardown.splits)

lemma relay_inv_op: "relay_inv w stop s \<Longrightarrow> relay_inv w stop (relay_apply s x)"
  by (cases "(s, x)" rule: relay_apply.cases)
    (auto simp: relay_inv_def request_inv_client response_inv_client request_inv_target response_inv_target
      dest: linger_inv_op[of s x])

interpretation relay: started_operations relay_apply "relay_inv w stop" "relay_new w stop" for w stop
  by unfold_locales (auto simp: relay_inv_op,
    simp add: relay_inv_def request_inv_def response_inv_def linger_inv_def relay_new_def RELAY_BUF_SIZE_def RELAY_BLOCK_SIZE_def)

section \<open>A direction as a channel\<close>

text \<open>
  What a direction of a tunnel promises: bytes are delivered in the order they were accepted, none lost
  between two that are delivered; it finishes only when all that was accepted has been delivered; and once
  it has finished or was cut nothing more happens on it.
\<close>

datatype fate = Flowing | Finished | Cut

record channel =
  accepted :: bytes
  delivered :: bytes
  fate :: fate

inductive channel_step :: "channel \<Rightarrow> channel \<Rightarrow> bool" where
  accept: "fate c = Flowing \<Longrightarrow> channel_step c (c\<lparr>accepted := accepted c @ bs\<rparr>)"
| deliver: "fate c = Flowing \<Longrightarrow> prefix (delivered c @ bs) (accepted c) \<Longrightarrow> channel_step c (c\<lparr>delivered := delivered c @ bs\<rparr>)"
| finish: "fate c = Flowing \<Longrightarrow> delivered c = accepted c \<Longrightarrow> channel_step c (c\<lparr>fate := Finished\<rparr>)"
| cut: "fate c = Flowing \<Longrightarrow> channel_step c (c\<lparr>fate := Cut\<rparr>)"

definition channel_new :: channel where
  "channel_new = \<lparr>accepted = [], delivered = [], fate = Flowing\<rparr>"

definition request_channel :: "relay \<Rightarrow> channel" where
  "request_channel s = \<lparr>accepted = client_data s, delivered = tcp_written s,
     fate = (if client_finished s then Finished else if client_pump s = Ended then Cut else Flowing)\<rparr>"

definition response_channel :: "relay \<Rightarrow> channel" where
  "response_channel s = \<lparr>accepted = target_data s, delivered = concat (sent_chunks s),
     fate = (if target_eof s then Finished else if target_pump s = Ended then Cut else Flowing)\<rparr>"

lemma channel_steps:
  "fate c = Flowing \<Longrightarrow> channel_step\<^sup>*\<^sup>* c (c\<lparr>accepted := accepted c @ bs\<rparr>)"
  "fate c = Flowing \<Longrightarrow> prefix (delivered c @ bs) (accepted c) \<Longrightarrow> channel_step\<^sup>*\<^sup>* c (c\<lparr>delivered := delivered c @ bs\<rparr>)"
  "fate c = Flowing \<Longrightarrow> delivered c = accepted c \<Longrightarrow> channel_step\<^sup>*\<^sup>* c (c\<lparr>fate := Finished\<rparr>)"
  "fate c = Flowing \<Longrightarrow> channel_step\<^sup>*\<^sup>* c (c\<lparr>fate := Cut\<rparr>)"
  "fate c = Flowing \<Longrightarrow> prefix (delivered c @ bs) (accepted c) \<Longrightarrow> channel_step\<^sup>*\<^sup>* c (c\<lparr>delivered := delivered c @ bs, fate := Cut\<rparr>)"
  by (blast intro: channel_step.intros)+
    (metis (no_types, lifting) channel.select_convs(3) channel.surjective channel.update_convs(2) channel_step.cut channel_step.deliver
      r_into_rtranclp rtranclp.rtrancl_into_rtrancl)

text \<open>
  A step of the pump of a direction is a step of its channel, or of delivering and then being cut; the
  other pump leaves the channel alone.
\<close>

lemma request_simulated:
  assumes "request_inv stop s"
  shows "channel_step\<^sup>*\<^sup>* (request_channel s) (request_channel (client_to_target s ev))"
proof (cases "client_pump s = Ended")
  case False
  let ?c = "request_channel s"
  from assms False have i: "client_data s = tcp_written s @ unsent (client_pump s)" "\<not> client_finished s" "client_pump s \<noteq> PumpPanicked"
    by (simp_all add: request_inv_def)
  then have f: "fate ?c = Flowing" using False by (simp add: request_channel_def)
  note steps = channel_steps[OF f]
  have cut: "channel_step\<^sup>*\<^sup>* ?c (request_channel s')"
    if "client_pump s' = Ended" "client_data s' = client_data s" "tcp_written s' = tcp_written s" "\<not> client_finished s'" for s'
    using steps(4) that False i by (simp add: request_channel_def)
  show ?thesis
  proof (cases "torn s = StillRunning")
    case t: False
    with False i show ?thesis
      by (cases "client_pump s") (auto simp: client_to_target_def relay_helpers intro!: cut)
  next
    case t: True
    show ?thesis
    proof (cases "client_pump s")
      case Reading
      then have "channel_step\<^sup>*\<^sup>* ?c (request_channel (s\<lparr>client_pump := Writing bs, client_data := client_data s @ bs\<rparr>))" for bs
        using steps(1)[of bs] i by (simp add: request_channel_def)
      moreover have "channel_step\<^sup>*\<^sup>* ?c (request_channel (s\<lparr>client_finished := True, tcp_shutdown := True, client_pump := Ended\<rparr>))"
        using steps(3) Reading i by (simp add: request_channel_def)
      ultimately show ?thesis using Reading t i
        by (auto simp: client_to_target_def relay_helpers split: client_event.split sum.split option.split intro!: cut)
    next
      case (Writing bs)
      have took: "prefix (delivered ?c @ take n bs) (accepted ?c)" for n
        using i Writing by (simp add: request_channel_def take_is_prefix)
      have "channel_step\<^sup>*\<^sup>* ?c (request_channel (s\<lparr>tcp_written := tcp_written s @ take n bs, client_pump := ph\<rparr>))" if "ph \<noteq> Ended" for n ph
        using steps(2)[OF took[of n]] i that Writing by (simp add: request_channel_def)
      moreover have "channel_step\<^sup>*\<^sup>* ?c (request_channel s')"
        if "client_pump s' = Ended" "client_data s' = client_data s" "tcp_written s' = tcp_written s @ take n bs" "\<not> client_finished s'" for s' n
        using steps(5)[OF took[of n]] that i Writing by (simp add: request_channel_def)
      ultimately show ?thesis using Writing t i
        by (auto simp: client_to_target_def relay_helpers split: client_event.split intro!: cut)
    qed (use False i in simp_all)
  qed
qed simp

lemma response_simulated:
  assumes "response_inv w s"
  shows "channel_step\<^sup>*\<^sup>* (response_channel s) (response_channel (target_to_client s ev))"
proof (cases "target_pump s = Ended")
  case False
  let ?c = "response_channel s"
  from assms False have i: "target_data s = concat (sent_chunks s) @ unsent (target_pump s)" "\<not> target_eof s" "target_pump s \<noteq> PumpPanicked"
    "length (unsent (target_pump s)) \<le> RELAY_BLOCK_SIZE"
    by (simp_all add: response_inv_def)
  then have f: "fate ?c = Flowing" using False by (simp add: response_channel_def)
  note steps = channel_steps[OF f]
  have cut: "channel_step\<^sup>*\<^sup>* ?c (response_channel s')"
    if "target_pump s' = Ended" "target_data s' = target_data s" "sent_chunks s' = sent_chunks s" "\<not> target_eof s'" for s'
    using steps(4) that False i by (simp add: response_channel_def)
  show ?thesis
  proof (cases "torn s = StillRunning")
    case t: False
    with False i show ?thesis
      by (cases "target_pump s") (auto simp: target_to_client_def relay_helpers Let_def intro!: cut)
  next
    case t: True
    show ?thesis
    proof (cases "target_pump s")
      case Reading
      have "channel_step\<^sup>*\<^sup>* ?c (response_channel s')"
        if "target_data s' = target_data s @ bs" "sent_chunks s' = sent_chunks s" "\<not> target_eof s'" "target_pump s' \<noteq> Ended" for s' bs
        using steps(1)[of bs] that i Reading by (simp add: response_channel_def)
      moreover have "channel_step\<^sup>*\<^sup>* ?c (response_channel s')"
        if "target_data s' = target_data s" "sent_chunks s' = sent_chunks s" "target_eof s'" for s'
        using steps(3) that i Reading by (simp add: response_channel_def)
      ultimately show ?thesis using Reading t i
        by (auto simp: target_to_client_def relay_helpers Let_def split: target_event.split sum.split intro!: cut)
    next
      case (Writing bs)
      then have send: "send_data v bs x = write_all_chunks v (data_frame bs) x" for v x
        using i by (intro send_data_frame) simp
      have "prefix (delivered ?c @ bs) (accepted ?c)" using i Writing by (simp add: response_channel_def)
      then have "channel_step\<^sup>*\<^sup>* ?c (response_channel (s\<lparr>response := v, target_pump := Reading, sent_chunks := sent_chunks s @ [bs]\<rparr>))" for v
        using steps(2)[of bs] i Writing by (simp add: response_channel_def)
      then show ?thesis using Writing t i
        by (cases ev) (auto simp: target_to_client_def relay_helpers send split: prod.split poll.split sum.split intro!: cut elim!: write_all_chunks.elims)
    qed (use False i in simp_all)
  qed
qed simp

lemma other_channel [simp]:
  "response_channel (client_to_target s ev) = response_channel s"
  "request_channel (target_to_client s ev') = request_channel s"
  by (auto simp: client_to_target_def target_to_client_def response_channel_def request_channel_def relay_helpers Let_def
      split: pump.split option.split client_event.split target_event.split sum.split prod.split poll.split)

lemma relay_simulated:
  assumes "relay_inv w stop s"
  shows "channel_step\<^sup>*\<^sup>* (request_channel s) (request_channel (relay_apply s x))"
    "channel_step\<^sup>*\<^sup>* (response_channel s) (response_channel (relay_apply s x))"
  using assms request_simulated response_simulated by (cases x; auto simp: relay_inv_def)+

text \<open>A block is given up only when three quarters of it have been handed on.\<close>

definition block_inv :: "relay \<Rightarrow> bool" where
  "block_inv s \<longleftrightarrow> (blocks s > 0 \<longrightarrow>
     (blocks s - 1) * (RELAY_BLOCK_SIZE - RELAY_BUF_SIZE) + (RELAY_BLOCK_SIZE - room s) \<le> length (target_data s)) \<and>
     room s \<le> RELAY_BLOCK_SIZE"

lemma block_inv_window:
  assumes "block_inv s"
  shows "block_inv (ensure_window s)" "RELAY_BUF_SIZE \<le> room (ensure_window s)"
    "target_data (ensure_window s) = target_data s" "target_pump (ensure_window s) = target_pump s"
  using assms by (cases "blocks s"; auto simp: block_inv_def ensure_window_def RELAY_BLOCK_SIZE_def RELAY_BUF_SIZE_def)+

lemma block_inv_read:
  assumes "block_inv s" "length got \<le> room s"
  shows "block_inv (s\<lparr>target_pump := p, room := room s - length got, target_data := target_data s @ got\<rparr>)"
  using assms by (auto simp: block_inv_def)

lemma block_inv_cong:
  "blocks s = blocks s' \<Longrightarrow> room s = room s' \<Longrightarrow> target_data s = target_data s' \<Longrightarrow> block_inv s = block_inv s'"
  by (simp add: block_inv_def)

lemma block_inv_cosmetic [simp]:
  "block_inv (s\<lparr>response := v\<rparr>) = block_inv s"
  "block_inv (s\<lparr>target_pump := p\<rparr>) = block_inv s"
  "block_inv (s\<lparr>target_eof := b\<rparr>) = block_inv s"
  "block_inv (s\<lparr>torn := t\<rparr>) = block_inv s"
  "block_inv (s\<lparr>tcp_linger_zero := b\<rparr>) = block_inv s"
  by (simp_all add: block_inv_def)

lemma block_inv_op:
  assumes "block_inv s"
  shows "block_inv (relay_apply s x)"
proof (cases x)
  case (ClientPoll ev)
  have "blocks (client_to_target s ev) = blocks s" "room (client_to_target s ev) = room s" "target_data (client_to_target s ev) = target_data s"
    by (auto simp: client_to_target_def relay_helpers split: pump.split option.split client_event.split sum.split)
  with assms ClientPoll show ?thesis by (metis block_inv_cong relay_apply.simps(1))
next
  case (TargetPoll ev)
  show ?thesis
  proof (cases "target_pump s = Reading \<and> torn s = StillRunning")
    case True
    let ?s = "ensure_window s"
    have "block_inv (?s\<lparr>target_pump := Writing (take (room ?s) bs), room := room ?s - length (take (room ?s) bs), target_data := target_data ?s @ take (room ?s) bs\<rparr>)" for bs
      using block_inv_read[OF block_inv_window(1)[OF assms], of "take (room ?s) bs"] by simp
    with block_inv_window(1)[OF assms] show ?thesis using True TargetPoll
      by (auto simp: target_to_client_def torn_down_def Let_def raise_teardown_def abort_target_def
          split: target_event.split sum.split)
  next
    case False
    have "blocks (target_to_client s ev) = blocks s \<and> room (target_to_client s ev) = room s \<and> target_data (target_to_client s ev) = target_data s"
      using False
      by (auto simp: target_to_client_def torn_down_def Let_def raise_teardown_def abort_target_def
          split: pump.split option.split target_event.split sum.split prod.split poll.split)
    with assms TargetPoll show ?thesis by (metis block_inv_cong relay_apply.simps(2))
  qed
qed

interpretation relay_blocks: started_operations relay_apply block_inv "relay_new w stop" for w stop
  by unfold_locales (auto simp: block_inv_op, simp add: block_inv_def relay_new_def RELAY_BUF_SIZE_def RELAY_BLOCK_SIZE_def)

section \<open>Properties\<close>

text \<open>
  C6. Each direction of a TCP tunnel is a reliable channel: it starts as an empty one, and every poll of
  either pump, in every state that polls lead to, is a sequence of steps of the abstract channel. So bytes
  arrive in order and without gaps, the end of one direction is passed on only after everything before it,
  and a direction that has ended is silent.
\<close>

theorem relay_refines_channels:
  "request_channel (relay_new w stop) = channel_new \<and> response_channel (relay_new w stop) = channel_new \<and>
   (let s = foldl relay_apply (relay_new w stop) ops; s' = relay_apply s x
    in channel_step\<^sup>*\<^sup>* (request_channel s) (request_channel s') \<and> channel_step\<^sup>*\<^sup>* (response_channel s) (response_channel s') \<and>
       (\<exists>part. response s = w @ map (Written \<circ> data_frame) (sent_chunks s) @ part))"
proof -
  let ?s = "foldl relay_apply (relay_new w stop) ops"
  have i: "relay_inv w stop ?s" by (rule relay.inv_reached)
  then have "\<exists>part. response ?s = w @ map (Written \<circ> data_frame) (sent_chunks ?s) @ part"
    by (auto simp: relay_inv_def response_inv_def response_ended_def Let_def split: if_splits)
  with relay_simulated[OF i] show ?thesis
    by (simp add: Let_def) (simp add: relay_new_def request_channel_def response_channel_def channel_new_def)
qed

text \<open>
  C20. How a tunnel ends is told to both sides truthfully. When both pumps have ended without a teardown,
  both directions were delivered whole and finished; after a failure of the target the client is sent
  H3_CONNECT_ERROR on every direction that was not already finished; after an abort by the client the
  target's socket is set to reset, and neither side is told of a clean end that did not happen. A teardown
  ends both pumps at their next poll.
\<close>

theorem relay_endings:
  "let s = foldl relay_apply (relay_new w stop) ops
   in (if torn s \<noteq> StillRunning
       then client_pump (client_to_target s ev) = Ended \<and> target_pump (target_to_client s ev') = Ended else True) \<and>
      (if client_pump s = Ended \<and> target_pump s = Ended
       then (case torn s of
          StillRunning \<Rightarrow> tcp_written s = client_data s \<and> tcp_shutdown s \<and> concat (sent_chunks s) = target_data s \<and>
            response s = w @ map (Written \<circ> data_frame) (sent_chunks s) @ [FinSent] \<and> stop_codes s = stop \<and> \<not> tcp_linger_zero s
        | TargetError \<Rightarrow>
            (if target_eof s then concat (sent_chunks s) = target_data s else last (response s) = ResetWith H3_CONNECT_ERROR) \<and>
            (if client_finished s then tcp_written s = client_data s else stop_codes s = stop @ [H3_CONNECT_ERROR])
        | ClientAbort \<Rightarrow> tcp_linger_zero s \<and>
            (if target_eof s then concat (sent_chunks s) = target_data s else \<exists>end. response s = w @ end \<and> FinSent \<notin> set end) \<and>
            (if client_finished s then tcp_written s = client_data s
             else \<not> tcp_shutdown s \<and> set (stop_codes s) \<subseteq> insert H3_REQUEST_CANCELLED (set stop)))
       else True)"
proof -
  let ?s = "foldl relay_apply (relay_new w stop) ops"
  have i: "relay_inv w stop ?s" by (rule relay.inv_reached)
  have "client_pump (client_to_target ?s ev) = Ended" "target_pump (target_to_client ?s ev') = Ended" if "torn ?s \<noteq> StillRunning"
    using i that
    by (cases "client_pump ?s"; cases "target_pump ?s";
        simp add: relay_inv_def request_inv_def response_inv_def client_to_target_def target_to_client_def relay_helpers Let_def)+
  moreover have "FinSent \<notin> Written ` xs" "FinSent \<notin> set part" if "set part \<subseteq> range Written" for xs part
    using that by auto
  ultimately show ?thesis
    using i
    by (cases "torn ?s")
      (auto simp: Let_def relay_inv_def request_inv_def response_inv_def request_ended_def response_ended_def linger_inv_def
        split: if_splits)
qed

text \<open>
  The memory a tunnel's reads pin is bounded by what it relays: every read is offered at least
  \<^verbatim>\<open>RELAY_BUF_SIZE\<close> bytes, and the blocks taken, of \<^verbatim>\<open>RELAY_BLOCK_SIZE\<close> each, are at most one more than
  four thirds of the bytes read from the target would fill, however small the reads are.
\<close>

theorem relay_amplification:
  "let s = foldl relay_apply (relay_new w stop) ops
   in RELAY_BUF_SIZE \<le> room (ensure_window s) \<and>
      3 * (blocks s * RELAY_BLOCK_SIZE) \<le> 4 * length (target_data s) + 3 * RELAY_BLOCK_SIZE"
proof -
  let ?s = "foldl relay_apply (relay_new w stop) ops"
  have i: "block_inv ?s" by (rule relay_blocks.inv_reached)
  then have "3 * (blocks ?s * RELAY_BLOCK_SIZE) \<le> 4 * length (target_data ?s) + 3 * RELAY_BLOCK_SIZE"
    by (cases "blocks ?s") (auto simp: block_inv_def RELAY_BLOCK_SIZE_def RELAY_BUF_SIZE_def)
  with block_inv_window(2)[OF i] show ?thesis by (simp add: Let_def)
qed

end
