(* ===== verification/Gate.thy ===== *)
theory Gate
  imports Datagram Strings Utf8 "HOL-Library.Monad_Syntax" "HOL-Library.Sublist"
begin

text \<open>
  \<^verbatim>\<open>src/src/gate.rs\<close>: the gate in front of the QUIC endpoint, which reads the server name out of a
  client's first packet and hides from the endpoint every handshake that does not name this server.

  The Initial keys come from the QUIC library: \<open>initial_keys\<close> is a parameter, a function from a connection
  ID to what the library offers for it. A cursor into a slice is the part of the slice after it; the
  positions the code adds up are below the length of a datagram plus a few varints, far from the limits
  its checked additions guard.
\<close>

section \<open>Constants\<close>

definition QUIC_V1 :: u32 where "QUIC_V1 = 1"
definition LONG_HEADER_FORM :: byte where "LONG_HEADER_FORM = 0x80"
definition LONG_PACKET_TYPE :: byte where "LONG_PACKET_TYPE = 0x30"
definition INITIAL_PACKET_TYPE :: byte where "INITIAL_PACKET_TYPE = 0"
definition MAX_CONNECTION_ID :: nat where "MAX_CONNECTION_ID = 20"
definition MIN_INITIAL_DATAGRAM :: nat where "MIN_INITIAL_DATAGRAM = 1200"
definition MIN_CLIENT_CONNECTION_ID :: nat where "MIN_CLIENT_CONNECTION_ID = 8"
definition IMPOSSIBLE_CID_LENGTH :: byte where "IMPOSSIBLE_CID_LENGTH = 0xff"
definition DCID_LENGTH_OFFSET :: nat where "DCID_LENGTH_OFFSET = 5"
definition CLIENT_HELLO :: byte where "CLIENT_HELLO = 1"
definition SERVER_NAME_EXTENSION :: u16 where "SERVER_NAME_EXTENSION = 0"
definition HOST_NAME :: byte where "HOST_NAME = 0"
definition FRAME_PADDING :: u64 where "FRAME_PADDING = 0"
definition FRAME_PING :: u64 where "FRAME_PING = 1"
definition FRAME_ACK :: u64 where "FRAME_ACK = 2"
definition FRAME_ACK_ECN :: u64 where "FRAME_ACK_ECN = 3"
definition FRAME_CRYPTO :: u64 where "FRAME_CRYPTO = 6"
definition FRAME_CONNECTION_CLOSE :: u64 where "FRAME_CONNECTION_CLOSE = 0x1c"

lemmas frame_consts = FRAME_PADDING_def FRAME_PING_def FRAME_ACK_def FRAME_ACK_ECN_def FRAME_CRYPTO_def FRAME_CONNECTION_CLOSE_def

section \<open>The expected names\<close>

type_synonym names = "bytes list"

definition root_relative :: "bytes \<Rightarrow> bytes" where
  "root_relative name = (case strip_suffix [0x2e] name of Some n \<Rightarrow> n | None \<Rightarrow> name)"

definition normalise :: "bytes \<Rightarrow> bytes" where
  "normalise name = map to_ascii_lowercase (root_relative name)"

definition names_new :: "bytes list \<Rightarrow> names" where
  "names_new cfg = map normalise cfg"

definition accepts :: "names \<Rightarrow> bytes \<Rightarrow> bool" where
  "accepts ns name = list_ex (\<lambda>held. eq_ignore_ascii_case held (root_relative name)) ns"

record expected =
  exp_names :: names
  exp_any :: bool

definition expected_new :: "names \<Rightarrow> expected" where
  "expected_new ns = \<lparr>exp_names = ns, exp_any = (ns \<noteq> [])\<rparr>"

text \<open>\<^verbatim>\<open>Expected::set\<close>: two writes, which a reader may fall between.\<close>

definition expected_set_names :: "expected \<Rightarrow> names \<Rightarrow> expected" where
  "expected_set_names e ns = e\<lparr>exp_names := ns\<rparr>"

definition expected_set_any :: "expected \<Rightarrow> names \<Rightarrow> expected" where
  "expected_set_any e ns = e\<lparr>exp_any := (ns \<noteq> [])\<rparr>"

definition expected_set :: "expected \<Rightarrow> names \<Rightarrow> expected" where
  "expected_set e ns = expected_set_any (expected_set_names e ns) ns"

section \<open>Reading a ClientHello\<close>

definition rd_take :: "nat \<Rightarrow> bytes \<Rightarrow> (bytes \<times> bytes) option" where
  "rd_take n bs = (if n \<le> length bs then Some (take n bs, drop n bs) else None)"

definition rd_byte :: "bytes \<Rightarrow> (byte \<times> bytes) option" where
  "rd_byte bs = do { (x, rest) \<leftarrow> rd_take 1 bs; Some (x ! 0, rest) }"

definition rd_u16 :: "bytes \<Rightarrow> (u16 \<times> bytes) option" where
  "rd_u16 bs = do { (x, rest) \<leftarrow> rd_take 2 bs; Some (push_bit 8 (ucast (x ! 0)) OR ucast (x ! 1), rest) }"

definition rd_u24 :: "bytes \<Rightarrow> (nat \<times> bytes) option" where
  "rd_u24 bs =
     do { (x, rest) \<leftarrow> rd_take 3 bs;
          Some (unat (push_bit 16 (ucast (x ! 0)) OR push_bit 8 (ucast (x ! 1)) OR ucast (x ! 2) :: u64), rest) }"

definition rd_vector8 :: "bytes \<Rightarrow> (bytes \<times> bytes) option" where
  "rd_vector8 bs = do { (n, rest) \<leftarrow> rd_byte bs; rd_take (unat n) rest }"

definition rd_vector16 :: "bytes \<Rightarrow> (bytes \<times> bytes) option" where
  "rd_vector16 bs = do { (n, rest) \<leftarrow> rd_u16 bs; rd_take (unat n) rest }"

lemma rd_take_length: "rd_take n bs = Some (x, rest) \<Longrightarrow> length bs = n + length rest"
  by (auto simp: rd_take_def split: if_splits)

lemma rd_byte_length: "rd_byte bs = Some (x, rest) \<Longrightarrow> length rest < length bs"
  by (auto simp: rd_byte_def bind_eq_Some_conv dest: rd_take_length)

lemma rd_u16_length: "rd_u16 bs = Some (x, rest) \<Longrightarrow> length rest < length bs"
  by (auto simp: rd_u16_def bind_eq_Some_conv dest: rd_take_length)

lemma rd_vector16_length: "rd_vector16 bs = Some (x, rest) \<Longrightarrow> length rest < length bs"
  by (fastforce simp: rd_vector16_def bind_eq_Some_conv dest: rd_u16_length rd_take_length)

function host_name_loop :: "bytes \<Rightarrow> bytes option" where
  "host_name_loop bs =
     (if bs = [] then None
      else case rd_byte bs of
        None \<Rightarrow> None
      | Some (kind, bs1) \<Rightarrow>
          (case rd_vector16 bs1 of
             None \<Rightarrow> None
           | Some (name, bs2) \<Rightarrow> if kind = HOST_NAME then Some name else host_name_loop bs2))"
  by pat_completeness auto
termination
  by (relation "measure length") (auto dest!: rd_byte_length rd_vector16_length)

definition host_name :: "bytes \<Rightarrow> bytes option" where
  "host_name ext = do { (lst, _) \<leftarrow> rd_vector16 ext; host_name_loop lst }"

function extension_loop :: "bytes \<Rightarrow> bytes option" where
  "extension_loop bs =
     (if bs = [] then None
      else case rd_u16 bs of
        None \<Rightarrow> None
      | Some (kind, bs1) \<Rightarrow>
          (case rd_vector16 bs1 of
             None \<Rightarrow> None
           | Some (ext, bs2) \<Rightarrow> if kind = SERVER_NAME_EXTENSION then host_name ext else extension_loop bs2))"
  by pat_completeness auto
termination
  by (relation "measure length") (auto dest!: rd_u16_length rd_vector16_length)

declare host_name_loop.simps [simp del] extension_loop.simps [simp del]

definition server_name :: "bytes \<Rightarrow> bytes option" where
  "server_name body =
     do { (_, r) \<leftarrow> rd_take 2 body;
          (_, r) \<leftarrow> rd_take 32 r;
          (_, r) \<leftarrow> rd_vector8 r;
          (_, r) \<leftarrow> rd_vector16 r;
          (_, r) \<leftarrow> rd_vector8 r;
          (exts, _) \<leftarrow> rd_vector16 r;
          extension_loop exts }"

datatype first_flight = FlightTruncated | NotAClientHello | FlightAnonymous | FlightNamed bytes

definition first_flight_of :: "bytes \<Rightarrow> first_flight" where
  "first_flight_of crypto =
     (case rd_byte crypto of
        None \<Rightarrow> FlightTruncated
      | Some (kind, r) \<Rightarrow>
          if kind \<noteq> CLIENT_HELLO then NotAClientHello
          else case rd_u24 r of
            None \<Rightarrow> FlightTruncated
          | Some (n, r) \<Rightarrow>
              (case rd_take n r of
                 None \<Rightarrow> FlightTruncated
               | Some (body, _) \<Rightarrow>
                   (case server_name body of Some name \<Rightarrow> FlightNamed name | None \<Rightarrow> FlightAnonymous)))"

section \<open>The frames of an Initial packet\<close>

fun skip_varints :: "bytes \<Rightarrow> nat \<Rightarrow> bytes option" where
  "skip_varints bs 0 = Some bs"
| "skip_varints bs (Suc n) = do { (_, read) \<leftarrow> peek_varint bs; skip_varints (drop read bs) n }"

definition skip_ack :: "u64 \<Rightarrow> bytes \<Rightarrow> bytes option" where
  "skip_ack frame bs =
     do { bs \<leftarrow> skip_varints bs 2;
          (ranges, read) \<leftarrow> peek_varint bs;
          bs \<leftarrow> skip_varints (drop read bs) 1;
          bs \<leftarrow> skip_varints bs (unat ranges * 2);
          if frame = FRAME_ACK_ECN then skip_varints bs 3 else Some bs }"

definition take_crypto :: "bytes \<Rightarrow> ((u64 \<times> bytes) \<times> bytes) option" where
  "take_crypto bs =
     do { (offset, read) \<leftarrow> peek_varint bs;
          bs \<leftarrow> Some (drop read bs);
          (n, read) \<leftarrow> peek_varint bs;
          bs \<leftarrow> Some (drop read bs);
          (frag, bs) \<leftarrow> rd_take (unat n) bs;
          Some ((offset, frag), bs) }"

definition skip_close :: "bytes \<Rightarrow> bytes option" where
  "skip_close bs =
     do { bs \<leftarrow> skip_varints bs 2;
          (reason, read) \<leftarrow> peek_varint bs;
          map_option snd (rd_take (unat reason) (drop read bs)) }"

lemma skip_varints_length: "skip_varints bs n = Some rest \<Longrightarrow> length rest \<le> length bs"
  by (induction bs n rule: skip_varints.induct) (fastforce simp: bind_eq_Some_conv)+

lemma skip_ack_length: "skip_ack f bs = Some rest \<Longrightarrow> length rest \<le> length bs"
  by (auto simp: skip_ack_def bind_eq_Some_conv split: if_splits dest!: skip_varints_length)

lemma take_crypto_length: "take_crypto bs = Some (x, rest) \<Longrightarrow> length rest \<le> length bs"
  by (auto simp: take_crypto_def bind_eq_Some_conv dest!: rd_take_length)

lemma skip_close_length: "skip_close bs = Some rest \<Longrightarrow> length rest \<le> length bs"
  by (auto simp: skip_close_def bind_eq_Some_conv dest!: rd_take_length skip_varints_length)

function walk_frames :: "(u64 \<times> bytes) list \<Rightarrow> bytes \<Rightarrow> (u64 \<times> bytes) list option" where
  "walk_frames frags bs =
     (if bs = [] then Some frags
      else case peek_varint bs of
        None \<Rightarrow> None
      | Some (frame, read) \<Rightarrow>
          let rest = drop read bs in
          if frame = FRAME_PADDING \<or> frame = FRAME_PING then walk_frames frags rest
          else if frame = FRAME_ACK \<or> frame = FRAME_ACK_ECN
          then (case skip_ack frame rest of None \<Rightarrow> None | Some rest' \<Rightarrow> walk_frames frags rest')
          else if frame = FRAME_CRYPTO
          then (case take_crypto rest of None \<Rightarrow> None | Some (frag, rest') \<Rightarrow> walk_frames (frags @ [frag]) rest')
          else if frame = FRAME_CONNECTION_CLOSE
          then (case skip_close rest of None \<Rightarrow> None | Some rest' \<Rightarrow> walk_frames frags rest')
          else Some frags)"
  by pat_completeness auto
termination
  by (relation "measure (\<lambda>(frags, bs). length bs)")
    (auto dest!: peek_varint_used skip_ack_length take_crypto_length skip_close_length)

declare walk_frames.simps [simp del]

fun assemble :: "bytes \<Rightarrow> (u64 \<times> bytes) list \<Rightarrow> bytes" where
  "assemble st [] = st"
| "assemble st ((offset, frag) # frags) =
     (if unat offset > length st then st
      else let skip = length st - unat offset
           in assemble (if skip \<le> length frag then st @ drop skip frag else st) frags)"

definition crypto_stream_prefix :: "bytes \<Rightarrow> bytes option" where
  "crypto_stream_prefix pay =
     (case walk_frames [] pay of
        None \<Rightarrow> None
      | Some frags \<Rightarrow>
          (case sort_key fst frags of
             [(offset, frag)] \<Rightarrow>
               if offset = 0 then (if frag \<noteq> [] then Some frag else None)
               else (let st = assemble [] [(offset, frag)] in if st \<noteq> [] then Some st else None)
           | ordered \<Rightarrow> (let st = assemble [] ordered in if st \<noteq> [] then Some st else None)))"

section \<open>The header of an Initial packet\<close>

record initial_header =
  dcid :: "nat \<times> nat"
  packet_number_offset :: nat
  packet_end :: nat

definition get_byte :: "bytes \<Rightarrow> nat \<Rightarrow> byte option" where
  "get_byte bs i = (if i < length bs then Some (bs ! i) else None)"

definition guard :: "bool \<Rightarrow> unit option" where
  "guard b = (if b then Some () else None)"

definition initial_parse :: "bytes \<Rightarrow> initial_header option" where
  "initial_parse d =
     do { dcid_length \<leftarrow> map_option unat (get_byte d DCID_LENGTH_OFFSET);
          guard (dcid_length \<le> MAX_CONNECTION_ID);
          let at = DCID_LENGTH_OFFSET + 1 + dcid_length;
          guard (at \<le> length d);
          scid_length \<leftarrow> map_option unat (get_byte d at);
          guard (scid_length \<le> MAX_CONNECTION_ID);
          let at = at + 1 + scid_length;
          guard (at \<le> length d);
          (token_length, read) \<leftarrow> peek_varint (drop at d);
          let at = at + read + unat token_length;
          guard (at \<le> length d);
          (len, read) \<leftarrow> peek_varint (drop at d);
          let number_offset = at + read;
          let pkt_end = number_offset + unat len;
          guard (pkt_end \<le> length d);
          Some \<lparr>dcid = (DCID_LENGTH_OFFSET + 1, DCID_LENGTH_OFFSET + 1 + dcid_length),
                packet_number_offset = number_offset, packet_end = pkt_end\<rparr> }"

definition slice :: "bytes \<Rightarrow> nat \<times> nat \<Rightarrow> bytes" where
  "slice bs r = take (snd r - fst r) (drop (fst r) bs)"

text \<open>What the QUIC library offers for the keys of one connection ID.\<close>

record initial_keys =
  sample_size :: nat
  unprotect :: "nat \<Rightarrow> bytes \<Rightarrow> bytes"
  tag_len :: nat
  open_packet :: "u64 \<Rightarrow> bytes \<Rightarrow> bytes \<Rightarrow> bytes option"

type_synonym crypto = "bytes \<Rightarrow> initial_keys option"

definition decrypt :: "crypto \<Rightarrow> bytes \<Rightarrow> initial_header \<Rightarrow> bytes option" where
  "decrypt crypto d h =
     do { let number_end_limit = packet_number_offset h + 4;
          guard (number_end_limit \<le> packet_end h);
          keys \<leftarrow> crypto (slice d (dcid h));
          let sample_end = number_end_limit + sample_size keys;
          guard (sample_end \<le> packet_end h);
          let head = unprotect keys (packet_number_offset h) (take sample_end d);
          let number_end = packet_number_offset h + unat (head ! 0 AND 3) + 1;
          guard (number_end \<le> packet_end h);
          let number = be_fold 0 (slice head (packet_number_offset h, number_end));
          guard (tag_len keys \<le> packet_end h - number_end);
          open_packet keys number (take number_end head) (slice d (number_end, packet_end h)) }"

section \<open>The verdict\<close>

datatype refusal = RefuseVersion u32 | ShortConnectionId nat | NotClientHello | Anonymous | OtherName bytes

datatype verdict = Pass | Refuse refusal

definition version_of :: "bytes \<Rightarrow> u32" where
  "version_of d = push_bit 24 (ucast (d ! 1)) OR push_bit 16 (ucast (d ! 2)) OR push_bit 8 (ucast (d ! 3)) OR ucast (d ! 4)"

definition judge :: "crypto \<Rightarrow> bytes \<Rightarrow> names \<Rightarrow> verdict" where
  "judge crypto d ns =
     (if d = [] then Pass
      else if d ! 0 AND LONG_HEADER_FORM = 0 then Pass
      else if length d < 5 then Pass
      else if version_of d \<noteq> QUIC_V1 then Refuse (RefuseVersion (version_of d))
      else if d ! 0 AND LONG_PACKET_TYPE \<noteq> INITIAL_PACKET_TYPE then Pass
      else if length d < MIN_INITIAL_DATAGRAM then Pass
      else case initial_parse d of
        None \<Rightarrow> Pass
      | Some h \<Rightarrow>
          if snd (dcid h) - fst (dcid h) < MIN_CLIENT_CONNECTION_ID
          then Refuse (ShortConnectionId (snd (dcid h) - fst (dcid h)))
          else case decrypt crypto d h of
            None \<Rightarrow> Pass
          | Some frames \<Rightarrow>
              (case crypto_stream_prefix frames of
                 None \<Rightarrow> Pass
               | Some st \<Rightarrow>
                   (case first_flight_of st of
                      FlightTruncated \<Rightarrow> Pass
                    | NotAClientHello \<Rightarrow> Refuse NotClientHello
                    | FlightAnonymous \<Rightarrow> Refuse Anonymous
                    | FlightNamed name \<Rightarrow>
                        (case from_utf8 name of
                           Some text \<Rightarrow> if accepts ns text then Pass else Refuse (OtherName name)
                         | None \<Rightarrow> Refuse (OtherName name)))))"

definition blind :: "bytes \<Rightarrow> bytes" where
  "blind d = (if DCID_LENGTH_OFFSET < length d then d[DCID_LENGTH_OFFSET := IMPOSSIBLE_CID_LENGTH] else d)"

definition screen :: "crypto \<Rightarrow> bytes \<Rightarrow> names \<Rightarrow> bytes" where
  "screen crypto d ns = (case judge crypto d ns of Pass \<Rightarrow> d | Refuse _ \<Rightarrow> blind d)"

section \<open>The receive path\<close>

record recv_meta =
  meta_len :: nat
  meta_stride :: nat

function screen_segments :: "crypto \<Rightarrow> names \<Rightarrow> nat \<Rightarrow> bytes \<Rightarrow> bytes" where
  "screen_segments crypto ns stride bs =
     (if bs = [] then []
      else screen crypto (take (max stride 1) bs) ns @ screen_segments crypto ns stride (drop (max stride 1) bs))"
  by pat_completeness auto
termination
  by (relation "measure (\<lambda>(crypto, ns, stride, bs). length bs)") auto

declare screen_segments.simps [simp del]

definition screen_buffer :: "crypto \<Rightarrow> names \<Rightarrow> recv_meta \<Rightarrow> bytes \<Rightarrow> bytes" where
  "screen_buffer crypto ns m buf =
     (let len = min (meta_len m) (length buf)
      in screen_segments crypto ns (meta_stride m) (take len buf) @ drop len buf)"

definition poll_recv :: "crypto \<Rightarrow> expected \<Rightarrow> nat \<Rightarrow> recv_meta list \<Rightarrow> bytes list \<Rightarrow> bytes list" where
  "poll_recv crypto e n metas bufs =
     (if \<not> exp_any e then bufs
      else if exp_names e = [] then bufs
      else (let k = min n (min (length metas) (length bufs))
            in map2 (screen_buffer crypto (exp_names e)) (take k metas) (take k bufs) @ drop k bufs))"

end
