(* ===== verification/Gate_Safety.thy ===== *)
theory Gate_Safety
  imports Gate
begin

text \<open>
  What the gate reads is what the client wrote. A ClientHello, and an Initial packet that carries it in
  CRYPTO frames, are written down as data with their bytes; the reader gets the server name back whatever
  the other fields hold and however the frames cut the message. On the receive path a refused segment is
  one no QUIC header parser accepts any more, and every other byte arrives as it was.
\<close>

section \<open>The bytes of a ClientHello\<close>

definition vec8 :: "bytes \<Rightarrow> bytes" where
  "vec8 xs = of_nat (length xs) # xs"

definition vec16 :: "bytes \<Rightarrow> bytes" where
  "vec16 xs = be_bytes 2 (of_nat (length xs) :: u16) @ xs"

datatype hello_extension = ServerName "(byte \<times> bytes) list" | OtherExtension u16 bytes

definition name_bytes :: "byte \<times> bytes \<Rightarrow> bytes" where
  "name_bytes x = fst x # vec16 (snd x)"

fun extension_value :: "hello_extension \<Rightarrow> bytes" where
  "extension_value (ServerName ns) = vec16 (concat (map name_bytes ns))"
| "extension_value (OtherExtension k v) = v"

fun extension_kind :: "hello_extension \<Rightarrow> u16" where
  "extension_kind (ServerName ns) = SERVER_NAME_EXTENSION"
| "extension_kind (OtherExtension k v) = k"

definition extension_bytes :: "hello_extension \<Rightarrow> bytes" where
  "extension_bytes e = be_bytes 2 (extension_kind e) @ vec16 (extension_value e)"

fun extension_ok :: "hello_extension \<Rightarrow> bool" where
  "extension_ok (ServerName ns) \<longleftrightarrow>
     list_all (\<lambda>n. length (snd n) < 2 ^ 16) ns \<and> length (concat (map name_bytes ns)) < 2 ^ 16 - 2"
| "extension_ok (OtherExtension k v) \<longleftrightarrow> k \<noteq> SERVER_NAME_EXTENSION \<and> length v < 2 ^ 16"

record hello =
  legacy_version :: bytes
  random :: bytes
  session_id :: bytes
  suites :: bytes
  compression :: bytes
  extensions :: "hello_extension list"

definition hello_body :: "hello \<Rightarrow> bytes" where
  "hello_body h = legacy_version h @ random h @ vec8 (session_id h) @ vec16 (suites h) @ vec8 (compression h)
     @ vec16 (concat (map extension_bytes (extensions h)))"

definition hello_bytes :: "hello \<Rightarrow> bytes" where
  "hello_bytes h = CLIENT_HELLO # be_bytes 3 (of_nat (length (hello_body h)) :: u64) @ hello_body h"

definition hello_ok :: "hello \<Rightarrow> bool" where
  "hello_ok h \<longleftrightarrow> length (legacy_version h) = 2 \<and> length (random h) = 32 \<and> length (session_id h) < 2 ^ 8 \<and>
     length (suites h) < 2 ^ 16 \<and> length (compression h) < 2 ^ 8 \<and>
     length (concat (map extension_bytes (extensions h))) < 2 ^ 16 \<and> list_all extension_ok (extensions h)"

text \<open>The name the message carries: the first host name of its first server name extension.\<close>

fun named :: "hello_extension list \<Rightarrow> bytes option" where
  "named [] = None"
| "named (ServerName ns # es) = map_of ns HOST_NAME"
| "named (OtherExtension k v # es) = named es"

section \<open>Reading it back\<close>

lemma rd_take_append [simp]: "length x = n \<Longrightarrow> rd_take n (x @ rest) = Some (x, rest)"
  by (simp add: rd_take_def)

lemma rd_byte_Cons [simp]: "rd_byte (b # rest) = Some (b, rest)"
  by (simp add: rd_byte_def rd_take_def)

lemma rd_u16_be [simp]: "rd_u16 (be_bytes 2 (w :: u16) @ rest) = Some (w, rest)"
proof -
  have "push_bit 8 (ucast (ucast (drop_bit 8 w) :: byte)) OR ucast (ucast w :: byte) = w"
    by (rule bit_eqI) (auto simp: bit_simps)
  then show ?thesis by (simp add: rd_u16_def rd_take_def numeral_2_eq_2)
qed

lemma rd_u24_be:
  assumes "n < 2 ^ 24"
  shows "rd_u24 (be_bytes 3 (of_nat n :: u64) @ rest) = Some (n, rest)"
proof -
  let ?w = "of_nat n :: u64"
  have n: "unat ?w = n" using assms by (simp add: unat_of_nat)
  then have "take_bit 24 ?w = ?w" using assms by (simp add: take_bit_word_self_iff)
  then have "\<not> bit ?w i" if "24 \<le> i" for i using that by (metis bit_take_bit_iff not_le)
  then have "push_bit 16 (ucast (ucast (drop_bit 16 ?w) :: byte)) OR push_bit 8 (ucast (ucast (drop_bit 8 ?w) :: byte)) OR ucast (ucast ?w :: byte) = ?w"
    by (intro bit_eqI) (auto simp: bit_simps)
  with n show ?thesis by (simp add: rd_u24_def rd_take_def numeral_3_eq_3 numeral_2_eq_2)
qed

lemma rd_vector8_vec [simp]: "length xs < 2 ^ 8 \<Longrightarrow> rd_vector8 (vec8 xs @ rest) = Some (xs, rest)"
  by (simp add: rd_vector8_def vec8_def unat_of_nat)

lemma rd_vector16_vec [simp]: "length xs < 2 ^ 16 \<Longrightarrow> rd_vector16 (vec16 xs @ rest) = Some (xs, rest)"
  by (simp add: rd_vector16_def vec16_def unat_of_nat)

lemma length_vec [simp]: "length (vec8 xs) = length xs + 1" "length (vec16 xs) = length xs + 2"
  by (simp_all add: vec8_def vec16_def)

lemma vec16_not_Nil [simp]: "vec16 xs \<noteq> []"
  by (simp add: vec16_def numeral_2_eq_2)

lemma host_name_loop_names:
  "list_all (\<lambda>n. length (snd n) < 2 ^ 16) ns \<Longrightarrow> host_name_loop (concat (map name_bytes ns)) = map_of ns HOST_NAME"
  by (induction ns) (simp_all add: host_name_loop.simps[of "[]"] host_name_loop.simps[of "_ # _"] name_bytes_def)

lemma extension_loop_extensions:
  "list_all extension_ok es \<Longrightarrow> extension_loop (concat (map extension_bytes es)) = named es"
proof (induction es)
  case Nil
  then show ?case by (simp add: extension_loop.simps)
next
  case (Cons e es)
  let ?rest = "concat (map extension_bytes es)"
  have len: "length (extension_value e) < 2 ^ 16" using Cons.prems by (cases e) auto
  have "0 < length (extension_bytes e)" by (simp add: extension_bytes_def)
  then have "extension_bytes e @ ?rest \<noteq> []" by simp
  then have "extension_loop (concat (map extension_bytes (e # es)))
      = (if extension_kind e = SERVER_NAME_EXTENSION then host_name (extension_value e) else extension_loop ?rest)"
    using len by (subst extension_loop.simps) (simp add: extension_bytes_def)
  with Cons show ?case
  proof (cases e)
    case (ServerName ns)
    with Cons.prems rd_vector16_vec[of "concat (map name_bytes ns)" "[]"] have "host_name (extension_value e) = map_of ns HOST_NAME"
      by (simp add: host_name_def host_name_loop_names)
    with ServerName \<open>extension_loop _ = _\<close> show ?thesis by simp
  qed simp
qed

lemma server_name_body: "hello_ok h \<Longrightarrow> server_name (hello_body h) = named (extensions h)"
  using rd_vector16_vec[of "concat (map extension_bytes (extensions h))" "[]"]
  by (simp add: server_name_def hello_body_def hello_ok_def extension_loop_extensions)

lemma hello_body_length: "hello_ok h \<Longrightarrow> length (hello_body h) < 2 ^ 24"
  by (simp add: hello_ok_def hello_body_def)

lemma first_flight_hello:
  assumes "hello_ok h"
  shows "first_flight_of (hello_bytes h @ rest) = (case named (extensions h) of Some n \<Rightarrow> FlightNamed n | None \<Rightarrow> FlightAnonymous)"
  using assms rd_u24_be[OF hello_body_length[OF assms], of "hello_body h @ rest"]
  by (simp add: first_flight_of_def hello_bytes_def server_name_body)

text \<open>A message that is not all there yet is never judged.\<close>

lemma rd_u24_short: "length bs < 3 \<Longrightarrow> rd_u24 bs = None"
  by (simp add: rd_u24_def rd_take_def)

lemma first_flight_short:
  assumes "hello_ok h" "k < length (hello_bytes h)"
  shows "first_flight_of (take k (hello_bytes h)) = FlightTruncated"
proof (cases k)
  case 0
  then show ?thesis by (simp add: first_flight_of_def rd_byte_def rd_take_def)
next
  case (Suc j)
  let ?n = "be_bytes 3 (of_nat (length (hello_body h)) :: u64)"
  show ?thesis
  proof (cases "j < 3")
    case True
    then have "rd_u24 (take j (?n @ hello_body h)) = None" by (intro rd_u24_short) simp
    then show ?thesis using Suc by (simp add: first_flight_of_def hello_bytes_def)
  next
    case False
    then have "take j (?n @ hello_body h) = ?n @ take (j - 3) (hello_body h)" by simp
    moreover have "rd_take (length (hello_body h)) (take (j - 3) (hello_body h)) = None"
      using assms(2) Suc False by (simp add: rd_take_def hello_bytes_def)
    ultimately show ?thesis
      using Suc rd_u24_be[OF hello_body_length[OF assms(1)]] by (simp add: first_flight_of_def hello_bytes_def)
  qed
qed

section \<open>CRYPTO frames\<close>

text \<open>The frames a client's Initial packet may hold, and their bytes.\<close>

datatype initial_frame =
    PaddingFrame
  | PingFrame
  | AckFrame u64 u64 u64 "(u64 \<times> u64) list" "(u64 \<times> u64 \<times> u64) option"
  | CryptoFrame u64 bytes
  | CloseFrame u64 u64 bytes

fun frame_bytes :: "initial_frame \<Rightarrow> bytes" where
  "frame_bytes PaddingFrame = enc_varint FRAME_PADDING"
| "frame_bytes PingFrame = enc_varint FRAME_PING"
| "frame_bytes (AckFrame largest dly first ranges ecn) =
     enc_varint (if ecn = None then FRAME_ACK else FRAME_ACK_ECN) @ enc_varint largest @ enc_varint dly
       @ enc_varint (of_nat (length ranges)) @ enc_varint first
       @ concat (map (\<lambda>(gap, len). enc_varint gap @ enc_varint len) ranges)
       @ (case ecn of None \<Rightarrow> [] | Some (a, b, c) \<Rightarrow> enc_varint a @ enc_varint b @ enc_varint c)"
| "frame_bytes (CryptoFrame offset d) = enc_varint FRAME_CRYPTO @ enc_varint offset @ enc_varint (of_nat (length d)) @ d"
| "frame_bytes (CloseFrame c t reason) =
     enc_varint FRAME_CONNECTION_CLOSE @ enc_varint c @ enc_varint t @ enc_varint (of_nat (length reason)) @ reason"

fun frame_ok :: "initial_frame \<Rightarrow> bool" where
  "frame_ok (AckFrame largest dly first ranges ecn) \<longleftrightarrow> largest \<le> VARINT_MAX \<and> dly \<le> VARINT_MAX \<and> first \<le> VARINT_MAX \<and>
     length ranges \<le> unat VARINT_MAX \<and> list_all (\<lambda>(gap, len). gap \<le> VARINT_MAX \<and> len \<le> VARINT_MAX) ranges \<and>
     (case ecn of None \<Rightarrow> True | Some (a, b, c) \<Rightarrow> a \<le> VARINT_MAX \<and> b \<le> VARINT_MAX \<and> c \<le> VARINT_MAX)"
| "frame_ok (CryptoFrame offset d) \<longleftrightarrow> offset \<le> VARINT_MAX \<and> length d \<le> unat VARINT_MAX"
| "frame_ok (CloseFrame c t reason) \<longleftrightarrow> c \<le> VARINT_MAX \<and> t \<le> VARINT_MAX \<and> length reason \<le> unat VARINT_MAX"
| "frame_ok _ \<longleftrightarrow> True"

fun fragments :: "initial_frame list \<Rightarrow> (u64 \<times> bytes) list" where
  "fragments [] = []"
| "fragments (CryptoFrame offset d # fs) = (offset, d) # fragments fs"
| "fragments (f # fs) = fragments fs"

lemma skip_varints_enc:
  "list_all (\<lambda>v. v \<le> VARINT_MAX) vs \<Longrightarrow> skip_varints (concat (map enc_varint vs) @ rest) (length vs) = Some rest"
  by (induction vs) (simp_all add: peek_enc_varint)

lemma skip_varints_add:
  "skip_varints bs (m + n) = do { bs' \<leftarrow> skip_varints bs m; skip_varints bs' n }"
  by (induction bs m rule: skip_varints.induct) (auto split: bind_splits)

lemma skip_ranges:
  "list_all (\<lambda>(gap, len). gap \<le> VARINT_MAX \<and> len \<le> VARINT_MAX) rs \<Longrightarrow>
   skip_varints (concat (map (\<lambda>(gap, len). enc_varint gap @ enc_varint len) rs) @ rest) (length rs * 2) = Some rest"
  by (induction rs) (auto simp: peek_enc_varint)

lemma small_varints: "v \<in> {FRAME_PADDING, FRAME_PING, FRAME_ACK, FRAME_ACK_ECN, FRAME_CRYPTO, FRAME_CONNECTION_CLOSE} \<Longrightarrow> v \<le> VARINT_MAX"
  by (auto simp: frame_consts VARINT_MAX_eq)

lemma skip_ack_frame:
  assumes "frame_ok (AckFrame largest dly first ranges ecn)"
  shows "skip_ack (if ecn = None then FRAME_ACK else FRAME_ACK_ECN)
     (enc_varint largest @ enc_varint dly @ enc_varint (of_nat (length ranges)) @ enc_varint first
       @ concat (map (\<lambda>(gap, len). enc_varint gap @ enc_varint len) ranges)
       @ (case ecn of None \<Rightarrow> [] | Some (a, b, c) \<Rightarrow> enc_varint a @ enc_varint b @ enc_varint c) @ rest) = Some rest"
proof -
  from assms have n: "of_nat (length ranges) \<le> VARINT_MAX" "unat (of_nat (length ranges) :: u64) = length ranges"
    using of_nat_le_VARINT_MAX unat_of_nat_u64 by simp_all
  let ?tail = "(case ecn of None \<Rightarrow> [] | Some (a, b, c) \<Rightarrow> enc_varint a @ enc_varint b @ enc_varint c) @ rest"
  have "skip_varints (concat (map (\<lambda>(gap, len). enc_varint gap @ enc_varint len) ranges) @ ?tail) (length ranges * 2) = Some ?tail"
    using assms by (intro skip_ranges) simp
  with assms n show ?thesis
    by (cases ecn)
      (auto simp: skip_ack_def peek_enc_varint numeral_2_eq_2 numeral_3_eq_3 frame_consts simp del: skip_varints.simps(2)
         simp add: skip_varints.simps(2)[of _ 0] skip_varints.simps(2)[of _ "Suc 0"] skip_varints.simps(2)[of _ "Suc (Suc 0)"])
qed

lemma walk_frame:
  assumes "frame_ok f"
  shows "walk_frames acc (frame_bytes f @ rest) = walk_frames (acc @ fragments [f]) rest"
proof -
  have step: "walk_frames acc (enc_varint k @ more) =
      (if k = FRAME_PADDING \<or> k = FRAME_PING then walk_frames acc more
       else if k = FRAME_ACK \<or> k = FRAME_ACK_ECN
       then (case skip_ack k more of None \<Rightarrow> None | Some rest' \<Rightarrow> walk_frames acc rest')
       else if k = FRAME_CRYPTO
       then (case take_crypto more of None \<Rightarrow> None | Some (frag, rest') \<Rightarrow> walk_frames (acc @ [frag]) rest')
       else if k = FRAME_CONNECTION_CLOSE
       then (case skip_close more of None \<Rightarrow> None | Some rest' \<Rightarrow> walk_frames acc rest')
       else Some acc)" if "k \<le> VARINT_MAX" for k more
  proof -
    have "(enc_varint k @ more = []) = False"
      using that length_enc_varint[OF that] by (auto simp: varint_len_def split: if_splits)
    then show ?thesis
      by (subst walk_frames.simps) (simp only: if_False peek_enc_varint[OF that] option.case prod.case Let_def drop_append diff_self_eq_0 drop_0 drop_all[OF le_refl] append_Nil)
  qed
  show ?thesis
  proof (cases f)
    case (AckFrame largest dly first ranges ecn)
    define k where "k = (if ecn = None then FRAME_ACK else FRAME_ACK_ECN)"
    then have k: "k \<le> VARINT_MAX" "k \<noteq> FRAME_PADDING" "k \<noteq> FRAME_PING" "k = FRAME_ACK \<or> k = FRAME_ACK_ECN"
      by (simp_all add: frame_consts VARINT_MAX_eq)
    from assms AckFrame have "frame_ok (AckFrame largest dly first ranges ecn)" by simp
    from skip_ack_frame[OF this, of rest] step[OF k(1)] k(2-4) show ?thesis
      unfolding AckFrame by (simp add: k_def[symmetric])
  next
    case (CryptoFrame offset d)
    with assms have "take_crypto (enc_varint offset @ enc_varint (of_nat (length d)) @ d @ rest) = Some ((offset, d), rest)"
      using of_nat_le_VARINT_MAX[of "length d"] unat_of_nat_u64[of "length d"]
      by (simp add: take_crypto_def peek_enc_varint)
    with CryptoFrame show ?thesis using step[of FRAME_CRYPTO] small_varints by (simp add: frame_consts)
  next
    case (CloseFrame c t reason)
    with assms have "skip_close (enc_varint c @ enc_varint t @ enc_varint (of_nat (length reason)) @ reason @ rest) = Some rest"
      using of_nat_le_VARINT_MAX[of "length reason"] unat_of_nat_u64[of "length reason"]
      by (simp add: skip_close_def peek_enc_varint numeral_2_eq_2)
    with CloseFrame show ?thesis using step[of FRAME_CONNECTION_CLOSE] small_varints by (simp add: frame_consts)
  qed (use step[of FRAME_PADDING] step[of FRAME_PING] small_varints in \<open>simp_all add: frame_consts\<close>)
qed

lemma fragments_append: "fragments (f # fs) = fragments [f] @ fragments fs"
  by (cases f) simp_all

lemma walk_frames_wire:
  "list_all frame_ok fs \<Longrightarrow> walk_frames acc (concat (map frame_bytes fs)) = Some (acc @ fragments fs)"
proof (induction fs arbitrary: acc)
  case Nil
  then show ?case by (simp add: walk_frames.simps)
next
  case (Cons f fs)
  then show ?case using walk_frame[of f acc "concat (map frame_bytes fs)"] fragments_append[of f fs] by simp
qed

section \<open>Putting the fragments together\<close>

text \<open>A fragment is cut from the message at its offset; a set of fragments reaches as far as it leaves no gap.\<close>

definition cut_from :: "bytes \<Rightarrow> u64 \<times> bytes \<Rightarrow> bool" where
  "cut_from xs x \<longleftrightarrow> unat (fst x) + length (snd x) \<le> length xs \<and> snd x = take (length (snd x)) (drop (unat (fst x)) xs)"

definition covered :: "(u64 \<times> bytes) list \<Rightarrow> nat \<Rightarrow> bool" where
  "covered frags i \<longleftrightarrow> list_ex (\<lambda>x. unat (fst x) \<le> i \<and> i < unat (fst x) + length (snd x)) frags"

lemma extend_prefix:
  assumes "cut_from xs (o', d)" "unat o' \<le> m" "m \<le> length xs"
  shows "(if m - unat o' \<le> length d then take m xs @ drop (m - unat o') d else take m xs) = take (max m (unat o' + length d)) xs"
proof (cases "m - unat o' \<le> length d")
  case True
  have "d = take (length d) (drop (unat o') xs)" using assms(1) by (simp add: cut_from_def)
  then have "drop (m - unat o') d = drop (m - unat o') (take (length d) (drop (unat o') xs))" by (rule arg_cong)
  also have "\<dots> = take (unat o' + length d - m) (drop m xs)" using assms(2) by (simp add: drop_take add.commute)
  finally have "drop (m - unat o') d = take (unat o' + length d - m) (drop m xs)" .
  with True assms show ?thesis by (simp add: take_add[symmetric] max_def)
next
  case False
  then show ?thesis by (simp add: max_def)
qed

lemma assemble_prefix:
  assumes "list_all (cut_from xs) frags" "sorted (map fst frags)" "m \<le> length xs"
  shows "\<exists>n. m \<le> n \<and> n \<le> length xs \<and> assemble (take m xs) frags = take n xs \<and>
    (\<forall>i. m \<le> i \<and> i < n \<longrightarrow> covered frags i) \<and>
    (\<forall>k. (\<forall>i. m \<le> i \<and> i < k \<longrightarrow> covered frags i) \<longrightarrow> k \<le> n \<or> k \<le> m)"
  using assms
proof (induction frags arbitrary: m)
  case Nil
  then show ?case by (auto simp: covered_def intro!: exI[of _ m])
next
  case (Cons x frags)
  obtain o' d where x: "x = (o', d)" by (cases x)
  show ?case
  proof (cases "unat o' > m")
    case True
    have "\<not> covered (x # frags) m"
      using Cons.prems(2) True x by (auto simp: covered_def list_ex_iff word_le_nat_alt)
    then show ?thesis using Cons.prems(3) True x
      by (intro exI[of _ m]) (auto simp: min_def)
  next
    case False
    let ?m = "max m (unat o' + length d)"
    have m: "?m \<le> length xs" using Cons.prems x by (simp add: cut_from_def)
    from Cons.IH[OF _ _ m] Cons.prems obtain n where n: "?m \<le> n" "n \<le> length xs" "assemble (take ?m xs) frags = take n xs"
      "\<And>i. ?m \<le> i \<Longrightarrow> i < n \<Longrightarrow> covered frags i"
      "\<And>k. (\<forall>i. ?m \<le> i \<and> i < k \<longrightarrow> covered frags i) \<Longrightarrow> k \<le> n \<or> k \<le> ?m"
      by auto
    have "covered (x # frags) i" if "m \<le> i" "i < n" for i
      using n(4)[of i] that False x by (cases "?m \<le> i") (auto simp: covered_def)
    moreover
    have "assemble (take m xs) (x # frags) = take n xs"
    proof -
      have "length (take m xs) = m" using Cons.prems(3) by simp
      with extend_prefix[of xs o' d m] Cons.prems False n(3) x show ?thesis
        by (simp add: Let_def del: take_append take_all_iff)
    qed
    moreover have "k \<le> n \<or> k \<le> m" if k: "\<forall>i. m \<le> i \<and> i < k \<longrightarrow> covered (x # frags) i" for k
    proof -
      have "\<forall>i. ?m \<le> i \<and> i < k \<longrightarrow> covered frags i" using k x by (auto simp: covered_def)
      from n(5)[OF this] n(1) show ?thesis by auto
    qed
    ultimately show ?thesis using n(1,2) by (intro exI[of _ n]) auto
  qed
qed

lemma covered_sort: "covered (sort_key fst frags) = covered frags"
  by (simp add: covered_def list_ex_iff fun_eq_iff)

text \<open>Whatever order the fragments come in, what is put together is the beginning of the message.\<close>

lemma crypto_stream_prefix_wire:
  assumes "list_all frame_ok fs" "list_all (cut_from xs) (fragments fs)"
  obtains n where "n \<le> length xs" "\<And>i. i < n \<Longrightarrow> covered (fragments fs) i"
    "\<And>k. (\<And>i. i < k \<Longrightarrow> covered (fragments fs) i) \<Longrightarrow> k \<le> n"
    "crypto_stream_prefix (concat (map frame_bytes fs)) = (if n = 0 then None else Some (take n xs))"
proof -
  let ?frags = "sort_key fst (fragments fs)"
  have "list_all (cut_from xs) ?frags" "sorted (map fst ?frags)" using assms(2) by (simp_all add: list_all_iff)
  from assemble_prefix[OF this, of 0] obtain n where n: "n \<le> length xs" "assemble [] ?frags = take n xs"
    "\<And>i. i < n \<Longrightarrow> covered ?frags i" "\<And>k. (\<forall>i. i < k \<longrightarrow> covered ?frags i) \<Longrightarrow> k \<le> n \<or> k \<le> 0"
    by auto
  have w: "walk_frames [] (concat (map frame_bytes fs)) = Some (fragments fs)"
    using walk_frames_wire[OF assms(1), of "[]"] by simp
  have "crypto_stream_prefix (concat (map frame_bytes fs))
      = (if assemble [] ?frags = [] then None else Some (assemble [] ?frags))"
  proof (cases "\<exists>d. ?frags = [(0, d)]")
    case True
    then obtain d where d: "?frags = [(0, d)]" by blast
    then show ?thesis by (simp add: crypto_stream_prefix_def w)
  next
    case False
    then show ?thesis
      by (cases ?frags rule: remdups_adj.cases) (auto simp: crypto_stream_prefix_def w Let_def)
  qed
  moreover have "take n xs = [] \<longleftrightarrow> n = 0" using n(1) by auto
  ultimately have "crypto_stream_prefix (concat (map frame_bytes fs)) = (if n = 0 then None else Some (take n xs))"
    using n(2) by simp
  moreover have "k \<le> n" if "\<And>i. i < k \<Longrightarrow> covered (fragments fs) i" for k
    using n(4)[of k] that by (auto simp: covered_sort)
  ultimately show ?thesis using that[of n] n(1,3) by (simp add: covered_sort)
qed

text \<open>
  What the gate reads of a handshake: all of it when the fragments leave no gap in the message, and
  otherwise a beginning that is never judged.
\<close>

lemma first_flight_wire:
  assumes "hello_ok h" "list_all frame_ok fs" "list_all (cut_from (hello_bytes h @ rest)) (fragments fs)"
  shows "(case crypto_stream_prefix (concat (map frame_bytes fs)) of None \<Rightarrow> FlightTruncated | Some st \<Rightarrow> first_flight_of st)
    = (if list_all (covered (fragments fs)) [0..<length (hello_bytes h)]
       then (case named (extensions h) of Some n \<Rightarrow> FlightNamed n | None \<Rightarrow> FlightAnonymous) else FlightTruncated)"
proof -
  let ?m = "hello_bytes h"
  obtain n where n: "\<And>i. i < n \<Longrightarrow> covered (fragments fs) i" "\<And>k. (\<And>i. i < k \<Longrightarrow> covered (fragments fs) i) \<Longrightarrow> k \<le> n"
    "crypto_stream_prefix (concat (map frame_bytes fs)) = (if n = 0 then None else Some (take n (?m @ rest)))"
    by (rule crypto_stream_prefix_wire[OF assms(2,3)]) blast
  have pos: "0 < length ?m" by (simp add: hello_bytes_def)
  show ?thesis
  proof (cases "list_all (covered (fragments fs)) [0..<length ?m]")
    case True
    then have le: "length ?m \<le> n" by (intro n(2)) (simp add: list_all_iff)
    then have "take n (?m @ rest) = ?m @ take (n - length ?m) rest" by simp
    with first_flight_hello[OF assms(1)] n(3) le pos True show ?thesis by simp
  next
    case False
    then obtain i where "i < length ?m" "\<not> covered (fragments fs) i" by (auto simp: list_all_iff)
    then have "n < length ?m" using n(1)[of i] by (meson le_less_trans not_less)
    with first_flight_short[OF assms(1), of n] n(3) False show ?thesis by auto
  qed
qed

section \<open>Blinding\<close>

lemma initial_parse_blind: "initial_parse (blind d) = None"
  by (simp add: initial_parse_def blind_def get_byte_def guard_def IMPOSSIBLE_CID_LENGTH_def MAX_CONNECTION_ID_def)

lemma blind_keeps:
  "length (blind d) = length d"
  "take DCID_LENGTH_OFFSET (blind d) = take DCID_LENGTH_OFFSET d"
  "drop (Suc DCID_LENGTH_OFFSET) (blind d) = drop (Suc DCID_LENGTH_OFFSET) d"
  by (simp_all add: blind_def)

function segments :: "nat \<Rightarrow> bytes \<Rightarrow> bytes list" where
  "segments stride bs = (if bs = [] then [] else take (max stride 1) bs # segments stride (drop (max stride 1) bs))"
  by pat_completeness auto
termination
  by (relation "measure (\<lambda>(stride, bs). length bs)") auto

declare segments.simps [simp del]

lemma screen_segments_map: "screen_segments crypto ns stride bs = concat (map (\<lambda>d. screen crypto d ns) (segments stride bs))"
  by (induction crypto ns stride bs rule: screen_segments.induct)
    (simp add: screen_segments.simps[of _ _ _ "_ :: bytes"] segments.simps)

lemma concat_segments: "concat (segments stride bs) = bs"
proof (induction stride bs rule: segments.induct)
  case (1 stride bs)
  then show ?case by (subst segments.simps) (simp add: min_def)
qed

lemma length_screen: "length (screen crypto d ns) = length d"
  by (simp add: screen_def blind_def split: verdict.split)

section \<open>Properties\<close>

text \<open>
  C8. The gate judges a handshake by the name it asks for, and only a handshake that is all there. For an
  Initial packet of QUIC version 1 that the library's keys open to well-formed frames, whose CRYPTO
  fragments -- in any order, overlapping or repeated, among padding, pings and acknowledgements -- are cut
  from a stream that begins with a ClientHello: when they cover that message, the verdict is the one its
  first host name deserves, and a message without a name is refused; when they leave a part of it out, as
  one that spans several Initial packets does, the packet passes unjudged.
\<close>

theorem gate_verdict:
  assumes "hello_ok h" "list_all frame_ok fs" "list_all (cut_from (hello_bytes h @ rest)) (fragments fs)"
    and "d ! 0 AND LONG_HEADER_FORM \<noteq> 0" "d ! 0 AND LONG_PACKET_TYPE = INITIAL_PACKET_TYPE"
    and "version_of d = QUIC_V1" "MIN_INITIAL_DATAGRAM \<le> length d"
    and "initial_parse d = Some hdr" "MIN_CLIENT_CONNECTION_ID \<le> snd (dcid hdr) - fst (dcid hdr)"
    and "decrypt crypto d hdr = Some (concat (map frame_bytes fs))"
  shows "judge crypto d ns =
    (if list_all (covered (fragments fs)) [0..<length (hello_bytes h)]
     then (case named (extensions h) of
             None \<Rightarrow> Refuse Anonymous
           | Some n \<Rightarrow> if utf8_valid n \<and> accepts ns n then Pass else Refuse (OtherName n))
     else Pass)"
proof -
  have f: "d \<noteq> []" "\<not> length d < 5" using assms(7) by (auto simp: MIN_INITIAL_DATAGRAM_def)
  then show ?thesis
    using assms(4-10) first_flight_wire[OF assms(1-3)]
    by (cases "crypto_stream_prefix (concat (map frame_bytes fs))")
      (auto simp: judge_def from_utf8_def not_less split: option.splits if_splits)
qed

definition sample_hello :: hello where
  "sample_hello = \<lparr>legacy_version = [3, 3], random = replicate 32 7, session_id = [], suites = [0x13, 1], compression = [0],
     extensions = [OtherExtension 43 [2, 3, 4], ServerName [(0, byte_string ''a.b'')]]\<rparr>"

definition sample_frames :: "initial_frame list" where
  "sample_frames = [PingFrame, CryptoFrame 40 (drop 40 (hello_bytes sample_hello)), PaddingFrame,
     CryptoFrame 0 (take 50 (hello_bytes sample_hello))]"

definition sample_initial :: bytes where
  "sample_initial = [0xc0, 0, 0, 0, 1, 8, 1, 2, 3, 4, 5, 6, 7, 8, 0, 0, 0x44, 0x9e] @ replicate 1182 0"

definition sample_crypto :: crypto where
  "sample_crypto cid = Some \<lparr>sample_size = 16, unprotect = (\<lambda>_ bs. bs), tag_len = 16,
     open_packet = (\<lambda>_ _ _. Some (concat (map frame_bytes sample_frames)))\<rparr>"

theorem gate_verdict_witness:
  "judge sample_crypto sample_initial (names_new [byte_string ''A.b.'']) = Pass
   \<and> judge sample_crypto sample_initial (names_new [byte_string ''c'']) = Refuse (OtherName (byte_string ''a.b''))"
proof -
  let ?hdr = "\<lparr>dcid = (6, 14), packet_number_offset = 18, packet_end = 1200\<rparr>"
  have "initial_parse sample_initial = Some ?hdr"
    by (simp add: initial_parse_def sample_initial_def get_byte_def guard_def DCID_LENGTH_OFFSET_def MAX_CONNECTION_ID_def peek_varint_def)
  moreover have "decrypt sample_crypto sample_initial ?hdr = Some (concat (map frame_bytes sample_frames))"
    by (simp add: decrypt_def guard_def sample_crypto_def Let_def sample_initial_def)
  moreover have "hello_ok sample_hello"
    by (simp add: hello_ok_def sample_hello_def extension_bytes_def SERVER_NAME_EXTENSION_def name_bytes_def byte_string_def)
  moreover have "list_all frame_ok sample_frames"
    by (simp add: sample_frames_def VARINT_MAX_eq hello_bytes_def hello_body_def sample_hello_def extension_bytes_def
        name_bytes_def byte_string_def)
  moreover have "list_all (cut_from (hello_bytes sample_hello @ [])) (fragments sample_frames)" by code_simp
  ultimately have v: "judge sample_crypto sample_initial ns =
    (if list_all (covered (fragments sample_frames)) [0..<length (hello_bytes sample_hello)]
     then (case named (extensions sample_hello) of None \<Rightarrow> Refuse Anonymous
           | Some n \<Rightarrow> if utf8_valid n \<and> accepts ns n then Pass else Refuse (OtherName n)) else Pass)" for ns
    by (intro gate_verdict[where fs = sample_frames and rest = "[]" and hdr = ?hdr])
      (simp_all add: sample_initial_def LONG_HEADER_FORM_def LONG_PACKET_TYPE_def INITIAL_PACKET_TYPE_def version_of_def QUIC_V1_def
        MIN_INITIAL_DATAGRAM_def MIN_CLIENT_CONNECTION_ID_def)
  show ?thesis unfolding v by code_simp
qed

text \<open>
  C26. A refused segment cannot start a handshake, and nothing else is touched: what the endpoint receives
  has the same length; it is the received buffer, cut at the stride, with each refused segment blinded, so
  that its header no longer parses, and every other segment as it came.
\<close>

theorem gate_blinds_refused:
  "let ds = segments (meta_stride m) (take (meta_len m) buf)
   in concat ds @ drop (meta_len m) buf = buf \<and>
      screen_buffer crypto ns m buf = concat (map (\<lambda>d. screen crypto d ns) ds) @ drop (meta_len m) buf \<and>
      length (screen_buffer crypto ns m buf) = length buf \<and>
      (case judge crypto d ns of
         Pass \<Rightarrow> screen crypto d ns = d
       | Refuse r \<Rightarrow> initial_parse (screen crypto d ns) = None \<and> length (screen crypto d ns) = length d \<and>
           take DCID_LENGTH_OFFSET (screen crypto d ns) = take DCID_LENGTH_OFFSET d \<and>
           drop (DCID_LENGTH_OFFSET + 1) (screen crypto d ns) = drop (DCID_LENGTH_OFFSET + 1) d)"
proof -
  have "length (concat (map (\<lambda>d. screen crypto d ns) ds)) = length (concat ds)" for ds
    by (induction ds) (simp_all add: length_screen)
  from this[of "segments (meta_stride m) (take (meta_len m) buf)"] show ?thesis
    by (auto simp: Let_def screen_buffer_def screen_segments_map concat_segments min_def screen_def initial_parse_blind blind_keeps
        split: verdict.split)
qed

end
