(* ===== verification/Congestion.thy ===== *)
theory Congestion
  imports Main Runs
begin

text \<open>
  \<^verbatim>\<open>src/src/congestion.rs\<close>: the wrapper around the QUIC library's BBR controller that holds its window to a
  measured bandwidth-delay product. BBR itself is the library's: it is a parameter, a record of its
  callbacks over an opaque state, and so is the round-trip estimator it is handed.

  Times are numbers of nanoseconds; \<^verbatim>\<open>saturating_duration_since\<close> is the subtraction of naturals. Byte counts
  and rates are \<^verbatim>\<open>u64\<close> and saturate where the code says so; the products the code forms in \<^verbatim>\<open>u128\<close> fit
  for every round trip below a century.
\<close>

definition U64_MAX :: nat where "U64_MAX = 2 ^ 64 - 1"

definition saturate64 :: "nat \<Rightarrow> nat" where
  "saturate64 n = min n U64_MAX"

section \<open>Constants\<close>

definition SAMPLES :: nat where "SAMPLES = 10"
definition CWND_GAIN_PERMILLE :: nat where "CWND_GAIN_PERMILLE = 1250"
definition PROBE_GAIN_PERMILLE :: nat where "PROBE_GAIN_PERMILLE = 500"
definition STARTUP_GAIN_PERMILLE :: nat where "STARTUP_GAIN_PERMILLE = 2885"
definition GROWTH_PERCENT :: nat where "GROWTH_PERCENT = 125"
definition SAMPLES_WITHOUT_GROWTH :: nat where "SAMPLES_WITHOUT_GROWTH = 3"
definition FALLEN_PERCENT :: nat where "FALLEN_PERCENT = 50"
definition RISES_TO_RESTART :: nat where "RISES_TO_RESTART = 3"
definition MIN_RTT_LIFETIME :: nat where "MIN_RTT_LIFETIME = 10 * 1000000000"
definition PROBE_TIME :: nat where "PROBE_TIME = 200 * 1000000"
definition PROBE_MIN_PACKETS :: nat where "PROBE_MIN_PACKETS = 4"

definition as_micros :: "nat \<Rightarrow> nat" where
  "as_micros d = d div 1000"

section \<open>Delivery rate\<close>

record delivery_rate =
  started :: "nat option"
  acked :: nat
  limited :: bool
  newest_sent :: "nat option"
  sent_at_start :: "nat option"
  samples :: "nat list"
  stored_at :: "nat list"
  next_slot :: nat
  intervals :: nat

definition rate_default :: delivery_rate where
  "rate_default = \<lparr>started = None, acked = 0, limited = False, newest_sent = None, sent_at_start = None,
     samples = replicate SAMPLES 0, stored_at = replicate SAMPLES 0, next_slot = 0, intervals = 0\<rparr>"

record rate_sample =
  sample_rate :: nat
  sample_limited :: bool
  sample_stored :: bool
  ack_elapsed :: nat
  send_elapsed :: nat

definition rate_on_ack :: "nat \<Rightarrow> nat \<Rightarrow> bool \<Rightarrow> delivery_rate \<Rightarrow> delivery_rate" where
  "rate_on_ack sent bytes app_limited r =
     r\<lparr>acked := saturate64 (acked r + bytes), limited := limited r \<or> app_limited,
       newest_sent := (case newest_sent r of None \<Rightarrow> Some sent | Some s \<Rightarrow> Some (max s sent))\<rparr>"

definition rate_restart :: "nat \<Rightarrow> delivery_rate \<Rightarrow> delivery_rate" where
  "rate_restart now r = r\<lparr>started := Some now, sent_at_start := newest_sent r, acked := 0, limited := False\<rparr>"

definition rate_max :: "delivery_rate \<Rightarrow> nat option" where
  "rate_max r = (let m = fold max (samples r) 0 in if m > 0 then Some m else None)"

text \<open>A \<^verbatim>\<open>usize\<close> that wraps: the number of intervals between two of its values.\<close>

definition wrapping_sub64 :: "nat \<Rightarrow> nat \<Rightarrow> nat" where
  "wrapping_sub64 a b = (a + 2 ^ 64 - b) mod 2 ^ 64"

definition expire :: "nat \<Rightarrow> nat list \<Rightarrow> nat list \<Rightarrow> nat list" where
  "expire now_interval slots ats = map2 (\<lambda>slot at. if wrapping_sub64 now_interval at \<ge> SAMPLES then 0 else slot) slots ats"

definition store_sample :: "nat \<Rightarrow> delivery_rate \<Rightarrow> delivery_rate" where
  "store_sample sample r =
     (let kept = (if sample > 0 then expire (intervals r) (samples r) (stored_at r) else samples r)
      in r\<lparr>samples := kept[next_slot r := sample], stored_at := (stored_at r)[next_slot r := intervals r],
           next_slot := (next_slot r + 1) mod SAMPLES\<rparr>)"

text \<open>The end of an interval: its sample, over the longer of the ACK interval and the send interval.\<close>

definition sample_of :: "nat \<Rightarrow> delivery_rate \<Rightarrow> rate_sample" where
  "sample_of ack r =
     (let snt = (case (sent_at_start r, newest_sent r) of (Some f, Some l) \<Rightarrow> l - f | _ \<Rightarrow> 0);
          elapsed = max ack snt;
          sample = saturate64 (acked r * 1000000 div max (as_micros elapsed) 1)
      in \<lparr>sample_rate = sample, sample_limited = limited r,
          sample_stored = (\<not> limited r \<or> sample > (case rate_max r of Some m \<Rightarrow> m | None \<Rightarrow> 0)),
          ack_elapsed = ack, send_elapsed = snt\<rparr>)"

definition rate_on_end_acks :: "nat \<Rightarrow> bool \<Rightarrow> nat \<Rightarrow> delivery_rate \<Rightarrow> delivery_rate \<times> rate_sample option" where
  "rate_on_end_acks now app_limited round_time r =
     (let r = r\<lparr>limited := limited r \<or> app_limited\<rparr>
      in case started r of
           None \<Rightarrow> (rate_restart now r, None)
         | Some t \<Rightarrow>
             (let ack = now - t
              in if ack = 0 \<or> ack < round_time then (r, None)
                 else
                   (let s = sample_of ack r;
                        r' = (if sample_stored s then store_sample (sample_rate s) r else r)
                    in (rate_restart now (r'\<lparr>intervals := (intervals r + 1) mod 2 ^ 64\<rparr>), Some s))))"

section \<open>Startup\<close>

record startup =
  ended :: bool
  grown_to :: nat
  flat :: nat
  congested :: bool
  peak :: nat
  last_estimate :: nat
  rises :: nat

definition startup_default :: startup where
  "startup_default = \<lparr>ended = False, grown_to = 0, flat = 0, congested = False, peak = 0, last_estimate = 0, rises = 0\<rparr>"

definition count_rise :: "nat \<Rightarrow> startup \<Rightarrow> startup" where
  "count_rise estimate s =
     (let prev = last_estimate s;
          fallen = (prev * 100 < peak s * FALLEN_PERCENT);
          rose = (estimate > prev);
          n = (if fallen \<and> rose then rises s + 1 else 0)
      in if n \<ge> RISES_TO_RESTART
         then startup_default\<lparr>grown_to := estimate, peak := peak s, last_estimate := estimate\<rparr>
         else s\<lparr>last_estimate := estimate, rises := n\<rparr>)"

definition on_interval :: "nat \<Rightarrow> bool \<Rightarrow> startup \<Rightarrow> startup" where
  "on_interval estimate app_limited s =
     (let was_congested = congested s;
          s = s\<lparr>congested := False, peak := max (peak s) estimate\<rparr>
      in if ended s then (if \<not> app_limited then count_rise estimate s else s)
         else
           (let s = (if \<not> app_limited then s\<lparr>last_estimate := estimate\<rparr> else s)
            in if app_limited \<and> \<not> was_congested then s
               else if estimate * 100 \<ge> grown_to s * GROWTH_PERCENT then s\<lparr>grown_to := estimate, flat := 0\<rparr>
               else if was_congested then s\<lparr>ended := True\<rparr>
               else s\<lparr>flat := flat s + 1, ended := (flat s + 1 \<ge> SAMPLES_WITHOUT_GROWTH)\<rparr>))"

section \<open>The controller\<close>

text \<open>The library's controller: its callbacks over a state of its own, and the estimator's smoothed value.\<close>

record ('b, 'r) bbr =
  bbr_on_sent :: "nat \<Rightarrow> nat \<Rightarrow> nat \<Rightarrow> 'b \<Rightarrow> 'b"
  bbr_on_ack :: "nat \<Rightarrow> nat \<Rightarrow> nat \<Rightarrow> bool \<Rightarrow> 'r \<Rightarrow> 'b \<Rightarrow> 'b"
  bbr_on_end_acks :: "nat \<Rightarrow> nat \<Rightarrow> bool \<Rightarrow> nat option \<Rightarrow> 'b \<Rightarrow> 'b"
  bbr_on_congestion_event :: "nat \<Rightarrow> nat \<Rightarrow> bool \<Rightarrow> nat \<Rightarrow> 'b \<Rightarrow> 'b"
  bbr_on_mtu_update :: "nat \<Rightarrow> 'b \<Rightarrow> 'b"
  bbr_window :: "'b \<Rightarrow> nat"
  bbr_initial_window :: "'b \<Rightarrow> nat"
  rtt_get :: "'r \<Rightarrow> nat"

record probe =
  probe_min :: nat
  probe_ends :: "nat option"

record 'b bbr_capped =
  inner :: 'b
  rate :: delivery_rate
  startup_of :: startup
  min_rtt :: "(nat \<times> nat) option"
  probing :: "probe option"
  srtt :: nat
  mtu :: nat

definition build :: "'b \<Rightarrow> nat \<Rightarrow> 'b bbr_capped" where
  "build b m = \<lparr>inner = b, rate = rate_default, startup_of = startup_default, min_rtt = None, probing = None, srtt = 0, mtu = m\<rparr>"

definition record_ack :: "nat \<Rightarrow> nat \<Rightarrow> nat \<Rightarrow> bool \<Rightarrow> nat \<Rightarrow> 'b bbr_capped \<Rightarrow> 'b bbr_capped" where
  "record_ack now sent bytes app_limited smoothed c =
     (let c = c\<lparr>srtt := smoothed, rate := rate_on_ack sent bytes (app_limited \<or> probing c \<noteq> None) (rate c)\<rparr>;
          rtt = now - sent
      in case probing c of
           Some p \<Rightarrow> c\<lparr>probing := Some (p\<lparr>probe_min := min (probe_min p) rtt\<rparr>)\<rparr>
         | None \<Rightarrow>
             (case min_rtt c of
                Some (m, at) \<Rightarrow>
                  if rtt > m
                  then (if \<not> app_limited \<and> now - at > MIN_RTT_LIFETIME
                        then c\<lparr>probing := Some \<lparr>probe_min = rtt, probe_ends = None\<rparr>\<rparr> else c)
                  else c\<lparr>min_rtt := Some (rtt, now)\<rparr>
              | None \<Rightarrow> c\<lparr>min_rtt := Some (rtt, now)\<rparr>))"

definition cap_floor :: "('b, 'r) bbr \<Rightarrow> 'b bbr_capped \<Rightarrow> nat" where
  "cap_floor b c = (if probing c = None then bbr_initial_window b (inner c) else PROBE_MIN_PACKETS * mtu c)"

definition gain_permille :: "'b bbr_capped \<Rightarrow> nat" where
  "gain_permille c =
     (if probing c \<noteq> None then PROBE_GAIN_PERMILLE
      else if ended (startup_of c) then CWND_GAIN_PERMILLE else STARTUP_GAIN_PERMILLE)"

definition cap :: "('b, 'r) bbr \<Rightarrow> 'b bbr_capped \<Rightarrow> nat option" where
  "cap b c =
     (case (rate_max (rate c), min_rtt c) of
        (Some bandwidth, Some (m, _)) \<Rightarrow>
          Some (max (saturate64 (bandwidth * as_micros m * gain_permille c div 1000000000)) (cap_floor b c))
      | _ \<Rightarrow> None)"

definition update_probe :: "('b, 'r) bbr \<Rightarrow> nat \<Rightarrow> nat \<Rightarrow> 'b bbr_capped \<Rightarrow> 'b bbr_capped" where
  "update_probe b now in_flight c =
     (case probing c of
        None \<Rightarrow> c
      | Some p \<Rightarrow>
          (case probe_ends p of
             None \<Rightarrow>
               if (case cap b c of None \<Rightarrow> True | Some m \<Rightarrow> in_flight \<le> m)
               then c\<lparr>probing := Some (p\<lparr>probe_ends := Some (now + max PROBE_TIME (srtt c))\<rparr>)\<rparr> else c
           | Some e \<Rightarrow> if now \<ge> e then c\<lparr>min_rtt := Some (probe_min p, now), probing := None\<rparr> else c))"

definition on_sent :: "('b, 'r) bbr \<Rightarrow> nat \<Rightarrow> nat \<Rightarrow> nat \<Rightarrow> 'b bbr_capped \<Rightarrow> 'b bbr_capped" where
  "on_sent b now bytes pn c = c\<lparr>inner := bbr_on_sent b now bytes pn (inner c)\<rparr>"

definition on_ack :: "('b, 'r) bbr \<Rightarrow> nat \<Rightarrow> nat \<Rightarrow> nat \<Rightarrow> bool \<Rightarrow> 'r \<Rightarrow> 'b bbr_capped \<Rightarrow> 'b bbr_capped" where
  "on_ack b now sent bytes app_limited rtt c =
     record_ack now sent bytes app_limited (rtt_get b rtt) (c\<lparr>inner := bbr_on_ack b now sent bytes app_limited rtt (inner c)\<rparr>)"

definition on_end_acks :: "('b, 'r) bbr \<Rightarrow> nat \<Rightarrow> nat \<Rightarrow> bool \<Rightarrow> nat option \<Rightarrow> 'b bbr_capped \<Rightarrow> 'b bbr_capped" where
  "on_end_acks b now in_flight app_limited largest c =
     (let c = c\<lparr>inner := bbr_on_end_acks b now in_flight app_limited largest (inner c)\<rparr>
      in case rate_on_end_acks now app_limited (srtt c) (rate c) of
           (r, Some s) \<Rightarrow>
             update_probe b now in_flight
               (c\<lparr>rate := r, startup_of := on_interval (case rate_max r of Some m \<Rightarrow> m | None \<Rightarrow> 0) (sample_limited s) (startup_of c)\<rparr>)
         | (r, None) \<Rightarrow> update_probe b now in_flight (c\<lparr>rate := r\<rparr>))"

definition on_congestion_event :: "('b, 'r) bbr \<Rightarrow> nat \<Rightarrow> nat \<Rightarrow> bool \<Rightarrow> nat \<Rightarrow> 'b bbr_capped \<Rightarrow> 'b bbr_capped" where
  "on_congestion_event b now sent persistent lost c =
     c\<lparr>inner := bbr_on_congestion_event b now sent persistent lost (inner c), startup_of := (startup_of c)\<lparr>congested := True\<rparr>\<rparr>"

definition on_mtu_update :: "('b, 'r) bbr \<Rightarrow> nat \<Rightarrow> 'b bbr_capped \<Rightarrow> 'b bbr_capped" where
  "on_mtu_update b m c = c\<lparr>inner := bbr_on_mtu_update b m (inner c), mtu := m\<rparr>"

definition window :: "('b, 'r) bbr \<Rightarrow> 'b bbr_capped \<Rightarrow> nat" where
  "window b c = (case cap b c of None \<Rightarrow> bbr_window b (inner c) | Some m \<Rightarrow> min (bbr_window b (inner c)) m)"

section \<open>Callbacks in any order\<close>

datatype 'r cc_op =
    Sent nat nat nat
  | Acked nat nat nat bool 'r
  | EndAcks nat nat bool "nat option"
  | CongestionEvent nat nat bool nat
  | MtuUpdate nat

fun cc_apply :: "('b, 'r) bbr \<Rightarrow> 'b bbr_capped \<Rightarrow> 'r cc_op \<Rightarrow> 'b bbr_capped" where
  "cc_apply b c (Sent now bytes pn) = on_sent b now bytes pn c"
| "cc_apply b c (Acked now sent bytes lim rtt) = on_ack b now sent bytes lim rtt c"
| "cc_apply b c (EndAcks now in_flight lim largest) = on_end_acks b now in_flight lim largest c"
| "cc_apply b c (CongestionEvent now sent persistent lost) = on_congestion_event b now sent persistent lost c"
| "cc_apply b c (MtuUpdate m) = on_mtu_update b m c"

text \<open>The same callbacks on the library's controller alone.\<close>

fun bbr_apply :: "('b, 'r) bbr \<Rightarrow> 'b \<Rightarrow> 'r cc_op \<Rightarrow> 'b" where
  "bbr_apply b s (Sent now bytes pn) = bbr_on_sent b now bytes pn s"
| "bbr_apply b s (Acked now sent bytes lim rtt) = bbr_on_ack b now sent bytes lim rtt s"
| "bbr_apply b s (EndAcks now in_flight lim largest) = bbr_on_end_acks b now in_flight lim largest s"
| "bbr_apply b s (CongestionEvent now sent persistent lost) = bbr_on_congestion_event b now sent persistent lost s"
| "bbr_apply b s (MtuUpdate m) = bbr_on_mtu_update b m s"

end
