(* ===== verification/Congestion_Safety.thy ===== *)
theory Congestion_Safety
  imports Congestion
begin

text \<open>
  What holds of the capped controller whatever the order of its callbacks: the library's controller sees
  exactly the callbacks it would see alone; the window is never above its window nor below the floor; the
  counters of the startup rule stay within their type; and the bandwidth estimate, kept in a ring of ten
  slots, is the largest sample of the last ten intervals whenever a sample is stored.
\<close>

section \<open>Startup counters\<close>

definition startup_ok :: "startup \<Rightarrow> bool" where
  "startup_ok s \<longleftrightarrow> flat s \<le> SAMPLES_WITHOUT_GROWTH \<and> rises s < RISES_TO_RESTART \<and>
     (\<not> ended s \<longrightarrow> flat s < SAMPLES_WITHOUT_GROWTH \<and> rises s = 0) \<and> grown_to s \<le> peak s"

lemma startup_ok_interval: "startup_ok s \<Longrightarrow> startup_ok (on_interval e lim s)"
  by (auto simp: on_interval_def count_rise_def startup_ok_def startup_default_def Let_def SAMPLES_WITHOUT_GROWTH_def RISES_TO_RESTART_def)

lemma record_ack_same [simp]:
  "inner (record_ack now sent bytes lim s c) = inner c" "startup_of (record_ack now sent bytes lim s c) = startup_of c"
  "mtu (record_ack now sent bytes lim s c) = mtu c"
  by (auto simp: record_ack_def Let_def split: option.split)

lemma update_probe_same [simp]:
  "inner (update_probe b now n c) = inner c" "startup_of (update_probe b now n c) = startup_of c"
  "rate (update_probe b now n c) = rate c"
  by (auto simp: update_probe_def split: option.split)

lemma startup_ok_op:
  assumes "startup_ok (startup_of c)"
  shows "startup_ok (startup_of (cc_apply b c x))"
proof -
  have "startup_ok ((startup_of c)\<lparr>congested := True\<rparr>)" using assms by (simp add: startup_ok_def)
  with assms show ?thesis
    by (cases x) (auto simp: on_sent_def on_ack_def on_end_acks_def on_congestion_event_def on_mtu_update_def Let_def startup_ok_interval
        split: prod.split option.split)
qed

interpretation cc: started_operations "cc_apply b" "\<lambda>c. startup_ok (startup_of c)" "build i m" for b i m
  by unfold_locales (auto simp: startup_ok_op, simp add: build_def startup_ok_def startup_default_def SAMPLES_WITHOUT_GROWTH_def RISES_TO_RESTART_def)

section \<open>Forwarding\<close>

lemma inner_op: "inner (cc_apply b c x) = bbr_apply b (inner c) x"
  by (cases x) (auto simp: on_sent_def on_ack_def on_end_acks_def on_congestion_event_def on_mtu_update_def Let_def
      split: prod.split option.split)

lemma inner_run: "inner (foldl (cc_apply b) c ops) = foldl (bbr_apply b) (inner c) ops"
  by (induction ops arbitrary: c) (simp_all add: inner_op)

section \<open>The bandwidth filter\<close>

text \<open>What was stored so far: the interval of each stored sample and its value, oldest first.\<close>

datatype rate_op = RateAck nat nat bool | RateEnd nat bool nat

fun rate_apply :: "delivery_rate \<times> (nat \<times> nat) list \<Rightarrow> rate_op \<Rightarrow> delivery_rate \<times> (nat \<times> nat) list" where
  "rate_apply (r, h) (RateAck sent bytes lim) = (rate_on_ack sent bytes lim r, h)"
| "rate_apply (r, h) (RateEnd now lim round_time) =
     (case rate_on_end_acks now lim round_time r of
        (r', Some s) \<Rightarrow> (r', if sample_stored s then h @ [(intervals r, sample_rate s)] else h)
      | (r', None) \<Rightarrow> (r', h))"

definition ring_inv :: "delivery_rate \<times> (nat \<times> nat) list \<Rightarrow> bool" where
  "ring_inv = (\<lambda>(r, h). length (samples r) = SAMPLES \<and> length (stored_at r) = SAMPLES \<and> next_slot r = length h mod SAMPLES \<and>
     sorted_wrt (<) (map fst h) \<and> list_all (\<lambda>e. fst e < intervals r) h \<and>
     (\<forall>i<length h. length h \<le> i + SAMPLES \<longrightarrow> stored_at r ! (i mod SAMPLES) = fst (h ! i) \<and>
        (samples r ! (i mod SAMPLES) = snd (h ! i) \<or>
         samples r ! (i mod SAMPLES) = 0 \<and> fst (h ! i) + SAMPLES \<le> fst (last h))) \<and>
     (\<forall>j<SAMPLES. length h \<le> j \<longrightarrow> samples r ! j = 0))"

lemma wrapping_sub64_le: "b \<le> a \<Longrightarrow> a < 2 ^ 64 \<Longrightarrow> wrapping_sub64 a b = a - b"
proof -
  assume "b \<le> a" "a < 2 ^ 64"
  then have "a + 2 ^ 64 - b = (a - b) + 2 ^ 64" "a - b < 2 ^ 64" by simp_all
  then show ?thesis by (metis mod_add_self2 mod_less wrapping_sub64_def)
qed

lemma strict_gap:
  assumes "sorted_wrt (<) (xs :: nat list)" "i \<le> j" "j < length xs"
  shows "xs ! i + (j - i) \<le> xs ! j"
  using assms(2,3)
proof (induction "j - i" arbitrary: j)
  case (Suc n)
  then have "i \<le> j - 1" "j - 1 < length xs" "n = j - 1 - i" "0 < j" by auto
  with Suc.hyps(1)[of "j - 1"] have "xs ! i + (j - 1 - i) \<le> xs ! (j - 1)" by simp
  moreover have "xs ! (j - 1) < xs ! j" using assms(1) Suc \<open>0 < j\<close> by (simp add: sorted_wrt_iff_nth_less)
  ultimately show ?case using \<open>i \<le> j - 1\<close> by simp
qed simp

lemma mod_window: "i < n \<Longrightarrow> n < i + m \<Longrightarrow> i mod m \<noteq> n mod (m :: nat)"
proof
  assume "i < n" "n < i + m" "i mod m = n mod m"
  then have "m dvd n - i" by (metis less_imp_le mod_eq_dvd_iff_nat)
  with \<open>i < n\<close> have "m \<le> n - i" by (intro dvd_imp_le) auto
  with \<open>n < i + m\<close> \<open>i < n\<close> show False by simp
qed

lemma window_index:
  assumes "j < m" "j < n"
  obtains i where "i < n" "n \<le> i + m" "i mod m = (j :: nat)"
proof -
  let ?i = "n - 1 - (n - 1 - j) mod m"
  define q e where "q = m * ((n - 1 - j) div m)" and "e = (n - 1 - j) mod m"
  then have "q + e = n - 1 - j" by simp
  then have "n - 1 - e = j + q" using assms(2) by linarith
  then have i: "?i = j + m * ((n - 1 - j) div m)" by (simp add: q_def e_def)
  have "(n - 1 - j) mod m < m" using assms(1) by simp
  then have "e < m" by (simp add: e_def)
  then have "?i < n" "n \<le> ?i + m" using assms unfolding e_def[symmetric] by linarith+
  moreover have "?i mod m = j" using i assms(1) by simp
  ultimately show ?thesis by (rule that)
qed

abbreviation stored :: "delivery_rate \<Rightarrow> nat \<Rightarrow> delivery_rate" where
  "stored r s \<equiv> (store_sample s r)\<lparr>intervals := intervals r + 1\<rparr>"

lemma kept_nth:
  assumes "length (samples r) = SAMPLES" "length (stored_at r) = SAMPLES" "j < SAMPLES" "j \<noteq> next_slot r"
    and "stored_at r ! j \<le> intervals r" "intervals r < 2 ^ 64"
  shows "samples (stored r s) ! j = (if s > 0 \<and> stored_at r ! j + SAMPLES \<le> intervals r then 0 else samples r ! j)"
    "stored_at (stored r s) ! j = stored_at r ! j"
  using assms wrapping_sub64_le[OF assms(5,6)]
  by (auto simp: store_sample_def Let_def expire_def)

lemma ring_store:
  assumes "ring_inv (r, h)" "intervals r < 2 ^ 64"
  shows "ring_inv (stored r s, h @ [(intervals r, s)])"
proof -
  let ?h = "h @ [(intervals r, s)]" and ?r = "stored r s" and ?n = "length h"
  from assms(1) have inv: "length (samples r) = SAMPLES" "length (stored_at r) = SAMPLES" "next_slot r = ?n mod SAMPLES"
    "sorted_wrt (<) (map fst h)" "list_all (\<lambda>e. fst e < intervals r) h"
    and win: "\<And>i. i < ?n \<Longrightarrow> ?n \<le> i + SAMPLES \<Longrightarrow> stored_at r ! (i mod SAMPLES) = fst (h ! i) \<and>
        (samples r ! (i mod SAMPLES) = snd (h ! i) \<or> samples r ! (i mod SAMPLES) = 0 \<and> fst (h ! i) + SAMPLES \<le> fst (last h))"
    and zero: "\<And>j. j < SAMPLES \<Longrightarrow> ?n \<le> j \<Longrightarrow> samples r ! j = 0"
    by (auto simp: ring_inv_def)
  have S: "0 < SAMPLES" by (simp add: SAMPLES_def)
  have lens: "length (samples ?r) = SAMPLES" "length (stored_at ?r) = SAMPLES" "next_slot ?r = length ?h mod SAMPLES"
    using inv(1-3) by (simp_all add: store_sample_def Let_def expire_def mod_Suc_eq)
  have "stored_at ?r ! (i mod SAMPLES) = fst (?h ! i) \<and>
      (samples ?r ! (i mod SAMPLES) = snd (?h ! i) \<or> samples ?r ! (i mod SAMPLES) = 0 \<and> fst (?h ! i) + SAMPLES \<le> intervals r)"
    if i: "i < length ?h" "length ?h \<le> i + SAMPLES" for i
  proof (cases "i = ?n")
    case True
    then show ?thesis using inv(1-3) S by (simp add: store_sample_def Let_def expire_def)
  next
    case False
    with i have i': "i < ?n" "?n < i + SAMPLES" by auto
    have at: "fst (h ! i) < intervals r" using inv(5) i' by (simp add: list_all_length)
    have "fst (last h) \<le> intervals r" using inv(5) i' by (cases h rule: rev_cases) auto
    with kept_nth[OF inv(1,2), of "i mod SAMPLES" s] win[of i] mod_window[OF i'] inv(3) i' at S assms(2)
    show ?thesis by (auto simp: nth_append)
  qed
  moreover have "samples ?r ! j = 0" if "j < SAMPLES" "length ?h \<le> j" for j
  proof -
    have "next_slot r \<noteq> j" using that inv(3) by simp
    with that zero[of j] inv show ?thesis by (simp add: store_sample_def Let_def expire_def)
  qed
  moreover have "sorted_wrt (<) (map fst ?h)" "list_all (\<lambda>e. fst e < intervals ?r) ?h"
    using inv(4,5) by (auto simp: sorted_wrt_append list_all_iff)
  ultimately show ?thesis using lens by (simp add: ring_inv_def)
qed

lemma rate_max_Max: "rate_max r = (let m = Max (insert 0 (set (samples r))) in if m > 0 then Some m else None)"
  using Max.set_eq_fold[of 0 "samples r"] by (simp add: rate_max_def)

lemma Max_same:
  assumes "A \<subseteq> insert 0 L" "L \<subseteq> A" "L \<noteq> {}" "finite L"
  shows "Max (insert (0 :: nat) A) = Max L"
proof -
  have "insert 0 A = insert 0 L" using assms(1,2) by auto
  with assms(3,4) show ?thesis by simp
qed

text \<open>Right after a sample above zero was stored, the ring holds exactly the samples of the last ten intervals.\<close>

text \<open>After a store the ring holds the samples of the last intervals, and nothing else but zeros.\<close>

abbreviation recent :: "delivery_rate \<Rightarrow> (nat \<times> nat) list \<Rightarrow> (nat \<times> nat) set" where
  "recent r h \<equiv> {e \<in> set h. intervals r < fst e + SAMPLES}"

lemma ring_window:
  assumes "ring_inv (r, h)" "intervals r < 2 ^ 64" "i < length (h @ [(intervals r, s)])" "length (h @ [(intervals r, s)]) \<le> i + SAMPLES"
  shows "samples (stored r s) ! (i mod SAMPLES) = snd ((h @ [(intervals r, s)]) ! i)
    \<or> samples (stored r s) ! (i mod SAMPLES) = 0 \<and> fst ((h @ [(intervals r, s)]) ! i) + SAMPLES \<le> intervals r"
  using ring_store[OF assms(1,2), of s] assms(3,4) by (auto simp: ring_inv_def)

lemma ring_only_recent:
  assumes "ring_inv (r, h)" "intervals r < 2 ^ 64" "0 < s"
  shows "set (samples (stored r s)) \<subseteq> insert 0 (snd ` recent r (h @ [(intervals r, s)]))"
proof
  let ?h = "h @ [(intervals r, s)]" and ?r = "stored r s"
  have new: "ring_inv (?r, ?h)" using assms(1,2) by (rule ring_store)
  from assms(1) have inv: "length (samples r) = SAMPLES" "length (stored_at r) = SAMPLES" "next_slot r = length h mod SAMPLES"
    "list_all (\<lambda>e. fst e < intervals r) h" by (auto simp: ring_inv_def)
  fix x assume "x \<in> set (samples ?r)"
  then obtain j where j: "j < SAMPLES" "x = samples ?r ! j" using new by (auto simp: in_set_conv_nth ring_inv_def)
  show "x \<in> insert 0 (snd ` recent r ?h)"
  proof (cases "j < length ?h")
    case False
    with j new show ?thesis by (auto simp: ring_inv_def)
  next
    case True
    then obtain i where i: "i < length ?h" "length ?h \<le> i + SAMPLES" "i mod SAMPLES = j"
      using window_index[of j SAMPLES "length ?h"] j(1) by auto
    show ?thesis
    proof (cases "intervals r < fst (?h ! i) + SAMPLES")
      case True
      have "?h ! i \<in> set ?h" using i(1) by (rule nth_mem)
      with True ring_window[OF assms(1,2) i(1,2)] i(3) j(2) show ?thesis by auto
    next
      case False
      then have "i < length h" using i by (cases "i = length h") (auto simp: SAMPLES_def)
      then have "fst (h ! i) < intervals r" "j \<noteq> next_slot r" "stored_at r ! j = fst (h ! i)"
        using inv i mod_window[of i "length h" SAMPLES] assms(1) by (auto simp: list_all_length ring_inv_def)
      with False \<open>i < length h\<close> kept_nth(1)[OF inv(1,2) j(1), of s] assms(2,3) j(2) show ?thesis by (auto simp: nth_append)
    qed
  qed
qed

lemma ring_all_recent:
  assumes "ring_inv (r, h)" "intervals r < 2 ^ 64"
  shows "snd ` recent r (h @ [(intervals r, s)]) \<subseteq> set (samples (stored r s))"
proof
  let ?h = "h @ [(intervals r, s)]" and ?r = "stored r s"
  have new: "ring_inv (?r, ?h)" using assms by (rule ring_store)
  then have srt: "sorted_wrt (<) (map fst ?h)" by (simp add: ring_inv_def)
  fix x assume "x \<in> snd ` recent r ?h"
  then obtain e where "e \<in> set ?h" "x = snd e" "intervals r < fst e + SAMPLES" by blast
  then obtain i where i: "i < length ?h" "x = snd (?h ! i)" "intervals r < fst (?h ! i) + SAMPLES"
    by (metis in_set_conv_nth)
  have "fst (?h ! i) + (length h - i) \<le> intervals r"
    using strict_gap[OF srt, of i "length h"] i(1) by (simp add: nth_append del: map_append split: if_splits)
  with i(3) have "length ?h \<le> i + SAMPLES" by simp
  with ring_window[OF assms i(1)] i have "x = samples ?r ! (i mod SAMPLES)" by auto
  then show "x \<in> set (samples ?r)" using new by (auto simp: ring_inv_def SAMPLES_def)
qed

lemma ring_estimate:
  assumes "ring_inv (r, h)" "intervals r < 2 ^ 64" "0 < s"
  shows "rate_max (stored r s) = Some (Max (snd ` recent r (h @ [(intervals r, s)])))"
proof -
  let ?L = "recent r (h @ [(intervals r, s)])" and ?r = "stored r s"
  have "(intervals r, s) \<in> ?L" by (simp add: SAMPLES_def)
  then have s: "s \<in> snd ` ?L" by (metis (mono_tags, lifting) image_eqI snd_conv)
  with ring_only_recent[OF assms] ring_all_recent[OF assms(1,2), of s]
  have "Max (insert 0 (set (samples ?r))) = Max (snd ` ?L)" by (intro Max_same) auto
  moreover have "s \<le> Max (snd ` ?L)" using s by (intro Max_ge) auto
  ultimately show ?thesis using assms(3) by (simp add: rate_max_Max Let_def)
qed

lemma rate_max_cosmetic [simp]:
  "rate_max (r\<lparr>limited := b\<rparr>) = rate_max r" "rate_max (r\<lparr>intervals := n\<rparr>) = rate_max r"
  "rate_max (rate_restart now r) = rate_max r" "rate_max (rate_on_ack sent bytes lim r) = rate_max r"
  by (simp_all add: rate_max_def rate_restart_def rate_on_ack_def)

lemma ring_inv_cosmetic [simp]:
  "ring_inv (r\<lparr>limited := b\<rparr>, h) = ring_inv (r, h)" "ring_inv (rate_restart now r, h) = ring_inv (r, h)"
  "ring_inv (rate_on_ack sent bytes lim r, h) = ring_inv (r, h)"
  by (simp_all add: ring_inv_def rate_restart_def rate_on_ack_def)

lemma ring_inv_idle: "ring_inv (r, h) \<Longrightarrow> intervals r \<le> n \<Longrightarrow> ring_inv (r\<lparr>intervals := n\<rparr>, h)"
  by (auto simp: ring_inv_def list_all_iff)

text \<open>A call at the end of the ACKs: no sample, a sample that is not stored, or one that is.\<close>

lemma end_acks_effect:
  assumes "rate_on_end_acks now lim t r = (r', x)"
  shows "\<exists>b. case x of
      None \<Rightarrow> r' = r\<lparr>limited := b\<rparr> \<or> r' = rate_restart now (r\<lparr>limited := b\<rparr>)
    | Some s \<Rightarrow> r' = rate_restart now ((if sample_stored s then store_sample (sample_rate s) (r\<lparr>limited := b\<rparr>) else r\<lparr>limited := b\<rparr>)
        \<lparr>intervals := (intervals r + 1) mod 2 ^ 64\<rparr>)"
proof -
  let ?b = "limited r \<or> lim"
  show ?thesis
    using assms by (intro exI[of _ ?b]) (auto simp: rate_on_end_acks_def Let_def split: option.splits if_splits)
qed

lemma intervals_same [simp]:
  "intervals (rate_restart now r) = intervals r" "intervals (rate_on_ack sent bytes lim r) = intervals r"
  by (simp_all add: rate_restart_def rate_on_ack_def)

lemma stored_limited [simp]:
  "ring_inv ((store_sample v (r\<lparr>limited := b\<rparr>))\<lparr>intervals := n\<rparr>, h) = ring_inv ((store_sample v r)\<lparr>intervals := n\<rparr>, h)"
  "rate_max (store_sample v (r\<lparr>limited := b\<rparr>)) = rate_max (store_sample v r)"
  by (simp_all add: ring_inv_def rate_max_def store_sample_def Let_def)

lemma rate_step_inv:
  assumes "ring_inv (r, h)" "intervals r + 1 < 2 ^ 64" "rate_apply (r, h) x = (r', h')"
  shows "ring_inv (r', h') \<and> intervals r' \<le> intervals r + 1"
proof (cases x)
  case (RateAck sent bytes lim)
  with assms show ?thesis by auto
next
  case (RateEnd now lim t)
  obtain q y where q: "rate_on_end_acks now lim t r = (q, y)" by (cases "rate_on_end_acks now lim t r")
  from end_acks_effect[OF q] obtain b where "case y of
      None \<Rightarrow> q = r\<lparr>limited := b\<rparr> \<or> q = rate_restart now (r\<lparr>limited := b\<rparr>)
    | Some s \<Rightarrow> q = rate_restart now ((if sample_stored s then store_sample (sample_rate s) (r\<lparr>limited := b\<rparr>) else r\<lparr>limited := b\<rparr>)
        \<lparr>intervals := (intervals r + 1) mod 2 ^ 64\<rparr>)" by blast
  moreover have "ring_inv (r\<lparr>limited := b\<rparr>, h)" using assms(1) by simp
  then have "ring_inv (r\<lparr>limited := b, intervals := intervals r + 1\<rparr>, h)" by (intro ring_inv_idle) simp_all
  ultimately show ?thesis
    using assms RateEnd q ring_store[OF assms(1)] by (cases y) auto
qed

lemma rate_run_inv:
  "length ops < 2 ^ 64 \<Longrightarrow> foldl rate_apply (rate_default, []) ops = (r, h) \<Longrightarrow> ring_inv (r, h) \<and> intervals r \<le> length ops"
proof (induction ops arbitrary: r h rule: rev_induct)
  case Nil
  then show ?case by (auto simp: ring_inv_def rate_default_def)
next
  case (snoc x ops)
  obtain q g where q: "foldl rate_apply (rate_default, []) ops = (q, g)" by fastforce
  with snoc.IH[of q g] snoc.prems(1) have i: "ring_inv (q, g)" "intervals q \<le> length ops" by simp_all
  then have "intervals q + 1 < 2 ^ 64" using snoc.prems(1) by simp
  with rate_step_inv[OF i(1), of x r h] snoc.prems q i(2) show ?case by simp
qed

section \<open>Properties\<close>

text \<open>
  C27. The wrapper only lowers the window. Over any sequence of callbacks the library's controller is in the
  state it would have reached alone; the window reported is at most its window, at most the cap where there
  is one, and at least the smaller of its window and the floor -- the initial window, or four packets while
  probing; and the one-byte counters of the startup rule never exceed three.
\<close>

theorem capped_window:
  "let c = foldl (cc_apply b) (build i m) ops; w = bbr_window b (inner c)
   in inner c = foldl (bbr_apply b) i ops \<and> window b c \<le> w \<and> min w (cap_floor b c) \<le> window b c \<and>
      window b c \<le> (case (rate_max (rate c), min_rtt c) of
         (Some bw, Some (rtt, _)) \<Rightarrow> max (bw * as_micros rtt * gain_permille c div 1000000000) (cap_floor b c) | _ \<Rightarrow> w) \<and>
      gain_permille c \<in> {500, 1250, 2885} \<and> flat (startup_of c) \<le> 3 \<and> rises (startup_of c) \<le> 3"
proof -
  let ?c = "foldl (cc_apply b) (build i m) ops"
  have "startup_ok (startup_of ?c)" by (rule cc.inv_reached)
  moreover have "inner ?c = foldl (bbr_apply b) i ops" by (simp add: inner_run build_def)
  ultimately show ?thesis
    by (auto simp: Let_def window_def cap_def startup_ok_def SAMPLES_WITHOUT_GROWTH_def RISES_TO_RESTART_def saturate64_def
        gain_permille_def PROBE_GAIN_PERMILLE_def CWND_GAIN_PERMILLE_def STARTUP_GAIN_PERMILLE_def split: option.split)
qed

text \<open>
  C24. The ring of ten slots is the ten-interval maximum filter it stands for: after any calls, the call that
  stores a sample above zero leaves as estimate the largest sample stored in the last ten intervals,
  counting those that stored nothing; and a call that stores none leaves the estimate as it was.
\<close>

theorem bandwidth_filter:
  assumes "length ops + 1 < 2 ^ 64" "foldl rate_apply (rate_default, []) ops = (r, h)"
  shows "case rate_on_end_acks now lim t r of
      (r', None) \<Rightarrow> rate_max r' = rate_max r
    | (r', Some s) \<Rightarrow>
        if \<not> sample_stored s then rate_max r' = rate_max r
        else if sample_rate s = 0 then True
        else rate_max r' = Some (Max (snd ` {e \<in> set (h @ [(intervals r, sample_rate s)]). intervals r < fst e + SAMPLES}))"
proof -
  have i: "ring_inv (r, h)" "intervals r < 2 ^ 64" using rate_run_inv[OF _ assms(2)] assms(1) by auto
  obtain r' x where q: "rate_on_end_acks now lim t r = (r', x)" by (cases "rate_on_end_acks now lim t r")
  from end_acks_effect[OF q] ring_estimate[OF i] show ?thesis
    by (auto simp: q split: option.split)
qed

theorem bandwidth_filter_witness:
  "case rate_on_end_acks 2000000 False 1000 (fst (foldl rate_apply (rate_default, []) [RateEnd 0 False 0, RateAck 5 3000 False])) of
     (r', None) \<Rightarrow> False
   | (r', Some s) \<Rightarrow> sample_stored s \<and> rate_max r' = Some 1500000"
proof -
  let ?ops = "[RateEnd 0 False 0, RateAck 5 3000 False]"
  obtain r h where r: "foldl rate_apply (rate_default, []) ?ops = (r, h)" by fastforce
  then have "h = []" "intervals r = 0" "sample_of 2000000 (r\<lparr>limited := False\<rparr>) = \<lparr>sample_rate = 1500000, sample_limited = False,
      sample_stored = True, ack_elapsed = 2000000, send_elapsed = 0\<rparr>" "started r = Some 0" "\<not> limited r"
    by (auto simp: rate_default_def rate_on_end_acks_def rate_on_ack_def rate_restart_def sample_of_def saturate64_def U64_MAX_def as_micros_def)
  then obtain r' s where e: "rate_on_end_acks 2000000 False 1000 r = (r', Some s)" "sample_stored s" "sample_rate s = 1500000"
    by (simp add: rate_on_end_acks_def Let_def)
  with bandwidth_filter[OF _ r, of 2000000 False 1000] \<open>h = []\<close> \<open>intervals r = 0\<close> have "rate_max r' = Some 1500000"
    by (simp add: SAMPLES_def)
  with e show ?thesis by (simp only: r fst_conv prod.case option.case simp_thms)
qed

end
