(* ===== verification/Ip_Text.thy ===== *)
theory Ip_Text
  imports Policy Targets
begin

text \<open>
  IP addresses as text: \<^verbatim>\<open>str::parse\<close> at the address types of \<^verbatim>\<open>std::net\<close>, which \<^verbatim>\<open>literal\<close> of
  \<^verbatim>\<open>src/src/net.rs\<close> and \<^verbatim>\<open>validate_expected_sni\<close> of \<^verbatim>\<open>src/src/config.rs\<close> rest on. The parser of the standard
  library reads a byte at a time and gives back what is left; a reader that fails consumes nothing.
\<close>

section \<open>The parser\<close>

fun read_given :: "byte \<Rightarrow> bytes \<Rightarrow> bytes option" where
  "read_given c [] = None"
| "read_given c (b # s) = (if b = c then Some s else None)"

definition read_separator :: "byte \<Rightarrow> nat \<Rightarrow> (bytes \<Rightarrow> ('a \<times> bytes) option) \<Rightarrow> bytes \<Rightarrow> ('a \<times> bytes) option" where
  "read_separator c i inner s = (if i = 0 then inner s else Option.bind (read_given c s) inner)"

definition decimal_digit :: "byte \<Rightarrow> byte option" where
  "decimal_digit b = (if is_ascii_digit b then Some (b - 0x30) else None)"

text \<open>The digits that follow, as a number and how many there were; more than \<open>most\<close> of them is a failure.\<close>

fun read_digits :: "nat \<Rightarrow> (byte \<Rightarrow> byte option) \<Rightarrow> nat \<Rightarrow> nat \<Rightarrow> nat \<Rightarrow> bytes \<Rightarrow> (nat \<times> nat \<times> bytes) option" where
  "read_digits radix digit most v n [] = Some (v, n, [])"
| "read_digits radix digit most v n (b # s) =
     (case digit b of
        None \<Rightarrow> Some (v, n, b # s)
      | Some d \<Rightarrow> if most < Suc n then None else read_digits radix digit most (v * radix + unat d) (Suc n) s)"

definition read_number :: "nat \<Rightarrow> (byte \<Rightarrow> byte option) \<Rightarrow> nat \<Rightarrow> bool \<Rightarrow> bytes \<Rightarrow> (nat \<times> bytes) option" where
  "read_number radix digit most zero_prefix s =
     (case read_digits radix digit most 0 0 s of
        None \<Rightarrow> None
      | Some (v, n, rest) \<Rightarrow>
          if n = 0 then None
          else if \<not> zero_prefix \<and> take 1 s = [0x30] \<and> 1 < n then None
          else Some (v, rest))"

definition read_octet :: "bytes \<Rightarrow> (byte \<times> bytes) option" where
  "read_octet s =
     Option.bind (read_number 10 decimal_digit 3 False s) (\<lambda>(v, rest). if v < 256 then Some (of_nat v, rest) else None)"

definition read_group :: "bytes \<Rightarrow> (u16 \<times> bytes) option" where
  "read_group s = map_option (\<lambda>(v, rest). (of_nat v, rest)) (read_number 16 hex_digit 4 True s)"

fun read_octets :: "nat \<Rightarrow> nat \<Rightarrow> bytes \<Rightarrow> (bytes \<times> bytes) option" where
  "read_octets i 0 s = Some ([], s)"
| "read_octets i (Suc n) s =
     Option.bind (read_separator 0x2e i read_octet s) (\<lambda>(o1, s).
     Option.bind (read_octets (Suc i) n s) (\<lambda>(os, s). Some (o1 # os, s)))"

definition ipv4_of :: "bytes \<Rightarrow> ipv4" where
  "ipv4_of os = foldl (\<lambda>a b. a * 256 + ucast b) 0 os"

definition read_ipv4 :: "bytes \<Rightarrow> (bytes \<times> bytes) option" where
  "read_ipv4 s = read_octets 0 4 s"

text \<open>The groups of an IPv6 address up to \<open>n\<close> of them, the last two possibly written as an IPv4 address.\<close>

fun read_groups :: "nat \<Rightarrow> nat \<Rightarrow> bytes \<Rightarrow> u16 list \<times> bool \<times> bytes" where
  "read_groups i 0 s = ([], False, s)"
| "read_groups i (Suc n) s =
     (case (if 0 < n then read_separator 0x3a i read_ipv4 s else None) of
        Some (os, rest) \<Rightarrow>
          ([ucast (os ! 0) * 256 + ucast (os ! 1), ucast (os ! 2) * 256 + ucast (os ! 3)], True, rest)
      | None \<Rightarrow>
          (case read_separator 0x3a i read_group s of
             Some (g, rest) \<Rightarrow> (case read_groups (Suc i) n rest of (gs, v4, rest) \<Rightarrow> (g # gs, v4, rest))
           | None \<Rightarrow> ([], False, s)))"

definition ipv6_of :: "u16 list \<Rightarrow> ipv6" where
  "ipv6_of gs = foldl (\<lambda>a g. a * 65536 + ucast g) 0 gs"

definition read_ipv6 :: "bytes \<Rightarrow> (u16 list \<times> bytes) option" where
  "read_ipv6 s =
     (case read_groups 0 8 s of
        (front, v4, rest) \<Rightarrow>
          if length front = 8 then Some (front, rest)
          else if v4 then None
          else Option.bind (read_given 0x3a rest) (\<lambda>rest.
               Option.bind (read_given 0x3a rest) (\<lambda>rest.
               case read_groups 0 (7 - length front) rest of
                 (back, _, rest) \<Rightarrow> Some (front @ replicate (8 - length front - length back) 0 @ back, rest))))"

definition whole :: "('a \<times> bytes) option \<Rightarrow> 'a option" where
  "whole r = (case r of Some (a, []) \<Rightarrow> Some a | _ \<Rightarrow> None)"

definition parse_ipv4 :: "bytes \<Rightarrow> ipv4 option" where
  "parse_ipv4 s = (if 15 < length s then None else map_option ipv4_of (whole (read_ipv4 s)))"

definition parse_ipv6 :: "bytes \<Rightarrow> ipv6 option" where
  "parse_ipv6 s = map_option ipv6_of (whole (read_ipv6 s))"

definition parse_ip :: "bytes \<Rightarrow> ip_addr option" where
  "parse_ip s =
     (case read_ipv4 s of
        Some r \<Rightarrow> map_option (\<lambda>os. V4 (ipv4_of os)) (whole (Some r))
      | None \<Rightarrow> map_option (\<lambda>gs. V6 (ipv6_of gs)) (whole (read_ipv6 s)))"

section \<open>Literals\<close>

definition literal :: "bytes \<Rightarrow> u16 \<Rightarrow> socket_addr option" where
  "literal host p = map_option (\<lambda>a. \<lparr>ip = a, port = p\<rparr>) (parse_ip host)"

section \<open>Dotted quads\<close>

text \<open>The one spelling of an IPv4 address: four octets in decimal, without leading zeros.\<close>

definition octets :: "ipv4 \<Rightarrow> bytes" where
  "octets a = [ucast (drop_bit 24 a), ucast (drop_bit 16 a), ucast (drop_bit 8 a), ucast a]"

fun dotted :: "bytes \<Rightarrow> bytes" where
  "dotted [] = []"
| "dotted [b] = decimal (unat b)"
| "dotted (b # bs) = decimal (unat b) @ 0x2e # dotted bs"


lemma read_digits_span:
  "n \<le> most \<Longrightarrow>
     read_digits 10 decimal_digit most v n s
       = (let ds = takeWhile is_ascii_digit s
          in if most < n + length ds then None
             else Some (foldl (\<lambda>v b. v * 10 + unat (b - 0x30)) v ds, n + length ds, dropWhile is_ascii_digit s))"
  by (induction s arbitrary: v n) (auto simp: decimal_digit_def Let_def)

lemma digits_value_snoc: "digits_value (ds @ [d]) = digits_value ds * 10 + unat (d - 0x30)"
  by (simp add: digits_value_def)

lemma digit_less: "is_ascii_digit d \<Longrightarrow> unat (d - 0x30) < 10 \<and> 0x30 + of_nat (unat (d - 0x30)) = d"
  by (auto simp: is_ascii_digit_def word_le_nat_alt unat_sub)

text \<open>A number without a leading zero is written in one way.\<close>

lemma digits_value_pos: "is_port ds \<Longrightarrow> hd ds \<noteq> 0x30 \<Longrightarrow> 0 < digits_value ds"
proof (induction ds rule: rev_induct)
  case (snoc d ds)
  show ?case
  proof (cases "ds = []")
    case True
    with snoc.prems show ?thesis
      by (auto simp: digits_value_def is_port_def is_ascii_digit_def word_le_nat_alt unat_sub word_unat_eq_iff)
  next
    case False
    with snoc show ?thesis by (simp add: is_port_def digits_value_snoc)
  qed
qed (simp add: is_port_def)

lemma decimal_unique:
  "is_port ds \<Longrightarrow> hd ds \<noteq> 0x30 \<or> length ds = 1 \<Longrightarrow> decimal (digits_value ds) = ds"
proof (induction ds rule: rev_induct)
  case (snoc d ds)
  from snoc.prems have d: "unat (d - 0x30) < 10" "0x30 + of_nat (unat (d - 0x30)) = d"
    using digit_less by (auto simp: is_port_def)
  show ?case
  proof (cases "ds = []")
    case True
    with d show ?thesis by (subst decimal.simps) (simp add: digits_value_def)
  next
    case False
    with snoc.prems have h: "is_port ds" "hd ds \<noteq> 0x30" by (auto simp: is_port_def)
    have "(digits_value ds * 10 + unat (d - 0x30)) div 10 = digits_value ds"
      "(digits_value ds * 10 + unat (d - 0x30)) mod 10 = unat (d - 0x30)" using d(1) by auto
    with snoc.IH h d(2) digits_value_pos[OF h] show ?thesis
      by (subst decimal.simps) (simp add: digits_value_snoc)
  qed
qed (simp add: is_port_def)

lemma decimal_leading: "hd (decimal n) \<noteq> 0x30 \<or> length (decimal n) = 1"
proof (induction n rule: decimal.induct)
  case (1 n)
  show ?case
  proof (cases "n < 10")
    case False
    have "decimal (n div 10) \<noteq> []" using decimal_digits[of "n div 10"] by (simp add: is_port_def)
    moreover have "hd (decimal (n div 10)) \<noteq> 0x30"
    proof (cases "n div 10 < 10")
      case True
      with False have "n div 10 \<in> {1..<10}" by auto
      then show ?thesis by (subst decimal.simps) (auto simp: atLeastLessThan_nat_numeral)
    next
      case big: False
      then have "length (decimal (n div 10)) \<noteq> 1"
        using decimal_digits[of "n div 10 div 10"] by (subst decimal.simps) (simp add: is_port_def)
      with 1 False show ?thesis by simp
    qed
    ultimately show ?thesis by (subst decimal.simps) (simp add: False)
  qed (simp add: decimal.simps)
qed

lemma u32_less: "unat (a :: ipv4) < 4294967296"
  using unsigned_less[of a] by simp

definition no_digit :: "bytes \<Rightarrow> bool" where
  "no_digit s \<longleftrightarrow> s = [] \<or> \<not> is_ascii_digit (hd s)"

lemma span_back:
  "list_all is_ascii_digit ds \<Longrightarrow> no_digit r \<Longrightarrow>
     takeWhile is_ascii_digit (ds @ r) = ds \<and> dropWhile is_ascii_digit (ds @ r) = r"
  by (cases r) (auto simp: no_digit_def list_all_iff takeWhile_append dropWhile_append)

lemma no_digit_dropWhile: "no_digit (dropWhile is_ascii_digit s)"
  unfolding no_digit_def using hd_dropWhile[of is_ascii_digit s] by auto

lemma decimal_span:
  "no_digit r \<Longrightarrow> takeWhile is_ascii_digit (decimal n @ r) = decimal n \<and> dropWhile is_ascii_digit (decimal n @ r) = r"
  using decimal_digits[of n] by (simp add: span_back is_port_def)

lemma read_octet_span:
  "read_octet s =
     (let ds = takeWhile is_ascii_digit s
      in if ds \<noteq> [] \<and> length ds \<le> 3 \<and> (take 1 s = [0x30] \<longrightarrow> length ds = 1) \<and> digits_value ds < 256
         then Some (of_nat (digits_value ds), dropWhile is_ascii_digit s) else None)"
  by (cases "takeWhile is_ascii_digit s")
    (auto simp: read_octet_def read_number_def read_digits_span Let_def digits_value_def)

lemma read_octet_iff: "read_octet s = Some (b, r) \<longleftrightarrow> s = decimal (unat b) @ r \<and> no_digit r"
proof
  obtain ds where ds: "takeWhile is_ascii_digit s = ds" by simp
  then have s: "s = ds @ dropWhile is_ascii_digit s" "list_all is_ascii_digit ds" "no_digit (dropWhile is_ascii_digit s)"
    using takeWhile_dropWhile_id[of is_ascii_digit s] set_takeWhileD[of _ is_ascii_digit s]
    by (auto simp: no_digit_dropWhile list_all_iff)
  assume "read_octet s = Some (b, r)"
  then have r: "ds \<noteq> []" "take 1 s = [0x30] \<Longrightarrow> length ds = 1" "digits_value ds < 256"
    "b = of_nat (digits_value ds)" "r = dropWhile is_ascii_digit s"
    unfolding read_octet_span ds Let_def by (simp_all split: if_splits)
  then have "hd ds \<noteq> 0x30 \<or> length ds = 1" using s(1) by (cases ds) (metis append_Cons list.sel(1) take0 take_Suc_Cons One_nat_def)+
  with r s have "decimal (digits_value ds) = ds" by (intro decimal_unique) (auto simp: is_port_def)
  with r s show "s = decimal (unat b) @ r \<and> no_digit r" by (simp add: unat_of_nat)
next
  assume s: "s = decimal (unat b) @ r \<and> no_digit r"
  have len: "length (decimal (unat b)) \<le> 3" using byte_less[of b] by (intro decimal_length) simp_all
  have lead: "decimal (unat b) \<noteq> []" "take 1 s = [hd (decimal (unat b))]"
    using s decimal_digits[of "unat b"] by (cases "decimal (unat b)"; auto simp: is_port_def)+
  then show "read_octet s = Some (b, r)"
    using s decimal_span[of r "unat b"] len decimal_digits[of "unat b"] decimal_leading[of "unat b"] byte_less[of b]
    by (auto simp: read_octet_span Let_def)
qed

lemma no_digit_dot [simp]: "no_digit (0x2e # s)"
  by (simp add: no_digit_def is_ascii_digit_def)

lemma read_given_iff: "read_given c s = Some r \<longleftrightarrow> s = c # r"
  by (cases s) auto

lemma read_octets_iff:
  "read_octets (Suc i) n s = Some (os, r) \<longleftrightarrow>
     length os = n \<and> s = concat (map (\<lambda>b. 0x2e # decimal (unat b)) os) @ r \<and> (if n = 0 then True else no_digit r)"
proof (induction n arbitrary: i s os r)
  case (Suc n)
  have "no_digit (concat (map (\<lambda>b. 0x2e # decimal (unat b)) xs) @ r)" if "n = 0 \<Longrightarrow> xs = [] \<and> no_digit r" "length xs = n" for xs
    using that by (cases xs) auto
  then show ?case
    by (cases os)
      (auto simp: read_separator_def bind_eq_Some_conv read_given_iff read_octet_iff Suc.IH split: if_splits)
qed auto

lemma dotted_cons: "dotted (b # bs) = decimal (unat b) @ concat (map (\<lambda>b. 0x2e # decimal (unat b)) bs)"
  by (induction bs arbitrary: b) auto

lemma read_octets_all:
  "read_octets 0 (Suc n) s = Some (os, r) \<longleftrightarrow> length os = Suc n \<and> s = dotted os @ r \<and> no_digit r"
proof -
  have "no_digit (concat (map (\<lambda>b. 0x2e # decimal (unat b)) xs) @ r)" if "n = 0 \<Longrightarrow> no_digit r" "length xs = n" for xs
    using that by (cases xs) auto
  then show ?thesis
    by (cases os)
      (auto simp: read_separator_def bind_eq_Some_conv read_octet_iff read_octets_iff dotted_cons split: if_splits)
qed

lemma read_ipv4_iff: "read_ipv4 s = Some (os, r) \<longleftrightarrow> length os = 4 \<and> s = dotted os @ r \<and> no_digit r"
  using read_octets_all[of 3 s os r] by (simp add: read_ipv4_def eval_nat_numeral)

lemma whole_iff: "whole r = Some a \<longleftrightarrow> r = Some (a, [])"
  by (auto simp: whole_def split: option.splits list.splits)

lemma unat_ipv4_of:
  "unat (ipv4_of [a, b, c, d]) = ((unat a * 256 + unat b) * 256 + unat c) * 256 + unat d"
  using byte_less[of a] byte_less[of b] byte_less[of c] byte_less[of d]
  by (simp add: ipv4_of_def unat_word_ariths unsigned_ucast_eq take_bit_nat_eq)

lemma div_256: "n div 65536 = n div 256 div 256" "n div 16777216 = n div 256 div 256 div (256 :: nat)"
  by (simp_all flip: div_mult2_eq)

lemma base_256: "d < 256 \<Longrightarrow> (n * 256 + d) div 256 = n" "d < 256 \<Longrightarrow> (n * 256 + d) mod 256 = (d :: nat)"
  by simp_all

lemma unat_octets:
  "map unat (octets a) = [unat a div 16777216, unat a div 65536 mod 256, unat a div 256 mod 256, unat a mod 256]"
  using u32_less[of a]
  by (simp add: octets_def unsigned_ucast_eq take_bit_nat_eq unsigned_drop_bit_eq drop_bit_nat_eq less_mult_imp_div_less)

lemma octets_of: "length os = 4 \<Longrightarrow> octets (ipv4_of os) = os"
proof -
  assume "length os = 4"
  then obtain a b c d where os: "os = [a, b, c, d]" by (auto simp: eval_nat_numeral length_Suc_conv)
  have "map unat (octets (ipv4_of os)) = map unat os"
    unfolding unat_octets os unat_ipv4_of div_256
    by (simp only: base_256[OF byte_less] mod_less[OF byte_less] list.map)
  then show ?thesis by (simp add: inj_map_eq_map[OF inj_unsigned])
qed

lemma of_octets: "ipv4_of (octets a) = a"
proof -
  obtain w x y z where o: "octets a = [w, x, y, z]" by (simp add: octets_def)
  have "[unat w, unat x, unat y, unat z]
      = [unat a div 256 div 256 div 256, unat a div 256 div 256 mod 256, unat a div 256 mod 256, unat a mod 256]"
    using unat_octets[of a] by (simp only: o list.map div_256)
  then have "unat (ipv4_of [w, x, y, z]) = unat a"
    unfolding unat_ipv4_of by (simp only: list.inject div_mult_mod_eq)
  then show ?thesis by (simp add: o word_unat_eq_iff)
qed

lemma dotted_length: "length os = 4 \<Longrightarrow> length (dotted os) \<le> 15"
proof -
  assume "length os = 4"
  then obtain a b c d where os: "os = [a, b, c, d]" by (auto simp: eval_nat_numeral length_Suc_conv)
  have "length (decimal (unat x)) \<le> 3" for x :: byte
    using byte_less[of x] by (intro decimal_length) simp_all
  from this[of a] this[of b] this[of c] this[of d] show ?thesis by (simp add: os)
qed

lemma dotted_octets: "length os = 4 \<and> s = dotted os \<and> ipv4_of os = a \<longleftrightarrow> os = octets a \<and> s = dotted (octets a)"
  by (auto simp: octets_of of_octets) (simp add: octets_def)

lemma parse_ipv4_iff: "parse_ipv4 s = Some a \<longleftrightarrow> s = dotted (octets a)"
proof -
  have "parse_ipv4 s = Some a \<longleftrightarrow> (\<exists>os. length os = 4 \<and> s = dotted os \<and> ipv4_of os = a)"
    by (auto simp: parse_ipv4_def whole_iff read_ipv4_iff no_digit_def dest: dotted_length)
  then show ?thesis by (simp add: dotted_octets)
qed

section \<open>IPv6 literals\<close>

lemma read_digits_rest: "read_digits radix digit most v n s = Some (v', n', r) \<Longrightarrow> set r \<subseteq> set s"
proof (induction s arbitrary: v n)
  case (Cons b s)
  then show ?case by (cases "digit b") (force split: if_splits)+
qed simp

lemma read_group_rest: "read_group s = Some (g, r) \<Longrightarrow> set r \<subseteq> set s"
  by (auto simp: read_group_def read_number_def dest!: read_digits_rest split: option.splits if_splits)

lemma read_groups_no_colon:
  assumes "0x3a \<notin> set s" and "read_groups 0 (Suc n) s = (gs, v4, r)"
  shows "length gs \<le> 2 \<and> 0x3a \<notin> set r"
proof -
  have none: "read_separator 0x3a (Suc i) f t = None" if "0x3a \<notin> set t"
    for i t and f :: "bytes \<Rightarrow> ('a \<times> bytes) option"
    using that by (cases t) (auto simp: read_separator_def)
  have last: "read_groups (Suc i) m t = ([], False, t)" if "0x3a \<notin> set t" for i m t
    using that by (cases m) (simp_all add: none)
  have rest: "0x3a \<notin> set t" if "read_group s = Some (g, t)" for g t
    using assms(1) read_group_rest[OF that] by blast
  show ?thesis
    using assms
    by (auto simp: read_separator_def read_ipv4_iff last[OF rest] split: option.splits if_splits prod.splits dest: rest)
qed

lemma ipv6_needs_colon: "0x3a \<notin> set s \<Longrightarrow> read_ipv6 s = None"
proof -
  assume s: "0x3a \<notin> set s"
  obtain gs v4 r where g: "read_groups 0 8 s = (gs, v4, r)" by (metis prod_cases3)
  then have gs: "length gs \<le> 2" "0x3a \<notin> set r"
    using read_groups_no_colon[OF s, of 7 gs v4 r] by (simp_all del: read_groups.simps)
  then have "read_given 0x3a r = None" by (cases r) auto
  with gs g show ?thesis by (simp add: read_ipv6_def del: read_groups.simps)
qed

lemma dotted_no_colon: "0x3a \<notin> set (dotted os)"
  using decimal_digits port_no_colon by (induction os rule: dotted.induct) auto

text \<open>An IPv4 address has one spelling, and what is read as an IPv6 address has a colon.\<close>

lemma parse_ip_v4: "parse_ip s = Some (V4 a) \<longleftrightarrow> s = dotted (octets a)"
proof -
  have "parse_ip s = Some (V4 a) \<longleftrightarrow> (\<exists>os. read_ipv4 s = Some (os, []) \<and> ipv4_of os = a)"
    by (auto simp: parse_ip_def whole_iff split: option.splits)
  also have "\<dots> \<longleftrightarrow> (\<exists>os. length os = 4 \<and> s = dotted os \<and> ipv4_of os = a)"
    by (auto simp: read_ipv4_iff no_digit_def)
  finally show ?thesis by (simp add: dotted_octets)
qed

lemma parse_ip_v6: "parse_ip s = Some (V6 a) \<Longrightarrow> 0x3a \<in> set s"
  using ipv6_needs_colon[of s] by (auto simp: parse_ip_def whole_def split: option.splits)

lemma parse_ipv6_no_colon: "0x3a \<notin> set s \<Longrightarrow> parse_ipv6 s = None"
  by (simp add: parse_ipv6_def ipv6_needs_colon whole_def)

end
