(* ===== verification/Resolver.thy ===== *)
theory Resolver
  imports Request_Handling Ip_Text Runs
begin

text \<open>
  \<^verbatim>\<open>src/src/net.rs\<close>: name lookups and the slots they take in the blocking pool. Every connection has one
  slot of its own and may take up to \<open>BURST_LOOKUPS\<close> of the \<open>SHARED_LOOKUPS\<close> of the server; a slot is held
  by the thread in the resolver and not by the request that asked, so a request that gives up leaves it
  taken. A semaphore is the number of its free permits, and a permit that is given back is free until the
  next poll that asks for one; the order in which waiting lookups are polled is the sequence of operations,
  so the first come is served first in the runs in which it is polled first. What \<^verbatim>\<open>getaddrinfo\<close> answers is a
  parameter.
\<close>

section \<open>A lookup\<close>

datatype name_answer = Addresses "socket_addr list" | ResolverError | TaskFailed | NoReply

definition on_the_blocking_pool :: "name_answer \<Rightarrow> (unit + socket_addr list) poll" where
  "on_the_blocking_pool ans =
     (case ans of
        NoReply \<Rightarrow> Waiting
      | ResolverError \<Rightarrow> Returned (Inl ())
      | TaskFailed \<Rightarrow> Returned (Inl ())
      | Addresses as \<Rightarrow> if as = [] then Returned (Inl ()) else Returned (Inr as))"

definition resolver_lookup :: "(bytes \<Rightarrow> u16 \<Rightarrow> name_answer) \<Rightarrow> bytes \<Rightarrow> u16 \<Rightarrow> (unit + socket_addr list) poll" where
  "resolver_lookup getaddrinfo host p =
     (case literal host p of
        Some a \<Rightarrow> Returned (Inr [a])
      | None \<Rightarrow> on_the_blocking_pool (getaddrinfo host p))"

text \<open>A lookup that has not answered when the budget runs out has timed out; without a budget it is waited for.\<close>

definition within_budget :: "bool \<Rightarrow> (unit + socket_addr list) poll \<Rightarrow> (resolve_failure + socket_addr list) poll" where
  "within_budget budget r =
     (case r of
        Returned (Inr as) \<Rightarrow> Returned (Inr as)
      | Returned (Inl _) \<Rightarrow> Returned (Inl ResolveFailed)
      | _ \<Rightarrow> if budget then Returned (Inl ResolveTimedOut) else Waiting)"

section \<open>The budget\<close>

definition SHARED_LOOKUPS :: nat where "SHARED_LOOKUPS = 128"
definition BURST_LOOKUPS :: nat where "BURST_LOOKUPS = 32"
definition LOOKUP_FREE_THREADS :: nat where "LOOKUP_FREE_THREADS = 64"
definition RESERVED_LOOKUP_CEILING :: nat where "RESERVED_LOOKUP_CEILING = 1024"

definition blocking_pool_size :: "u32 \<Rightarrow> nat" where
  "blocking_pool_size max_connections =
     (let reserved = (if max_connections = 0 \<or> RESERVED_LOOKUP_CEILING < unat max_connections
                      then RESERVED_LOOKUP_CEILING else unat max_connections)
      in reserved + SHARED_LOOKUPS + LOOKUP_FREE_THREADS)"

record connection_resolver =
  reserved :: nat
  burst :: nat

definition per_connection :: connection_resolver where
  "per_connection = \<lparr>reserved = 1, burst = BURST_LOOKUPS\<rparr>"

datatype lookup_slot = ReservedSlot | SharedSlot

text \<open>
  A lookup waits for a slot, with or without a burst permit in hand, is in the resolver with one, or is
  over.
\<close>

datatype task = Queued bool | Looking lookup_slot | Over

text \<open>One poll of \<^verbatim>\<open>acquire\<close>: the reserved slot first, then the burst permit, then the shared one.\<close>

definition acquire_poll :: "nat \<Rightarrow> connection_resolver \<Rightarrow> bool \<Rightarrow> nat \<times> connection_resolver \<times> task" where
  "acquire_poll shared r held =
     (if 0 < reserved r
      then (shared, r\<lparr>reserved := reserved r - 1, burst := burst r + (if held then 1 else 0)\<rparr>, Looking ReservedSlot)
      else if held \<or> 0 < burst r
      then (let r = (if held then r else r\<lparr>burst := burst r - 1\<rparr>)
            in if 0 < shared then (shared - 1, r, Looking SharedSlot) else (shared, r, Queued True))
      else (shared, r, Queued False))"

fun slot_release :: "lookup_slot \<Rightarrow> nat \<Rightarrow> connection_resolver \<Rightarrow> nat \<times> connection_resolver" where
  "slot_release ReservedSlot shared r = (shared, r\<lparr>reserved := reserved r + 1\<rparr>)"
| "slot_release SharedSlot shared r = (shared + 1, r\<lparr>burst := burst r + 1\<rparr>)"

text \<open>
  The server: the shared permits, every connection there has been with whether it is still open, and every
  lookup with the connection it belongs to.
\<close>

record lookups =
  shared :: nat
  conns :: "(connection_resolver \<times> bool) list"
  tasks :: "(nat \<times> task) list"

definition lookups_new :: lookups where
  "lookups_new = \<lparr>shared = SHARED_LOOKUPS, conns = [], tasks = []\<rparr>"

datatype lookup_op = Open | Close nat | Ask nat | Poll nat | GiveUp nat | Answer nat

definition put_task :: "nat \<Rightarrow> task \<Rightarrow> nat \<Rightarrow> connection_resolver \<Rightarrow> lookups \<Rightarrow> lookups" where
  "put_task t x sh r s =
     (let k = fst (tasks s ! t)
      in s\<lparr>shared := sh, conns := (conns s)[k := (r, snd (conns s ! k))], tasks := (tasks s)[t := (k, x)]\<rparr>)"

text \<open>
  \<open>Ask\<close> is a lookup of a name, \<open>GiveUp\<close> the end of the request that waits for it -- its budget ran out or
  the client is gone -- and \<open>Answer\<close> the return of the thread from the resolver.
\<close>

fun lookup_step :: "lookups \<Rightarrow> lookup_op \<Rightarrow> lookups" where
  "lookup_step s Open = s\<lparr>conns := conns s @ [(per_connection, True)]\<rparr>"
| "lookup_step s (Close k) =
     (if k < length (conns s) then s\<lparr>conns := (conns s)[k := (fst (conns s ! k), False)]\<rparr> else s)"
| "lookup_step s (Ask k) =
     (if k < length (conns s) \<and> snd (conns s ! k) then s\<lparr>tasks := tasks s @ [(k, Queued False)]\<rparr> else s)"
| "lookup_step s (Poll t) =
     (if t < length (tasks s)
      then case snd (tasks s ! t) of
             Queued held \<Rightarrow>
               (case acquire_poll (shared s) (fst (conns s ! fst (tasks s ! t))) held of (sh, r, x) \<Rightarrow> put_task t x sh r s)
           | _ \<Rightarrow> s
      else s)"
| "lookup_step s (GiveUp t) =
     (if t < length (tasks s)
      then case snd (tasks s ! t) of
             Queued held \<Rightarrow>
               (let r = fst (conns s ! fst (tasks s ! t))
                in put_task t Over (shared s) (r\<lparr>burst := burst r + (if held then 1 else 0)\<rparr>) s)
           | _ \<Rightarrow> s
      else s)"
| "lookup_step s (Answer t) =
     (if t < length (tasks s)
      then case snd (tasks s ! t) of
             Looking slot \<Rightarrow>
               (case slot_release slot (shared s) (fst (conns s ! fst (tasks s ! t))) of (sh, r) \<Rightarrow> put_task t Over sh r s)
           | _ \<Rightarrow> s
      else s)"

section \<open>Accounting\<close>

definition number :: "('a \<Rightarrow> bool) \<Rightarrow> 'a list \<Rightarrow> nat" where
  "number p xs = length (filter p xs)"

lemma number_append [simp]: "number p (xs @ ys) = number p xs + number p ys"
  by (simp add: number_def)

lemma number_Cons [simp]: "number p (x # xs) = (if p x then 1 else 0) + number p xs" "number p [] = 0"
  by (simp_all add: number_def)

lemma number_update:
  "i < length xs \<Longrightarrow> number p (xs[i := x]) + (if p (xs ! i) then 1 else 0) = number p xs + (if p x then 1 else 0)"
proof (induction xs arbitrary: i)
  case (Cons y xs)
  show ?case
  proof (cases i)
    case (Suc j)
    with Cons.IH[of j] Cons.prems show ?thesis by simp
  qed simp
qed simp

definition holds_reserved :: "nat \<Rightarrow> nat \<times> task \<Rightarrow> bool" where
  "holds_reserved k t \<longleftrightarrow> t = (k, Looking ReservedSlot)"

definition holds_burst :: "nat \<Rightarrow> nat \<times> task \<Rightarrow> bool" where
  "holds_burst k t \<longleftrightarrow> t = (k, Queued True) \<or> t = (k, Looking SharedSlot)"

definition holds_shared :: "nat \<times> task \<Rightarrow> bool" where
  "holds_shared t \<longleftrightarrow> snd t = Looking SharedSlot"

definition lookups_inv :: "lookups \<Rightarrow> bool" where
  "lookups_inv s \<longleftrightarrow>
     list_all (\<lambda>t. fst t < length (conns s)) (tasks s)
     \<and> shared s + number holds_shared (tasks s) = SHARED_LOOKUPS
     \<and> (\<forall>k<length (conns s). reserved (fst (conns s ! k)) + number (holds_reserved k) (tasks s) = 1
          \<and> burst (fst (conns s ! k)) + number (holds_burst k) (tasks s) = BURST_LOOKUPS)"

text \<open>A task of connection \<open>k\<close> that changes from \<open>x\<close> to \<open>y\<close> keeps the books when its connection's and the server's do.\<close>

definition one_if :: "(task \<Rightarrow> bool) \<Rightarrow> task \<Rightarrow> nat" where
  "one_if p x = (if p x then 1 else 0)"

lemma lookups_inv_put:
  assumes inv: "lookups_inv s" and t: "t < length (tasks s)" "tasks s ! t = (k, x)"
    and sh: "sh + one_if (\<lambda>x. x = Looking SharedSlot) y = shared s + one_if (\<lambda>x. x = Looking SharedSlot) x"
    and res: "reserved r + one_if (\<lambda>x. x = Looking ReservedSlot) y
      = reserved (fst (conns s ! k)) + one_if (\<lambda>x. x = Looking ReservedSlot) x"
    and bur: "burst r + one_if (\<lambda>x. x = Queued True \<or> x = Looking SharedSlot) y
      = burst (fst (conns s ! k)) + one_if (\<lambda>x. x = Queued True \<or> x = Looking SharedSlot) x"
  shows "lookups_inv (put_task t y sh r s)"
proof -
  have k: "k < length (conns s)" using inv t by (auto simp: lookups_inv_def list_all_length dest!: spec[of _ t])
  note upd = number_update[OF t(1), where x = "(k, y)", unfolded t(2)]
  have shared: "sh + number holds_shared ((tasks s)[t := (k, y)]) = SHARED_LOOKUPS"
    using sh upd[of holds_shared] inv by (simp add: lookups_inv_def holds_shared_def one_if_def)
  have own: "reserved r + number (holds_reserved k) ((tasks s)[t := (k, y)]) = 1
      \<and> burst r + number (holds_burst k) ((tasks s)[t := (k, y)]) = BURST_LOOKUPS"
    using k inv res bur upd[of "holds_reserved k"] upd[of "holds_burst k"]
    unfolding lookups_inv_def holds_reserved_def[of k "(k, _)"] holds_burst_def[of k "(k, _)"] one_if_def
    by (fastforce simp: holds_reserved_def[of k "(k, _)"] split: if_splits)
  have other: "number (holds_reserved j) ((tasks s)[t := (k, y)]) = number (holds_reserved j) (tasks s)
      \<and> number (holds_burst j) ((tasks s)[t := (k, y)]) = number (holds_burst j) (tasks s)" if "j \<noteq> k" for j
    using that upd[of "holds_reserved j"] upd[of "holds_burst j"] by (simp add: holds_reserved_def holds_burst_def)
  have "list_all (\<lambda>t. fst t < length (conns s)) ((tasks s)[t := (k, y)])"
    using inv k set_update_subset_insert[of "tasks s" t "(k, y)"] by (auto simp: lookups_inv_def list_all_iff)
  with shared own other inv k show ?thesis
    by (auto simp: lookups_inv_def put_task_def t Let_def nth_list_update)
qed

lemma lookups_inv_step: "lookups_inv s \<Longrightarrow> lookups_inv (lookup_step s x)"
proof (cases x)
  case Open
  assume inv: "lookups_inv s"
  then have "number (holds_reserved (length (conns s))) (tasks s) = 0 \<and> number (holds_burst (length (conns s))) (tasks s) = 0"
    by (auto simp: lookups_inv_def number_def filter_empty_conv holds_reserved_def holds_burst_def list_all_iff)
  with inv Open show ?thesis
    by (auto simp: lookups_inv_def per_connection_def nth_append less_Suc_eq list_all_iff)
next
  case (Close k)
  moreover assume "lookups_inv s"
  ultimately show ?thesis by (auto simp: lookups_inv_def nth_list_update)
next
  case (Ask k)
  moreover assume "lookups_inv s"
  ultimately show ?thesis by (auto simp: lookups_inv_def holds_reserved_def holds_burst_def holds_shared_def)
next
  case (Poll t)
  moreover assume "lookups_inv s"
  ultimately show ?thesis
    by (cases "tasks s ! t")
      (auto simp: acquire_poll_def Let_def split: task.split intro!: lookups_inv_put simp: one_if_def)
next
  case (GiveUp t)
  moreover assume "lookups_inv s"
  ultimately show ?thesis
    by (cases "tasks s ! t") (auto simp: Let_def one_if_def split: task.split intro!: lookups_inv_put)
next
  case (Answer t)
  moreover assume "lookups_inv s"
  ultimately show ?thesis
    by (cases "tasks s ! t") (auto simp: one_if_def split: task.split prod.split intro!: lookups_inv_put elim!: slot_release.elims)
qed

interpretation resolver: started_operations lookup_step lookups_inv lookups_new
  by unfold_locales (auto simp: lookups_inv_step, simp add: lookups_inv_def lookups_new_def)

definition in_resolver :: "nat \<times> task \<Rightarrow> bool" where
  "in_resolver t \<longleftrightarrow> snd t = Looking ReservedSlot \<or> snd t = Looking SharedSlot"

lemma number_disjoint: "(\<And>x. \<not> (p x \<and> q x)) \<Longrightarrow> number (\<lambda>x. p x \<or> q x) xs = number p xs + number q xs"
  by (induction xs) auto

lemma number_mono: "(\<And>x. x \<in> set xs \<Longrightarrow> p x \<Longrightarrow> q x) \<Longrightarrow> number p xs \<le> number q xs"
  by (induction xs) (auto simp: le_SucI)

lemma number_reserved:
  "list_all (\<lambda>t. fst t < n) ts \<Longrightarrow>
     number (\<lambda>t. snd t = Looking ReservedSlot) ts = (\<Sum>k<n. number (holds_reserved k) ts)"
proof (induction ts)
  case (Cons t ts)
  have "(\<Sum>k<n. if holds_reserved k t then 1 else 0) = (if snd t = Looking ReservedSlot then 1 else (0 :: nat))"
    using Cons.prems by (cases t) (auto simp: holds_reserved_def)
  with Cons show ?case by (simp add: sum.distrib)
qed simp

text \<open>
  The connections with a claim on a thread for a lookup on their own slot: those that are open, and those
  that are closed while such a lookup has not returned.
\<close>

definition stranded :: "connection_resolver \<times> bool \<Rightarrow> bool" where
  "stranded x \<longleftrightarrow> \<not> snd x \<and> reserved (fst x) = 0"

definition claimants :: "lookups \<Rightarrow> nat" where
  "claimants s = number snd (conns s) + number stranded (conns s)"

lemma number_nth: "number p xs = (\<Sum>k<length xs. if p (xs ! k) then 1 else 0)"
proof (induction xs rule: rev_induct)
  case (snoc x xs)
  have "(\<Sum>k<length xs. if p ((xs @ [x]) ! k) then 1 else 0) = (\<Sum>k<length xs. if p (xs ! k) then 1 else (0 :: nat))"
    by (rule sum.cong) (simp_all add: nth_append)
  with snoc show ?case by simp
qed simp

lemma lookups_running:
  assumes "lookups_inv s"
  shows "number in_resolver (tasks s) \<le> claimants s + SHARED_LOOKUPS"
    and "k < length (conns s) \<Longrightarrow> number (\<lambda>t. in_resolver t \<and> fst t = k) (tasks s) \<le> 1 + BURST_LOOKUPS"
proof -
  have "number (holds_reserved k) (tasks s) \<le> (if snd (conns s ! k) then 1 else 0) + (if stranded (conns s ! k) then 1 else 0)"
    if "k < length (conns s)" for k
    using assms that by (auto simp: lookups_inv_def stranded_def dest!: spec[of _ k])
  then have "(\<Sum>k<length (conns s). number (holds_reserved k) (tasks s)) \<le> claimants s"
    unfolding claimants_def number_nth sum.distrib[symmetric] by (intro sum_mono) (simp add: number_nth)
  moreover have "number in_resolver (tasks s)
      = number (\<lambda>t. snd t = Looking ReservedSlot) (tasks s) + number holds_shared (tasks s)"
    unfolding in_resolver_def holds_shared_def by (rule number_disjoint) auto
  ultimately show "number in_resolver (tasks s) \<le> claimants s + SHARED_LOOKUPS"
    using assms number_reserved[of "length (conns s)" "tasks s"] by (simp add: lookups_inv_def)
  assume k: "k < length (conns s)"
  have "number (\<lambda>t. in_resolver t \<and> fst t = k) (tasks s) \<le> number (\<lambda>t. holds_reserved k t \<or> holds_burst k t) (tasks s)"
    by (rule number_mono) (auto simp: in_resolver_def holds_reserved_def holds_burst_def)
  also have "\<dots> = number (holds_reserved k) (tasks s) + number (holds_burst k) (tasks s)"
    by (rule number_disjoint) (auto simp: holds_reserved_def holds_burst_def)
  also have "\<dots> \<le> 1 + BURST_LOOKUPS" using assms k by (auto simp: lookups_inv_def dest!: spec[of _ k])
  finally show "number (\<lambda>t. in_resolver t \<and> fst t = k) (tasks s) \<le> 1 + BURST_LOOKUPS" .
qed

text \<open>
  The pool is sized for a reserved lookup of every connection the server admits at a time. A lookup
  outlives its connection, so connections that come and go one after the other leave one thread each in
  the resolver: with any limit on the connections open at once, the lookups can outgrow the pool.
\<close>

definition churn :: "nat \<Rightarrow> lookup_op list" where
  "churn n = concat (map (\<lambda>i. [Open, Ask i, Poll i, Close i]) [0..<n])"

lemma churn_state:
  "foldl lookup_step lookups_new (churn n)
     = \<lparr>shared = SHARED_LOOKUPS, conns = replicate n (\<lparr>reserved = 0, burst = BURST_LOOKUPS\<rparr>, False),
        tasks = map (\<lambda>i. (i, Looking ReservedSlot)) [0..<n]\<rparr>"
proof (induction n)
  case (Suc n)
  let ?r = "\<lparr>reserved = 0, burst = BURST_LOOKUPS\<rparr>"
  let ?ts = "map (\<lambda>i. (i, Looking ReservedSlot)) [0..<n]"
  have "foldl lookup_step lookups_new (churn (Suc n))
      = foldl lookup_step (foldl lookup_step lookups_new (churn n)) [Open, Ask n, Poll n, Close n]"
    by (simp add: churn_def)
  also have "\<dots> = \<lparr>shared = SHARED_LOOKUPS, conns = replicate n (?r, False) @ [(?r, False)],
      tasks = ?ts @ [(n, Looking ReservedSlot)]\<rparr>"
    unfolding Suc.IH
    by (simp add: per_connection_def acquire_poll_def put_task_def nth_append Let_def list_update_append)
  finally show ?case by (simp add: replicate_append_same)
qed (simp add: churn_def lookups_new_def)

lemma number_replicate: "number p (replicate n x) = (if p x then n else 0)"
  by (induction n) auto

lemma churn_live: "number snd (conns (foldl lookup_step lookups_new (take i (churn n)))) \<le> 1"
proof (induction n arbitrary: i)
  case (Suc n)
  have churn: "churn (Suc n) = churn n @ [Open, Ask n, Poll n, Close n]" by (simp add: churn_def)
  show ?case
  proof (cases "i \<le> length (churn n)")
    case True
    with Suc.IH[of i] show ?thesis by (simp add: churn)
  next
    case False
    then obtain j where "i - length (churn n) = Suc j" by (metis Suc_diff_Suc not_le)
    then have i: "take i (churn (Suc n)) = churn n @ Open # take j [Ask n, Poll n, Close n]"
      by (simp add: churn)
    have "j = 0 \<or> j = 1 \<or> j = 2 \<or> 3 \<le> j" by auto
    then show ?thesis
      unfolding i foldl_append churn_state
      by (auto simp: number_replicate per_connection_def acquire_poll_def put_task_def nth_append Let_def list_update_append
          take_Cons' number_def)
  qed
qed (simp add: churn_def lookups_new_def)

lemma lookups_outlive_connections:
  "\<exists>ops. (\<forall>i. number snd (conns (foldl lookup_step lookups_new (take i ops))) \<le> 1)
     \<and> blocking_pool_size m < number in_resolver (tasks (foldl lookup_step lookups_new ops))"
proof (intro exI conjI allI)
  let ?n = "Suc (blocking_pool_size m)"
  show "number snd (conns (foldl lookup_step lookups_new (take i (churn ?n)))) \<le> 1" for i by (rule churn_live)
  have "number in_resolver (map (\<lambda>i. (i, Looking ReservedSlot)) [0..<k]) = k" for k
    by (induction k) (auto simp: in_resolver_def)
  then show "blocking_pool_size m < number in_resolver (tasks (foldl lookup_step lookups_new (churn ?n)))"
    by (simp only: churn_state lookups.select_convs)
qed

section \<open>Properties\<close>

text \<open>
  C38. How many lookups can be in the resolver, however those of the connections interleave. One connection
  never has more than one and a burst of them there. Together they are at most the shared allowance, and
  one for every connection that is open, and one for every connection that is closed while the lookup on its
  own slot has not returned; so while these connections are within the number the pool was sized for,
  the threads kept clear of lookups stay clear. The last kind does count: with any limit on the
  connections, and never more than one of them open at a time, lookups that outlive their connections can
  be more than the pool has threads.
\<close>

theorem resolver_bounds:
  "let s = foldl lookup_step lookups_new ops
   in (\<forall>k. if k < length (conns s) then number (\<lambda>t. in_resolver t \<and> fst t = k) (tasks s) \<le> 1 + BURST_LOOKUPS else True)
      \<and> number in_resolver (tasks s) \<le> number snd (conns s) + number stranded (conns s) + SHARED_LOOKUPS
      \<and> (if number snd (conns s) + number stranded (conns s)
            \<le> (if m = 0 then RESERVED_LOOKUP_CEILING else min (unat m) RESERVED_LOOKUP_CEILING)
         then number in_resolver (tasks s) + LOOKUP_FREE_THREADS \<le> blocking_pool_size m else True)
      \<and> (\<exists>ops'. (\<forall>i. number snd (conns (foldl lookup_step lookups_new (take i ops'))) \<le> 1)
           \<and> blocking_pool_size m < number in_resolver (tasks (foldl lookup_step lookups_new ops')))"
  using lookups_running[OF resolver.inv_reached[of ops]] lookups_outlive_connections[of m]
  by (auto simp: Let_def blocking_pool_size_def claimants_def)


section \<open>Literals\<close>

text \<open>A host that is an address is answered without the resolver, whatever the resolver would say.\<close>

lemma literal_lookup:
  "literal host p = Some a \<Longrightarrow> within_budget budget (resolver_lookup getaddrinfo host p) = Returned (Inr [a])"
  by (simp add: within_budget_def resolver_lookup_def)

text \<open>
  The world of a request with this resolver in it, as \<^verbatim>\<open>resolve_within\<close> asks it under a budget.
\<close>

definition with_resolver :: "(bytes \<Rightarrow> u16 \<Rightarrow> name_answer) \<Rightarrow> world \<Rightarrow> world" where
  "with_resolver getaddrinfo e =
     e\<lparr>connect_budget := True,
       lookup := (\<lambda>host p. case within_budget True (resolver_lookup getaddrinfo host p) of
                            Returned r \<Rightarrow> r
                          | _ \<Rightarrow> Inl ResolveTimedOut)\<rparr>"

lemma with_resolver_literal: "literal host p = Some a \<Longrightarrow> lookup (with_resolver g e) host p = Inr [a]"
  by (simp add: with_resolver_def literal_lookup)

text \<open>An answer is never empty: what a lookup returns is at least one address.\<close>

lemma with_resolver_nonempty: "lookup (with_resolver g e) host p = Inr as \<Longrightarrow> as \<noteq> []"
  by (auto simp: with_resolver_def within_budget_def resolver_lookup_def on_the_blocking_pool_def
      split: option.splits name_answer.splits if_splits)

end
