(* ===== verification/Config.thy ===== *)
theory Config
  imports Tunnel_Context Ip_Text Gate
begin

text \<open>
  \<^verbatim>\<open>src/src/config.rs\<close>: the configuration, the rules a file has to pass before the server runs on it, the
  warnings about one that passes, and the text of a parse error. A configuration is the value the TOML
  reader delivers; the reader itself is a library's. Three things are asked of the outside: whether a
  filter directive is one the log library accepts (\<open>env_filter\<close>), whether a path names a file
  (\<open>is_file\<close>), and what the certificate file holds (\<open>certificates\<close>). An error and a warning are the
  site that wrote them with the values it shows, not the sentence. \<^verbatim>\<open>usize\<close> has 64 bits.
\<close>

section \<open>Constants\<close>

definition DEFAULT_ALPN :: "bytes list" where "DEFAULT_ALPN = [byte_string ''h3'']"
definition DEFAULT_LOG_LEVEL :: bytes where "DEFAULT_LOG_LEVEL = byte_string ''info''"
definition DEFAULT_SHUTDOWN_GRACE :: u64 where "DEFAULT_SHUTDOWN_GRACE = 5"
definition DEFAULT_UDP_SESSION_TIMEOUT :: u64 where "DEFAULT_UDP_SESSION_TIMEOUT = 180"
definition DEFAULT_MAX_CONNECTIONS :: u32 where "DEFAULT_MAX_CONNECTIONS = 256"
definition DEFAULT_CONNECT_TIMEOUT :: u64 where "DEFAULT_CONNECT_TIMEOUT = 10"
definition DEFAULT_MAX_AUTH_FAILURES :: u32 where "DEFAULT_MAX_AUTH_FAILURES = 5"
definition DEFAULT_MAX_STREAMS_BIDI :: u32 where "DEFAULT_MAX_STREAMS_BIDI = 1024"
definition DEFAULT_MAX_IDLE_TIMEOUT :: u64 where "DEFAULT_MAX_IDLE_TIMEOUT = 60"
definition DEFAULT_KEEP_ALIVE_INTERVAL :: u64 where "DEFAULT_KEEP_ALIVE_INTERVAL = 20"
definition DEFAULT_INITIAL_MTU :: u16 where "DEFAULT_INITIAL_MTU = 1200"
definition MIN_INITIAL_MTU :: u16 where "MIN_INITIAL_MTU = 1200"
definition MAX_INITIAL_MTU :: u16 where "MAX_INITIAL_MTU = 1452"
definition DEFAULT_MTU_UPPER_BOUND :: u16 where "DEFAULT_MTU_UPPER_BOUND = 1436"
definition MAX_MTU_UPPER_BOUND :: u16 where "MAX_MTU_UPPER_BOUND = 1472"
definition DEFAULT_INITIAL_RTT_MS :: u64 where "DEFAULT_INITIAL_RTT_MS = 333"
definition INITIAL_RTT_RANGE_MS :: "u64 \<times> u64" where "INITIAL_RTT_RANGE_MS = (10, 10000)"
definition MAX_IDLE_TIMEOUT_CEILING :: u64 where "MAX_IDLE_TIMEOUT_CEILING = 3600"
definition MAX_SHUTDOWN_GRACE :: u64 where "MAX_SHUTDOWN_GRACE = MAX_IDLE_TIMEOUT_CEILING"
definition DEFAULT_SOCKET_RECV_BUFFER :: u64 where "DEFAULT_SOCKET_RECV_BUFFER = 2 * 1024 * 1024"
definition DEFAULT_SOCKET_SEND_BUFFER :: u64 where "DEFAULT_SOCKET_SEND_BUFFER = 2 * 1024 * 1024"
definition DEFAULT_MAX_TARGETS_PER_CONN :: u32 where "DEFAULT_MAX_TARGETS_PER_CONN = 256"
definition DEFAULT_DENIED_PORTS :: "u16 list" where "DEFAULT_DENIED_PORTS = [25]"
definition DEFAULT_UNANSWERED_PACKET_BUDGET :: u32 where "DEFAULT_UNANSWERED_PACKET_BUDGET = 64"
definition MAX_TARGETS_PER_CONN_CEILING :: u32 where "MAX_TARGETS_PER_CONN_CEILING = 65536"
definition MAX_STREAMS_BIDI_CEILING :: u32 where "MAX_STREAMS_BIDI_CEILING = MAX_TARGETS_PER_CONN_CEILING"
definition MAX_EXPECTED_SNI :: nat where "MAX_EXPECTED_SNI = 253"
definition EXAMPLE_PLACEHOLDER_PASSWORD :: bytes where
  "EXAMPLE_PLACEHOLDER_PASSWORD = byte_string ''replace-me-with-something-long''"

lemmas config_constants =
  DEFAULT_SHUTDOWN_GRACE_def DEFAULT_UDP_SESSION_TIMEOUT_def DEFAULT_MAX_CONNECTIONS_def DEFAULT_CONNECT_TIMEOUT_def
  DEFAULT_MAX_AUTH_FAILURES_def DEFAULT_MAX_STREAMS_BIDI_def DEFAULT_MAX_IDLE_TIMEOUT_def
  DEFAULT_KEEP_ALIVE_INTERVAL_def DEFAULT_INITIAL_MTU_def MIN_INITIAL_MTU_def MAX_INITIAL_MTU_def
  DEFAULT_MTU_UPPER_BOUND_def MAX_MTU_UPPER_BOUND_def DEFAULT_INITIAL_RTT_MS_def INITIAL_RTT_RANGE_MS_def
  MAX_IDLE_TIMEOUT_CEILING_def MAX_SHUTDOWN_GRACE_def DEFAULT_SOCKET_RECV_BUFFER_def DEFAULT_SOCKET_SEND_BUFFER_def
  DEFAULT_MAX_TARGETS_PER_CONN_def DEFAULT_DENIED_PORTS_def DEFAULT_UNANSWERED_PACKET_BUDGET_def
  MAX_TARGETS_PER_CONN_CEILING_def MAX_STREAMS_BIDI_CEILING_def MAX_EXPECTED_SNI_def

section \<open>The configuration\<close>

datatype congestion_control = CcBbr | CcBbrUncapped | CcCubic | CcNewReno

record limits =
  lim_udp_session_timeout :: u64
  lim_max_targets_per_conn :: u32
  lim_max_connections :: u32
  lim_connect_timeout :: u64
  lim_ip_family_preference :: ip_family_preference
  lim_max_streams_bidi :: u32
  lim_max_idle_timeout :: u64
  lim_keep_alive_interval :: u64
  lim_initial_mtu :: u16
  lim_mtu_discovery :: bool
  lim_mtu_upper_bound :: "u16 option"
  lim_congestion_control :: congestion_control
  lim_initial_rtt_ms :: u64
  lim_socket_recv_buffer :: u64
  lim_socket_send_buffer :: u64

record security =
  sec_allow_private_networks :: bool
  sec_denied_ports :: "u16 list"
  sec_unanswered_packet_budget :: u32
  sec_max_auth_failures :: u32
  sec_expected_sni :: "bytes list"

record server_section =
  srv_listen :: socket_addr
  srv_cert :: bytes
  srv_key :: bytes
  srv_alpn :: "bytes list"
  srv_shutdown_grace :: u64

record log_section =
  log_level :: bytes
  log_keylog :: bool

record config =
  cfg_server :: server_section
  cfg_users :: "user list"
  cfg_limits :: limits
  cfg_security :: security
  cfg_log :: log_section

definition limits_default :: limits where
  "limits_default =
     \<lparr>lim_udp_session_timeout = DEFAULT_UDP_SESSION_TIMEOUT, lim_max_targets_per_conn = DEFAULT_MAX_TARGETS_PER_CONN,
      lim_max_connections = DEFAULT_MAX_CONNECTIONS, lim_connect_timeout = DEFAULT_CONNECT_TIMEOUT,
      lim_ip_family_preference = PreferIpv4, lim_max_streams_bidi = DEFAULT_MAX_STREAMS_BIDI,
      lim_max_idle_timeout = DEFAULT_MAX_IDLE_TIMEOUT, lim_keep_alive_interval = DEFAULT_KEEP_ALIVE_INTERVAL,
      lim_initial_mtu = DEFAULT_INITIAL_MTU, lim_mtu_discovery = True, lim_mtu_upper_bound = None,
      lim_congestion_control = CcBbr, lim_initial_rtt_ms = DEFAULT_INITIAL_RTT_MS,
      lim_socket_recv_buffer = DEFAULT_SOCKET_RECV_BUFFER, lim_socket_send_buffer = DEFAULT_SOCKET_SEND_BUFFER\<rparr>"

definition security_default :: security where
  "security_default =
     \<lparr>sec_allow_private_networks = False, sec_denied_ports = DEFAULT_DENIED_PORTS,
      sec_unanswered_packet_budget = DEFAULT_UNANSWERED_PACKET_BUDGET,
      sec_max_auth_failures = DEFAULT_MAX_AUTH_FAILURES, sec_expected_sni = []\<rparr>"

definition log_default :: log_section where
  "log_default = \<lparr>log_level = DEFAULT_LOG_LEVEL, log_keylog = False\<rparr>"

text \<open>Durations in seconds, but for the first round trip.\<close>

definition mtu_upper_bound :: "limits \<Rightarrow> u16" where
  "mtu_upper_bound l = (case lim_mtu_upper_bound l of Some b \<Rightarrow> b | None \<Rightarrow> max DEFAULT_MTU_UPPER_BOUND (lim_initial_mtu l))"

definition connect_timeout :: "limits \<Rightarrow> u64 option" where
  "connect_timeout l = (if lim_connect_timeout l = 0 then None else Some (lim_connect_timeout l))"

definition keep_alive_interval :: "limits \<Rightarrow> u64 option" where
  "keep_alive_interval l = (if lim_keep_alive_interval l = 0 then None else Some (lim_keep_alive_interval l))"

section \<open>Validation\<close>

datatype config_error =
    LogFilterInvalid | LogLevelUnknown
  | AlpnMissing | AlpnEmpty nat | AlpnTooLong nat nat
  | ShutdownGraceTooLong u64
  | UdpSessionTimeoutRange u64 | ConnectTimeoutTooLong u64
  | MaxTargetsZero | MaxTargetsTooMany u32
  | MaxStreamsZero | MaxStreamsTooMany u32
  | MaxIdleTimeoutRange u64 | KeepAliveTooLong u64 u64
  | InitialMtuTooSmall u16 | InitialMtuTooLarge u16
  | MtuBoundBelowStart u16 u16 | MtuBoundTooLarge u16
  | InitialRttRange u64
  | UsernameEmpty nat | UsernameColon nat | UsernameTooLong nat nat | PasswordEmpty nat | UsernameDuplicate nat nat
  | DeniedPortZero nat
  | SniEmpty nat | SniEmptyLabel nat | SniTooLong nat nat | SniWildcard nat | SniCharacter nat | SniAddress nat
  | CertNotAFile | KeyNotAFile

text \<open>\<^verbatim>\<open>if c { bail!(e) }\<close> before the rest.\<close>

definition bail_if :: "bool \<Rightarrow> 'e \<Rightarrow> 'e + unit" where
  "bail_if c e = (if c then Inl e else Inr ())"

definition LOG_LEVELS :: "bytes list" where
  "LOG_LEVELS = map byte_string [''trace'', ''debug'', ''info'', ''warn'', ''error'']"

definition validate_log_level :: "(bytes \<Rightarrow> bool) \<Rightarrow> bytes \<Rightarrow> config_error + unit" where
  "validate_log_level env_filter level =
     (if list_ex (\<lambda>b. b = 0x2c \<or> b = 0x3d \<or> b = 0x5b) level then bail_if (\<not> env_filter level) LogFilterInvalid
      else bail_if (\<not> list_ex (eq_ignore_ascii_case level) LOG_LEVELS) LogLevelUnknown)"

fun validate_alpn :: "nat \<Rightarrow> bytes list \<Rightarrow> config_error + unit" where
  "validate_alpn i [] = Inr ()"
| "validate_alpn i (x # xs) =
     and_then (bail_if (x = []) (AlpnEmpty i)) (\<lambda>_.
     and_then (bail_if (255 < length x) (AlpnTooLong i (length x))) (\<lambda>_.
     validate_alpn (Suc i) xs))"

definition validate_server :: "server_section \<Rightarrow> config_error + unit" where
  "validate_server s =
     and_then (bail_if (srv_alpn s = []) AlpnMissing) (\<lambda>_.
     and_then (validate_alpn 0 (srv_alpn s)) (\<lambda>_.
     bail_if (MAX_SHUTDOWN_GRACE < srv_shutdown_grace s) (ShutdownGraceTooLong (srv_shutdown_grace s))))"

definition validate_tunnel_limits :: "limits \<Rightarrow> config_error + unit" where
  "validate_tunnel_limits l =
     and_then (bail_if (lim_udp_session_timeout l = 0 \<or> MAX_IDLE_TIMEOUT_CEILING < lim_udp_session_timeout l)
       (UdpSessionTimeoutRange (lim_udp_session_timeout l))) (\<lambda>_.
     and_then (bail_if (MAX_IDLE_TIMEOUT_CEILING < lim_connect_timeout l) (ConnectTimeoutTooLong (lim_connect_timeout l))) (\<lambda>_.
     and_then (bail_if (lim_max_targets_per_conn l = 0) MaxTargetsZero) (\<lambda>_.
     bail_if (MAX_TARGETS_PER_CONN_CEILING < lim_max_targets_per_conn l) (MaxTargetsTooMany (lim_max_targets_per_conn l)))))"

text \<open>\<^verbatim>\<open>u64::div_ceil\<close> by two.\<close>

definition div_ceil_2 :: "u64 \<Rightarrow> u64" where
  "div_ceil_2 n = (if n mod 2 = 0 then n div 2 else n div 2 + 1)"

definition validate_connection_limits :: "limits \<Rightarrow> config_error + unit" where
  "validate_connection_limits l =
     and_then (bail_if (lim_max_streams_bidi l = 0) MaxStreamsZero) (\<lambda>_.
     and_then (bail_if (MAX_STREAMS_BIDI_CEILING < lim_max_streams_bidi l) (MaxStreamsTooMany (lim_max_streams_bidi l))) (\<lambda>_.
     and_then (bail_if (lim_max_idle_timeout l = 0 \<or> MAX_IDLE_TIMEOUT_CEILING < lim_max_idle_timeout l)
       (MaxIdleTimeoutRange (lim_max_idle_timeout l))) (\<lambda>_.
     bail_if (0 < lim_keep_alive_interval l \<and> div_ceil_2 (lim_max_idle_timeout l) \<le> lim_keep_alive_interval l)
       (KeepAliveTooLong (lim_keep_alive_interval l) (lim_max_idle_timeout l)))))"

definition validate_mtu :: "limits \<Rightarrow> config_error + unit" where
  "validate_mtu l =
     and_then (bail_if (lim_initial_mtu l < MIN_INITIAL_MTU) (InitialMtuTooSmall (lim_initial_mtu l))) (\<lambda>_.
     and_then (bail_if (MAX_INITIAL_MTU < lim_initial_mtu l) (InitialMtuTooLarge (lim_initial_mtu l))) (\<lambda>_.
     and_then
       (case lim_mtu_upper_bound l of
          None \<Rightarrow> Inr ()
        | Some b \<Rightarrow>
            and_then (bail_if (b < lim_initial_mtu l) (MtuBoundBelowStart b (lim_initial_mtu l))) (\<lambda>_.
            bail_if (MAX_MTU_UPPER_BOUND < b) (MtuBoundTooLarge b))) (\<lambda>_.
     bail_if (\<not> (fst INITIAL_RTT_RANGE_MS \<le> lim_initial_rtt_ms l \<and> lim_initial_rtt_ms l \<le> snd INITIAL_RTT_RANGE_MS))
       (InitialRttRange (lim_initial_rtt_ms l)))))"

fun validate_users :: "user list \<Rightarrow> user list \<Rightarrow> config_error + unit" where
  "validate_users seen [] = Inr ()"
| "validate_users seen (u # us) =
     (let i = length seen in
     and_then (bail_if (user_name u = []) (UsernameEmpty i)) (\<lambda>_.
     and_then (bail_if (0x3a \<in> set (user_name u)) (UsernameColon i)) (\<lambda>_.
     and_then (bail_if (MAX_TOKEN < length (user_name u)) (UsernameTooLong i (length (user_name u)))) (\<lambda>_.
     and_then (bail_if (user_password u = []) (PasswordEmpty i)) (\<lambda>_.
     case position (\<lambda>other. user_name other = user_name u) seen of
       Some j \<Rightarrow> Inl (UsernameDuplicate i j)
     | None \<Rightarrow> validate_users (seen @ [u]) us)))))"

definition validate_denied_ports :: "u16 list \<Rightarrow> config_error + unit" where
  "validate_denied_ports ps =
     (case position (\<lambda>p. p = 0) ps of Some i \<Rightarrow> Inl (DeniedPortZero i) | None \<Rightarrow> Inr ())"

definition sni_character :: "byte \<Rightarrow> bool" where
  "sni_character c \<longleftrightarrow> is_ascii_alphanumeric c \<or> c = 0x2d \<or> c = 0x2e \<or> c = 0x5f"

definition validate_expected_sni :: "nat \<Rightarrow> bytes \<Rightarrow> config_error + unit" where
  "validate_expected_sni i entry =
     (let bare = root_relative entry in
     and_then (bail_if (bare = []) (SniEmpty i)) (\<lambda>_.
     and_then (bail_if (list_ex (\<lambda>label. label = []) (split_on 0x2e bare)) (SniEmptyLabel i)) (\<lambda>_.
     and_then (bail_if (MAX_EXPECTED_SNI < length bare) (SniTooLong i (length bare))) (\<lambda>_.
     and_then (bail_if (0x2a \<in> set bare) (SniWildcard i)) (\<lambda>_.
     and_then (bail_if (list_ex (\<lambda>c. \<not> sni_character c) bare) (SniCharacter i)) (\<lambda>_.
     bail_if (parse_ipv4 bare \<noteq> None \<or> parse_ipv6 bare \<noteq> None) (SniAddress i)))))))"

fun validate_sni_list :: "nat \<Rightarrow> bytes list \<Rightarrow> config_error + unit" where
  "validate_sni_list i [] = Inr ()"
| "validate_sni_list i (n # ns) = and_then (validate_expected_sni i n) (\<lambda>_. validate_sni_list (Suc i) ns)"

definition validate_files :: "(bytes \<Rightarrow> bool) \<Rightarrow> server_section \<Rightarrow> config_error + unit" where
  "validate_files is_file s =
     and_then (bail_if (\<not> is_file (srv_cert s)) CertNotAFile) (\<lambda>_.
     bail_if (\<not> is_file (srv_key s)) KeyNotAFile)"

definition validate_config :: "(bytes \<Rightarrow> bool) \<Rightarrow> (bytes \<Rightarrow> bool) \<Rightarrow> config \<Rightarrow> config_error + unit" where
  "validate_config env_filter is_file c =
     and_then (validate_log_level env_filter (log_level (cfg_log c))) (\<lambda>_.
     and_then (validate_server (cfg_server c)) (\<lambda>_.
     and_then (validate_tunnel_limits (cfg_limits c)) (\<lambda>_.
     and_then (validate_connection_limits (cfg_limits c)) (\<lambda>_.
     and_then (validate_mtu (cfg_limits c)) (\<lambda>_.
     and_then (validate_users [] (cfg_users c)) (\<lambda>_.
     and_then (validate_denied_ports (sec_denied_ports (cfg_security c))) (\<lambda>_.
     and_then (validate_sni_list 0 (sec_expected_sni (cfg_security c))) (\<lambda>_.
     validate_files is_file (cfg_server c)))))))))"

section \<open>Warnings\<close>

datatype config_warning =
    OpenProxy | PlaceholderPasswords "nat list" | AlpnWithoutH3 | SniNotCovered bytes
  | UdpSessionTimeoutShort u64 | PrivateNetworksAllowed | DnsPortDenied | ConnectionsUncapped
  | AuthFailuresUnlimited | KeepAliveOff u64 | MtuDiscoveryOff u16 | MtuBoundUnused u16
  | KeylogOn | UnansweredBudgetOff | ConnectTimeoutOff

text \<open>
  What the certificate library says of the file of \<^verbatim>\<open>server.cert\<close>: the certificates in it, which of
  them parse, and whether one is valid for a host name.
\<close>

record 'c certificates =
  cert_load :: "bytes \<Rightarrow> 'c list option"
  cert_parses :: "'c \<Rightarrow> bool"
  cert_verifies :: "'c \<Rightarrow> bytes \<Rightarrow> bool"

definition names_not_covered :: "'c certificates \<Rightarrow> 'c \<Rightarrow> bytes list \<Rightarrow> bytes list" where
  "names_not_covered cs leaf ns =
     (if \<not> cert_parses cs leaf then [] else filter (\<lambda>n. \<not> cert_verifies cs leaf (root_relative n)) ns)"

definition placeholders :: "user list \<Rightarrow> nat list" where
  "placeholders us = filter (\<lambda>i. user_password (us ! i) = EXAMPLE_PLACEHOLDER_PASSWORD) [0..<length us]"

definition warn_if :: "bool \<Rightarrow> 'w \<Rightarrow> 'w list" where
  "warn_if c w = (if c then [w] else [])"

definition credential_warnings :: "config \<Rightarrow> config_warning list" where
  "credential_warnings c =
     warn_if (cfg_users c = []) OpenProxy
     @ warn_if (placeholders (cfg_users c) \<noteq> []) (PlaceholderPasswords (placeholders (cfg_users c)))
     @ warn_if (byte_string ''h3'' \<notin> set (srv_alpn (cfg_server c))) AlpnWithoutH3"

definition sni_warnings :: "'c certificates \<Rightarrow> config \<Rightarrow> config_warning list" where
  "sni_warnings cs c =
     (if sec_expected_sni (cfg_security c) = [] then []
      else case cert_load cs (srv_cert (cfg_server c)) of
             Some (leaf # _) \<Rightarrow> map SniNotCovered (names_not_covered cs leaf (sec_expected_sni (cfg_security c)))
           | _ \<Rightarrow> [])"

definition limit_warnings :: "config \<Rightarrow> config_warning list" where
  "limit_warnings c =
     (let l = cfg_limits c; s = cfg_security c in
     warn_if (lim_udp_session_timeout l < 120) (UdpSessionTimeoutShort (lim_udp_session_timeout l))
     @ warn_if (sec_allow_private_networks s) PrivateNetworksAllowed
     @ warn_if (53 \<in> set (sec_denied_ports s)) DnsPortDenied
     @ warn_if (lim_max_connections l = 0) ConnectionsUncapped
     @ warn_if (sec_max_auth_failures s = 0 \<and> cfg_users c \<noteq> []) AuthFailuresUnlimited
     @ warn_if (lim_keep_alive_interval l = 0) (KeepAliveOff (lim_max_idle_timeout l)))"

definition transport_warnings :: "config \<Rightarrow> config_warning list" where
  "transport_warnings c =
     (let l = cfg_limits c in
     warn_if (\<not> lim_mtu_discovery l) (MtuDiscoveryOff (lim_initial_mtu l))
     @ (case lim_mtu_upper_bound l of Some b \<Rightarrow> warn_if (\<not> lim_mtu_discovery l) (MtuBoundUnused b) | None \<Rightarrow> [])
     @ warn_if (log_keylog (cfg_log c)) KeylogOn
     @ warn_if (sec_unanswered_packet_budget (cfg_security c) = 0) UnansweredBudgetOff
     @ warn_if (lim_connect_timeout l = 0) ConnectTimeoutOff)"

definition warnings :: "'c certificates \<Rightarrow> config \<Rightarrow> config_warning list" where
  "warnings cs c = credential_warnings c @ sni_warnings cs c @ limit_warnings c @ transport_warnings c"

section \<open>Parse errors\<close>

definition REDACTED :: bytes where
  "REDACTED = byte_string ''`<redacted>`''"

definition is_quote :: "byte \<Rightarrow> bool" where
  "is_quote c \<longleftrightarrow> c = 0x60 \<or> c = 0x22"

text \<open>The loop over the bytes of a double-quoted segment; a backslash takes the byte after it along.\<close>

fun escaped_close :: "nat \<Rightarrow> bytes \<Rightarrow> nat option" where
  "escaped_close i [] = None"
| "escaped_close i (b # rest) =
     (if b = 0x5c then (case rest of [] \<Rightarrow> None | _ # rest' \<Rightarrow> escaped_close (i + 2) rest')
      else if b = 0x22 then Some i
      else escaped_close (Suc i) rest)"

definition closing_quote :: "bytes \<Rightarrow> byte \<Rightarrow> nat option" where
  "closing_quote rest quote = (if quote \<noteq> 0x22 then position (\<lambda>b. b = quote) rest else escaped_close 0 rest)"

function redact_quoted :: "bytes \<Rightarrow> bytes" where
  "redact_quoted rest =
     (case position is_quote rest of
        None \<Rightarrow> rest
      | Some open \<Rightarrow>
          take open rest @ REDACTED
          @ (case closing_quote (drop (open + 1) rest) (rest ! open) of
               None \<Rightarrow> []
             | Some close \<Rightarrow> redact_quoted (drop (open + 1 + close + 1) rest)))"
  by pat_completeness auto
termination
  by (relation "measure length") (auto simp: position_Some)

declare redact_quoted.simps [simp del]

text \<open>\<^verbatim>\<open>str::get(..offset)\<close>, lines and characters before it.\<close>

definition line_and_column :: "bytes \<Rightarrow> nat \<Rightarrow> (nat \<times> nat) option" where
  "line_and_column t offset =
     (if offset \<le> length t \<and> is_char_boundary t offset
      then let before = take offset t
           in Some (length (filter (\<lambda>b. b = 0x0a) before) + 1,
                    length (filter (\<lambda>b. \<not> is_cont b) (case rsplit_once 0x0a before of Some (_, tail) \<Rightarrow> tail | None \<Rightarrow> before)) + 1)
      else None)"

text \<open>What \<^verbatim>\<open>parse_error\<close> shows of an error: where it is, if that is known, and the redacted message.\<close>

definition parse_error :: "bytes \<Rightarrow> bytes \<Rightarrow> nat option \<Rightarrow> (nat \<times> nat) option \<times> bytes" where
  "parse_error t message span = (Option.bind span (line_and_column t), redact_quoted message)"

section \<open>What a connection takes from it\<close>

definition policy_new :: "security \<Rightarrow> policy" where
  "policy_new s = \<lparr>allow_private_networks = sec_allow_private_networks s, denied_ports = sec_denied_ports s\<rparr>"

definition context_settings :: "config \<Rightarrow> settings_of_context" where
  "context_settings c =
     \<lparr>set_users = cfg_users c, set_policy = policy_new (cfg_security c),
      set_max_auth_failures = sec_max_auth_failures (cfg_security c),
      set_max_targets = lim_max_targets_per_conn (cfg_limits c),
      set_max_streams_bidi = lim_max_streams_bidi (cfg_limits c),
      set_ip_family = lim_ip_family_preference (cfg_limits c),
      set_unanswered = sec_unanswered_packet_budget (cfg_security c)\<rparr>"

end
