(* ===== verification/Connection_Loop.thy ===== *)
theory Connection_Loop
  imports Request_Handling H3_Connection Config Runs Logfmt
begin

text \<open>
  \<^verbatim>\<open>handle\<close> of \<^verbatim>\<open>src/src/conn.rs\<close>: the loop that accepts the requests of one connection, announces its end when
  the server shuts down and waits for the tunnels to finish; with \<^verbatim>\<open>next_request\<close>, \<^verbatim>\<open>announce_goaway\<close>, what
  \<^verbatim>\<open>src/src/h3api.rs\<close> makes of an ending, and the line \<^verbatim>\<open>log_request\<close> writes about a request. A turn of the loop is
  the branch of its \<^verbatim>\<open>select!\<close> that was ready; between turns the tasks of the requests authenticate, take and
  give back slots, and end. Giving a slot back is one step here: that it is several, and that the wait for
  them loses none, is the matter of \<^verbatim>\<open>src/src/tunnel/quota.rs\<close>. Time is in seconds.
\<close>

section \<open>Endings\<close>

datatype benign_close = CloseIdle | ClosePeer

definition NO_ERROR :: code where "NO_ERROR = H3_NO_ERROR"

fun peer_reset_code :: "stream_error \<Rightarrow> code option" where
  "peer_reset_code (RemoteTerminate c) = Some c"
| "peer_reset_code _ = None"

fun benign_close_of :: "connection_error \<Rightarrow> benign_close option" where
  "benign_close_of Timeout = Some CloseIdle"
| "benign_close_of (ApplicationClose c) = (if c = 0 \<or> c = NO_ERROR then Some ClosePeer else None)"
| "benign_close_of (LocalConn v) = (if code v = NO_ERROR then Some CloseIdle else None)"
| "benign_close_of _ = None"

definition close_quietly :: connection_error where
  "close_quietly = LocalConn (violation_connection H3_NO_ERROR)"

section \<open>Waiting for a request\<close>

definition SILENCE_FACTOR :: u64 where "SILENCE_FACTOR = 2"

datatype next_request = NextStream u64 | NextFinished | NextSilent | NextFailed connection_error

fun next_request_from :: "connection_error + u64 option \<Rightarrow> next_request" where
  "next_request_from (Inr (Some i)) = NextStream i"
| "next_request_from (Inr None) = NextFinished"
| "next_request_from (Inl e) = NextFailed e"

text \<open>How a wait for \<^verbatim>\<open>accept\<close> ends: with its answer, or at the deadline.\<close>

datatype accept_wait = Accepts "connection_error + u64 option" | Elapses

text \<open>
  One pass of the loop of \<^verbatim>\<open>next_request\<close>, begun at the time \<open>now\<close>: its answer, or nothing when it goes
  round again. An authenticated connection waits without a deadline.
\<close>

definition next_request_pass :: "bool \<Rightarrow> u64 \<Rightarrow> u64 \<Rightarrow> accept_wait \<Rightarrow> next_request option" where
  "next_request_pass known deadline now w =
     (if known then (case w of Accepts r \<Rightarrow> Some (next_request_from r) | Elapses \<Rightarrow> None)
      else if deadline \<le> now then Some NextSilent
      else case w of Accepts r \<Rightarrow> Some (next_request_from r) | Elapses \<Rightarrow> None)"

section \<open>The loop\<close>

record serving =
  conn :: h3_connection
  ctx :: tunnel_context
  draining :: bool
  until :: u64
  held_tunnels :: nat
  held_requests :: nat
  stream_limit :: u32
  served :: "u64 list"
  goaway_failed :: bool
  outcome :: "(connection_error + unit) option"

definition handle_start :: "config \<Rightarrow> bool \<Rightarrow> auth_gate \<Rightarrow> u64 \<Rightarrow> u32 \<Rightarrow> serving" where
  "handle_start cfg peer g now streams =
     \<lparr>conn = connection_start, ctx = context_new (context_settings cfg) peer g, draining = False,
      until = now + lim_max_idle_timeout (cfg_limits cfg) * SILENCE_FACTOR,
      held_tunnels = 0, held_requests = 0, stream_limit = streams, served = [], goaway_failed = False, outcome = None\<rparr>"

datatype goaway_write = GoawayWritten | GoawayRefused | GoawayStalled

datatype drain_left = DrainPending | DrainFinished

definition announce_goaway :: "serving \<Rightarrow> goaway_write \<Rightarrow> serving \<times> drain_left" where
  "announce_goaway s w =
     (let s = s\<lparr>conn := fst (shutdown (conn s))\<rparr>
      in case w of
           GoawayRefused \<Rightarrow> (s\<lparr>goaway_failed := True\<rparr>, DrainFinished)
         | _ \<Rightarrow> (s, if is_busy (ctx_quota (ctx s)) then DrainPending else DrainFinished))"

text \<open>
  What happens next: the shutdown signal, with what becomes of the GOAWAY; a poll of the wait for the last
  tunnel; a pass of \<^verbatim>\<open>next_request\<close> begun at a time, with the stream or the error the transport has for it;
  or a step of a request's task: it authenticates, takes a tunnel slot, gives it back, or ends.
\<close>

datatype loop_turn =
    ShutdownFires goaway_write
  | IdlePoll
  | RequestPass u64 "(connection_error + u64) option"
  | TaskAuthenticates "bytes option"
  | TaskAcquires
  | TunnelEnds
  | RequestEnds

definition update_quota :: "(quota \<Rightarrow> quota) \<Rightarrow> serving \<Rightarrow> serving" where
  "update_quota f s = s\<lparr>ctx := (ctx s)\<lparr>ctx_quota := f (ctx_quota (ctx s))\<rparr>\<rparr>"

text \<open>
  \<^verbatim>\<open>accept\<close> on what the transport offers: a stream past the GOAWAY is rejected and the wait goes on. The
  transport offers a stream only while the peer has credit for one.
\<close>

definition accept :: "serving \<Rightarrow> (connection_error + u64) option \<Rightarrow> serving \<times> accept_wait option" where
  "accept s offer =
     (case offer of
        None \<Rightarrow> (s, Some Elapses)
      | Some (Inl e) \<Rightarrow> (s, Some (Accepts (Inl e)))
      | Some (Inr i) \<Rightarrow>
          if held_requests s < unat (stream_limit s)
          then (case accept_stream (conn s) i of
                  (c, True) \<Rightarrow> (s\<lparr>conn := c\<rparr>, Some (Accepts (Inr (Some i))))
                | (c, False) \<Rightarrow> (s, None))
          else (s, None))"

definition request_pass :: "serving \<Rightarrow> u64 \<Rightarrow> (connection_error + u64) option \<Rightarrow> serving" where
  "request_pass s now offer =
     (case (if \<not> gate (ctx s) \<and> until s \<le> now then (s, Some Elapses) else accept s offer) of
        (s, None) \<Rightarrow> s
      | (s, Some w) \<Rightarrow>
          (case next_request_pass (gate (ctx s)) (until s) now w of
             None \<Rightarrow> s
           | Some (NextStream i) \<Rightarrow>
               (update_quota enter s)\<lparr>held_requests := held_requests s + 1, served := served s @ [i]\<rparr>
           | Some NextFinished \<Rightarrow> s\<lparr>outcome := Some (Inr ())\<rparr>
           | Some (NextFailed e) \<Rightarrow> s\<lparr>outcome := Some (Inl e)\<rparr>
           | Some NextSilent \<Rightarrow> s\<lparr>outcome := Some (Inl close_quietly)\<rparr>))"

fun handle_turn :: "serving \<Rightarrow> loop_turn \<Rightarrow> serving" where
  "handle_turn s x =
     (if outcome s \<noteq> None then s
      else case x of
        ShutdownFires w \<Rightarrow>
          if draining s then s
          else (case announce_goaway (s\<lparr>draining := True\<rparr>) w of
                  (s, DrainFinished) \<Rightarrow> s\<lparr>outcome := Some (Inr ())\<rparr>
                | (s, DrainPending) \<Rightarrow> s)
      | IdlePoll \<Rightarrow>
          if draining s \<and> \<not> is_busy (ctx_quota (ctx s)) then s\<lparr>outcome := Some (Inr ())\<rparr> else s
      | RequestPass now offer \<Rightarrow> request_pass s now offer
      | TaskAuthenticates u \<Rightarrow> if 0 < held_requests s then s\<lparr>ctx := mark_authenticated (ctx s) u\<rparr> else s
      | TaskAcquires \<Rightarrow>
          (case acquire (ctx_quota (ctx s)) of
             Some q \<Rightarrow> if held_tunnels s < held_requests s then (update_quota (\<lambda>_. q) s)\<lparr>held_tunnels := held_tunnels s + 1\<rparr> else s
           | None \<Rightarrow> s)
      | TunnelEnds \<Rightarrow>
          if 0 < held_tunnels s
          then (update_quota (\<lambda>q. q\<lparr>permits := permits q + 1\<rparr>) s)\<lparr>held_tunnels := held_tunnels s - 1\<rparr> else s
      | RequestEnds \<Rightarrow>
          if held_tunnels s < held_requests s
          then (update_quota (\<lambda>q. q\<lparr>pending := pending q - 1\<rparr>) s)\<lparr>held_requests := held_requests s - 1\<rparr> else s)"

declare handle_turn.simps [simp del]

section \<open>The request log\<close>

definition MAX_SCHEME :: nat where "MAX_SCHEME = 16"

definition redacted_bytes :: "nat \<Rightarrow> bytes" where
  "redacted_bytes n = byte_string ''<redacted '' @ decimal n @ byte_string '' bytes>''"

definition redact_credentials :: "field_value \<Rightarrow> bytes" where
  "redact_credentials v =
     (case to_str v of
        None \<Rightarrow> redacted_bytes (length v)
      | Some t \<Rightarrow>
          (case split_once 0x20 t of
             Some (scheme, secret) \<Rightarrow>
               if scheme \<noteq> [] \<and> length scheme \<le> MAX_SCHEME \<and> list_all is_ascii_alphanumeric scheme
               then scheme @ [0x20] @ redacted_bytes (length (dropWhile (\<lambda>b. b = 0x20) secret))
               else redacted_bytes (length t)
           | None \<Rightarrow> redacted_bytes (length t)))"

definition log_header :: "bytes \<times> field_value \<Rightarrow> bytes" where
  "log_header nv =
     (case nv of (n, v) \<Rightarrow>
        if is_credential_field n then n @ byte_string '': '' @ redact_credentials v
        else case to_str v of
               Some t \<Rightarrow> n @ byte_string '': '' @ t
             | None \<Rightarrow> n @ byte_string '': <'' @ decimal (length v) @ byte_string '' non-utf8 bytes>'')"

text \<open>
  The event \<^verbatim>\<open>log_request\<close> records, field by field as the macro names them; none when the level is off.
\<close>

record request_line =
  line_stream_id :: u64
  line_method :: bytes
  line_path :: bytes
  line_authority :: "bytes option"
  line_scheme :: "bytes option"
  line_protocol :: "bytes option"
  line_headers :: "bytes list"

definition log_request :: "bool \<Rightarrow> request \<Rightarrow> u64 \<Rightarrow> request_line option" where
  "log_request debug req stream_id =
     (if \<not> debug then None
      else Some \<lparr>line_stream_id = stream_id, line_method = method_as_str (req_method req),
        line_path = (case req_path req of Some p \<Rightarrow> p | None \<Rightarrow> []), line_authority = req_authority req,
        line_scheme = req_scheme req, line_protocol = map_option bounded (req_protocol req),
        line_headers = map log_header (req_fields req)\<rparr>)"

section \<open>What the loop keeps\<close>

definition loop_inv :: "u32 \<Rightarrow> u64 \<Rightarrow> serving \<Rightarrow> bool" where
  "loop_inv l deadline s \<longleftrightarrow>
     until s = deadline
     \<and> limit (ctx_quota (ctx s)) = l \<and> permits (ctx_quota (ctx s)) + held_tunnels s = unat l
     \<and> unat (pending (ctx_quota (ctx s))) = held_requests s
     \<and> held_requests s \<le> unat (stream_limit s) \<and> held_tunnels s \<le> held_requests s
     \<and> (outcome s = Some (Inr ()) \<and> \<not> goaway_failed s \<longrightarrow> held_requests s = 0)"

lemma loop_busy: "loop_inv l d s \<Longrightarrow> is_busy (ctx_quota (ctx s)) \<longleftrightarrow> 0 < held_requests s"
  by (subst is_busy_iff) (auto simp: loop_inv_def)

lemma update_quota_simps [simp]:
  "ctx_quota (ctx (update_quota f s)) = f (ctx_quota (ctx s))" "gate (ctx (update_quota f s)) = gate (ctx s)"
  "until (update_quota f s) = until s" "held_tunnels (update_quota f s) = held_tunnels s"
  "held_requests (update_quota f s) = held_requests s" "stream_limit (update_quota f s) = stream_limit s"
  "goaway_failed (update_quota f s) = goaway_failed s" "outcome (update_quota f s) = outcome s"
  "draining (update_quota f s) = draining s"
  by (simp_all add: update_quota_def)

lemma mark_authenticated_keeps [simp]: "ctx_quota (mark_authenticated c u) = ctx_quota c"
  by (simp add: mark_authenticated_def gate_mark_def Let_def split: option.split)

lemma request_pass_cases:
  assumes "outcome s = None"
  obtains (stay) "request_pass s now offer = s"
  | (over) e where "request_pass s now offer = s\<lparr>outcome := Some (Inl e)\<rparr>"
      "offer = Some (Inl e) \<or> \<not> gate (ctx s) \<and> until s \<le> now \<and> e = close_quietly"
  | (serve) i where "held_requests s < unat (stream_limit s)"
      "request_pass s now offer = (update_quota enter s)\<lparr>conn := fst (accept_stream (conn s) i),
         held_requests := held_requests s + 1, served := served s @ [i]\<rparr>"
proof (cases "\<not> gate (ctx s) \<and> until s \<le> now")
  case True
  then show ?thesis using over by (simp add: request_pass_def next_request_pass_def)
next
  case False
  then have pass: "next_request_pass (gate (ctx s)) (until s) now w
      = (case w of Accepts r \<Rightarrow> Some (next_request_from r) | Elapses \<Rightarrow> None)" for w
    by (auto simp: next_request_pass_def)
  have if_false: "(if \<not> gate (ctx s) \<and> until s \<le> now then y else z) = z" for y z :: "serving \<times> accept_wait option"
    using False by auto
  consider (none) "offer = None" | (fail) e where "offer = Some (Inl e)" | (offered) i where "offer = Some (Inr i)"
    by (metis option.exhaust sumE)
  then show ?thesis
  proof cases
    case none
    then show ?thesis using stay by (simp only: request_pass_def if_false) (simp add: accept_def pass)
  next
    case fail
    then show ?thesis using over by (simp only: request_pass_def if_false) (simp add: accept_def pass)
  next
    case (offered i)
    show ?thesis
    proof (cases "held_requests s < unat (stream_limit s) \<and> snd (accept_stream (conn s) i)")
      case True
      then obtain c where "accept_stream (conn s) i = (c, True)" by (metis prod.collapse)
      with True show ?thesis
        using offered serve[of i] by (simp only: request_pass_def if_false) (simp add: accept_def pass update_quota_def)
    next
      case False
      then have "accept s offer = (s, None)"
        by (cases "accept_stream (conn s) i") (auto simp: offered accept_def split: bool.splits)
      with stay show ?thesis by (simp only: request_pass_def if_false) simp
    qed
  qed
qed

lemma loop_inv_pass:
  assumes "loop_inv l d s" "outcome s = None"
  shows "loop_inv l d (request_pass s now offer)"
  using assms(2)
proof (cases rule: request_pass_cases[where now = now and offer = offer])
  case (serve i)
  have "unat (stream_limit s) < 2 ^ 32" using unsigned_less[of "stream_limit s"] by simp
  then have "unat (pending (ctx_quota (ctx s)) + 1) = unat (pending (ctx_quota (ctx s))) + 1"
    using assms(1) serve(1) by (simp add: loop_inv_def unat_word_ariths)
  with serve assms show ?thesis by (auto simp: loop_inv_def enter_def)
qed (use assms in \<open>auto simp: loop_inv_def\<close>)

lemma announce_inv:
  assumes "loop_inv l d s" "outcome s = None" "announce_goaway s w = (s', r)"
  shows "loop_inv l d s' \<and> outcome s' = None \<and> (r = DrainFinished \<longrightarrow> goaway_failed s' \<or> held_requests s' = 0)"
  using assms loop_busy[OF assms(1)]
  by (cases w) (auto simp: announce_goaway_def Let_def loop_inv_def)

lemma loop_inv_turn: "loop_inv l d s \<Longrightarrow> loop_inv l d (handle_turn s x)"
proof (cases "outcome s = None")
  case running: True
  assume inv: "loop_inv l d s"
  note turn = handle_turn.simps[of s x] running inv
  show ?thesis
  proof (cases x)
    case (ShutdownFires w)
    have inv': "loop_inv l d (s\<lparr>draining := True\<rparr>)" using inv by (simp add: loop_inv_def)
    obtain s' r where a: "announce_goaway (s\<lparr>draining := True\<rparr>) w = (s', r)" by fastforce
    with announce_inv[OF inv' _ a] running have "loop_inv l d s'" "outcome s' = None"
      "r = DrainFinished \<Longrightarrow> goaway_failed s' \<or> held_requests s' = 0" by auto
    with turn ShutdownFires a show ?thesis by (cases r) (auto simp: loop_inv_def)
  next
    case IdlePoll
    with turn loop_busy[OF inv] show ?thesis by (auto simp: loop_inv_def)
  next
    case (RequestPass now offer)
    with turn loop_inv_pass[OF inv running] show ?thesis by simp
  next
    case TaskAcquires
    with turn show ?thesis by (auto simp: loop_inv_def acquire_def split: if_splits)
  next
    case RequestEnds
    have "unat (pending (ctx_quota (ctx s)) - 1) = unat (pending (ctx_quota (ctx s))) - 1"
      if "held_tunnels s < held_requests s" using that inv by (intro unat_minus_one) (auto simp: loop_inv_def)
    with turn RequestEnds show ?thesis by (auto simp: loop_inv_def)
  qed (use turn in \<open>auto simp: loop_inv_def\<close>)
qed (simp add: handle_turn.simps)

interpretation loop: operations handle_turn "loop_inv l d" for l d
  by unfold_locales (rule loop_inv_turn)

definition silence_deadline :: "config \<Rightarrow> u64 \<Rightarrow> u64" where
  "silence_deadline cfg now = now + lim_max_idle_timeout (cfg_limits cfg) * SILENCE_FACTOR"

lemma loop_inv_start:
  "loop_inv (lim_max_targets_per_conn (cfg_limits cfg)) (silence_deadline cfg now) (handle_start cfg peer g now streams)"
  by (simp add: loop_inv_def handle_start_def context_new_def Let_def context_settings_def quota_new_def silence_deadline_def)

text \<open>A GOAWAY that could not be written is an event of the run, and the last thing of the loop.\<close>

lemma handle_turn_ended: "outcome s = Some r \<Longrightarrow> handle_turn s x = s"
  by (simp add: handle_turn.simps)

lemma handle_turn_refused:
  assumes "outcome s = None" "\<not> draining s"
  shows "goaway_failed (handle_turn s (ShutdownFires GoawayRefused))"
    and "draining (handle_turn s (ShutdownFires GoawayRefused))"
    and "outcome (handle_turn s (ShutdownFires GoawayRefused)) = Some (Inr ())"
    and "held_tunnels (handle_turn s (ShutdownFires GoawayRefused)) = held_tunnels s"
    and "held_requests (handle_turn s (ShutdownFires GoawayRefused)) = held_requests s"
  using assms by (simp_all add: handle_turn.simps announce_goaway_def)

lemma goaway_failed_turn:
  "goaway_failed (handle_turn s x)
   \<longleftrightarrow> goaway_failed s \<or> outcome s = None \<and> \<not> draining s \<and> x = ShutdownFires GoawayRefused"
proof (cases x)
  case (ShutdownFires w)
  then show ?thesis by (cases w) (auto simp: handle_turn.simps announce_goaway_def)
next
  case (RequestPass now offer)
  then show ?thesis
    by (cases "outcome s = None") (cases rule: request_pass_cases[where now = now and offer = offer and s = s],
      auto simp: handle_turn.simps)
qed (auto simp: handle_turn.simps split: option.splits)

lemma goaway_failed_run:
  "goaway_failed (foldl handle_turn (handle_start cfg peer g now streams) turns) \<Longrightarrow>
   ShutdownFires GoawayRefused \<in> set turns
   \<and> draining (foldl handle_turn (handle_start cfg peer g now streams) turns)
   \<and> outcome (foldl handle_turn (handle_start cfg peer g now streams) turns) = Some (Inr ())"
proof (induction turns rule: rev_induct)
  case Nil
  then show ?case by (simp add: handle_start_def)
next
  case (snoc x xs)
  let ?s = "foldl handle_turn (handle_start cfg peer g now streams) xs"
  from snoc.prems consider "goaway_failed ?s" | "outcome ?s = None" "\<not> draining ?s" "x = ShutdownFires GoawayRefused"
    by (auto simp: goaway_failed_turn)
  then show ?case
  proof cases
    case 1
    then show ?thesis using snoc.IH by (simp add: handle_turn_ended)
  next
    case 2
    then show ?thesis by (simp add: handle_turn_refused)
  qed
qed

section \<open>Properties\<close>

text \<open>
  C19. Whatever the turns of a connection and of its requests. It ends well with nothing left to drain, with
  one exception: the write of the GOAWAY failed when the shutdown fired, which ends the connection at once,
  with whatever tunnels and requests it has. Once it drains, the end of its last request ends it. A peer
  that has not authenticated is let go at the first pass after the deadline, which nothing moves, and with
  an error that counts as idle; a connection that has authenticated is not ended by any deadline. It
  never holds more tunnels than it may.
\<close>

theorem connection_loop:
  "let s = foldl handle_turn (handle_start cfg peer g now streams) turns
   in (if outcome s = Some (Inr ()) \<and> \<not> goaway_failed s then held_tunnels s = 0 \<and> held_requests s = 0 else True)
      \<and> (if goaway_failed s then ShutdownFires GoawayRefused \<in> set turns \<and> draining s \<and> outcome s = Some (Inr ())
         else True)
      \<and> (if outcome s = None \<and> \<not> draining s
         then (let s' = handle_turn s (ShutdownFires GoawayRefused)
               in goaway_failed s' \<and> outcome s' = Some (Inr ())
                  \<and> held_tunnels s' = held_tunnels s \<and> held_requests s' = held_requests s) else True)
      \<and> (if outcome s = None \<and> draining s \<and> held_requests s = 0
         then outcome (handle_turn s IdlePoll) = Some (Inr ()) else True)
      \<and> (if outcome s = None \<and> \<not> gate (ctx s) \<and> silence_deadline cfg now \<le> t
         then outcome (handle_turn s (RequestPass t offer)) = Some (Inl close_quietly)
              \<and> benign_close_of close_quietly = Some CloseIdle else True)
      \<and> (if outcome s = None \<and> gate (ctx s)
         then outcome (handle_turn s (RequestPass t (map_option Inr arrival))) = None else True)
      \<and> held_tunnels s \<le> unat (lim_max_targets_per_conn (cfg_limits cfg))"
proof -
  let ?s = "foldl handle_turn (handle_start cfg peer g now streams) turns"
  have inv: "loop_inv (lim_max_targets_per_conn (cfg_limits cfg)) (silence_deadline cfg now) ?s"
    by (rule loop.inv_run[OF loop_inv_start])
  have silent: "outcome (handle_turn ?s (RequestPass t offer)) = Some (Inl close_quietly)"
    if "outcome ?s = None" "\<not> gate (ctx ?s)" "silence_deadline cfg now \<le> t"
    using that inv by (simp add: handle_turn.simps request_pass_def next_request_pass_def loop_inv_def)
  have known: "outcome (handle_turn ?s (RequestPass t (map_option Inr arrival))) = None" if "outcome ?s = None" "gate (ctx ?s)"
    using that(1) by (cases rule: request_pass_cases[where now = t and offer = "map_option Inr arrival"])
      (use that in \<open>auto simp: handle_turn.simps\<close>)
  have refused: "goaway_failed ?s \<Longrightarrow> ShutdownFires GoawayRefused \<in> set turns \<and> draining ?s \<and> outcome ?s = Some (Inr ())"
    by (rule goaway_failed_run)
  have rest: "outcome ?s = Some (Inr ()) \<and> \<not> goaway_failed ?s \<Longrightarrow> held_requests ?s = 0" "held_tunnels ?s \<le> held_requests ?s"
    "held_tunnels ?s \<le> unat (lim_max_targets_per_conn (cfg_limits cfg))" using inv by (auto simp: loop_inv_def)
  have idle: "outcome (handle_turn ?s IdlePoll) = Some (Inr ())"
    if "outcome ?s = None" "draining ?s" "held_requests ?s = 0"
    using that loop_busy[OF inv] by (simp add: handle_turn.simps)
  have quiet: "benign_close_of close_quietly = Some CloseIdle" by (simp add: close_quietly_def NO_ERROR_def)
  show ?thesis
    unfolding Let_def using silent known refused rest idle quiet handle_turn_refused[of ?s] by auto
qed

text \<open>
  Two fields that differ at most in the secret of a credential, which has the same number of bytes in
  both: after a scheme and the spaces that follow it, in a value without a space, or in one that is not
  text.
\<close>

inductive same_but_secret :: "bytes \<times> field_value \<Rightarrow> bytes \<times> field_value \<Rightarrow> bool" where
  same: "same_but_secret f f"
| token: "is_credential_field n \<Longrightarrow> 0x20 \<notin> set scheme \<Longrightarrow> length s = length t \<Longrightarrow> take 1 s \<noteq> [0x20] \<Longrightarrow>
    take 1 t \<noteq> [0x20] \<Longrightarrow> v = scheme @ 0x20 # replicate k 0x20 @ s \<Longrightarrow> w = scheme @ 0x20 # replicate k 0x20 @ t \<Longrightarrow>
    utf8_valid v \<Longrightarrow> utf8_valid w \<Longrightarrow> same_but_secret (n, v) (n, w)"
| bare: "is_credential_field n \<Longrightarrow> 0x20 \<notin> set v \<Longrightarrow> 0x20 \<notin> set w \<Longrightarrow> length v = length w \<Longrightarrow>
    same_but_secret (n, v) (n, w)"
| opaque: "is_credential_field n \<Longrightarrow> \<not> utf8_valid v \<Longrightarrow> \<not> utf8_valid w \<Longrightarrow> length v = length w \<Longrightarrow>
    same_but_secret (n, v) (n, w)"

lemma same_but_secret_logged: "same_but_secret f g \<Longrightarrow> log_header f = log_header g"
proof (induction rule: same_but_secret.induct)
  case (token n scheme s t v k w)
  have "split_once 0x20 (scheme @ 0x20 # x) = Some (scheme, x)" for x
    using token.hyps(2) by (simp add: split_once_iff)
  moreover have "dropWhile (\<lambda>b. b = 0x20) (replicate k 0x20 @ x) = x" if "take 1 x \<noteq> [0x20]" for x :: bytes
    using that by (induction k) (cases x; auto)+
  ultimately show ?case using token.hyps by (simp add: log_header_def redact_credentials_def to_str_def from_utf8_def)
next
  case (bare n v w)
  have "split_once 0x20 x = None" if "0x20 \<notin> set x" for x :: bytes
    using that by (cases "split_once 0x20 x") (auto simp: split_once_iff)
  then show ?case using bare.hyps by (simp add: log_header_def redact_credentials_def to_str_def from_utf8_def)
qed (simp_all add: log_header_def redact_credentials_def to_str_def from_utf8_def)



end
