(* ===== verification/Server.thy ===== *)
theory Server
  imports Config Roster Connection_Loop
begin

text \<open>
  The server around its connections: the transport parameters of \<^verbatim>\<open>src/src/quic/transport.rs\<close>, the TLS
  configuration of \<^verbatim>\<open>src/src/tls.rs\<close>, the socket of \<^verbatim>\<open>src/src/quic/socket.rs\<close>, the admission of a connection
  and the drain of \<^verbatim>\<open>src/src/quic/mod.rs\<close>, and the clock of \<^verbatim>\<open>src/src/shutdown.rs\<close>. The certificate and key
  files, as the PEM and TLS libraries read them, are the parameter \<open>pki\<close>; whether the QUIC library can
  answer an Initial with a Retry is told by the Initial itself. Durations are in seconds, but for the
  milliseconds of QUIC's idle timeout.
\<close>

section \<open>Transport parameters\<close>

definition CONNECTION_RECEIVE_WINDOW :: u64 where "CONNECTION_RECEIVE_WINDOW = 16 * 1024 * 1024"
definition STREAM_RECEIVE_WINDOW :: u64 where "STREAM_RECEIVE_WINDOW = 2 * 1024 * 1024"
definition SEND_WINDOW :: u64 where "SEND_WINDOW = 10000000"
definition DATAGRAM_RECEIVE_BUFFER :: u64 where "DATAGRAM_RECEIVE_BUFFER = 1250000"
definition CRYPTO_BUFFER_SIZE :: u64 where "CRYPTO_BUFFER_SIZE = 16 * 1024"
definition MAX_PEER_UNI_STREAMS :: u32 where "MAX_PEER_UNI_STREAMS = 16"
definition INITIAL_BIDI_STREAMS :: u32 where "INITIAL_BIDI_STREAMS = 16"

definition initial_bidi_streams :: "limits \<Rightarrow> u32" where
  "initial_bidi_streams l = min (lim_max_streams_bidi l) INITIAL_BIDI_STREAMS"

datatype controller = BbrCapped | BbrPlain | CubicPlain | NewRenoPlain

fun congestion_factory :: "congestion_control \<Rightarrow> controller" where
  "congestion_factory CcBbr = BbrCapped"
| "congestion_factory CcBbrUncapped = BbrPlain"
| "congestion_factory CcCubic = CubicPlain"
| "congestion_factory CcNewReno = NewRenoPlain"

record transport =
  tp_bidi_streams :: u32
  tp_uni_streams :: u32
  tp_receive_window :: u64
  tp_stream_receive_window :: u64
  tp_send_window :: u64
  tp_datagram_receive_buffer :: u64
  tp_crypto_buffer :: u64
  tp_idle_timeout_ms :: u64
  tp_keep_alive :: "u64 option"
  tp_initial_rtt_ms :: u64
  tp_initial_mtu :: u16
  tp_mtu_search :: "u16 option"
  tp_congestion :: controller

text \<open>\<^verbatim>\<open>IdleTimeout::try_from\<close>: the milliseconds of a duration, if they fit a varint.\<close>

definition idle_timeout :: "u64 \<Rightarrow> u64 option" where
  "idle_timeout secs =
     (if unat secs * 1000 < 2 ^ 64 \<and> secs * 1000 \<le> VARINT_MAX then Some (secs * 1000) else None)"

datatype server_error = IdleTimeoutRange | CertUnreadable | CertEmpty | KeyUnreadable | KeyMissing | PairUnusable

definition transport_config :: "limits \<Rightarrow> server_error + transport" where
  "transport_config l =
     and_then (ok_or (idle_timeout (lim_max_idle_timeout l)) IdleTimeoutRange) (\<lambda>idle.
     Inr \<lparr>tp_bidi_streams = initial_bidi_streams l, tp_uni_streams = MAX_PEER_UNI_STREAMS,
          tp_receive_window = CONNECTION_RECEIVE_WINDOW, tp_stream_receive_window = STREAM_RECEIVE_WINDOW,
          tp_send_window = SEND_WINDOW, tp_datagram_receive_buffer = DATAGRAM_RECEIVE_BUFFER,
          tp_crypto_buffer = CRYPTO_BUFFER_SIZE, tp_idle_timeout_ms = idle,
          tp_keep_alive = keep_alive_interval l, tp_initial_rtt_ms = lim_initial_rtt_ms l,
          tp_initial_mtu = lim_initial_mtu l,
          tp_mtu_search = (if lim_mtu_discovery l then Some (mtu_upper_bound l) else None),
          tp_congestion = congestion_factory (lim_congestion_control l)\<rparr>)"

section \<open>TLS\<close>

text \<open>What the files hold: a certificate chain, a key, and whether they belong together.\<close>

record ('c, 'k) pki =
  pki_certs :: "bytes \<Rightarrow> 'c list option"
  pki_key :: "bytes \<Rightarrow> 'k option option"
  pki_pair :: "'c list \<Rightarrow> 'k \<Rightarrow> bool"

definition load_certs :: "('c, 'k) pki \<Rightarrow> bytes \<Rightarrow> server_error + 'c list" where
  "load_certs p path =
     and_then (ok_or (pki_certs p path) CertUnreadable) (\<lambda>cs. if cs = [] then Inl CertEmpty else Inr cs)"

definition load_key :: "('c, 'k) pki \<Rightarrow> bytes \<Rightarrow> server_error + 'k" where
  "load_key p path = and_then (ok_or (pki_key p path) KeyUnreadable) (\<lambda>k. ok_or k KeyMissing)"

record ('c, 'k) tls =
  tls_certs :: "'c list"
  tls_key :: 'k
  tls_names :: "names option"
  tls_early_data :: u32
  tls_alpn :: "bytes list"
  tls_keylog :: bool

definition alpn_wire :: "server_section \<Rightarrow> bytes list" where
  "alpn_wire s = srv_alpn s"

definition server_crypto :: "('c, 'k) pki \<Rightarrow> config \<Rightarrow> server_error + ('c, 'k) tls" where
  "server_crypto p c =
     and_then (load_certs p (srv_cert (cfg_server c))) (\<lambda>certs.
     and_then (load_key p (srv_key (cfg_server c))) (\<lambda>key.
     (let ns = names_new (sec_expected_sni (cfg_security c))
      in if \<not> pki_pair p certs key then Inl PairUnusable
         else Inr \<lparr>tls_certs = certs, tls_key = key, tls_names = (if ns = [] then None else Some ns),
                   tls_early_data = 0, tls_alpn = alpn_wire (cfg_server c), tls_keylog = log_keylog (cfg_log c)\<rparr>)))"

text \<open>
  Whether a handshake is served the certificate: always without a list of names, and with one when the
  server name is on it.
\<close>

definition serves_name :: "('c, 'k) tls \<Rightarrow> bytes option \<Rightarrow> bool" where
  "serves_name t sn =
     (case tls_names t of
        None \<Rightarrow> True
      | Some ns \<Rightarrow> (case sn of None \<Rightarrow> False | Some n \<Rightarrow> accepts ns n))"

type_synonym ('c, 'k) quic_config = "('c, 'k) tls \<times> transport"

definition server_config :: "('c, 'k) pki \<Rightarrow> config \<Rightarrow> server_error + ('c, 'k) quic_config" where
  "server_config p c =
     and_then (server_crypto p c) (\<lambda>t. and_then (transport_config (cfg_limits c)) (\<lambda>tp. Inr (t, tp)))"

section \<open>The socket\<close>

definition FD_HEADROOM :: u64 where "FD_HEADROOM = 64"

definition fd_budget :: "u32 \<Rightarrow> u32 \<Rightarrow> u64" where
  "fd_budget max_conns max_targets = ucast (max max_conns 1) * ucast max_targets + FD_HEADROOM"

definition fd_budget_is_tight :: "u64 \<Rightarrow> u32 \<Rightarrow> u32 \<Rightarrow> bool" where
  "fd_budget_is_tight soft max_conns max_targets \<longleftrightarrow> soft < fd_budget max_conns max_targets"

definition warn_if_fd_budget_is_tight :: "u64 option \<Rightarrow> limits \<Rightarrow> bool" where
  "warn_if_fd_budget_is_tight soft l =
     (case soft of
        None \<Rightarrow> False
      | Some n \<Rightarrow> fd_budget_is_tight n (lim_max_connections l) (lim_max_targets_per_conn l))"

definition socket_buffer_was_capped :: "u64 \<Rightarrow> u64 \<Rightarrow> bool" where
  "socket_buffer_was_capped requested granted \<longleftrightarrow> granted < requested"

datatype buffer_warning = BufferRefused | BufferCapped u64 u64

text \<open>
  \<open>set_ok\<close> is whether the kernel takes the size asked for and \<open>size_now\<close> what it says the size is; both
  are asked of the socket the configuration is bound on.
\<close>

definition request_socket_buffer :: "bool \<Rightarrow> u64 option \<Rightarrow> u64 \<Rightarrow> u64 option \<times> buffer_warning list" where
  "request_socket_buffer set_ok size_now requested =
     (let refused = (requested \<noteq> 0 \<and> \<not> set_ok);
          ws = (if refused then [BufferRefused] else [])
      in case size_now of
           None \<Rightarrow> (None, ws)
         | Some granted \<Rightarrow>
             (Some granted,
              ws @ (if 0 < requested \<and> \<not> refused \<and> socket_buffer_was_capped requested granted
                    then [BufferCapped requested granted] else [])))"

section \<open>Admission\<close>

record initial =
  in_remote :: socket_addr
  in_validated :: bool
  in_may_retry :: bool
  in_retry_ok :: bool

datatype admission = Admit | Retried | RefusedUnvalidated | RefusedFull

definition live_ceiling :: "u32 \<Rightarrow> nat" where
  "live_ceiling max_conns = unat max_conns"

definition admit :: "u32 \<Rightarrow> roster \<Rightarrow> initial \<Rightarrow> roster \<times> admission" where
  "admit max_conns r i =
     (if max_conns = 0 then (r, Admit)
      else let ceiling = live_ceiling max_conns
           in if roster_len r < ceiling then (r, Admit)
              else if \<not> in_validated i
              then (if in_may_retry i \<and> in_retry_ok i then (r, Retried) else (r, RefusedUnvalidated))
              else case evict_until_below r ceiling of
                     (r, _) \<Rightarrow> if ceiling \<le> roster_len r then (r, RefusedFull) else (r, Admit))"

text \<open>An Initial that reaches the accept loop: the one admitted is registered before anything else arrives.\<close>

definition arrive :: "u32 \<Rightarrow> roster \<Rightarrow> initial \<Rightarrow> roster \<times> admission" where
  "arrive max_conns r i =
     (case admit max_conns r i of
        (r, Admit) \<Rightarrow> (fst (register r (in_remote i) gate_closed), Admit)
      | (r, refused) \<Rightarrow> (r, refused))"

section \<open>How a connection ends\<close>

datatype closing = EvictedEarly | HandshakeFailed | HandshakeTimedOut | ClosedAs string | ClosedWith connection_error

datatype handshake = HandshakeOk | HandshakeError | HandshakeSlow

text \<open>
  \<^verbatim>\<open>serve\<close>, by what happened first: the eviction or the handshake, and then the eviction or the end of
  \<^verbatim>\<open>handle\<close>.
\<close>

definition serve_ending :: "bool \<Rightarrow> handshake \<Rightarrow> bool \<Rightarrow> connection_error + unit \<Rightarrow> closing" where
  "serve_ending evicted_first h evicted handled =
     (if evicted_first then EvictedEarly
      else case h of
             HandshakeError \<Rightarrow> HandshakeFailed
           | HandshakeSlow \<Rightarrow> HandshakeTimedOut
           | HandshakeOk \<Rightarrow>
               if evicted then ClosedAs ''evicted''
               else case handled of
                      Inr _ \<Rightarrow> ClosedAs ''drained''
                    | Inl e \<Rightarrow>
                        (case benign_close_of e of
                           Some CloseIdle \<Rightarrow> ClosedAs ''idle''
                         | Some ClosePeer \<Rightarrow> ClosedAs ''peer_close''
                         | None \<Rightarrow> ClosedWith e))"

section \<open>The drain\<close>

definition CLOSE_FLUSH_TIMEOUT :: u64 where "CLOSE_FLUSH_TIMEOUT = 1"
definition EXIT_SLACK :: u64 where "EXIT_SLACK = 1"

definition blocking_grace :: "u64 \<Rightarrow> u64" where
  "blocking_grace grace = saturating_add (saturating_add grace CLOSE_FLUSH_TIMEOUT) EXIT_SLACK"

text \<open>
  \<^verbatim>\<open>drain\<close>: when each connection ends, if it does, counted from its start; and how long the endpoint takes to
  flush its closes, if it does. It says whether every connection finished and how long it took.
\<close>

definition drain_server :: "u64 \<Rightarrow> nat option list \<Rightarrow> nat option \<Rightarrow> bool \<times> nat" where
  "drain_server grace ends flush =
     (let drained = list_all (\<lambda>e. case e of None \<Rightarrow> False | Some t \<Rightarrow> t \<le> unat grace) ends;
          waited = (if drained then foldl max 0 (map the ends) else unat grace);
          flushed = (case flush of None \<Rightarrow> unat CLOSE_FLUSH_TIMEOUT | Some t \<Rightarrow> min t (unat CLOSE_FLUSH_TIMEOUT))
      in (drained, waited + flushed))"

end
