(* ===== verification/Config_Safety.thy ===== *)
theory Config_Safety
  imports Config Gate_Safety
begin

text \<open>
  What a configuration that passes is: every number in the range its users rely on, every user able to
  log in and told apart, every expected name one a client can send. And what of a file that does not
  parse reaches the log: the parser's sentence without a single quoted value.
\<close>

section \<open>Well-formed configurations\<close>

lemma bail_if_ok [simp]: "bail_if c e = Inr u \<longleftrightarrow> \<not> c"
  by (simp add: bail_if_def)

lemma and_then_unit: "and_then r f = Inr () \<longleftrightarrow> r = Inr () \<and> f () = Inr ()"
  by (cases r) auto

definition limits_ok :: "limits \<Rightarrow> bool" where
  "limits_ok l \<longleftrightarrow>
     unat (lim_udp_session_timeout l) \<in> {1..3600} \<and> unat (lim_connect_timeout l) \<le> 3600
     \<and> unat (lim_max_targets_per_conn l) \<in> {1..65536} \<and> unat (lim_max_streams_bidi l) \<in> {1..65536}
     \<and> unat (lim_max_idle_timeout l) \<in> {1..3600}
     \<and> 2 * unat (lim_keep_alive_interval l) < unat (lim_max_idle_timeout l)
     \<and> 1200 \<le> unat (lim_initial_mtu l) \<and> unat (lim_initial_mtu l) \<le> 1452
     \<and> unat (lim_initial_mtu l) \<le> unat (mtu_upper_bound l) \<and> unat (mtu_upper_bound l) \<le> 1472
     \<and> unat (lim_initial_rtt_ms l) \<in> {10..10000}"

definition user_ok :: "user \<Rightarrow> bool" where
  "user_ok u \<longleftrightarrow> user_name u \<noteq> [] \<and> 0x3a \<notin> set (user_name u) \<and> length (user_name u) \<le> 32 \<and> user_password u \<noteq> []"

text \<open>A host name in the form a ClientHello carries it.\<close>

definition dns_name :: "bytes \<Rightarrow> bool" where
  "dns_name n \<longleftrightarrow>
     n \<noteq> [] \<and> length n \<le> 253 \<and> list_all (\<lambda>label. label \<noteq> []) (split_on 0x2e n) \<and> list_all sni_character n
     \<and> (\<forall>a. n \<noteq> dotted (octets a))"

definition log_level_ok :: "(bytes \<Rightarrow> bool) \<Rightarrow> bytes \<Rightarrow> bool" where
  "log_level_ok env_filter level \<longleftrightarrow>
     (if set level \<inter> {0x2c, 0x3d, 0x5b} \<noteq> {} then env_filter level
      else \<exists>l\<in>set LOG_LEVELS. eq_ignore_ascii_case level l)"

definition config_ok :: "(bytes \<Rightarrow> bool) \<Rightarrow> (bytes \<Rightarrow> bool) \<Rightarrow> config \<Rightarrow> bool" where
  "config_ok env_filter is_file c \<longleftrightarrow>
     log_level_ok env_filter (log_level (cfg_log c))
     \<and> srv_alpn (cfg_server c) \<noteq> [] \<and> list_all (\<lambda>p. length p \<in> {1..255}) (srv_alpn (cfg_server c))
     \<and> unat (srv_shutdown_grace (cfg_server c)) \<le> 3600
     \<and> limits_ok (cfg_limits c)
     \<and> list_all user_ok (cfg_users c) \<and> distinct (map user_name (cfg_users c))
     \<and> 0 \<notin> set (sec_denied_ports (cfg_security c))
     \<and> list_all (\<lambda>n. dns_name (root_relative n)) (sec_expected_sni (cfg_security c))
     \<and> is_file (srv_cert (cfg_server c)) \<and> is_file (srv_key (cfg_server c))"

lemma validate_log_level_iff: "validate_log_level f l = Inr () \<longleftrightarrow> log_level_ok f l"
  by (auto simp: validate_log_level_def log_level_ok_def list_ex_iff)

lemma validate_alpn_iff: "validate_alpn i xs = Inr () \<longleftrightarrow> list_all (\<lambda>p. length p \<in> {1..255}) xs"
  by (induction xs arbitrary: i) (auto simp: and_then_unit Suc_le_eq not_less)

lemma validate_server_iff:
  "validate_server s = Inr () \<longleftrightarrow>
     srv_alpn s \<noteq> [] \<and> list_all (\<lambda>p. length p \<in> {1..255}) (srv_alpn s) \<and> unat (srv_shutdown_grace s) \<le> 3600"
  by (auto simp: validate_server_def and_then_unit validate_alpn_iff config_constants word_less_nat_alt not_less)

lemma validate_tunnel_limits_iff:
  "validate_tunnel_limits l = Inr () \<longleftrightarrow>
     unat (lim_udp_session_timeout l) \<in> {1..3600} \<and> unat (lim_connect_timeout l) \<le> 3600
     \<and> unat (lim_max_targets_per_conn l) \<in> {1..65536}"
  by (auto simp: validate_tunnel_limits_def and_then_unit config_constants word_less_nat_alt not_less
      Suc_le_eq unat_gt_0)

text \<open>The keep-alive rule, written without the product that could overflow, rejects what the product would.\<close>

lemma keep_alive_rule:
  assumes "idle \<noteq> 0"
  shows "0 < ka \<and> div_ceil_2 idle \<le> ka \<longleftrightarrow> unat idle \<le> 2 * unat ka"
proof -
  have "unat (idle div 2) = unat idle div 2" "unat (idle mod 2) = unat idle mod 2"
    by (simp_all add: unat_div unat_mod)
  moreover have "unat idle < 2 ^ 64" using unsigned_less[of idle] by simp
  moreover from this have "unat (idle div 2 + 1) = unat (idle div 2) + 1"
    by (simp add: unat_word_ariths unat_div)
  ultimately have "unat (div_ceil_2 idle) = (unat idle + 1) div 2"
    by (auto simp: div_ceil_2_def word_unat_eq_iff) presburger+
  moreover have "0 < unat idle" using assms by (simp add: unat_gt_0)
  ultimately show ?thesis by (auto simp: word_le_nat_alt word_less_nat_alt)
qed

lemma validate_connection_limits_iff:
  "validate_connection_limits l = Inr () \<longleftrightarrow>
     unat (lim_max_streams_bidi l) \<in> {1..65536} \<and> unat (lim_max_idle_timeout l) \<in> {1..3600}
     \<and> 2 * unat (lim_keep_alive_interval l) < unat (lim_max_idle_timeout l)"
  unfolding validate_connection_limits_def and_then_unit bail_if_ok
  by (cases "lim_max_idle_timeout l = 0", simp, subst keep_alive_rule)
    (auto simp: config_constants word_less_nat_alt not_less not_le Suc_le_eq unat_gt_0)

lemma validate_mtu_iff:
  "validate_mtu l = Inr () \<longleftrightarrow>
     1200 \<le> unat (lim_initial_mtu l) \<and> unat (lim_initial_mtu l) \<le> 1452
     \<and> unat (lim_initial_mtu l) \<le> unat (mtu_upper_bound l) \<and> unat (mtu_upper_bound l) \<le> 1472
     \<and> unat (lim_initial_rtt_ms l) \<in> {10..10000}"
  by (cases "lim_mtu_upper_bound l")
    (auto simp: validate_mtu_def mtu_upper_bound_def and_then_unit config_constants word_less_nat_alt word_le_nat_alt
      not_less max_def)

lemma validate_users_iff:
  "validate_users seen us = Inr () \<longleftrightarrow>
     list_all user_ok us \<and> distinct (map user_name us) \<and> user_name ` set us \<inter> user_name ` set seen = {}"
proof (induction us arbitrary: seen)
  case (Cons u us)
  have "position (\<lambda>other. user_name other = user_name u) seen = None \<longleftrightarrow> user_name u \<notin> user_name ` set seen"
    unfolding position_None list_all_iff by (metis (no_types, lifting) image_iff)
  then show ?case
    by (auto simp: Let_def and_then_unit Cons.IH user_ok_def MAX_TOKEN_def split: option.splits)
qed simp

lemma validate_denied_ports_iff: "validate_denied_ports ps = Inr () \<longleftrightarrow> 0 \<notin> set ps"
  using position_None[of "\<lambda>p. p = 0" ps]
  by (cases "position (\<lambda>p. p = 0) ps") (auto simp: validate_denied_ports_def list_all_iff)

lemma sni_character_not: "\<not> sni_character 0x2a" "\<not> sni_character 0x3a"
  by (simp_all add: sni_character_def ascii_defs)

lemma validate_expected_sni_iff: "validate_expected_sni i n = Inr () \<longleftrightarrow> dns_name (root_relative n)"
proof -
  have "parse_ipv6 (root_relative n) = None" if "list_all sni_character (root_relative n)"
    using that sni_character_not(2) by (intro parse_ipv6_no_colon) (auto simp: list_all_iff)
  moreover have "parse_ipv4 (root_relative n) = None \<longleftrightarrow> (\<forall>a. root_relative n \<noteq> dotted (octets a))"
    by (metis not_Some_eq parse_ipv4_iff)
  moreover have "0x2a \<notin> set (root_relative n)" if "list_all sni_character (root_relative n)"
    using that sni_character_not(1) by (auto simp: list_all_iff)
  ultimately show ?thesis
    by (auto simp: validate_expected_sni_def Let_def and_then_unit dns_name_def config_constants
        list_ex_iff list_all_iff not_less)
qed

lemma validate_sni_list_iff:
  "validate_sni_list i ns = Inr () \<longleftrightarrow> list_all (\<lambda>n. dns_name (root_relative n)) ns"
  by (induction ns arbitrary: i) (auto simp: and_then_unit validate_expected_sni_iff)

lemma validate_files_iff: "validate_files f s = Inr () \<longleftrightarrow> f (srv_cert s) \<and> f (srv_key s)"
  by (auto simp: validate_files_def and_then_unit)

lemma validate_config_ok: "validate_config env_filter is_file c = Inr () \<longleftrightarrow> config_ok env_filter is_file c"
  unfolding validate_config_def and_then_unit config_ok_def limits_ok_def validate_log_level_iff validate_server_iff
    validate_tunnel_limits_iff validate_connection_limits_iff validate_mtu_iff validate_users_iff
    validate_denied_ports_iff validate_sni_list_iff validate_files_iff
  by (auto simp del: atLeastAtMost_iff)

section \<open>Redaction\<close>

text \<open>
  A parser's message is a sentence with values in it: words, values shown with \<^verbatim>\<open>{}\<close> between backticks,
  and strings shown with \<^verbatim>\<open>{:?}\<close>, which writes a character as itself or as a backslash and what follows
  it, and never a quote or a backslash as itself.
\<close>

datatype debug_unit = Verbatim byte | Escaped byte

datatype piece = Words bytes | Ticked bytes | Quoted "debug_unit list"

fun unit_bytes :: "debug_unit \<Rightarrow> bytes" where
  "unit_bytes (Verbatim b) = [b]"
| "unit_bytes (Escaped b) = [0x5c, b]"

fun unit_ok :: "debug_unit \<Rightarrow> bool" where
  "unit_ok (Verbatim b) \<longleftrightarrow> b \<noteq> 0x22 \<and> b \<noteq> 0x5c"
| "unit_ok (Escaped b) \<longleftrightarrow> True"

fun piece_bytes :: "piece \<Rightarrow> bytes" where
  "piece_bytes (Words w) = w"
| "piece_bytes (Ticked v) = 0x60 # v @ [0x60]"
| "piece_bytes (Quoted us) = 0x22 # concat (map unit_bytes us) @ [0x22]"

fun piece_ok :: "piece \<Rightarrow> bool" where
  "piece_ok (Words w) \<longleftrightarrow> list_all (\<lambda>b. \<not> is_quote b) w"
| "piece_ok (Ticked v) \<longleftrightarrow> 0x60 \<notin> set v"
| "piece_ok (Quoted us) \<longleftrightarrow> list_all unit_ok us"

fun shown :: "piece \<Rightarrow> bytes" where
  "shown (Words w) = w"
| "shown (Ticked v) = REDACTED"
| "shown (Quoted us) = REDACTED"

lemma escaped_close_units:
  "list_all unit_ok us \<Longrightarrow>
     escaped_close i (concat (map unit_bytes us) @ 0x22 # rest) = Some (i + length (concat (map unit_bytes us)))"
proof (induction us arbitrary: i)
  case (Cons u us)
  then show ?case by (cases u) auto
qed simp

lemma redact_words: "list_all (\<lambda>b. \<not> is_quote b) w \<Longrightarrow> redact_quoted (w @ t) = w @ redact_quoted t"
proof (induction w)
  case (Cons b w)
  then have "redact_quoted (b # s) = b # redact_quoted s" for s
    by (subst (1 2) redact_quoted.simps) (auto split: option.splits)
  with Cons show ?case by simp
qed simp

lemma redact_segment:
  assumes "is_quote q" "closing_quote (v @ q # t) q = Some (length v)"
  shows "redact_quoted (q # v @ q # t) = REDACTED @ redact_quoted t"
  using assms by (subst redact_quoted.simps) simp

lemma redact_piece: "piece_ok p \<Longrightarrow> redact_quoted (piece_bytes p @ t) = shown p @ redact_quoted t"
proof (cases p)
  case (Ticked v)
  moreover assume "piece_ok p"
  ultimately have "closing_quote (v @ 0x60 # t) 0x60 = Some (length v)"
    by (auto simp: closing_quote_def position_Some list_all_iff nth_append)
  with Ticked redact_segment[of "0x60" v t] show ?thesis by (simp add: is_quote_def)
next
  case (Quoted us)
  moreover assume "piece_ok p"
  ultimately have "closing_quote (concat (map unit_bytes us) @ 0x22 # t) 0x22 = Some (length (concat (map unit_bytes us)))"
    by (simp add: closing_quote_def escaped_close_units)
  with Quoted redact_segment[of "0x22" "concat (map unit_bytes us)" t] show ?thesis by (simp add: is_quote_def)
qed (simp add: redact_words)

text \<open>
  C29. What reaches the log of a parser's message is its words: every value in it, between backticks or as a
  quoted string with whatever quotes and backslashes of its own, is replaced whole by the same marker, and
  a value whose end is missing takes the rest of the message with it.
\<close>

theorem redaction_hides_values:
  assumes "list_all piece_ok ps"
  shows "redact_quoted (concat (map piece_bytes ps)) = concat (map shown ps)
    \<and> (if is_quote q \<and> closing_quote v q = None
       then redact_quoted (concat (map piece_bytes ps) @ q # v) = concat (map shown ps) @ REDACTED else True)"
proof -
  have all: "redact_quoted (concat (map piece_bytes ps) @ t) = concat (map shown ps) @ redact_quoted t" for t
    using assms by (induction ps) (auto simp: redact_piece)
  have "redact_quoted [] = []" by (subst redact_quoted.simps) simp
  moreover have "redact_quoted (q # v) = REDACTED" if "is_quote q" "closing_quote v q = None"
    using that by (subst redact_quoted.simps) simp
  ultimately show ?thesis using all[of "[]"] all[of "q # v"] by simp
qed

theorem redaction_hides_values_witness:
  "redact_quoted (byte_string ''string '' @ [0x22] @ byte_string ''hun'' @ [0x5c, 0x22] @ byte_string ''ter`2'' @ [0x22]
      @ byte_string '', expected integer'')
     = byte_string ''string `<redacted>`, expected integer''"
proof -
  let ?ps = "[Words (byte_string ''string ''),
    Quoted (map Verbatim (byte_string ''hun'') @ [Escaped 0x22] @ map Verbatim (byte_string ''ter`2'')),
    Words (byte_string '', expected integer'')]"
  have "list_all piece_ok ?ps" by (simp add: byte_string_def is_quote_def)
  then have "redact_quoted (concat (map piece_bytes ?ps)) = concat (map shown ?ps)"
    using redaction_hides_values[of ?ps 0 "[]"] by blast
  then show ?thesis by (simp add: byte_string_def REDACTED_def)
qed

section \<open>Users and names\<close>

lemma bounded_bytes_name: "user_ok u \<Longrightarrow> utf8_valid (user_name u) \<Longrightarrow> bounded_bytes (user_name u) = user_name u"
  by (simp add: bounded_bytes_def user_ok_def MAX_TOKEN_def utf8_lossy_valid_id)

text \<open>
  Every user of a configuration that passes can log in under its own name and no other, and a failed
  attempt at its password is counted against that name, in the count a later success clears.
\<close>

theorem configured_user_login:
  assumes "validate_config env_filter is_file c = Inr ()" "u \<in> set (cfg_users c)" "utf8_valid (user_name u)"
    and "credentials fs = [byte_string ''Basic '' @ base64 (user_name u @ 0x3a # p)]"
  shows "authenticate (cfg_users c) fs
      = (if p = user_password u then Inr (Some (user_name u)) else Inl (denials_from (Rejected (user_name u))))
    \<and> is_configured (set_users (context_settings c)) (user_name u)"
proof -
  from assms(1) have "list_all user_ok (cfg_users c)" "distinct (map user_name (cfg_users c))"
    by (simp_all add: validate_config_def and_then_unit validate_users_iff)
  with assms(2) have u: "user_ok u" "\<And>x. x \<in> set (cfg_users c) \<Longrightarrow> user_name x = user_name u \<Longrightarrow> x = u"
    by (auto simp: list_all_iff distinct_map dest: inj_onD)
  then have v: "verify (cfg_users c) (user_name u) p = (if p = user_password u then Some (user_name u) else None)"
    using assms(2) by (auto simp: verify_def verify_loop_iff)
  have "check (cfg_users c) (byte_string ''Basic '' @ base64 (user_name u @ 0x3a # p))
      = (if p = user_password u then Inr (user_name u) else Inl (Rejected (user_name u)))"
    using u(1) by (subst check_basic) (simp_all add: v bounded_bytes_name assms(3), simp add: user_ok_def)
  then show ?thesis
    using assms(2,4) by (auto simp: authenticate_def is_disabled_def is_configured_iff context_settings_def)
qed

text \<open>The configuration of the instances: every default, one user, one expected name.\<close>

definition sample_config :: config where
  "sample_config =
     \<lparr>cfg_server = \<lparr>srv_listen = \<lparr>ip = V4 0, port = 443\<rparr>, srv_cert = byte_string ''c'', srv_key = byte_string ''k'',
        srv_alpn = DEFAULT_ALPN, srv_shutdown_grace = DEFAULT_SHUTDOWN_GRACE\<rparr>,
      cfg_users = [\<lparr>user_name = byte_string ''al'', user_password = byte_string ''p:w''\<rparr>],
      cfg_limits = limits_default, cfg_security = security_default\<lparr>sec_expected_sni := [byte_string ''a.b.'']\<rparr>,
      cfg_log = log_default\<rparr>"

lemma sample_config_ok: "config_ok (\<lambda>_. False) (\<lambda>_. True) sample_config"
proof -
  have "limits_ok limits_default"
    by (simp add: limits_ok_def limits_default_def mtu_upper_bound_def config_constants)
  moreover have "root_relative (byte_string ''a.b.'') = byte_string ''a.b''"
    by (simp add: root_relative_def strip_suffix_def strip_prefix_def byte_string_def)
  moreover have "dns_name (byte_string ''a.b'')"
  proof -
    have "is_ascii_digit (hd (dotted (octets a)))" for a
      using decimal_digits[of "unat (hd (octets a))"]
      by (cases "decimal (unat (hd (octets a)))") (auto simp: octets_def is_port_def)
    moreover have "\<not> is_ascii_digit (hd (byte_string ''a.b''))" by (simp add: byte_string_def is_ascii_digit_def)
    ultimately have "byte_string ''a.b'' \<noteq> dotted (octets a)" for a by metis
    then show ?thesis by (simp add: dns_name_def byte_string_def sni_character_def ascii_defs)
  qed
  moreover have "log_level_ok (\<lambda>_. False) (log_level log_default)"
    by (simp add: log_level_ok_def log_default_def DEFAULT_LOG_LEVEL_def LOG_LEVELS_def eq_ignore_ascii_case_def byte_string_def)
  ultimately show ?thesis
    by (simp add: config_ok_def sample_config_def DEFAULT_ALPN_def security_default_def config_constants user_ok_def byte_string_def)
qed

theorem configured_user_login_witness:
  "authenticate (cfg_users sample_config) [(byte_string ''Proxy-Authorization'', byte_string ''Basic YWw6cDp3'')]
     = Inr (Some (byte_string ''al''))"
proof -
  let ?u = "\<lparr>user_name = byte_string ''al'', user_password = byte_string ''p:w''\<rparr>"
  let ?fs = "[(byte_string ''Proxy-Authorization'', byte_string ''Basic YWw6cDp3'')]"
  have "validate_config (\<lambda>_. False) (\<lambda>_. True) sample_config = Inr ()" by (simp add: validate_config_ok sample_config_ok)
  moreover have "utf8_valid (user_name ?u)" by (rule utf8_valid_ascii) (simp add: byte_string_def)
  moreover have "credentials ?fs = [byte_string ''Basic '' @ base64 (user_name ?u @ 0x3a # user_password ?u)]" by code_simp
  ultimately show ?thesis
    using configured_user_login[of "\<lambda>_. False" "\<lambda>_. True" sample_config ?u ?fs "user_password ?u"]
    by (simp add: sample_config_def)
qed

section \<open>The configuration as a whole\<close>

text \<open>
  C28. A configuration passes validation exactly when it is well-formed: timers between their bounds and far
  from the overflow of a deadline, a keep-alive interval below half the idle timeout, a packet size and
  its search bound in order, at least one tunnel and one stream, users with distinct, non-empty,
  colon-free names short enough to be logged whole, expected names that a client can send, usable
  ports, a log level that is one, and both files there.
\<close>

theorem validate_config_iff: "validate_config env_filter is_file c = Inr () \<longleftrightarrow> config_ok env_filter is_file c"
  by (rule validate_config_ok)

end
