(* ===== verification/Server_Safety.thy ===== *)
theory Server_Safety
  imports Server Config_Safety
begin

text \<open>
  What holds of the server around its connections: who is let in at the cap and at whose expense, that the
  transport parameters of a valid configuration are ones QUIC can run on, and that the drain is over before
  the process stops waiting.
\<close>

section \<open>Admission\<close>

datatype server_op = Arrive u32 initial | End u64 | LogIn u64

fun server_apply :: "roster \<Rightarrow> server_op \<Rightarrow> roster" where
  "server_apply r (Arrive m i) = fst (arrive m r i)"
| "server_apply r (End k) = drop_registration r k"
| "server_apply r (LogIn k) = mark_slot r k"

lemma register_inv: "roster_inv r \<Longrightarrow> roster_inv (fst (register r a g))"
  by (simp add: roster_inv_def register_def Let_def btree_insert_sorted)

lemma evict_inv: "roster_inv r \<Longrightarrow> roster_inv (fst (evict_until_below r cap))"
  using evict_until_below_eq[of r cap] by (simp add: roster_inv_def without_oldest_sorted)

lemma admit_inv: "roster_inv r \<Longrightarrow> roster_inv (fst (admit m r i))"
  using evict_inv[of r "live_ceiling m"] by (auto simp: admit_def Let_def split: prod.splits)

interpretation server: started_operations server_apply roster_inv roster_new
proof (unfold_locales, goal_cases)
  case (1 r x)
  show ?case
  proof (cases x)
    case (Arrive m i)
    with admit_inv[OF 1, of m i] show ?thesis
      by (auto simp: arrive_def register_inv split: prod.splits admission.splits)
  next
    case (End k)
    with 1 show ?thesis by (simp add: roster_inv_def drop_registration_def btree_remove_sorted)
  next
    case (LogIn k)
    with 1 show ?thesis by (simp add: roster_inv_def mark_slot_def sorted_wrt_map case_prod_beta)
  qed
qed (simp add: roster_inv_def roster_new_def)

abbreviation members :: "roster \<Rightarrow> (u64 \<times> slot) list" where
  "members r \<equiv> filter (\<lambda>(_, s). authenticated s) (slots r)"

lemma slots_split: "roster_len r = length (members r) + length (strangers r)"
proof -
  have "length xs = length (filter (\<lambda>(_, s). authenticated s) xs) + length (filter (\<lambda>(_, s). \<not> authenticated s) xs)"
    for xs :: "(u64 \<times> slot) list" by (induction xs) auto
  then show ?thesis unfolding roster_len_def by blast
qed

text \<open>Whoever is admitted, by the size of the roster and the Initial.\<close>

lemma admit_eq:
  assumes "roster_inv r"
  shows "admit m r i =
    (if m = 0 \<or> roster_len r < unat m then (r, Admit)
     else if \<not> in_validated i then (r, if in_may_retry i \<and> in_retry_ok i then Retried else RefusedUnvalidated)
     else (fst (evict_until_below r (unat m)), if unat m \<le> length (members r) then RefusedFull else Admit))"
proof -
  have "roster_len (fst (evict_until_below r (unat m))) = roster_len r - evictions_due r (unat m)"
    using evict_until_below_eq[OF assms] by (simp add: roster_len_def without_oldest_length evictions_due_def)
  moreover have "unat m \<le> roster_len r - evictions_due r (unat m) \<longleftrightarrow> unat m \<le> length (members r)"
    if "m \<noteq> 0" "\<not> roster_len r < unat m"
  proof -
    have "evictions_due r (unat m) = min (length (strangers r)) (Suc (roster_len r) - unat m)"
      by (simp only: evictions_due_def roster_len_def)
    moreover have "0 < unat m" using that(1) by (simp add: unat_gt_0)
    ultimately show ?thesis using that(2) slots_split[of r] by linarith
  qed
  ultimately show ?thesis
    by (cases "evict_until_below r (unat m)") (auto simp: admit_def live_ceiling_def Let_def)
qed

lemma length_btree_insert: "length (btree_insert k x m) \<le> Suc (length m)"
  by (induction m) auto

lemma btree_insert_in: "(k, x) \<in> set (btree_insert k x m)"
  by (induction m) auto

lemma btree_insert_members:
  "k \<notin> fst ` set m \<Longrightarrow> \<not> authenticated x \<Longrightarrow>
     filter (\<lambda>(_, s). authenticated s) (btree_insert k x m) = filter (\<lambda>(_, s). authenticated s) m"
  by (induction m) auto

lemma register_facts:
  "roster_len (fst (register r a gate_closed)) \<le> Suc (roster_len r)"
  "next_sequence r \<notin> fst ` set (slots r) \<Longrightarrow> members (fst (register r a gate_closed)) = members r"
  "(next_sequence r, \<lparr>remote = a, authenticated = False\<rparr>) \<in> set (slots (fst (register r a gate_closed)))"
  "woken (fst (register r a gate_closed)) = woken r"
  by (simp_all add: register_def Let_def roster_len_def length_btree_insert btree_insert_in btree_insert_members gate_closed_def)

lemma evict_facts:
  assumes "roster_inv r"
  shows "members (fst (evict_until_below r cap)) = members r"
    "woken (fst (evict_until_below r cap)) = woken r @ map fst (take (evictions_due r cap) (strangers r))"
    "next_sequence (fst (evict_until_below r cap)) = next_sequence r"
    "roster_len (fst (evict_until_below r cap)) = roster_len r - evictions_due r cap"
    "fst ` set (slots (fst (evict_until_below r cap))) \<subseteq> fst ` set (slots r)"
proof -
  have "set (without_oldest n m) \<subseteq> set m" for n m
    by (induction n m rule: without_oldest.induct) (auto split: nat.splits)
  then show "fst ` set (slots (fst (evict_until_below r cap))) \<subseteq> fst ` set (slots r)"
    using evict_until_below_eq[OF assms] by (auto intro!: image_mono)
qed (use evict_until_below_eq[OF assms] in
  \<open>simp_all add: without_oldest_members without_oldest_length roster_len_def evictions_due_def\<close>)

lemma arrive_contract:
  assumes inv: "roster_inv r" and a: "arrive m r i = (r', v)"
  shows "(v = Admit \<longleftrightarrow> \<not> (m \<noteq> 0 \<and> unat m \<le> roster_len r) \<or> in_validated i \<and> length (members r) < unat m)
    \<and> (if (m \<noteq> 0 \<and> unat m \<le> roster_len r) \<and> \<not> in_validated i then r' = r \<and> v = (if in_may_retry i \<and> in_retry_ok i then Retried else RefusedUnvalidated) else True)
    \<and> (if (m \<noteq> 0 \<and> unat m \<le> roster_len r) \<and> in_validated i \<and> unat m \<le> length (members r) then v = RefusedFull else True)
    \<and> woken r' = woken r @ map fst (take (if (m \<noteq> 0 \<and> unat m \<le> roster_len r) \<and> in_validated i then evictions_due r (unat m) else 0) (strangers r))
    \<and> (if v = Admit then (\<exists>k. (k, \<lparr>remote = in_remote i, authenticated = False\<rparr>) \<in> set (slots r'))
         \<and> (m = 0 \<or> roster_len r' \<le> unat m) else True)
    \<and> (if next_sequence r \<in> fst ` set (slots r) then True else members r' = members r)"
proof -
  note ev = evict_facts[OF inv, of "unat m"] and adm = admit_eq[OF inv, of m i]
  have due: "roster_len r - evictions_due r (unat m) < unat m"
    if "m \<noteq> 0" "length (members r) < unat m" "unat m \<le> roster_len r"
    using that slots_split[of r] unfolding evictions_due_def roster_len_def[symmetric] by linarith
  consider (room) "m = 0 \<or> roster_len r < unat m" | (stranger) "m \<noteq> 0" "unat m \<le> roster_len r" "\<not> in_validated i"
    | (packed) "m \<noteq> 0" "unat m \<le> roster_len r" "in_validated i" "unat m \<le> length (members r)"
    | (evict) "m \<noteq> 0" "unat m \<le> roster_len r" "in_validated i" "length (members r) < unat m"
    by linarith
  then show ?thesis
  proof cases
    case room
    note reg = register_facts[of r "in_remote i"]
    have v: "r' = fst (register r (in_remote i) gate_closed)" "v = Admit" using a room by (simp_all add: arrive_def adm)
    have "\<not> (m \<noteq> 0 \<and> unat m \<le> roster_len r)" using room by linarith
    moreover have "m = 0 \<or> roster_len r' \<le> unat m" using room reg(1) unfolding v by linarith
    moreover have "woken r' = woken r @ map fst (take 0 (strangers r))" unfolding v reg(4) by simp
    moreover note reg(2,3)[folded v]
    ultimately show ?thesis unfolding v(2) by (simp only: simp_thms if_True if_False split: if_split) blast
  next
    case stranger
    then have "r' = r" "v = (if in_may_retry i \<and> in_retry_ok i then Retried else RefusedUnvalidated)"
      using a by (simp_all add: arrive_def adm split: if_splits)
    with stranger show ?thesis by simp
  next
    case packed
    then have "r' = fst (evict_until_below r (unat m))" "v = RefusedFull" using a by (simp_all add: arrive_def adm)
    with packed ev show ?thesis by simp
  next
    case evict
    let ?r = "fst (evict_until_below r (unat m))"
    have v: "r' = fst (register ?r (in_remote i) gate_closed)" "v = Admit" using a evict by (simp_all add: arrive_def adm)
    note reg = register_facts[of ?r "in_remote i"]
    have "members r' = members r" if "next_sequence r \<notin> fst ` set (slots r)"
      using that ev(3,5) reg(2) unfolding v ev(1) by auto
    moreover have "woken r' = woken r @ map fst (take (evictions_due r (unat m)) (strangers r))"
      unfolding v reg(4) by (rule ev(2))
    moreover have "roster_len r' \<le> unat m" using reg(1) due[OF evict(1,4,2)] unfolding v ev(4) by linarith
    moreover note reg(3)[folded v]
    moreover have "\<not> unat m \<le> length (members r)" using evict(4) by linarith
    ultimately show ?thesis unfolding v(2) using evict by (simp only: simp_thms if_True if_False split: if_split) blast
  qed
qed

text \<open>
  C10. Who gets in, in every state the server can get into and under whatever cap is in force. An Initial is
  admitted when the server is not full or has no cap; at the cap an address that has proved nothing takes
  nobody's slot, is asked to validate itself or refused, and a validated one is admitted at the expense of
  the oldest connections that never authenticated, as many as it takes, and refused only when the cap is
  all authenticated. Whoever is admitted is registered, the cap holds, and no authenticated connection ever
  loses its slot.
\<close>

theorem admission_contract:
  "let r = foldl server_apply roster_new ops; (r', v) = arrive m r i;
       full = (m \<noteq> 0 \<and> unat m \<le> roster_len r)
   in (v = Admit \<longleftrightarrow> (if full then in_validated i \<and> length (members r) < unat m else True))
    \<and> (if full \<and> \<not> in_validated i then r' = r \<and> v = (if in_may_retry i \<and> in_retry_ok i then Retried else RefusedUnvalidated) else True)
    \<and> (if full \<and> in_validated i \<and> unat m \<le> length (members r) then v = RefusedFull else True)
    \<and> woken r' = woken r @ map fst (take (if full \<and> in_validated i then evictions_due r (unat m) else 0) (strangers r))
    \<and> (if v = Admit then (\<exists>k. (k, \<lparr>remote = in_remote i, authenticated = False\<rparr>) \<in> set (slots r'))
         \<and> (m = 0 \<or> roster_len r' \<le> unat m) else True)
    \<and> (if next_sequence r \<in> fst ` set (slots r) then True else members r' = members r)"
proof -
  obtain r' v where a: "arrive m (foldl server_apply roster_new ops) i = (r', v)" by fastforce
  note contract = arrive_contract[OF server.inv_reached a]
  have "b \<longleftrightarrow> \<not> full \<or> c \<Longrightarrow> b \<longleftrightarrow> (if full then c else True)" for b full c by simp
  from conjI[OF this[OF conjunct1[OF contract]] conjunct2[OF contract]] show ?thesis unfolding Let_def a case_prod_conv .
qed

section \<open>Transport parameters\<close>

text \<open>
  The configuration a server runs on has transport parameters, and they are sound: an idle timeout a
  varint holds, keep-alives more than twice as frequent, packets that start between the minimum of QUIC and
  what Ethernet carries and are searched upwards only, and no more streams before authentication than
  after it.
\<close>

theorem transport_of_valid_config:
  assumes "validate_config env_filter is_file c = Inr ()"
  shows "\<exists>tp. transport_config (cfg_limits c) = Inr tp
    \<and> unat (tp_idle_timeout_ms tp) = 1000 * unat (lim_max_idle_timeout (cfg_limits c)) \<and> 0 < tp_idle_timeout_ms tp
    \<and> (case tp_keep_alive tp of None \<Rightarrow> True | Some k \<Rightarrow> 2 * 1000 * unat k < unat (tp_idle_timeout_ms tp))
    \<and> 1200 \<le> unat (tp_initial_mtu tp)
    \<and> (case tp_mtu_search tp of None \<Rightarrow> True | Some b \<Rightarrow> tp_initial_mtu tp \<le> b \<and> unat b \<le> 1472)
    \<and> 0 < tp_bidi_streams tp \<and> tp_bidi_streams tp \<le> INITIAL_BIDI_STREAMS
    \<and> tp_bidi_streams tp \<le> lim_max_streams_bidi (cfg_limits c)
    \<and> tp_stream_receive_window tp \<le> tp_receive_window tp"
proof -
  let ?l = "cfg_limits c"
  have ok: "limits_ok ?l" using assms by (simp add: validate_config_ok config_ok_def)
  then have idle: "unat (lim_max_idle_timeout ?l) \<in> {1..3600}" by (simp add: limits_ok_def)
  then have ms: "unat (lim_max_idle_timeout ?l * 1000) = 1000 * unat (lim_max_idle_timeout ?l)"
    by (simp add: unat_word_ariths)
  with idle have t: "idle_timeout (lim_max_idle_timeout ?l) = Some (lim_max_idle_timeout ?l * 1000)"
    by (simp add: idle_timeout_def word_le_nat_alt VARINT_MAX_eq)
  have "0 < lim_max_streams_bidi ?l" using ok by (simp add: limits_ok_def word_less_nat_alt)
  with t ms idle ok show ?thesis
    by (simp add: transport_config_def limits_ok_def keep_alive_interval_def word_less_nat_alt word_le_nat_alt
        initial_bidi_streams_def INITIAL_BIDI_STREAMS_def STREAM_RECEIVE_WINDOW_def CONNECTION_RECEIVE_WINDOW_def min_def)
qed

theorem transport_of_valid_config_witness:
  "\<exists>tp. transport_config (cfg_limits sample_config) = Inr tp \<and> unat (tp_idle_timeout_ms tp) = 60000
     \<and> tp_bidi_streams tp \<le> INITIAL_BIDI_STREAMS"
proof -
  have "validate_config (\<lambda>_. False) (\<lambda>_. True) sample_config = Inr ()" by (simp add: validate_config_ok sample_config_ok)
  moreover have "unat (lim_max_idle_timeout (cfg_limits sample_config)) = 60"
    by (simp add: sample_config_def limits_default_def config_constants)
  ultimately show ?thesis using transport_of_valid_config[of "\<lambda>_. False" "\<lambda>_. True" sample_config] by auto
qed

section \<open>Budgets and the drain\<close>

text \<open>The product and the sum of the descriptor budget fit their type whatever the configuration.\<close>

lemma fd_budget_exact: "unat (fd_budget m t) = max (unat m) 1 * unat t + 64"
proof -
  have "unat (max m 1) = max (unat m) 1" by (auto simp: max_def word_le_nat_alt)
  moreover have "unat (max m 1) < 2 ^ 32" "unat t < 2 ^ 32"
    using unsigned_less[of "max m 1"] unsigned_less[of t] by simp_all
  then have "unat (max m 1) * unat t \<le> (2 ^ 32 - 1) * (2 ^ 32 - 1)" by (intro mult_le_mono) simp_all
  then have "unat (max m 1) * unat t + 64 < 2 ^ 64" by simp
  moreover have "unat (ucast (max m 1) :: u64) = unat (max m 1)" "unat (ucast t :: u64) = unat t"
    using \<open>unat (max m 1) < 2 ^ 32\<close> \<open>unat t < 2 ^ 32\<close> by (simp_all add: unsigned_ucast_eq take_bit_nat_eq)
  ultimately show ?thesis
    by (simp add: fd_budget_def FD_HEADROOM_def unat_word_ariths)
qed

text \<open>The drain is over, flush included, before the process gives up on its blocking threads.\<close>

lemma foldl_max_le: "foldl max (a :: nat) xs \<le> b \<longleftrightarrow> a \<le> b \<and> list_all (\<lambda>x. x \<le> b) xs"
  by (induction xs arbitrary: a) auto

theorem drain_in_time:
  assumes "validate_config env_filter is_file c = Inr ()"
  shows "snd (drain_server (srv_shutdown_grace (cfg_server c)) ends flush) < unat (blocking_grace (srv_shutdown_grace (cfg_server c)))
    \<and> (fst (drain_server (srv_shutdown_grace (cfg_server c)) ends flush) \<longleftrightarrow>
         list_all (\<lambda>e. \<exists>t. e = Some t \<and> t \<le> unat (srv_shutdown_grace (cfg_server c))) ends)"
proof -
  let ?g = "srv_shutdown_grace (cfg_server c)"
  have g: "unat ?g \<le> 3600" using assms by (simp add: validate_config_ok config_ok_def)
  then have "unat (blocking_grace ?g) = unat ?g + 2"
    by (simp add: blocking_grace_def CLOSE_FLUSH_TIMEOUT_def EXIT_SLACK_def unat_saturating_add)
  moreover have "foldl max 0 (map the ends) \<le> unat ?g"
    if "list_all (\<lambda>e. case e of None \<Rightarrow> False | Some t \<Rightarrow> t \<le> unat ?g) ends"
    using that by (auto simp: foldl_max_le list_all_iff split: option.splits)
  moreover have "(case flush of None \<Rightarrow> unat CLOSE_FLUSH_TIMEOUT | Some t \<Rightarrow> min t (unat CLOSE_FLUSH_TIMEOUT)) \<le> 1"
    by (simp add: CLOSE_FLUSH_TIMEOUT_def split: option.split)
  moreover have "list_all (\<lambda>e. case e of None \<Rightarrow> False | Some t \<Rightarrow> t \<le> unat ?g) ends
      \<longleftrightarrow> list_all (\<lambda>e. \<exists>t. e = Some t \<and> t \<le> unat ?g) ends"
    by (auto simp: list_all_iff split: option.splits)
  ultimately show ?thesis by (auto simp: drain_server_def Let_def)
qed

end
