(* ===== verification/Reload.thy ===== *)
theory Reload
  imports Server_Safety
begin

text \<open>
  \<^verbatim>\<open>src/src/quic/reload.rs\<close>: replacing the configuration of a running server. A reload, an accept and the
  start of the drain are programs of the atomic actions their source writes them as -- taking and giving
  back \<^verbatim>\<open>ConfigSwap\<close>, reading the shutdown latch, writing or reading one of the values -- and any number of
  them run at once, each action interleaved with those of the others. Every reload reads the configuration
  file and the certificate and key files as they are at that time, so the same paths may hold a renewed
  certificate; the parse, the certificate and the warnings come before the lock is taken. Two fields are
  of the specification and steer nothing: \<open>applied\<close>, the generations that have passed the latch, in order,
  and \<open>base\<close>, how many there were when a program took the lock.
\<close>

section \<open>Programs\<close>

type_synonym ('c, 'k) generation = "config \<times> ('c, 'k) quic_config"

datatype ('c, 'k) action =
    Hold
  | Release
  | BailIfFired
  | SetNames names
  | SetAny names
  | WriteConfig config
  | WriteQuic "('c, 'k) quic_config"
  | SetEndpoint "('c, 'k) quic_config option"
  | ReadConfig
  | ReadQuic

text \<open>The part of \<^verbatim>\<open>reload\<close> that applies a configuration, once the file has been read and judged.\<close>

definition reload_swap :: "config \<Rightarrow> ('c, 'k) quic_config \<Rightarrow> ('c, 'k) action list" where
  "reload_swap c q =
     [Hold, BailIfFired, SetNames (names_new (sec_expected_sni (cfg_security c))),
      SetAny (names_new (sec_expected_sni (cfg_security c))), WriteConfig c, WriteQuic q, SetEndpoint (Some q), Release]"

definition accept_under_the_swap :: "('c, 'k) action list" where
  "accept_under_the_swap = [Hold, ReadConfig, ReadQuic, Release]"

definition close_listener :: "('c, 'k) action list" where
  "close_listener = [Hold, SetEndpoint None, Release]"

section \<open>Threads\<close>

text \<open>A program under way; \<open>built\<close> is what a reload has made of the files, its locals \<^verbatim>\<open>config\<close> and \<^verbatim>\<open>accepted_with\<close>.\<close>

record ('c, 'k) thread =
  todo :: "('c, 'k) action list"
  built :: "('c, 'k) generation option"
  read_config :: "config option"
  read_quic :: "('c, 'k) quic_config option"
  base :: nat

record ('c, 'k) running =
  holder :: "nat option"
  fired :: bool
  live_config :: config
  live_quic :: "('c, 'k) quic_config"
  endpoint :: "('c, 'k) quic_config option"
  expected_of :: expected
  threads :: "('c, 'k) thread list"
  applied :: "('c, 'k) generation list"

definition thread_new :: "('c, 'k) action list \<Rightarrow> ('c, 'k) thread" where
  "thread_new as = \<lparr>todo = as, built = None, read_config = None, read_quic = None, base = 0\<rparr>"

text \<open>A file that does not load, or whose certificate does not, stops \<^verbatim>\<open>reload\<close> before it has touched anything.\<close>

definition reload :: "('c, 'k) pki \<Rightarrow> config option \<Rightarrow> ('c, 'k) thread option" where
  "reload p loaded =
     (case loaded of
        None \<Rightarrow> None
      | Some c \<Rightarrow>
          (case server_config p c of
             Inl _ \<Rightarrow> None
           | Inr q \<Rightarrow> Some ((thread_new (reload_swap c q))\<lparr>built := Some (c, q)\<rparr>)))"

definition bind_server :: "config \<Rightarrow> ('c, 'k) quic_config \<Rightarrow> ('c, 'k) running" where
  "bind_server c q =
     \<lparr>holder = None, fired = False, live_config = c, live_quic = q, endpoint = Some q,
      expected_of = expected_new (names_new (sec_expected_sni (cfg_security c))), threads = [], applied = [(c, q)]\<rparr>"

text \<open>One action of the thread \<open>i\<close>. Taking the lock waits for it to be free; the rest never waits.\<close>

fun act :: "nat \<Rightarrow> ('c, 'k) action \<Rightarrow> ('c, 'k) thread \<Rightarrow> ('c, 'k) running \<Rightarrow> ('c, 'k) running \<times> ('c, 'k) thread" where
  "act i Hold t s = (s\<lparr>holder := Some i\<rparr>, t\<lparr>base := length (applied s)\<rparr>)"
| "act i Release t s = (s\<lparr>holder := None\<rparr>, t)"
| "act i BailIfFired t s =
     (if fired s then (s, t\<lparr>todo := [Release]\<rparr>)
      else (s\<lparr>applied := applied s @ (case built t of Some g \<Rightarrow> [g] | None \<Rightarrow> [])\<rparr>, t))"
| "act i (SetNames ns) t s = (s\<lparr>expected_of := expected_set_names (expected_of s) ns\<rparr>, t)"
| "act i (SetAny ns) t s = (s\<lparr>expected_of := expected_set_any (expected_of s) ns\<rparr>, t)"
| "act i (WriteConfig c) t s = (s\<lparr>live_config := c\<rparr>, t)"
| "act i (WriteQuic q) t s = (s\<lparr>live_quic := q\<rparr>, t)"
| "act i (SetEndpoint e) t s = (s\<lparr>endpoint := e\<rparr>, t)"
| "act i ReadConfig t s = (s, t\<lparr>read_config := Some (live_config s)\<rparr>)"
| "act i ReadQuic t s = (s, t\<lparr>read_quic := Some (live_quic s)\<rparr>)"

definition run_thread :: "nat \<Rightarrow> ('c, 'k) running \<Rightarrow> ('c, 'k) running" where
  "run_thread i s =
     (case todo (threads s ! i) of
        [] \<Rightarrow> s
      | a # as \<Rightarrow>
          if a = Hold \<and> holder s \<noteq> None then s
          else case act i a ((threads s ! i)\<lparr>todo := as\<rparr>) s of (s, t) \<Rightarrow> s\<lparr>threads := (threads s)[i := t]\<rparr>)"

text \<open>
  What can happen: the latch fires, a thread runs one action, or a program starts -- a reload of a file
  that is valid, with the certificate and key the files hold at that time, an accept, or, after the latch
  has fired, the closing of the listener. \<open>loads\<close> says which configurations a file can be read as.
\<close>

inductive swap_reach :: "(config \<Rightarrow> bool) \<Rightarrow> ('c, 'k) running \<Rightarrow> bool" for loads where
  bound: "loads c \<Longrightarrow> server_config p c = Inr q \<Longrightarrow> swap_reach loads (bind_server c q)"
| fire: "swap_reach loads s \<Longrightarrow> swap_reach loads (s\<lparr>fired := True\<rparr>)"
| reload: "swap_reach loads s \<Longrightarrow> loads c \<Longrightarrow> reload p (Some c) = Some t \<Longrightarrow>
    swap_reach loads (s\<lparr>threads := threads s @ [t]\<rparr>)"
| accept: "swap_reach loads s \<Longrightarrow> swap_reach loads (s\<lparr>threads := threads s @ [thread_new accept_under_the_swap]\<rparr>)"
| drain: "swap_reach loads s \<Longrightarrow> fired s \<Longrightarrow>
    swap_reach loads (s\<lparr>threads := threads s @ [thread_new close_listener]\<rparr>)"
| run: "swap_reach loads s \<Longrightarrow> i < length (threads s) \<Longrightarrow> swap_reach loads (run_thread i s)"

section \<open>What the lock is worth\<close>

abbreviation names_of :: "config \<Rightarrow> names" where
  "names_of c \<equiv> names_new (sec_expected_sni (cfg_security c))"

text \<open>One generation: a file that loads, and what was built from it and the certificate of one time.\<close>

definition paired :: "(config \<Rightarrow> bool) \<Rightarrow> ('c, 'k) generation \<Rightarrow> bool" where
  "paired loads g \<longleftrightarrow> loads (fst g) \<and> (\<exists>p. server_config p (fst g) = Inr (snd g))"

text \<open>Everything is of the last of these generations, and a listener is closed only by a drain.\<close>

definition clean :: "('c, 'k) generation list \<Rightarrow> ('c, 'k) running \<Rightarrow> bool" where
  "clean gs s \<longleftrightarrow>
     gs \<noteq> [] \<and> last gs = (live_config s, live_quic s) \<and> expected_of s = expected_new (names_of (live_config s))
     \<and> (endpoint s = Some (live_quic s) \<or> endpoint s = None \<and> fired s)"

definition waiting :: "(config \<Rightarrow> bool) \<Rightarrow> ('c, 'k) running \<Rightarrow> ('c, 'k) thread \<Rightarrow> bool" where
  "waiting loads s t \<longleftrightarrow>
     todo t = []
     \<or> read_quic t = None
       \<and> (todo t = accept_under_the_swap \<or> todo t = close_listener \<and> fired s
          \<or> (\<exists>c q. todo t = reload_swap c q \<and> built t = Some (c, q) \<and> paired loads (c, q)))"

text \<open>Where the thread that holds the lock can be, and what it has left behind so far.\<close>

inductive holding :: "(config \<Rightarrow> bool) \<Rightarrow> ('c, 'k) running \<Rightarrow> ('c, 'k) thread \<Rightarrow> bool" for loads s t where
  accept_config: "todo t = [ReadConfig, ReadQuic, Release] \<Longrightarrow> read_quic t = None \<Longrightarrow> base t = length (applied s) \<Longrightarrow>
    clean (applied s) s \<Longrightarrow> holding loads s t"
| accept_quic: "todo t = [ReadQuic, Release] \<Longrightarrow> read_config t = Some (live_config s) \<Longrightarrow> base t = length (applied s) \<Longrightarrow>
    clean (applied s) s \<Longrightarrow> holding loads s t"
| closing: "todo t = [SetEndpoint None, Release] \<Longrightarrow> fired s \<Longrightarrow> clean (applied s) s \<Longrightarrow> holding loads s t"
| judging: "todo t = drop (Suc 0) (reload_swap c q) \<Longrightarrow> built t = Some (c, q) \<Longrightarrow> paired loads (c, q) \<Longrightarrow>
    clean (applied s) s \<Longrightarrow> holding loads s t"
| naming: "todo t = drop 2 (reload_swap c q) \<Longrightarrow> applied s = gs @ [(c, q)] \<Longrightarrow> clean gs s \<Longrightarrow>
    endpoint s \<noteq> None \<Longrightarrow> holding loads s t"
| arming: "todo t = drop 3 (reload_swap c q) \<Longrightarrow> applied s = gs @ [(c, q)] \<Longrightarrow> exp_names (expected_of s) = names_of c \<Longrightarrow>
    endpoint s \<noteq> None \<Longrightarrow> holding loads s t"
| swapping: "todo t = drop 4 (reload_swap c q) \<Longrightarrow> applied s = gs @ [(c, q)] \<Longrightarrow> expected_of s = expected_new (names_of c) \<Longrightarrow>
    endpoint s \<noteq> None \<Longrightarrow> holding loads s t"
| pairing: "todo t = drop 5 (reload_swap c q) \<Longrightarrow> applied s = gs @ [(c, q)] \<Longrightarrow> expected_of s = expected_new (names_of c) \<Longrightarrow>
    live_config s = c \<Longrightarrow> endpoint s \<noteq> None \<Longrightarrow> holding loads s t"
| publishing: "todo t = drop 6 (reload_swap c q) \<Longrightarrow> applied s = gs @ [(c, q)] \<Longrightarrow> expected_of s = expected_new (names_of c) \<Longrightarrow>
    live_config s = c \<Longrightarrow> live_quic s = q \<Longrightarrow> endpoint s \<noteq> None \<Longrightarrow> holding loads s t"
| leaving: "todo t = [Release] \<Longrightarrow> clean (applied s) s \<Longrightarrow> holding loads s t"

text \<open>What an accept has read is the generation that was the last when it took the lock.\<close>

definition reads_ok :: "('c, 'k) generation list \<Rightarrow> ('c, 'k) thread \<Rightarrow> bool" where
  "reads_ok gs t \<longleftrightarrow>
     (case read_quic t of
        None \<Rightarrow> True
      | Some q \<Rightarrow> 0 < base t \<and> base t \<le> length gs \<and> (\<exists>c. read_config t = Some c \<and> gs ! (base t - 1) = (c, q)))"

lemma reads_ok_todo [simp]: "reads_ok gs (t\<lparr>todo := as\<rparr>) = reads_ok gs t"
  by (simp add: reads_ok_def split: option.split)

lemma reads_ok_append: "reads_ok gs t \<Longrightarrow> reads_ok (gs @ hs) t"
  by (auto simp: reads_ok_def nth_append split: option.split)

definition swap_inv :: "(config \<Rightarrow> bool) \<Rightarrow> ('c, 'k) running \<Rightarrow> bool" where
  "swap_inv loads s \<longleftrightarrow>
     list_all (paired loads) (applied s) \<and> list_all (reads_ok (applied s)) (threads s)
     \<and> (case holder s of
          None \<Rightarrow> clean (applied s) s \<and> list_all (waiting loads s) (threads s)
        | Some i \<Rightarrow> i < length (threads s) \<and> holding loads s (threads s ! i)
            \<and> (\<forall>j<length (threads s). j \<noteq> i \<longrightarrow> waiting loads s (threads s ! j)))"

lemma reload_swap_drops:
  "drop (Suc 0) (reload_swap c q) = BailIfFired # drop 2 (reload_swap c q)"
  "drop 2 (reload_swap c q) = SetNames (names_of c) # drop 3 (reload_swap c q)"
  "drop 3 (reload_swap c q) = SetAny (names_of c) # drop 4 (reload_swap c q)"
  "drop 4 (reload_swap c q) = WriteConfig c # drop 5 (reload_swap c q)"
  "drop 5 (reload_swap c q) = WriteQuic q # drop 6 (reload_swap c q)"
  "drop 6 (reload_swap c q) = [SetEndpoint (Some q), Release]"
  "reload_swap c q = Hold # drop (Suc 0) (reload_swap c q)"
  by (simp_all add: reload_swap_def)

text \<open>A holder's action keeps it a holder in good standing, or lets go of the lock with everything clean.\<close>

definition advanced :: "(config \<Rightarrow> bool) \<Rightarrow> ('c, 'k) running \<Rightarrow> ('c, 'k) running \<Rightarrow> bool" where
  "advanced loads s s' \<longleftrightarrow> fired s' = fired s \<and> threads s' = threads s
     \<and> (\<exists>gs. applied s' = applied s @ gs \<and> list_all (paired loads) gs)"

lemma advanced_same: "fired s' = fired s \<Longrightarrow> threads s' = threads s \<Longrightarrow> applied s' = applied s \<Longrightarrow> advanced loads s s'"
  by (simp add: advanced_def)

lemma holding_act:
  assumes "holding loads s t" "reads_ok (applied s) t"
  shows "\<exists>a as s' t'. todo t = a # as \<and> a \<noteq> Hold \<and> act i a (t\<lparr>todo := as\<rparr>) s = (s', t')
    \<and> reads_ok (applied s') t' \<and> advanced loads s s'
    \<and> (if a = Release then holder s' = None \<and> clean (applied s') s' \<and> todo t' = []
       else holder s' = holder s \<and> holding loads s' t')"
  using assms(1)
proof cases
  case accept_config
  then show ?thesis using assms(2)
    by (auto simp: reads_ok_def clean_def advanced_same split: option.splits intro!: holding.accept_quic)
next
  case accept_quic
  then show ?thesis
    by (auto simp: reads_ok_def clean_def advanced_same last_conv_nth intro!: holding.leaving)
next
  case closing
  then show ?thesis using assms(2) by (auto simp: clean_def advanced_same intro!: holding.leaving)
next
  case (judging c q)
  then have td: "todo t = BailIfFired # drop 2 (reload_swap c q)" unfolding reload_swap_drops(1) by blast
  show ?thesis
  proof (cases "fired s")
    case True
    with td judging(2-4) assms(2) show ?thesis by (auto simp: advanced_same intro: holding.leaving)
  next
    case False
    have "clean (applied s) (s\<lparr>applied := applied s @ [(c, q)]\<rparr>)" "endpoint s \<noteq> None"
      using False judging(4) by (auto simp: clean_def)
    then have "holding loads (s\<lparr>applied := applied s @ [(c, q)]\<rparr>) (t\<lparr>todo := drop 2 (reload_swap c q)\<rparr>)"
      by (intro holding.naming[of _ c q _ "applied s"]) simp_all
    moreover have "advanced loads s (s\<lparr>applied := applied s @ [(c, q)]\<rparr>)"
      using judging(3) by (simp add: advanced_def)
    ultimately show ?thesis using td False judging(2) reads_ok_append[OF assms(2)] by simp
  qed
next
  case (naming c q gs)
  then show ?thesis using assms(2)
    by (auto simp: reload_swap_drops(2) expected_set_names_def advanced_same intro: holding.arming)
next
  case (arming c q gs)
  then show ?thesis using assms(2)
    by (auto simp: reload_swap_drops(3) expected_set_any_def expected_new_def advanced_same intro!: holding.swapping)
next
  case (swapping c q gs)
  then show ?thesis using assms(2)
    by (auto simp: reload_swap_drops(4) advanced_same intro: holding.pairing)
next
  case (pairing c q gs)
  then show ?thesis using assms(2)
    by (auto simp: reload_swap_drops(5) advanced_same intro: holding.publishing)
next
  case (publishing c q gs)
  then show ?thesis using assms(2)
    by (auto simp: reload_swap_drops(6) clean_def advanced_same intro!: holding.leaving)
next
  case leaving
  then show ?thesis using assms(2) by (auto simp: clean_def advanced_same)
qed

lemma waiting_hold:
  assumes "waiting loads s t" "todo t = a # as" "clean (applied s) s"
  shows "a = Hold \<and> read_quic t = None
    \<and> holding loads (s\<lparr>holder := Some i\<rparr>) (t\<lparr>todo := as, base := length (applied s)\<rparr>)"
proof -
  have clean: "clean (applied s) (s\<lparr>holder := Some i\<rparr>)" using assms(3) by (simp add: clean_def)
  from assms(1,2) have none: "read_quic t = None" by (auto simp: waiting_def)
  from assms(1) consider (accept) "todo t = accept_under_the_swap"
    | (close) "todo t = close_listener" "fired s"
    | (reload) c q where "todo t = reload_swap c q" "built t = Some (c, q)" "paired loads (c, q)"
    using assms(2) by (auto simp: waiting_def)
  then show ?thesis
  proof cases
    case accept
    with assms(2) clean none show ?thesis by (auto simp: accept_under_the_swap_def intro!: holding.accept_config)
  next
    case close
    with assms(2) clean none show ?thesis by (auto simp: close_listener_def intro!: holding.closing)
  next
    case (reload c q)
    with assms(2) clean none show ?thesis
      using reload_swap_drops(7)[of c q] by (auto intro!: holding.judging[of _ c q])
  qed
qed

lemma waiting_change: "waiting loads s t \<Longrightarrow> fired s' = fired s \<Longrightarrow> waiting loads s' t"
  by (auto simp: waiting_def)

lemma waiting_threads [simp]: "waiting loads (s\<lparr>threads := ts\<rparr>) t = waiting loads s t"
  by (simp add: waiting_def)

lemma holding_change:
  "holding loads s t \<Longrightarrow> holding loads (s\<lparr>threads := ts\<rparr>) t" "clean gs s \<Longrightarrow> clean gs (s\<lparr>threads := ts\<rparr>)"
  by (auto elim!: holding.cases simp: clean_def intro: holding.intros)

lemma swap_inv_run_free:
  assumes inv: "swap_inv loads s" and i: "i < length (threads s)" and None: "holder s = None"
  shows "swap_inv loads (run_thread i s)"
proof (cases "todo (threads s ! i)")
  case Nil
  with inv show ?thesis by (simp add: run_thread_def)
next
  case (Cons a as)
  let ?t = "(threads s ! i)\<lparr>todo := as, base := length (applied s)\<rparr>"
  from inv i None have w: "waiting loads s (threads s ! i)" "clean (applied s) s"
    by (auto simp: swap_inv_def list_all_length)
  note h = waiting_hold[OF w(1) Cons w(2), of i]
  then have "run_thread i s = s\<lparr>holder := Some i, threads := (threads s)[i := ?t]\<rparr>"
    using None Cons by (simp add: run_thread_def)
  moreover have "holding loads (s\<lparr>holder := Some i, threads := (threads s)[i := ?t]\<rparr>) ?t"
    using h holding_change(1) by blast
  moreover have "reads_ok (applied s) ?t" using h by (simp add: reads_ok_def)
  ultimately show ?thesis
    using inv i None by (auto simp: swap_inv_def list_all_length nth_list_update intro: waiting_change)
qed

lemma swap_inv_run_holder:
  assumes inv: "swap_inv loads s" and i: "i < length (threads s)" and Some: "holder s = Some i"
  shows "swap_inv loads (run_thread i s)"
proof -
  from inv i Some have h: "holding loads s (threads s ! i)" "reads_ok (applied s) (threads s ! i)"
    by (auto simp: swap_inv_def list_all_length)
  from holding_act[OF this, of i] obtain a as s' t' where st: "todo (threads s ! i) = a # as" "a \<noteq> Hold"
    "act i a ((threads s ! i)\<lparr>todo := as\<rparr>) s = (s', t')" "reads_ok (applied s') t'" "advanced loads s s'"
    "if a = Release then holder s' = None \<and> clean (applied s') s' \<and> todo t' = [] else holder s' = holder s \<and> holding loads s' t'"
    by blast
  then have same: "fired s' = fired s" "threads s' = threads s" by (simp_all add: advanced_def)
  with st have r: "run_thread i s = s'\<lparr>threads := (threads s)[i := t']\<rparr>" by (simp add: run_thread_def)
  have others: "waiting loads s' (threads s ! j)" if "j < length (threads s)" "j \<noteq> i" for j
    using inv Some that same(1) by (auto simp: swap_inv_def intro: waiting_change)
  from st(5) obtain gs where gs: "applied s' = applied s @ gs" "list_all (paired loads) gs" by (auto simp: advanced_def)
  have kept: "list_all (paired loads) (applied s')" using inv gs by (simp add: swap_inv_def)
  have reads: "reads_ok (applied s') (threads s ! j)" if "j < length (threads s)" for j
    using inv that by (auto simp: swap_inv_def gs(1) list_all_length reads_ok_append)
  show ?thesis
  proof (cases "a = Release")
    case rel: True
    with st have "holder s' = None" "clean (applied s') s'" "todo t' = []" by auto
    then show ?thesis
      using inv i st(4) others kept reads
      by (auto simp: r swap_inv_def list_all_length[of "reads_ok _"] list_all_length[of "waiting _ _"] nth_list_update waiting_def holding_change(2))
  next
    case False
    with st have "holder s' = Some i" "holding loads s' t'" using Some by auto
    then show ?thesis
      using inv i st(4) others kept reads
      by (auto simp: r swap_inv_def list_all_length[of "reads_ok _"] nth_list_update holding_change(1) intro: waiting_change)
  qed
qed

lemma swap_inv_run:
  assumes inv: "swap_inv loads s" and i: "i < length (threads s)"
  shows "swap_inv loads (run_thread i s)"
proof (cases "holder s = None \<or> holder s = Some i")
  case True
  with assms swap_inv_run_free swap_inv_run_holder show ?thesis by blast
next
  case False
  with inv i have "waiting loads s (threads s ! i)" by (auto simp: swap_inv_def split: option.splits)
  then have "todo (threads s ! i) = [] \<or> hd (todo (threads s ! i)) = Hold"
    by (auto simp: waiting_def accept_under_the_swap_def close_listener_def reload_swap_def)
  with inv False show ?thesis by (cases "todo (threads s ! i)") (auto simp: run_thread_def)
qed

lemma swap_inv_spawn:
  assumes inv: "swap_inv loads s" and w: "waiting loads s t" "read_quic t = None"
  shows "swap_inv loads (s\<lparr>threads := threads s @ [t]\<rparr>)"
proof (cases "holder s")
  case None
  with assms show ?thesis
    by (auto simp: swap_inv_def reads_ok_def holding_change(2) list_all_iff)
next
  case (Some i)
  have "reads_ok (applied s) t" using w(2) by (simp add: reads_ok_def)
  with assms Some show ?thesis
    by (auto simp: swap_inv_def holding_change(1) nth_append less_Suc_eq)
qed

lemma holding_fire:
  assumes "holding loads s t"
  shows "holding loads (s\<lparr>fired := True\<rparr>) t"
proof -
  have c: "clean gs s \<Longrightarrow> clean gs (s\<lparr>fired := True\<rparr>)" for gs by (auto simp: clean_def)
  from assms show ?thesis
  proof cases
    case accept_config
    then show ?thesis using c by (intro holding.accept_config) simp_all
  next
    case accept_quic
    then show ?thesis using c by (intro holding.accept_quic) simp_all
  next
    case closing
    then show ?thesis using c by (intro holding.closing) simp_all
  next
    case (judging c q)
    then show ?thesis using c by (intro holding.judging[of t c q]) simp_all
  next
    case (naming c q gs)
    then show ?thesis using c by (intro holding.naming[of t c q _ gs]) simp_all
  next
    case leaving
    then show ?thesis using c by (intro holding.leaving) simp_all
  qed (auto intro: holding.intros)
qed

lemma swap_inv_fire: "swap_inv loads s \<Longrightarrow> swap_inv loads (s\<lparr>fired := True\<rparr>)"
proof -
  assume inv: "swap_inv loads s"
  have w: "waiting loads s t \<Longrightarrow> waiting loads (s\<lparr>fired := True\<rparr>) t" for t by (auto simp: waiting_def)
  have c: "clean gs s \<Longrightarrow> clean gs (s\<lparr>fired := True\<rparr>)" for gs by (auto simp: clean_def)
  with inv w holding_fire show ?thesis by (auto simp: swap_inv_def list_all_iff split: option.splits)
qed

lemma swap_inv_reach: "swap_reach loads s \<Longrightarrow> swap_inv loads s"
proof (induction rule: swap_reach.induct)
  case (bound c p q)
  then show ?case by (auto simp: swap_inv_def bind_server_def clean_def paired_def)
next
  case (reload s c p t)
  then have "waiting loads s t" "read_quic t = None"
    by (auto simp: waiting_def thread_new_def reload_def paired_def split: sum.splits)
  with reload show ?case by (intro swap_inv_spawn)
next
  case (accept s)
  then show ?case by (intro swap_inv_spawn) (simp_all add: waiting_def thread_new_def)
next
  case (drain s)
  then show ?case by (intro swap_inv_spawn) (simp_all add: waiting_def thread_new_def)
qed (simp_all add: swap_inv_fire swap_inv_run)

text \<open>Once the listener is closed, no thread touches it or the configuration any more.\<close>

lemma closed_clean: "swap_inv loads s \<Longrightarrow> endpoint s = None \<Longrightarrow> clean (applied s) s"
  by (auto simp: swap_inv_def split: option.splits elim: holding.cases)

lemma clean_loads: "swap_inv loads s \<Longrightarrow> clean (applied s) s \<Longrightarrow> loads (live_config s)"
  using last_in_set[of "applied s"] by (fastforce simp: swap_inv_def clean_def list_all_iff paired_def)

lemma holding_settled:
  assumes "holding loads s t" "endpoint s = None" "todo t = a # as"
  shows "live_config (fst (act i a t' s)) = live_config s \<and> endpoint (fst (act i a t' s)) = None"
  using assms(1) by cases (use assms in \<open>auto simp: reload_swap_drops(1)\<close>)

lemma run_settled:
  assumes inv: "swap_inv loads s" and closed: "endpoint s = None" and i: "i < length (threads s)"
  shows "live_config (run_thread i s) = live_config s \<and> endpoint (run_thread i s) = None"
proof (cases "todo (threads s ! i)")
  case Nil
  with closed show ?thesis by (simp add: run_thread_def)
next
  case (Cons a as)
  show ?thesis
  proof (cases "a = Hold")
    case True
    with Cons closed show ?thesis by (simp add: run_thread_def)
  next
    case False
    then have "\<not> waiting loads s (threads s ! i)"
      using Cons by (auto simp: waiting_def accept_under_the_swap_def close_listener_def reload_swap_def)
    with inv i have "holding loads s (threads s ! i)"
      by (auto simp: swap_inv_def list_all_length split: option.splits)
    from holding_settled[OF this closed Cons, of i "(threads s ! i)\<lparr>todo := as\<rparr>"] Cons False show ?thesis
      by (auto simp: run_thread_def split: prod.splits)
  qed
qed

text \<open>
  The gate reads its names on every batch and takes no lock: it sees those of the generation applied last
  or, while a reload is at work, of the one before.
\<close>

definition recent :: "'g list \<Rightarrow> 'g list" where
  "recent gs = drop (length gs - 2) gs"

lemma recent_last: "gs \<noteq> [] \<Longrightarrow> last gs \<in> set (recent gs)"
  by (cases gs rule: rev_cases) (auto simp: recent_def)

lemma recent_before: "gs \<noteq> [] \<Longrightarrow> last gs \<in> set (recent (gs @ [g]))"
  by (cases gs rule: rev_cases) (auto simp: recent_def)

lemma gate_names_recent:
  assumes "swap_inv loads s"
  shows "exp_names (expected_of s) \<in> (\<lambda>g. names_of (fst g)) ` set (recent (applied s))"
proof -
  have ok: "exp_names (expected_of s) \<in> (\<lambda>g. names_of (fst g)) ` set (recent (applied s))"
    if "clean gs s" "last gs \<in> set (recent (applied s))" for gs
    using that by (force simp: clean_def expected_new_def)
  have now: "exp_names (expected_of s) \<in> (\<lambda>g. names_of (fst g)) ` set (recent (applied s))"
    if "applied s = gs @ [(c, q)]" "exp_names (expected_of s) = names_of c" for gs c q
    using that recent_last[of "applied s"] by force
  have here: "clean (applied s) s \<Longrightarrow> ?thesis" by (rule ok) (auto simp: clean_def intro: recent_last)
  have "?thesis" if "holding loads s t" for t
    using that
  proof cases
    case (naming c q gs)
    then show ?thesis using ok[of gs] recent_before[of gs] by (simp add: clean_def)
  qed (use here now in \<open>auto simp: expected_new_def\<close>)
  with assms here show ?thesis by (auto simp: swap_inv_def split: option.splits)
qed

text \<open>A reload that finds the lock free and the latch not fired takes effect.\<close>

lemma reload_takes_effect:
  assumes "holder s = None" "\<not> fired s" "i < length (threads s)" "todo (threads s ! i) = reload_swap c q"
  shows "(let s' = (run_thread i ^^ 8) s
          in holder s' = None \<and> live_config s' = c \<and> live_quic s' = q \<and> endpoint s' = Some q
             \<and> expected_of s' = expected_new (names_of c))"
  using assms
  by (simp add: Let_def eval_nat_numeral run_thread_def reload_swap_def expected_set_names_def expected_set_any_def
      expected_new_def)

section \<open>Properties\<close>

text \<open>
  C9. A reload takes effect as a whole. However reloads, accepts and the drain interleave, and whatever the
  certificate and key files hold at the time of each reload: every generation applied is a configuration
  that passed validation with the certificate and transport parameters built from that very configuration
  by that reload. A connection is accepted with the configuration and the certificate of the generation
  applied last when its accept took the lock, so a certificate renewed at the same path is the one it is
  shown. Whenever nobody holds the lock, the configuration, the certificate and the names at the gate are
  those of the generation applied last, and the endpoint listens with it unless a drain has closed it. The
  gate, which takes no lock, at any time has the names of the generation applied last or of the one before
  it. A reload that finds the lock free and no shutdown takes effect, and a listener that a drain has
  closed stays closed, whatever is reloaded after.
\<close>

theorem reload_atomic:
  assumes "swap_reach (\<lambda>c. \<exists>is_file. validate_config env_filter is_file c = Inr ()) s"
  shows "list_all (\<lambda>(c, q). (\<exists>is_file. validate_config env_filter is_file c = Inr ()) \<and> (\<exists>p. server_config p c = Inr q))
      (applied s)
    \<and> list_all (\<lambda>t. case read_quic t of
         None \<Rightarrow> True
       | Some q \<Rightarrow> 0 < base t \<and> base t \<le> length (applied s)
           \<and> (\<exists>c. read_config t = Some c \<and> applied s ! (base t - 1) = (c, q))) (threads s)
    \<and> (if holder s = None
       then last (applied s) = (live_config s, live_quic s) \<and> expected_of s = expected_new (names_of (live_config s))
            \<and> endpoint s \<in> {Some (live_quic s), None} else True)
    \<and> exp_names (expected_of s) \<in> (\<lambda>g. names_of (fst g)) ` set (recent (applied s))
    \<and> (if holder s = None \<and> \<not> fired s \<and> i < length (threads s) \<and> todo (threads s ! i) = reload_swap c q
       then (let s' = (run_thread i ^^ 8) s
             in holder s' = None \<and> live_config s' = c \<and> live_quic s' = q \<and> endpoint s' = Some q
                \<and> expected_of s' = expected_new (names_of c)) else True)
    \<and> (if endpoint s = None then fired s \<and> (if i < length (threads s) then endpoint (run_thread i s) = None else True) else True)"
proof -
  let ?loads = "\<lambda>c. \<exists>is_file. validate_config env_filter is_file c = Inr ()"
  have inv: "swap_inv ?loads s" by (rule swap_inv_reach[OF assms])
  have "list_all (paired ?loads) (applied s)" "list_all (reads_ok (applied s)) (threads s)"
    using inv by (simp_all add: swap_inv_def)
  moreover have "clean (applied s) s" if "holder s = None" using inv that by (simp add: swap_inv_def)
  moreover have "fired s" if "endpoint s = None"
    using closed_clean[OF inv that] that by (simp add: clean_def)
  moreover have "endpoint (run_thread i s) = None" if "endpoint s = None" "i < length (threads s)"
    using run_settled[OF inv that] by simp
  ultimately show ?thesis
    using gate_names_recent[OF inv] reload_takes_effect[of s i c q]
    unfolding reads_ok_def clean_def paired_def case_prod_beta by auto
qed

text \<open>
  The instance: a server whose certificate is renewed. The configuration stays as it is, the second reload
  finds another certificate at the same path, and a connection accepted after it gets that one.
\<close>

definition sample_pki :: "nat \<Rightarrow> (nat, unit) pki" where
  "sample_pki n = \<lparr>pki_certs = (\<lambda>_. Some [n]), pki_key = (\<lambda>_. Some (Some ())), pki_pair = (\<lambda>_ _. True)\<rparr>"

abbreviation sample_loads :: "config \<Rightarrow> bool" where
  "sample_loads \<equiv> \<lambda>c. \<exists>is_file. validate_config (\<lambda>_. False) is_file c = Inr ()"

lemma sample_loads_config: "sample_loads sample_config"
  using validate_config_ok[of "\<lambda>_. False" "\<lambda>_. True" sample_config] sample_config_ok by blast

lemma sample_server_config:
  obtains q where "server_config (sample_pki n) sample_config = Inr q" "tls_certs (fst q) = [n]"
proof -
  have "unat (lim_max_idle_timeout (cfg_limits sample_config) * 1000) = 60000"
    "unat (lim_max_idle_timeout (cfg_limits sample_config)) = 60"
    by (simp_all add: sample_config_def limits_default_def config_constants)
  then show thesis using that
    by (auto simp: server_config_def server_crypto_def load_certs_def load_key_def sample_pki_def Let_def transport_config_def
        idle_timeout_def word_le_nat_alt VARINT_MAX_eq)
qed

lemma run_thread_length [simp]: "length (threads (run_thread i s)) = length (threads s)"
proof -
  have "threads (fst (act i a t s)) = threads s" for a t
    by (cases a) auto
  then show ?thesis by (auto simp: run_thread_def split: list.split prod.split) (metis fst_conv)+
qed

lemma swap_reach_runs: "swap_reach loads s \<Longrightarrow> i < length (threads s) \<Longrightarrow> swap_reach loads ((run_thread i ^^ n) s)"
proof -
  assume *: "swap_reach loads s" "i < length (threads s)"
  have "swap_reach loads ((run_thread i ^^ n) s) \<and> length (threads ((run_thread i ^^ n) s)) = length (threads s)"
    by (induction n) (use * in \<open>auto intro: swap_reach.run\<close>)
  then show ?thesis by simp
qed

theorem reload_atomic_witness:
  "\<exists>(s :: (nat, unit) running) t q. swap_reach sample_loads s \<and> t \<in> set (threads s)
     \<and> read_config t = Some sample_config \<and> read_quic t = Some q \<and> tls_certs (fst q) = [2]
     \<and> map (\<lambda>g. tls_certs (fst (snd g))) (applied s) = [[1], [2]] \<and> applied s ! (base t - 1) = (sample_config, q)
     \<and> last (applied s) = (live_config s, live_quic s)"
proof -
  obtain q where q: "server_config (sample_pki 1) sample_config = Inr q" "tls_certs (fst q) = [1]" by (rule sample_server_config)
  obtain r where r: "server_config (sample_pki 2) sample_config = Inr r" "tls_certs (fst r) = [2]" by (rule sample_server_config)
  let ?t = "(thread_new (reload_swap sample_config r))\<lparr>built := Some (sample_config, r)\<rparr>"
  let ?s1 = "(bind_server sample_config q)\<lparr>threads := [?t]\<rparr>"
  have "swap_reach sample_loads (bind_server sample_config q)" by (rule swap_reach.bound[of sample_loads, OF sample_loads_config q(1)])
  from swap_reach.reload[OF this sample_loads_config, of "sample_pki 2" ?t] have "swap_reach sample_loads ?s1"
    using r(1) by (simp add: reload_def bind_server_def)
  then have "swap_reach sample_loads ((run_thread 0 ^^ 8) ?s1)" by (rule swap_reach_runs) simp
  moreover have "(run_thread 0 ^^ 8) ?s1 = (bind_server sample_config r)\<lparr>applied := [(sample_config, q), (sample_config, r)],
      threads := [?t\<lparr>todo := [], base := 1\<rparr>]\<rparr>" (is "_ = ?s2")
    by (simp add: eval_nat_numeral run_thread_def reload_swap_def bind_server_def thread_new_def expected_set_names_def
        expected_set_any_def expected_new_def)
  ultimately have "swap_reach sample_loads ?s2" by (simp only:)
  then have "swap_reach sample_loads (?s2\<lparr>threads := threads ?s2 @ [thread_new accept_under_the_swap]\<rparr>)"
    by (rule swap_reach.accept)
  then have "swap_reach sample_loads ((run_thread 1 ^^ 4) (?s2\<lparr>threads := threads ?s2 @ [thread_new accept_under_the_swap]\<rparr>))"
    by (rule swap_reach_runs) simp
  moreover have "(run_thread 1 ^^ 4) (?s2\<lparr>threads := threads ?s2 @ [thread_new accept_under_the_swap]\<rparr>)
    = ?s2\<lparr>threads := threads ?s2 @ [\<lparr>todo = [], built = None, read_config = Some sample_config, read_quic = Some r, base = 2\<rparr>]\<rparr>"
    (is "_ = ?s3")
    by (simp add: eval_nat_numeral run_thread_def accept_under_the_swap_def bind_server_def thread_new_def)
  ultimately have "swap_reach sample_loads ?s3" by (simp only:)
  from reload_atomic[OF this, of 0 sample_config r] this q(2) r(2) show ?thesis
    by (intro exI[of _ ?s3] exI[of _ "\<lparr>todo = [], built = None, read_config = Some sample_config, read_quic = Some r, base = 2\<rparr>"]
        exI[of _ r]) (simp add: bind_server_def)
qed

end
