(* ===== verification/H3_Peer.thy ===== *)
theory H3_Peer
  imports H3_Connection_Safety Runs "HOL-Library.Sublist"
begin

text \<open>
  \<^verbatim>\<open>src/src/h3/connection.rs\<close>: the handshake of an HTTP/3 connection and the task \<^verbatim>\<open>serve_peer\<close> with the tasks it
  spawns, one for every unidirectional stream. The tasks take turns in any order; a turn is one event of
  the transport and what the code does about it before it waits again.
\<close>

section \<open>The handshake\<close>

text \<open>What becomes of opening one of the three streams and of writing its first bytes.\<close>

datatype uni_opening = Opened | OpenLost quinn_connection_error | PrefaceFails quinn_write_error | OpenStalls

text \<open>
  The streams in turn: the bytes written so far, and the result, if there is one before the deadline. The
  handshake is \<^const>\<open>None\<close> only if building the first bytes panics.
\<close>

fun open_streams :: "shared \<Rightarrow> bytes list \<Rightarrow> bytes list \<Rightarrow> uni_opening list \<Rightarrow>
    shared \<times> bytes list \<times> (connection_error + unit) option" where
  "open_streams sh written [] outs = (sh, written, Some (Inr ()))"
| "open_streams sh written (p # ps) (Opened # outs) = open_streams sh (written @ [p]) ps outs"
| "open_streams sh written (p # ps) (OpenLost e # outs) = (sh, written, Some (Inl (connection_error_from e)))"
| "open_streams sh written (p # ps) (PrefaceFails e # outs) =
     (case critical_write sh e of (sh, err) \<Rightarrow> (sh, written, Some (Inl err)))"
| "open_streams sh written (p # ps) outs = (sh, written, None)"

definition after_opening :: "shared \<times> bytes list \<times> (connection_error + unit) option \<Rightarrow> shared \<times> bytes list \<times> (connection_error + h3_connection)" where
  "after_opening r =
     (case r of
        (sh, written, Some (Inr _)) \<Rightarrow> (sh, written, Inr connection_start)
      | (sh, written, Some (Inl e)) \<Rightarrow> (sh, written, Inl e)
      | (sh, written, None) \<Rightarrow>
          (case fail sh (violation_connection H3_STREAM_CREATION_ERROR) of (sh, e) \<Rightarrow> (sh, written, Inl e)))"

definition handshake :: "uni_opening list \<Rightarrow> (shared \<times> bytes list \<times> (connection_error + h3_connection)) option" where
  "handshake outs = map_option (\<lambda>prefaces. after_opening (open_streams shared_default [] prefaces outs)) open_critical_streams"

section \<open>The peer task\<close>

datatype uni_task = Typing | Controlling control | Qpacking qpack_stream qpack_progress | Ended

record peer_side =
  peer_shared :: shared
  uni_tasks :: "uni_task list"
  peer_serving :: bool
  stops_sent :: "code list"

definition peer_start :: peer_side where
  "peer_start = \<lparr>peer_shared = shared_default, uni_tasks = [], peer_serving = True, stops_sent = []\<rparr>"

text \<open>
  The events: \<^verbatim>\<open>accept_uni\<close> and \<^verbatim>\<open>read_datagram\<close> return, or fail with the connection; a stream's type arrives, or
  its deadline passes; the control stream's reader yields, and the transport delivers on a QPACK stream,
  with what \<^verbatim>\<open>close_reason\<close> says at that moment; the connection is dropped.
\<close>

datatype peer_event =
    UniAccepted
  | UniLost
  | DatagramRead bytes
  | DatagramLost
  | TypeArrives nat type_read
  | ControlYields nat bool "frame_error + item option"
  | QpackDelivers nat bool read
  | ConnectionDrops

definition stream_typed :: "shared \<Rightarrow> type_read \<Rightarrow> shared \<times> uni_task \<times> code list" where
  "stream_typed sh typed =
     (case serve_stream sh typed of
        (sh, RunControl _) \<Rightarrow> (sh, Controlling control_default, [])
      | (sh, RunQpack kind _) \<Rightarrow>
          if qpack_seen kind sh then (fst (fail sh duplicate), Ended, [])
          else (mark_seen kind sh, Qpacking kind progress_default, [])
      | (sh, StopStream c) \<Rightarrow> (sh, Ended, [c])
      | (sh, Over) \<Rightarrow> (sh, Ended, []))"

definition control_turn :: "shared \<Rightarrow> control \<Rightarrow> bool \<Rightarrow> frame_error + item option \<Rightarrow> shared \<times> uni_task" where
  "control_turn sh c closed r =
     (case r of
        Inr (Some it) \<Rightarrow>
          (case control_accept c sh it of
             Inl v \<Rightarrow> (fst (fail sh v), Ended)
           | Inr (c', sh') \<Rightarrow> (sh', Controlling c'))
      | _ \<Rightarrow> (fst (serve_control c sh closed [r]), Ended))"

definition qpack_turn :: "shared \<Rightarrow> qpack_stream \<Rightarrow> qpack_progress \<Rightarrow> bool \<Rightarrow> read \<Rightarrow> shared \<times> uni_task" where
  "qpack_turn sh kind p closed r =
     (case r of
        Chunk bs \<Rightarrow>
          (case progress_bytes p kind bs of
             Inl v \<Rightarrow> (fst (fail sh v), Ended)
           | Inr p' \<Rightarrow> (sh, Qpacking kind p'))
      | _ \<Rightarrow> (fail_if sh (critical_stream_closed closed), Ended))"

text \<open>
  One event. The set of tasks ends with the loop that owns it, so once \<^verbatim>\<open>serve_peer\<close> has returned nothing
  happens any more but the drop of the connection. A handler that has finished stays in the list as
  \<^const>\<open>Ended\<close>; the code forgets it at the next stream.
\<close>

definition peer_step :: "peer_side \<Rightarrow> peer_event \<Rightarrow> peer_side" where
  "peer_step s ev =
     (case ev of
        ConnectionDrops \<Rightarrow>
          s\<lparr>peer_shared := (peer_shared s)\<lparr>closes := closes (peer_shared s) @ [H3_NO_ERROR]\<rparr>, peer_serving := False\<rparr>
      | _ \<Rightarrow>
          if \<not> peer_serving s then s
          else (case ev of
            UniAccepted \<Rightarrow> s\<lparr>uni_tasks := uni_tasks s @ [Typing]\<rparr>
          | DatagramRead dgram \<Rightarrow>
              (case route_datagram (peer_shared s) dgram of (sh, go_on) \<Rightarrow> s\<lparr>peer_shared := sh, peer_serving := go_on\<rparr>)
          | TypeArrives i typed \<Rightarrow>
              if i < length (uni_tasks s) \<and> uni_tasks s ! i = Typing
              then (case stream_typed (peer_shared s) typed of
                (sh, t, cs) \<Rightarrow> s\<lparr>peer_shared := sh, uni_tasks := (uni_tasks s)[i := t], stops_sent := stops_sent s @ cs\<rparr>)
              else s
          | ControlYields i closed r \<Rightarrow>
              if i < length (uni_tasks s)
              then (case uni_tasks s ! i of
                Controlling c \<Rightarrow>
                  (case control_turn (peer_shared s) c closed r of
                     (sh, t) \<Rightarrow> s\<lparr>peer_shared := sh, uni_tasks := (uni_tasks s)[i := t]\<rparr>)
              | _ \<Rightarrow> s)
              else s
          | QpackDelivers i closed r \<Rightarrow>
              if i < length (uni_tasks s)
              then (case uni_tasks s ! i of
                Qpacking kind p \<Rightarrow>
                  (case qpack_turn (peer_shared s) kind p closed r of
                     (sh, t) \<Rightarrow> s\<lparr>peer_shared := sh, uni_tasks := (uni_tasks s)[i := t]\<rparr>)
              | _ \<Rightarrow> s)
              else s
          | _ \<Rightarrow> s\<lparr>peer_serving := False\<rparr>))"

section \<open>What holds throughout\<close>

fun is_controlling :: "uni_task \<Rightarrow> bool" where
  "is_controlling (Controlling _) = True"
| "is_controlling _ = False"

fun is_qpacking :: "qpack_stream \<Rightarrow> uni_task \<Rightarrow> bool" where
  "is_qpacking kind (Qpacking k _) = (k = kind)"
| "is_qpacking kind _ = False"

text \<open>The first violation is the one the peer is told, and it is a connection error.\<close>

definition errors_ok :: "shared \<Rightarrow> bool" where
  "errors_ok sh \<longleftrightarrow>
     (case local_error sh of
        None \<Rightarrow> set (closes sh) \<subseteq> {H3_NO_ERROR}
      | Some v \<Rightarrow> fatal v \<and> code v \<in> set (closes sh) \<and> set (closes sh) \<subseteq> {code v, H3_NO_ERROR})"

definition count_if :: "('a \<Rightarrow> bool) \<Rightarrow> 'a list \<Rightarrow> nat" where
  "count_if p xs = length (filter p xs)"

definition peer_inv :: "peer_side \<Rightarrow> bool" where
  "peer_inv s \<longleftrightarrow> errors_ok (peer_shared s)
     \<and> count_if is_controlling (uni_tasks s) \<le> (if control_seen (peer_shared s) then 1 else 0)
     \<and> (\<forall>kind. count_if (is_qpacking kind) (uni_tasks s) \<le> (if qpack_seen kind (peer_shared s) then 1 else 0))
     \<and> (peer_datagrams (peer_shared s) \<longrightarrow> control_seen (peer_shared s))
     \<and> set (stops_sent s) \<subseteq> {H3_STREAM_CREATION_ERROR}"

lemma count_if_update:
  "i < length xs \<Longrightarrow> count_if p (xs[i := x]) + (if p (xs ! i) then 1 else 0) = count_if p xs + (if p x then 1 else 0)"
proof -
  assume i: "i < length xs"
  then have xs: "xs = take i xs @ xs ! i # drop (Suc i) xs" by (rule id_take_nth_drop)
  have "count_if p (xs[i := x]) = count_if p (take i xs) + (if p x then 1 else 0) + count_if p (drop (Suc i) xs)"
    using i by (simp add: upd_conv_take_nth_drop count_if_def)
  moreover have "count_if p xs = count_if p (take i xs) + (if p (xs ! i) then 1 else 0) + count_if p (drop (Suc i) xs)"
    by (subst xs) (simp add: count_if_def)
  ultimately show ?thesis by simp
qed

text \<open>What every turn does to the shared state: the first violation stays, and stays the one that is told.\<close>

definition turn_ok :: "shared \<Rightarrow> shared \<Rightarrow> bool" where
  "turn_ok sh sh' \<longleftrightarrow> (errors_ok sh \<longrightarrow> errors_ok sh') \<and> (\<forall>v. local_error sh = Some v \<longrightarrow> local_error sh' = Some v)"

text \<open>And what most turns leave alone.\<close>

definition same_seen :: "shared \<Rightarrow> shared \<Rightarrow> bool" where
  "same_seen sh sh' \<longleftrightarrow> control_seen sh' = control_seen sh \<and> encoder_seen sh' = encoder_seen sh \<and> decoder_seen sh' = decoder_seen sh"

lemma same_seen_qpack: "same_seen sh sh' \<Longrightarrow> qpack_seen kind sh' = qpack_seen kind sh"
  by (cases kind) (simp_all add: same_seen_def)

lemma turn_ok_same: "local_error sh' = local_error sh \<Longrightarrow> closes sh' = closes sh \<Longrightarrow> turn_ok sh sh'"
  by (simp add: turn_ok_def errors_ok_def split: option.split)

lemma fail_turn:
  assumes "fatal v"
  shows "turn_ok sh (fst (fail sh v))" "same_seen sh (fst (fail sh v))" "peer_datagrams (fst (fail sh v)) = peer_datagrams sh"
  using assms by (auto simp: turn_ok_def same_seen_def errors_ok_def fail_def record_violation_def split: option.splits)

lemma fail_if_turn:
  "turn_ok sh (fail_if sh (critical_stream_closed closed))" "same_seen sh (fail_if sh (critical_stream_closed closed))"
  "peer_datagrams (fail_if sh (critical_stream_closed closed)) = peer_datagrams sh"
  using fail_turn[of "violation_connection H3_CLOSED_CRITICAL_STREAM" sh]
  by (auto simp: fail_if_def critical_stream_closed_def turn_ok_def same_seen_def)

lemma count_drop_turn:
  "turn_ok sh (count_drop sh k)" "same_seen sh (count_drop sh k)" "peer_datagrams (count_drop sh k) = peer_datagrams sh"
  by (cases k; simp add: turn_ok_same same_seen_def)+

lemma route_turn:
  "turn_ok sh (fst (route_datagram sh bs))" "same_seen sh (fst (route_datagram sh bs))"
  "peer_datagrams (fst (route_datagram sh bs)) = peer_datagrams sh"
  using count_drop_turn[of sh] fail_turn[of "violation_connection H3_DATAGRAM_ERROR" sh]
  by (auto simp: route_datagram_def deliver_def turn_ok_same same_seen_def split: sum.split option.split)

lemma control_frame_turn:
  "control_frame c sh f = Inr (c', sh') \<Longrightarrow> turn_ok sh sh' \<and> same_seen sh sh'"
  "control_frame c sh f = Inl v \<Longrightarrow> fatal v"
  by (cases f; auto simp: turn_ok_same same_seen_def unexpected_def missing_settings_def split: if_splits bool.splits)+

lemma control_accept_turn:
  "control_accept c sh it = Inr (c', sh') \<Longrightarrow> turn_ok sh sh' \<and> same_seen sh sh'"
  "control_accept c sh it = Inl v \<Longrightarrow> fatal v"
  by (cases it; auto simp: turn_ok_same same_seen_def unexpected_def missing_settings_def
      simp del: control_frame.simps dest: control_frame_turn split: if_splits)+

lemma control_turn_turn:
  assumes "control_turn sh c closed r = (sh', t)"
  shows "turn_ok sh sh' \<and> same_seen sh sh' \<and> (\<exists>c'. t = Controlling c') \<or> turn_ok sh sh' \<and> same_seen sh sh' \<and> t = Ended"
proof (cases "\<exists>it. r = Inr (Some it)")
  case True
  then obtain it where r: "r = Inr (Some it)" by blast
  show ?thesis
  proof (cases "control_accept c sh it")
    case (Inl v)
    then show ?thesis using assms r control_accept_turn(2)[OF Inl] fail_turn[of v sh] by (auto simp: control_turn_def)
  next
    case (Inr x)
    then show ?thesis using assms r control_accept_turn(1)[of c sh it] by (cases x) (auto simp: control_turn_def)
  qed
next
  case False
  have "turn_ok sh (fst (serve_control c sh closed [r])) \<and> same_seen sh (fst (serve_control c sh closed [r]))"
  proof (cases r)
    case (Inr x)
    with False have "x = None" by (cases x) auto
    with Inr show ?thesis using fail_if_turn by simp
  next
    case (Inl e)
    then show ?thesis
    proof (cases e)
      case (Stream x)
      then show ?thesis using Inl fail_if_turn by (cases x) (simp_all add: turn_ok_same same_seen_def)
    qed (use Inl fail_if_turn fail_turn in simp_all)
  qed
  moreover have "control_turn sh c closed r = (fst (serve_control c sh closed [r]), Ended)"
    using False by (auto simp: control_turn_def split: sum.split option.split)
  ultimately show ?thesis using assms by auto
qed

lemma qpack_instruction_fatal: "qpack_instruction kind b = Inl v \<Longrightarrow> fatal v"
  by (cases kind) (auto split: if_splits)

lemma progress_fatal: "progress_bytes p kind bs = Inl v \<Longrightarrow> fatal v"
  by (induction p kind bs rule: progress_bytes.induct)
    (auto simp: and_then_Inl_iff progress_take_def Let_def split: if_splits dest: qpack_instruction_fatal)

lemma qpack_turn_turn:
  assumes "qpack_turn sh kind p closed r = (sh', t)"
  shows "turn_ok sh sh' \<and> same_seen sh sh' \<and> peer_datagrams sh' = peer_datagrams sh \<and> ((\<exists>p'. t = Qpacking kind p') \<or> t = Ended)"
  using assms fail_if_turn[of sh closed] fail_turn[OF progress_fatal[of p kind]]
  by (cases r) (auto simp: qpack_turn_def turn_ok_same same_seen_def split: sum.splits)

text \<open>A stream that has said what it is: it is the first of its kind, or the connection is closed for it.\<close>

lemma stream_typed_turn:
  assumes "stream_typed sh typed = (sh', t, cs)"
  shows "turn_ok sh sh' \<and> peer_datagrams sh' = peer_datagrams sh \<and> set cs \<subseteq> {H3_STREAM_CREATION_ERROR}
    \<and> (same_seen sh sh' \<and> t = Ended
       \<or> \<not> control_seen sh \<and> sh' = sh\<lparr>control_seen := True\<rparr> \<and> t = Controlling control_default
       \<or> (\<exists>kind. \<not> qpack_seen kind sh \<and> sh' = mark_seen kind sh \<and> t = Qpacking kind progress_default))"
proof -
  have mark: "turn_ok sh (mark_seen kind sh)" "peer_datagrams (mark_seen kind sh) = peer_datagrams sh" for kind
    by (cases kind; simp add: turn_ok_same)+
  have "fatal duplicate" by (simp add: duplicate_def)
  note f = fail_turn[OF this, of sh] fail_turn[of "violation_connection H3_STREAM_CREATION_ERROR" sh]
  show ?thesis
    using assms f mark
    by (auto simp: stream_typed_def serve_stream_def turn_ok_same same_seen_def split: type_read.splits if_splits)
qed

lemma peer_inv_shared:
  assumes "peer_inv s" "turn_ok (peer_shared s) sh" "same_seen (peer_shared s) sh"
    "peer_datagrams sh \<longrightarrow> peer_datagrams (peer_shared s) \<or> control_seen (peer_shared s)"
  shows "peer_inv (s\<lparr>peer_shared := sh, peer_serving := b\<rparr>)"
  using assms same_seen_qpack[OF assms(3)] by (auto simp: peer_inv_def turn_ok_def same_seen_def)

lemma peer_inv_task:
  assumes "peer_inv s" "i < length (uni_tasks s)" "turn_ok (peer_shared s) sh" "same_seen (peer_shared s) sh"
    "peer_datagrams sh \<longrightarrow> peer_datagrams (peer_shared s) \<or> control_seen (peer_shared s)"
    "is_controlling t \<longrightarrow> is_controlling (uni_tasks s ! i)" "\<And>kind. is_qpacking kind t \<longrightarrow> is_qpacking kind (uni_tasks s ! i)"
    "set cs \<subseteq> {H3_STREAM_CREATION_ERROR}"
  shows "peer_inv (s\<lparr>peer_shared := sh, uni_tasks := (uni_tasks s)[i := t], stops_sent := stops_sent s @ cs\<rparr>)"
proof -
  have "count_if p ((uni_tasks s)[i := t]) \<le> count_if p (uni_tasks s)" if "p t \<longrightarrow> p (uni_tasks s ! i)" for p
    using count_if_update[OF assms(2), of p t] that by (auto split: if_splits)
  note fewer = this[of is_controlling, OF assms(6)] this[of "is_qpacking _", OF assms(7)]
  have "count_if is_controlling ((uni_tasks s)[i := t]) \<le> (if control_seen sh then 1 else 0)"
    using assms(1,4) fewer(1) by (simp add: peer_inv_def same_seen_def split: if_splits)
  moreover have "count_if (is_qpacking kind) ((uni_tasks s)[i := t]) \<le> (if qpack_seen kind sh then 1 else 0)" for kind
  proof -
    have "count_if (is_qpacking kind) (uni_tasks s) \<le> (if qpack_seen kind (peer_shared s) then 1 else 0)"
      using assms(1) unfolding peer_inv_def by blast
    then show ?thesis using fewer(2)[of kind] unfolding same_seen_qpack[OF assms(4)] by linarith
  qed
  ultimately show ?thesis
    using assms(1,3,4,5,8) by (auto simp: peer_inv_def turn_ok_def same_seen_def)
qed

lemma controlling_seen:
  assumes "peer_inv s" "i < length (uni_tasks s)" "is_controlling (uni_tasks s ! i)"
  shows "control_seen (peer_shared s)"
proof (rule ccontr)
  assume "\<not> control_seen (peer_shared s)"
  then have "filter is_controlling (uni_tasks s) = []" using assms(1) by (simp add: peer_inv_def count_if_def)
  with assms(2,3) show False using nth_mem[OF assms(2)] by (auto simp: filter_empty_conv)
qed

lemma peer_inv_typed:
  assumes "peer_inv s" "i < length (uni_tasks s)" "uni_tasks s ! i = Typing" "stream_typed (peer_shared s) typed = (sh, t, cs)"
  shows "peer_inv (s\<lparr>peer_shared := sh, uni_tasks := (uni_tasks s)[i := t], stops_sent := stops_sent s @ cs\<rparr>)"
proof -
  note upd = count_if_update[OF assms(2), of _ t, unfolded assms(3)]
  note turn = stream_typed_turn[OF assms(4)]
  then consider "same_seen (peer_shared s) sh" "t = Ended"
    | "\<not> control_seen (peer_shared s)" "sh = (peer_shared s)\<lparr>control_seen := True\<rparr>" "t = Controlling control_default"
    | kind where "\<not> qpack_seen kind (peer_shared s)" "sh = mark_seen kind (peer_shared s)" "t = Qpacking kind progress_default"
    by auto
  then show ?thesis
  proof cases
    case 1
    then show ?thesis using assms turn by (intro peer_inv_task) auto
  next
    case 2
    have "qpack_seen k sh = qpack_seen k (peer_shared s)" "control_seen sh" for k using 2(2) by (cases k; simp)+
    then show ?thesis
      using assms(1) turn upd[of is_controlling] upd[of "is_qpacking _"] 2(1,3) by (auto simp: peer_inv_def turn_ok_def)
  next
    case 3
    have "qpack_seen k sh = (k = kind \<or> qpack_seen k (peer_shared s))" "control_seen sh = control_seen (peer_shared s)" for k
      using 3(2) by (cases k; cases kind; simp)+
    then show ?thesis
      using assms(1) turn upd[of is_controlling] upd[of "is_qpacking _"] 3(1,3)
      by (auto simp: peer_inv_def turn_ok_def split: if_splits)
  qed
qed

lemma peer_inv_step: "peer_inv s \<Longrightarrow> peer_inv (peer_step s ev)"
proof -
  assume inv: "peer_inv s"
  have drop: "peer_inv (s\<lparr>peer_shared := (peer_shared s)\<lparr>closes := closes (peer_shared s) @ [H3_NO_ERROR]\<rparr>, peer_serving := False\<rparr>)"
  proof -
    have "qpack_seen kind ((peer_shared s)\<lparr>closes := cs\<rparr>) = qpack_seen kind (peer_shared s)" for kind cs by (cases kind) simp_all
    then show ?thesis using inv by (auto simp: peer_inv_def errors_ok_def split: option.splits)
  qed
  have grow: "peer_inv (s\<lparr>uni_tasks := uni_tasks s @ [Typing]\<rparr>)" "peer_inv (s\<lparr>peer_serving := False\<rparr>)"
    using inv by (simp_all add: peer_inv_def count_if_def)
  have routed: "peer_inv (s\<lparr>peer_shared := sh, peer_serving := b\<rparr>)" if "route_datagram (peer_shared s) bs = (sh, b)" for bs sh b
    using inv that route_turn[of "peer_shared s" bs] by (intro peer_inv_shared) auto
  have control: "peer_inv (s\<lparr>peer_shared := sh, uni_tasks := (uni_tasks s)[i := t]\<rparr>)"
    if "i < length (uni_tasks s)" "uni_tasks s ! i = Controlling c" "control_turn (peer_shared s) c closed r = (sh, t)" for i c closed r sh t
    using inv that controlling_seen[OF inv that(1)] control_turn_turn[OF that(3)] peer_inv_task[OF inv that(1), of sh t "[]"] by auto
  have qpack: "peer_inv (s\<lparr>peer_shared := sh, uni_tasks := (uni_tasks s)[i := t]\<rparr>)"
    if "i < length (uni_tasks s)" "uni_tasks s ! i = Qpacking k p" "qpack_turn (peer_shared s) k p closed r = (sh, t)" for i k p closed r sh t
    using inv that qpack_turn_turn[OF that(3)] peer_inv_task[OF inv that(1), of sh t "[]"] by auto
  show "peer_inv (peer_step s ev)"
    using inv drop grow routed control qpack peer_inv_typed[OF inv]
    by (auto simp: peer_step_def split: peer_event.split uni_task.split prod.split)
qed

interpretation peer: started_operations peer_step peer_inv peer_start
  by unfold_locales (simp_all add: peer_inv_step, simp add: peer_inv_def peer_start_def errors_ok_def shared_default_def count_if_def)

lemma peer_step_turn: "peer_shared (peer_step s ev) = (peer_shared s)\<lparr>closes := closes (peer_shared s) @ [H3_NO_ERROR]\<rparr>
   \<or> turn_ok (peer_shared s) (peer_shared (peer_step s ev))"
proof (cases ev)
  case (DatagramRead bs)
  then show ?thesis using route_turn(1)[of "peer_shared s" bs] by (auto simp: peer_step_def turn_ok_same split: prod.split)
next
  case (TypeArrives i typed)
  obtain sh t cs where t: "stream_typed (peer_shared s) typed = (sh, t, cs)" by (metis prod_cases3)
  have "turn_ok (peer_shared s) sh" using stream_typed_turn[OF t] by (rule conjunct1)
  then show ?thesis using TypeArrives t by (simp add: peer_step_def turn_ok_same)
next
  case (ControlYields i closed r)
  then show ?thesis
    using control_turn_turn[of "peer_shared s" _ closed r] by (auto simp: peer_step_def turn_ok_same split: prod.split uni_task.split)
next
  case (QpackDelivers i closed r)
  then show ?thesis
    using qpack_turn_turn[of "peer_shared s" _ _ closed r] by (auto simp: peer_step_def turn_ok_same split: prod.split uni_task.split)
qed (simp_all add: peer_step_def turn_ok_same)

lemma peer_step_error:
  "local_error (peer_shared s) = Some v \<Longrightarrow> local_error (peer_shared (peer_step s ev)) = Some v"
  using peer_step_turn[of s ev] by (auto simp: turn_ok_def)

lemma peer_run_error:
  "local_error (peer_shared s) = Some v \<Longrightarrow> local_error (peer_shared (foldl peer_step s evs)) = Some v"
  by (induction evs arbitrary: s) (simp_all add: peer_step_error)

section \<open>Properties\<close>

lemma prefaces: "open_critical_streams = Some [[0, 4, 16, 1, 0, 7, 0, 6, 128, 1, 0, 0, 8, 1, 51, 1, 65, 25, 0], [2], [3]]"
  by code_simp

text \<open>What opening the streams may have done: nothing, or one violation, told to the peer.\<close>

definition opening_effect :: "shared \<Rightarrow> shared \<Rightarrow> (connection_error + 'a) option \<Rightarrow> bool" where
  "opening_effect sh sh' r =
     (case r of
        Some (Inl (LocalConn v)) \<Rightarrow> sh' = fst (fail sh v) \<and> code v \<in> {H3_STREAM_CREATION_ERROR, H3_CLOSED_CRITICAL_STREAM}
      | _ \<Rightarrow> sh' = sh)"

lemma connection_error_from_remote: "connection_error_from e \<noteq> LocalConn v"
  by (cases e) auto

lemma opening_effect_lost: "opening_effect sh sh (Some (Inl (connection_error_from e)))"
  by (cases e) (simp_all add: opening_effect_def)

lemma opening_effect_write:
  assumes "critical_write sh e = (sh', err)" "local_error sh = None"
  shows "opening_effect sh sh' (Some (Inl err))"
proof (cases "\<exists>x. e = WriteConnectionLost x")
  case True
  then show ?thesis using assms opening_effect_lost by auto
next
  case False
  then have "fail sh (violation_connection H3_CLOSED_CRITICAL_STREAM) = (sh', err)" using assms(1) by (cases e) auto
  then show ?thesis
    using assms(2) fail_first(1)[of sh "violation_connection H3_CLOSED_CRITICAL_STREAM"] by (auto simp: opening_effect_def)
qed

lemma open_streams_outcome:
  assumes "open_streams sh written ps outs = (sh', written', r)" "local_error sh = None"
  shows "opening_effect sh sh' r \<and> (\<exists>d. written' = written @ d \<and> prefix d ps \<and> (r = Some (Inr ()) \<longrightarrow> d = ps))"
  using assms
proof (induction sh written ps outs rule: open_streams.induct)
  case (2 sh written p ps outs)
  then obtain d where "opening_effect sh sh' r" "written' = written @ p # d" "prefix d ps" "r = Some (Inr ()) \<longrightarrow> d = ps" by auto
  then show ?case by (intro conjI exI[of _ "p # d"]) simp_all
next
  case (3 sh written p ps e outs)
  then show ?case using opening_effect_lost by auto
next
  case (4 sh written p ps e outs)
  then show ?case using opening_effect_write[of sh e] by (auto split: prod.splits)
qed (auto simp: opening_effect_def)

lemma after_opening_outcome:
  assumes "opening_effect sh0 sh r" "local_error sh0 = None" "after_opening (sh, written, r) = (sh', written', r')"
  shows "written' = written \<and> opening_effect sh0 sh' (Some r') \<and> (\<forall>h. r' = Inr h \<longrightarrow> r = Some (Inr ()) \<and> h = connection_start \<and> sh' = sh0)"
proof (cases r)
  case None
  then have "fail sh0 (violation_connection H3_STREAM_CREATION_ERROR) = (sh', case r' of Inl e \<Rightarrow> e)" "written' = written" "\<exists>e. r' = Inl e"
    using assms by (auto simp: after_opening_def opening_effect_def split: prod.splits)
  then show ?thesis
    using assms(2) fail_first(1)[of sh0 "violation_connection H3_STREAM_CREATION_ERROR"] by (auto simp: opening_effect_def)
next
  case (Some x)
  show ?thesis
  proof (cases x)
    case (Inl e)
    then have "sh' = sh" "written' = written" "r' = Inl e" using assms(3) Some by (simp_all add: after_opening_def)
    then show ?thesis using assms(1) Some Inl by (cases e) (simp_all add: opening_effect_def)
  next
    case (Inr u)
    then show ?thesis using assms(1,3) Some by (auto simp: after_opening_def opening_effect_def)
  qed
qed

text \<open>
  The handshake always comes to an end of one of four kinds: the three critical streams are open, and
  SETTINGS have been written first; the transport lost the connection, and nothing more is said; a stream
  could not be written, or one idle timeout passed first, and then the peer is told which. Whatever was
  written is the beginning of what had to be.
\<close>

theorem handshake_outcome:
  "\<exists>c sh written r. open_critical_streams = Some [0 # c, [2], [3]]
     \<and> handshake outs = Some (sh, written, r) \<and> prefix written [0 # c, [2], [3]]
     \<and> (case r of
          Inr h3 \<Rightarrow> written = [0 # c, [2], [3]] \<and> sh = shared_default \<and> h3 = connection_start
        | Inl (LocalConn v) \<Rightarrow> local_error sh = Some v \<and> closes sh = [code v]
            \<and> code v \<in> {H3_STREAM_CREATION_ERROR, H3_CLOSED_CRITICAL_STREAM}
        | Inl _ \<Rightarrow> sh = shared_default)"
proof -
  let ?c = "[4, 16, 1, 0, 7, 0, 6, 128, 1, 0, 0, 8, 1, 51, 1, 65, 25, 0]"
  obtain sh0 written0 r0 where o: "open_streams shared_default [] [0 # ?c, [2], [3]] outs = (sh0, written0, r0)" by (metis prod_cases3)
  obtain sh written r where h: "after_opening (sh0, written0, r0) = (sh, written, r)" by (metis prod_cases3)
  have "local_error shared_default = None" "closes shared_default = []" by (simp_all add: shared_default_def)
  note out = open_streams_outcome[OF o this(1)] and start = this
  note eff = after_opening_outcome[OF conjunct1[OF out] start(1) h]
  have "handshake outs = Some (sh, written, r)" by (simp only: handshake_def prefaces option.map o h)
  moreover have "prefix written [0 # ?c, [2], [3]]" using out eff by auto
  moreover have "case r of
      Inr h3 \<Rightarrow> written = [0 # ?c, [2], [3]] \<and> sh = shared_default \<and> h3 = connection_start
    | Inl (LocalConn v) \<Rightarrow> local_error sh = Some v \<and> closes sh = [code v] \<and> code v \<in> {H3_STREAM_CREATION_ERROR, H3_CLOSED_CRITICAL_STREAM}
    | Inl _ \<Rightarrow> sh = shared_default"
  proof (cases r)
    case (Inr h3)
    then show ?thesis using out eff by auto
  next
    case (Inl e)
    then show ?thesis using eff start by (cases e) (simp_all add: opening_effect_def fail_first)
  qed
  ultimately show ?thesis using prefaces by blast
qed

text \<open>
  C16. Whatever a peer sends outside its requests, and however the tasks that read it take turns: at most one
  control stream and one QPACK stream of each kind is ever served, and the next of its kind closes the
  connection with H3_STREAM_CREATION_ERROR; datagrams are only taken to be allowed once there is a control
  stream; the first violation is a connection error, is never replaced by a later one, and its code is the
  only one the peer is told, beside the H3_NO_ERROR of a connection that is dropped; a stream is only ever
  stopped for its type.
\<close>

theorem peer_streams:
  "let s = foldl peer_step peer_start evs; sh = peer_shared s
   in count_if is_controlling (uni_tasks s) \<le> 1
    \<and> count_if (is_qpacking Encoder) (uni_tasks s) \<le> 1 \<and> count_if (is_qpacking Decoder) (uni_tasks s) \<le> 1
    \<and> (if control_seen sh
       then local_error (fst (stream_typed sh (TypeRead STREAM_CONTROL rest)))
         = Some (case local_error sh of None \<Rightarrow> violation_connection H3_STREAM_CREATION_ERROR | Some v \<Rightarrow> v)
       else \<not> peer_datagrams sh)
    \<and> (case local_error sh of
         None \<Rightarrow> set (closes sh) \<subseteq> {H3_NO_ERROR}
       | Some v \<Rightarrow> fatal v \<and> code v \<in> set (closes sh) \<and> set (closes sh) \<subseteq> {code v, H3_NO_ERROR}
           \<and> local_error (peer_shared (foldl peer_step s later)) = Some v)
    \<and> set (stops_sent s) \<subseteq> {H3_STREAM_CREATION_ERROR}"
proof -
  let ?s = "foldl peer_step peer_start evs"
  have inv: "peer_inv ?s" by (rule peer.inv_reached)
  then have "count_if is_controlling (uni_tasks ?s) \<le> 1" "count_if (is_qpacking k) (uni_tasks ?s) \<le> 1" for k
    by (auto simp: peer_inv_def split: if_splits intro: order_trans)
  moreover have "local_error (fst (stream_typed sh (TypeRead STREAM_CONTROL rest)))
      = Some (case local_error sh of None \<Rightarrow> violation_connection H3_STREAM_CREATION_ERROR | Some v \<Rightarrow> v)" if "control_seen sh" for sh
    using that by (simp add: stream_typed_def serve_stream_def fail_first duplicate_def)
  ultimately show ?thesis
    using inv peer_run_error[of ?s] by (auto simp: Let_def peer_inv_def errors_ok_def split: option.split)
qed

end
