(* ===== verification/Process.thy ===== *)
theory Process
  imports Reload
begin

text \<open>
  The process around the server: the shutdown latch of \<^verbatim>\<open>src/src/shutdown.rs\<close>, the accept loop
  \<^verbatim>\<open>Server::run\<close> of \<^verbatim>\<open>src/src/quic/mod.rs\<close>, and \<^verbatim>\<open>main\<close> with \<^verbatim>\<open>run\<close> of
  \<^verbatim>\<open>src/src/main.rs\<close>. The runtime, the signals and the socket are inputs.
\<close>

section \<open>The latch\<close>

text \<open>
  \<^verbatim>\<open>tokio::sync::watch\<close>: a value with a version, and how many triggers are left. The server keeps the
  receiver the channel was made with, so sending always stores the value. A task that waits in \<^verbatim>\<open>fired\<close> has
  yet to look, or has seen a version and sleeps until there is another, or sleeps for good because no
  trigger is left, or has returned.
\<close>

record watch =
  watch_value :: bool
  watch_version :: nat
  watch_triggers :: nat

datatype waiter = Asking | Sleeping nat | Hung | Woken

record latch =
  latch_watch :: watch
  latch_waiters :: "waiter list"

definition channel :: latch where
  "channel = \<lparr>latch_watch = \<lparr>watch_value = False, watch_version = 0, watch_triggers = 1\<rparr>, latch_waiters = []\<rparr>"

definition fire :: "watch \<Rightarrow> watch" where
  "fire w = w\<lparr>watch_value := True, watch_version := Suc (watch_version w)\<rparr>"

definition is_fired :: "watch \<Rightarrow> bool" where
  "is_fired w = watch_value w"

text \<open>One turn of the loop in \<^verbatim>\<open>fired\<close>, up to where it waits.\<close>

definition look :: "watch \<Rightarrow> waiter" where
  "look w = (if watch_value w then Woken else if watch_triggers w = 0 then Hung else Sleeping (watch_version w))"

definition poll_fired :: "watch \<Rightarrow> waiter \<Rightarrow> waiter" where
  "poll_fired w x =
     (case x of
        Asking \<Rightarrow> look w
      | Sleeping seen \<Rightarrow>
          if watch_version w \<noteq> seen then look w else if watch_triggers w = 0 then Hung else Sleeping seen
      | Hung \<Rightarrow> Hung
      | Woken \<Rightarrow> Woken)"

datatype latch_op = Fire | CloneTrigger | DropTrigger | Await | PollWaiter nat

fun latch_apply :: "latch \<Rightarrow> latch_op \<Rightarrow> latch" where
  "latch_apply l Fire = (if watch_triggers (latch_watch l) = 0 then l else l\<lparr>latch_watch := fire (latch_watch l)\<rparr>)"
| "latch_apply l CloneTrigger =
     (if watch_triggers (latch_watch l) = 0 then l
      else l\<lparr>latch_watch := (latch_watch l)\<lparr>watch_triggers := Suc (watch_triggers (latch_watch l))\<rparr>\<rparr>)"
| "latch_apply l DropTrigger =
     l\<lparr>latch_watch := (latch_watch l)\<lparr>watch_triggers := watch_triggers (latch_watch l) - 1\<rparr>\<rparr>"
| "latch_apply l Await = l\<lparr>latch_waiters := latch_waiters l @ [Asking]\<rparr>"
| "latch_apply l (PollWaiter i) =
     (if i < length (latch_waiters l)
      then l\<lparr>latch_waiters := (latch_waiters l)[i := poll_fired (latch_watch l) (latch_waiters l ! i)]\<rparr> else l)"

fun waiter_ok :: "watch \<Rightarrow> waiter \<Rightarrow> bool" where
  "waiter_ok w Asking = True"
| "waiter_ok w (Sleeping seen) = (if watch_value w then seen < watch_version w else seen \<le> watch_version w)"
| "waiter_ok w Hung = (\<not> watch_value w \<and> watch_triggers w = 0)"
| "waiter_ok w Woken = watch_value w"

definition latch_inv :: "latch \<Rightarrow> bool" where
  "latch_inv l \<longleftrightarrow> list_all (waiter_ok (latch_watch l)) (latch_waiters l)"

lemma waiter_ok_mono:
  "waiter_ok w x \<Longrightarrow> watch_triggers w \<noteq> 0 \<Longrightarrow> waiter_ok (fire w) x"
  "waiter_ok w x \<Longrightarrow> watch_triggers w \<noteq> 0 \<Longrightarrow> waiter_ok (w\<lparr>watch_triggers := n\<rparr>) x"
  "waiter_ok w x \<Longrightarrow> waiter_ok (w\<lparr>watch_triggers := watch_triggers w - Suc 0\<rparr>) x"
  by (cases x; auto simp: fire_def split: if_splits)+

lemma look_ok: "waiter_ok w (look w)"
  by (simp add: look_def)

lemma poll_ok: "waiter_ok w x \<Longrightarrow> waiter_ok w (poll_fired w x)"
  by (cases x) (auto simp: poll_fired_def look_ok)

lemma latch_inv_apply: "latch_inv l \<Longrightarrow> latch_inv (latch_apply l x)"
proof (cases x)
  case (PollWaiter i)
  assume "latch_inv l"
  with PollWaiter show ?thesis
    by (auto simp: latch_inv_def list_all_length nth_list_update poll_ok)
qed (auto simp: latch_inv_def list_all_iff waiter_ok_mono)

interpretation latch: started_operations latch_apply latch_inv channel
  by unfold_locales (simp_all add: latch_inv_apply, simp add: latch_inv_def channel_def)

section \<open>The accept loop\<close>

text \<open>
  \<^verbatim>\<open>Server::run\<close> between two waits: the tasks of its \<^verbatim>\<open>JoinSet\<close> that still run, by the number they are
  registered under, and how many have finished and are to be joined. A turn of the loop reaps those, then
  takes the first of the arms that is ready, the shutdown first; the arm that waits for a task to finish
  does nothing. After the loop the latch is read once more.
\<close>

datatype run_phase = Looping | Broken | Draining | Stopped

record accepting =
  acc_roster :: roster
  acc_fired :: bool
  acc_running :: "u64 list"
  acc_finished :: nat
  acc_phase :: run_phase

definition run_start :: accepting where
  "run_start = \<lparr>acc_roster = roster_new, acc_fired = False, acc_running = [], acc_finished = 0, acc_phase = Looping\<rparr>"

datatype accept_poll = NothingArrives | EndpointClosed | Arrives initial

definition accept_arm :: "u32 \<Rightarrow> accept_poll \<Rightarrow> accepting \<Rightarrow> accepting" where
  "accept_arm max_conns a s =
     (case a of
        NothingArrives \<Rightarrow> s
      | EndpointClosed \<Rightarrow> s\<lparr>acc_phase := Broken\<rparr>
      | Arrives i \<Rightarrow>
          (case arrive max_conns (acc_roster s) i of
             (r, Admit) \<Rightarrow> s\<lparr>acc_roster := r, acc_running := acc_running s @ [next_sequence (acc_roster s)]\<rparr>
           | (r, _) \<Rightarrow> s\<lparr>acc_roster := r\<rparr>))"

definition loop_turn :: "u32 \<Rightarrow> accept_poll \<Rightarrow> accepting \<Rightarrow> accepting" where
  "loop_turn max_conns a s =
     (case acc_phase s of
        Looping \<Rightarrow>
          let s = s\<lparr>acc_finished := 0\<rparr>
          in if acc_fired s then s\<lparr>acc_phase := Broken\<rparr> else accept_arm max_conns a s
      | Broken \<Rightarrow> s\<lparr>acc_phase := if acc_fired s then Draining else Stopped\<rparr>
      | _ \<Rightarrow> s)"

text \<open>What else happens meanwhile: the signal, the end of a connection's task, a first successful login.\<close>

datatype run_event = LoopTurn u32 accept_poll | SignalFires | TaskEnds u64 | LogsIn u64

fun run_apply :: "accepting \<Rightarrow> run_event \<Rightarrow> accepting" where
  "run_apply s (LoopTurn m a) = loop_turn m a s"
| "run_apply s SignalFires = s\<lparr>acc_fired := True\<rparr>"
| "run_apply s (TaskEnds k) =
     (if k \<in> set (acc_running s)
      then s\<lparr>acc_roster := drop_registration (acc_roster s) k, acc_running := remove1 k (acc_running s),
             acc_finished := Suc (acc_finished s)\<rparr>
      else s)"
| "run_apply s (LogsIn k) = s\<lparr>acc_roster := mark_slot (acc_roster s) k\<rparr>"

definition registered :: "roster \<Rightarrow> u64 set" where
  "registered r = fst ` set (slots r)"

definition run_inv :: "accepting \<Rightarrow> bool" where
  "run_inv s \<longleftrightarrow> roster_inv (acc_roster s) \<and> registered (acc_roster s) \<subseteq> set (acc_running s)
     \<and> (acc_phase s = Draining \<longrightarrow> acc_fired s)"

lemma btree_insert_keys: "fst ` set (btree_insert k x m) \<subseteq> insert k (fst ` set m)"
  by (induction k x m rule: btree_insert.induct) auto

lemma arrive_registered:
  assumes "roster_inv r" "arrive m r i = (r', v)"
  shows "roster_inv r' \<and> registered r' \<subseteq> (if v = Admit then insert (next_sequence r) (registered r) else registered r)"
proof -
  obtain r1 v1 where a: "admit m r i = (r1, v1)" by fastforce
  have r1: "roster_inv r1" "next_sequence r1 = next_sequence r" "registered r1 \<subseteq> registered r"
    using admit_inv[OF assms(1), of m i] evict_facts(3,5)[OF assms(1), of "live_ceiling m"] a
    by (auto simp: admit_def registered_def Let_def split: if_splits prod.splits)
  have reg: "registered (fst (register r1 addr g)) \<subseteq> insert (next_sequence r) (registered r)" for addr g
  proof -
    have "registered (fst (register r1 addr g)) \<subseteq> insert (next_sequence r1) (registered r1)"
      using btree_insert_keys by (simp add: register_def registered_def Let_def)
    with r1(2,3) show ?thesis by auto
  qed
  show ?thesis
  proof (cases "v1 = Admit")
    case True
    with assms(2) a have "r' = fst (register r1 (in_remote i) gate_closed)" "v = Admit" by (auto simp: arrive_def)
    with reg register_inv[OF r1(1)] show ?thesis by simp
  next
    case False
    with assms(2) a have "r' = r1" "v = v1" by (auto simp: arrive_def split: admission.splits)
    with r1 False show ?thesis by simp
  qed
qed

lemma accept_arm_effect:
  assumes "run_inv s"
  shows "run_inv (accept_arm m a s) \<and> acc_fired (accept_arm m a s) = acc_fired s"
proof (cases a)
  case (Arrives i)
  obtain r v where ar: "arrive m (acc_roster s) i = (r, v)" by fastforce
  with assms arrive_registered[of "acc_roster s" m i r v] Arrives show ?thesis
    by (cases v) (auto simp: accept_arm_def run_inv_def)
qed (use assms in \<open>auto simp: accept_arm_def run_inv_def\<close>)

lemma run_inv_apply:
  assumes "run_inv s"
  shows "run_inv (run_apply s x)"
proof (cases x)
  case (LoopTurn m a)
  have "run_inv (s\<lparr>acc_finished := 0\<rparr>)" using assms by (simp add: run_inv_def)
  from accept_arm_effect[OF this, of m a] assms LoopTurn show ?thesis
    by (auto simp: loop_turn_def run_inv_def Let_def split: run_phase.splits)
next
  case (TaskEnds k)
  have "registered (drop_registration r k) = registered r - {k}" for r
    by (auto simp: registered_def drop_registration_def btree_remove_def)
  moreover have "set xs - {k} \<subseteq> set (remove1 k xs)" for xs by (induction xs) auto
  moreover have "roster_inv (drop_registration r k)" if "roster_inv r" for r
    using that by (simp add: roster_inv_def drop_registration_def btree_remove_sorted)
  ultimately show ?thesis using assms TaskEnds by (fastforce simp: run_inv_def)
next
  case (LogsIn k)
  have "registered (mark_slot r k) = registered r" for r
    by (force simp: registered_def mark_slot_def)
  with assms LogsIn show ?thesis
    by (auto simp: run_inv_def roster_inv_def mark_slot_def sorted_wrt_map case_prod_beta)
qed (use assms in \<open>simp add: run_inv_def\<close>)

interpretation accept_loop: started_operations run_apply run_inv run_start
  by unfold_locales (rule run_inv_apply, assumption, simp add: run_inv_def run_start_def roster_inv_def roster_new_def registered_def)

lemma no_entry_after_shutdown:
  "acc_fired s \<or> acc_phase s \<noteq> Looping \<Longrightarrow>
   set (acc_running (run_apply s x)) \<subseteq> set (acc_running s)
   \<and> (acc_fired (run_apply s x) \<or> acc_phase (run_apply s x) \<noteq> Looping)"
  by (cases x) (auto simp: loop_turn_def Let_def split: run_phase.splits dest: subsetD[OF set_remove1_subset])

lemma no_entry_run:
  "acc_fired s \<or> acc_phase s \<noteq> Looping \<Longrightarrow> set (acc_running (foldl run_apply s evs)) \<subseteq> set (acc_running s)"
proof (induction evs arbitrary: s)
  case (Cons x evs)
  from no_entry_after_shutdown[OF Cons.prems, of x] Cons.IH[of "run_apply s x"] show ?case by auto
qed simp

section \<open>The process\<close>

record cli =
  cli_check_config :: bool
  cli_diagnostics :: bool

datatype run_error = FilterInvalid | BindFailed server_error | SocketFailed

text \<open>
  \<^verbatim>\<open>run\<close>: logging is set up from the environment or else from the configured level, the server is bound, and
  when it stops the grace period is that of the configuration then in force.
\<close>

definition run_server ::
  "('c, 'k) pki \<Rightarrow> (bytes \<Rightarrow> bool) \<Rightarrow> bool \<Rightarrow> bool \<Rightarrow> (('c, 'k) running \<Rightarrow> config) \<Rightarrow> config \<Rightarrow> run_error + u64" where
  "run_server p try_new from_env socket_ok serve c =
     (if \<not> from_env \<and> \<not> try_new (log_level (cfg_log c)) then Inl FilterInvalid
      else case server_config p c of
        Inl e \<Rightarrow> Inl (BindFailed e)
      | Inr q \<Rightarrow> if \<not> socket_ok then Inl SocketFailed else Inr (srv_shutdown_grace (cfg_server (serve (bind_server c q)))))"

text \<open>How \<^verbatim>\<open>main\<close> ends; a process that served, or tried to, is left a time for its blocking threads.\<close>

datatype exit =
    UsageError
  | ConfigUnusable config_error
  | Checked "config_warning list"
  | Diagnosed
  | NoRuntime
  | Served "run_error + unit" u64

definition main_process ::
  "'h certificates \<Rightarrow> cli \<Rightarrow> config_error + config \<Rightarrow> bool \<Rightarrow> (config \<Rightarrow> run_error + u64) \<Rightarrow> exit" where
  "main_process certs cl loaded runtime_ok run =
     (if cli_check_config cl \<and> cli_diagnostics cl then UsageError
      else case loaded of
        Inl e \<Rightarrow> ConfigUnusable e
      | Inr c \<Rightarrow>
          if cli_check_config cl then Checked (warnings certs c)
          else if cli_diagnostics cl then Diagnosed
          else if \<not> runtime_ok then NoRuntime
          else case run c of
            Inl e \<Rightarrow> Served (Inl e) (blocking_grace (srv_shutdown_grace (cfg_server c)))
          | Inr grace \<Rightarrow> Served (Inr ()) (blocking_grace grace))"

section \<open>One grace period\<close>

text \<open>What can still happen to a server whose drain has closed the listener, as a function.\<close>

datatype ('c, 'k) late_event = LateFire | LateReload "('c, 'k) pki" config | LateAccept | LateDrain | LateRun nat

fun late_apply ::
  "(config \<Rightarrow> bool) \<Rightarrow> ('c, 'k) running \<Rightarrow> ('c, 'k) late_event \<Rightarrow> ('c, 'k) running" where
  "late_apply loads s LateFire = s\<lparr>fired := True\<rparr>"
| "late_apply loads s (LateReload p c) =
     (if loads c
      then (case reload p (Some c) of Some t \<Rightarrow> s\<lparr>threads := threads s @ [t]\<rparr> | None \<Rightarrow> s) else s)"
| "late_apply loads s LateAccept = s\<lparr>threads := threads s @ [thread_new accept_under_the_swap]\<rparr>"
| "late_apply loads s LateDrain =
     (if fired s then s\<lparr>threads := threads s @ [thread_new close_listener]\<rparr> else s)"
| "late_apply loads s (LateRun i) = (if i < length (threads s) then run_thread i s else s)"

definition settled :: "(config \<Rightarrow> bool) \<Rightarrow> config \<Rightarrow> ('c, 'k) running \<Rightarrow> bool" where
  "settled loads c s \<longleftrightarrow> swap_reach loads s \<and> endpoint s = None \<and> live_config s = c"

lemma late_reach: "swap_reach loads s \<Longrightarrow> swap_reach loads (late_apply loads s x)"
  by (cases x) (auto intro: swap_reach.intros split: option.split)

interpretation late: operations "late_apply loads" "settled loads c" for loads c
proof (unfold_locales, goal_cases)
  case (1 s x)
  then have s: "swap_reach loads s" "endpoint s = None" "live_config s = c" by (simp_all add: settled_def)
  have "endpoint (late_apply loads s x) = None \<and> live_config (late_apply loads s x) = c"
    using s run_settled[OF swap_inv_reach[OF s(1)] s(2)] by (cases x) (auto split: option.split)
  with late_reach[OF s(1)] show ?case by (simp add: settled_def)
qed

section \<open>Properties\<close>

text \<open>
  Shutdown and the latch. However triggers are cloned, dropped and fired and however often waiting tasks are
  polled, a task that waits for the shutdown returns at its next poll when the latch has fired and keeps
  waiting when it has not; a fired latch stays fired; and firing always takes effect while a trigger exists.
\<close>

theorem latch_wakes:
  "let l = foldl latch_apply channel ops; w = latch_watch l
   in list_all (\<lambda>x. poll_fired w x = Woken \<longleftrightarrow> is_fired w) (latch_waiters l)
    \<and> (if is_fired w then is_fired (latch_watch (latch_apply l x)) else True)
    \<and> (if watch_triggers w = 0 then True else is_fired (latch_watch (latch_apply l Fire)))"
proof -
  define l where "l = foldl latch_apply channel ops"
  have inv: "latch_inv l" unfolding l_def by (rule latch.inv_reached)
  have "poll_fired w y = Woken \<longleftrightarrow> watch_value w" if "waiter_ok w y" for w y
    using that by (cases y) (auto simp: poll_fired_def look_def)
  with inv have "list_all (\<lambda>x. poll_fired (latch_watch l) x = Woken \<longleftrightarrow> is_fired (latch_watch l)) (latch_waiters l)"
    by (simp add: latch_inv_def is_fired_def list_all_iff)
  moreover have "is_fired (latch_watch (latch_apply l x))" if "is_fired (latch_watch l)"
    using that by (cases x) (auto simp: is_fired_def fire_def)
  ultimately show ?thesis unfolding l_def[symmetric] Let_def by (simp add: is_fired_def fire_def)
qed

text \<open>
  C18. The accept loop. In every state it can get into, each connection on the roster has a task the drain will
  wait for, and the server drains only after the signal. Once the signal has fired, or the loop has been
  left, no connection is started any more, whatever arrives, and two turns take a loop that has been
  signalled into the drain, whoever is at the door.
\<close>

theorem accept_loop_shutdown:
  "let s = foldl run_apply run_start evs
   in fst ` set (slots (acc_roster s)) \<subseteq> set (acc_running s)
    \<and> (if acc_phase s = Draining then acc_fired s else True)
    \<and> (if acc_fired s \<or> acc_phase s \<in> {Broken, Draining, Stopped}
       then set (acc_running (foldl run_apply s more_evs)) \<subseteq> set (acc_running s) else True)
    \<and> (if acc_fired s \<and> acc_phase s = Looping
       then acc_phase (loop_turn m' a' (loop_turn m a s)) = Draining \<and> acc_roster (loop_turn m' a' (loop_turn m a s)) = acc_roster s
       else True)"
proof -
  define s where "s = foldl run_apply run_start evs"
  have "run_inv s" unfolding s_def by (rule accept_loop.inv_reached)
  then show ?thesis
    unfolding s_def[symmetric] Let_def
    using no_entry_run[of s more_evs] by (auto simp: run_inv_def registered_def loop_turn_def)
qed

text \<open>
  C17. The drain and the process agree on the grace period, whatever is reloaded meanwhile. From the moment the
  drain has closed the listener the configuration does not change any more: a reload that arrives later
  leaves it alone. So the grace period the drain reads is the one \<^verbatim>\<open>main\<close> reads when the server has
  stopped, and the time it then leaves for the blocking threads is longer than the drain took, flush
  included.
\<close>

theorem grace_agreed:
  assumes "swap_reach (\<lambda>c. \<exists>is_file. validate_config env_filter is_file c = Inr ()) s" "endpoint s = None"
    and "s' = foldl (late_apply (\<lambda>c. \<exists>is_file. validate_config env_filter is_file c = Inr ())) s evs"
    and "main_process certs \<lparr>cli_check_config = False, cli_diagnostics = False\<rparr> (Inr c) True
           (run_server p try_new from_env True (\<lambda>_. live_config s')) = Served (Inr ()) t"
  shows "live_config s' = live_config s
    \<and> snd (drain_server (srv_shutdown_grace (cfg_server (live_config s))) ends flush) < unat t"
proof -
  let ?loads = "\<lambda>c. \<exists>is_file. validate_config env_filter is_file c = Inr ()"
  have "settled ?loads (live_config s) s'"
    unfolding assms(3) by (rule late.inv_run) (simp add: settled_def assms(1,2))
  then have same: "live_config s' = live_config s" by (simp add: settled_def)
  have "t = blocking_grace (srv_shutdown_grace (cfg_server (live_config s)))"
    using assms(4) by (simp add: main_process_def run_server_def same split: if_splits sum.splits)
  moreover obtain is_file where "validate_config env_filter is_file (live_config s) = Inr ()"
    using clean_loads[OF swap_inv_reach[OF assms(1)] closed_clean[OF swap_inv_reach[OF assms(1)] assms(2)]] by blast
  ultimately show ?thesis using drain_in_time[of env_filter is_file "live_config s" ends flush] same by simp
qed

theorem grace_agreed_witness:
  "\<exists>t. main_process \<lparr>cert_load = (\<lambda>_. None :: unit list option), cert_parses = (\<lambda>_. True), cert_verifies = (\<lambda>_ _. True)\<rparr>
           \<lparr>cli_check_config = False, cli_diagnostics = False\<rparr> (Inr sample_config) True
           (run_server (sample_pki 0) (\<lambda>_. True) False True (\<lambda>_. sample_config)) = Served (Inr ()) t
     \<and> snd (drain_server (srv_shutdown_grace (cfg_server sample_config)) [None] None) < unat t"
proof -
  obtain q where q: "server_config (sample_pki 0) sample_config = Inr q" by (rule sample_server_config)
  let ?s = "(bind_server sample_config q)\<lparr>fired := True, threads := [thread_new close_listener]\<rparr>"
  have "swap_reach sample_loads (bind_server sample_config q)" by (rule swap_reach.bound[of sample_loads, OF sample_loads_config q])
  from swap_reach.drain[OF swap_reach.fire[OF this]] have "swap_reach sample_loads ?s" by (simp add: bind_server_def)
  then have "swap_reach sample_loads ((run_thread 0 ^^ 2) ?s)" by (rule swap_reach_runs) simp
  from grace_agreed[OF this _ refl, where p = "sample_pki 0" and evs = "[LateFire, LateRun 0]" and c = sample_config and try_new = "\<lambda>_. True"
      and from_env = False and ends = "[None]" and flush = None]
  show ?thesis
    by (simp add: main_process_def run_server_def q bind_server_def run_thread_def thread_new_def close_listener_def eval_nat_numeral)
qed

end
