(* ===== verification/Diagnostics.thy ===== *)
theory Diagnostics
  imports Logfmt "HOL-Library.Sublist"
begin

text \<open>
  What \<^verbatim>\<open>volto --diagnostics\<close> makes of the files of \<^verbatim>\<open>/proc\<close> (\<^verbatim>\<open>src/src/net.rs\<close>, \<^verbatim>\<open>src/src/main.rs\<close>), and how a
  log line is marked for the journal. A text is the list of its Unicode scalar values; the files and the
  process table are inputs.
\<close>

type_synonym chars = "nat list"

definition ascii_text :: "string \<Rightarrow> chars" where
  "ascii_text t = map of_char t"

section \<open>Text\<close>

text \<open>\<^verbatim>\<open>char::is_whitespace\<close>: the Unicode property \<^verbatim>\<open>White_Space\<close>.\<close>

definition is_whitespace :: "nat \<Rightarrow> bool" where
  "is_whitespace c \<longleftrightarrow> 9 \<le> c \<and> c \<le> 13 \<or> c = 32 \<or> c = 0x85 \<or> c = 0xa0 \<or> c = 0x1680
     \<or> 0x2000 \<le> c \<and> c \<le> 0x200a \<or> c = 0x2028 \<or> c = 0x2029 \<or> c = 0x202f \<or> c = 0x205f \<or> c = 0x3000"

text \<open>\<^verbatim>\<open>str::lines\<close>: a line ends with a line feed, or a carriage return and one; the last may do without.\<close>

definition strip_return :: "chars \<Rightarrow> chars" where
  "strip_return l = (if l \<noteq> [] \<and> last l = 13 then butlast l else l)"

function text_lines :: "chars \<Rightarrow> chars list" where
  "text_lines cs =
     (if cs = [] then []
      else case dropWhile (\<lambda>c. c \<noteq> 10) cs of
        [] \<Rightarrow> [cs]
      | _ # rest \<Rightarrow> strip_return (takeWhile (\<lambda>c. c \<noteq> 10) cs) # text_lines rest)"
  by pat_completeness auto
termination
proof (relation "measure length", goal_cases)
  case (2 cs x rest)
  then have "length (x # rest) \<le> length cs" using length_dropWhile_le[of "\<lambda>c. c \<noteq> 10" cs] by simp
  then show ?case by simp
qed simp

function split_whitespace :: "chars \<Rightarrow> chars list" where
  "split_whitespace cs =
     (let cs = dropWhile is_whitespace cs
      in if cs = [] then []
         else takeWhile (\<lambda>c. \<not> is_whitespace c) cs # split_whitespace (dropWhile (\<lambda>c. \<not> is_whitespace c) cs))"
  by pat_completeness auto
termination
proof (relation "measure length", goal_cases)
  case (2 cs x)
  then obtain c r where "dropWhile is_whitespace cs = c # r" by (cases "dropWhile is_whitespace cs") auto
  moreover have "\<not> is_whitespace c" using calculation by (metis hd_dropWhile list.discI list.sel(1))
  moreover have "length (c # r) \<le> length cs" using length_dropWhile_le[of is_whitespace cs] calculation(1) by simp
  ultimately show ?case using 2(1) length_dropWhile_le[of "\<lambda>c. \<not> is_whitespace c" r] by simp
qed simp

declare text_lines.simps [simp del] split_whitespace.simps [simp del]

text \<open>\<^verbatim>\<open>str::parse\<close> to a \<^verbatim>\<open>u64\<close>: decimal digits after at most one plus sign, of a value that fits.\<close>

fun digits_value :: "nat \<Rightarrow> chars \<Rightarrow> nat option" where
  "digits_value v [] = Some v"
| "digits_value v (c # cs) = (if 48 \<le> c \<and> c \<le> 57 then digits_value (10 * v + (c - 48)) cs else None)"

definition parse_u64 :: "chars \<Rightarrow> u64 option" where
  "parse_u64 cs =
     (let ds = (case cs of c # rest \<Rightarrow> if c = 43 then rest else cs | [] \<Rightarrow> [])
      in if ds = [] then None
         else case digits_value 0 ds of None \<Rightarrow> None | Some v \<Rightarrow> if v < 2 ^ 64 then Some (of_nat v) else None)"

section \<open>The limits of a process\<close>

definition limit_column :: "chars \<Rightarrow> u64 option option" where
  "limit_column column =
     (if column = ascii_text ''unlimited'' then Some None else map_option Some (parse_u64 column))"

definition row_rest :: "chars \<Rightarrow> chars option" where
  "row_rest l =
     (let p = ascii_text ''Max open files'' in if take (length p) l = p then Some (drop (length p) l) else None)"

definition max_open_files :: "chars \<Rightarrow> (u64 option \<times> u64 option) option" where
  "max_open_files limits =
     (case map row_rest (filter (\<lambda>l. row_rest l \<noteq> None) (text_lines limits)) of
        Some row # _ \<Rightarrow>
          if row \<noteq> [] \<and> is_whitespace (hd row)
          then (case split_whitespace row of
                  soft # hard # _ \<Rightarrow>
                    (case limit_column soft of
                       None \<Rightarrow> None
                     | Some s \<Rightarrow> map_option (\<lambda>h. (s, h)) (limit_column hard))
                | _ \<Rightarrow> None)
          else None
      | _ \<Rightarrow> None)"

definition or_unlimited :: "u64 option \<Rightarrow> chars" where
  "or_unlimited l = (case l of None \<Rightarrow> ascii_text ''unlimited'' | Some v \<Rightarrow> map unat (decimal (unat v)))"

text \<open>
  The processes whose limits are printed: of the entries of \<^verbatim>\<open>/proc\<close> those named after a number, other than
  this process, that are called \<^verbatim>\<open>volto\<close> or run the same file, in order.
\<close>

record proc_entry =
  proc_pid :: "u32 option"
  proc_comm :: "chars option"
  proc_exe :: "chars option"

definition trim :: "chars \<Rightarrow> chars" where
  "trim cs = rev (dropWhile is_whitespace (rev (dropWhile is_whitespace cs)))"

definition service_pids :: "u32 \<Rightarrow> chars option \<Rightarrow> proc_entry list \<Rightarrow> u32 list" where
  "service_pids own_pid own_exe entries =
     sort (map (the \<circ> proc_pid) (filter (\<lambda>e.
       case proc_pid e of
         None \<Rightarrow> False
       | Some pid \<Rightarrow>
           pid \<noteq> own_pid
           \<and> ((case proc_comm e of Some comm \<Rightarrow> trim comm = ascii_text ''volto'' | None \<Rightarrow> False)
              \<or> (case proc_exe e of Some exe \<Rightarrow> own_exe = Some exe | None \<Rightarrow> False))) entries))"

section \<open>Log lines\<close>

datatype level = Error | Warn | Info | Debug | Trace

fun syslog_prefix :: "level \<Rightarrow> string" where
  "syslog_prefix Error = ''<3>''"
| "syslog_prefix Warn = ''<4>''"
| "syslog_prefix Info = ''<6>''"
| "syslog_prefix _ = ''<7>''"

definition logs_to_journal :: "bytes option \<Rightarrow> bool" where
  "logs_to_journal journal_stream = (case journal_stream of None \<Rightarrow> False | Some v \<Rightarrow> v \<noteq> [])"

text \<open>\<^verbatim>\<open>JournalPriority\<close> around the formatter \<open>fmt\<close>, when the log goes to the journal.\<close>

definition format_event :: "bytes option \<Rightarrow> ('e \<Rightarrow> bytes) \<Rightarrow> level \<Rightarrow> 'e \<Rightarrow> bytes" where
  "format_event journal_stream fmt lvl e =
     (if logs_to_journal journal_stream then byte_string (syslog_prefix lvl) @ fmt e else fmt e)"

section \<open>A row is read back\<close>

lemma digits_value_append:
  "digits_value v (xs @ ys) = (case digits_value v xs of None \<Rightarrow> None | Some w \<Rightarrow> digits_value w ys)"
  by (induction v xs rule: digits_value.induct) auto

lemma decimal_chars: "\<forall>c \<in> set (map unat (decimal n)). 48 \<le> c \<and> c \<le> 57"
proof (induction n rule: decimal.induct)
  case (1 n)
  have d: "48 \<le> unat (0x30 + of_nat k :: byte) \<and> unat (0x30 + of_nat k :: byte) \<le> 57" if "k < 10" for k
    using that by (simp add: unat_word_ariths unat_of_nat)
  with 1 show ?case by (subst decimal.simps) auto
qed

lemma digits_decimal: "digits_value 0 (map unat (decimal n)) = Some n"
proof (induction n rule: decimal.induct)
  case (1 n)
  have d: "unat (0x30 + of_nat k :: byte) = 48 + k" if "k < 10" for k
    using that by (simp add: unat_word_ariths unat_of_nat)
  show ?case
  proof (cases "n < 10")
    case True
    then show ?thesis by (simp add: decimal.simps[of n] d)
  next
    case False
    with 1 show ?thesis by (simp add: decimal.simps[of n] digits_value_append d)
  qed
qed

lemma decimal_not_empty: "decimal n \<noteq> []"
  by (subst decimal.simps) simp

lemma parse_decimal: "parse_u64 (map unat (decimal (unat v))) = Some v"
proof -
  obtain c cs where c: "map unat (decimal (unat v)) = c # cs" using decimal_not_empty[of "unat v"] by (cases "decimal (unat v)") auto
  then have "c \<noteq> 43" using decimal_chars[of "unat v"] by auto
  with c digits_decimal[of "unat v"] unsigned_less[of v, where 'a = nat] show ?thesis by (simp add: parse_u64_def)
qed

text \<open>A column, as it is printed, is read as what it was printed from; and it has no white space in it.\<close>

lemma limit_roundtrip: "limit_column (or_unlimited l) = Some l"
proof (cases l)
  case (Some v)
  have "hd (map unat (decimal (unat v))) \<le> 57"
    using decimal_chars[of "unat v"] decimal_not_empty[of "unat v"] by (cases "decimal (unat v)") auto
  then have "map unat (decimal (unat v)) \<noteq> ascii_text ''unlimited''" by (auto simp: ascii_text_def)
  with Some show ?thesis by (simp add: limit_column_def or_unlimited_def parse_decimal)
qed (simp add: limit_column_def or_unlimited_def)

lemma column_dark: "or_unlimited l \<noteq> [] \<and> list_all (\<lambda>c. \<not> is_whitespace c \<and> c \<noteq> 10 \<and> c \<noteq> 13) (or_unlimited l)"
proof (cases l)
  case (Some v)
  have "\<not> is_whitespace c \<and> c \<noteq> 10 \<and> c \<noteq> 13" if "48 \<le> c" "c \<le> 57" for c using that by (auto simp: is_whitespace_def)
  with Some decimal_chars[of "unat v"] decimal_not_empty show ?thesis by (auto simp: or_unlimited_def list_all_iff)
qed (simp add: or_unlimited_def ascii_text_def is_whitespace_def)

lemma split_whitespace_word:
  assumes "list_all is_whitespace pad" "w \<noteq> []" "list_all (\<lambda>c. \<not> is_whitespace c) w" "rest = [] \<or> is_whitespace (hd rest)"
  shows "split_whitespace (pad @ w @ rest) = w # split_whitespace rest"
proof -
  have "dropWhile is_whitespace (pad @ w @ rest) = w @ rest"
    using assms(1-3) by (cases w) (auto simp: list_all_iff dropWhile_append)
  moreover have "takeWhile (\<lambda>c. \<not> is_whitespace c) (w @ rest) = w" "dropWhile (\<lambda>c. \<not> is_whitespace c) (w @ rest) = rest"
    using assms(3,4) by (cases rest; auto simp: list_all_iff takeWhile_append2 dropWhile_append2)+
  ultimately show ?thesis using assms(2) by (subst split_whitespace.simps) simp
qed

lemma text_lines_cons:
  assumes "10 \<notin> set l"
  shows "text_lines (l @ 10 # rest) = strip_return l # text_lines rest"
proof -
  have "dropWhile (\<lambda>c. c \<noteq> 10) (l @ 10 # rest) = 10 # rest" "takeWhile (\<lambda>c. c \<noteq> 10) (l @ 10 # rest) = l"
    using assms by (induction l) auto
  then show ?thesis by (subst text_lines.simps) simp
qed

lemma text_lines_concat:
  assumes "list_all (\<lambda>l. 10 \<notin> set l) ls"
  shows "text_lines (concat (map (\<lambda>l. l @ [10]) ls) @ rest) = map strip_return ls @ text_lines rest"
  using assms by (induction ls) (simp_all add: text_lines_cons)

lemma row_rest_strip: "row_rest l = None \<Longrightarrow> row_rest (strip_return l) = None"
proof -
  have prefix: "row_rest l \<noteq> None \<longleftrightarrow> prefix (ascii_text ''Max open files'') l" for l
    by (auto simp: row_rest_def Let_def prefix_def take_is_prefix intro: exI[of _ "drop 14 l"]) (metis append_take_drop_id)
  have "prefix (strip_return l) l" by (simp add: strip_return_def prefixeq_butlast)
  then show "row_rest l = None \<Longrightarrow> ?thesis" using prefix prefix_order.trans by blast
qed

lemma row_rest_row: "row_rest (ascii_text ''Max open files'' @ r) = Some r"
  by (simp add: row_rest_def Let_def)

lemma blanks: "list_all is_whitespace (replicate n 32)" "is_whitespace 32"
  by (simp_all add: list_all_length is_whitespace_def)

section \<open>Properties\<close>

text \<open>
  The limits of a running service are read as the kernel writes them: whatever rows come before and
  whatever follows, a row that names the open files, padded to any width, gives its soft and its hard limit,
  a number of 64 bits or the word for none. What is printed of them is what the file says.
\<close>

theorem max_open_files_roundtrip:
  assumes "list_all (\<lambda>l. 10 \<notin> set l \<and> row_rest l = None) ls" "10 \<notin> set units" "13 \<notin> set units"
  shows "max_open_files (concat (map (\<lambda>l. l @ [10]) ls)
      @ ascii_text ''Max open files'' @ replicate (Suc i) 32 @ or_unlimited soft @ replicate (Suc j) 32
      @ or_unlimited hard @ replicate (Suc k) 32 @ units @ 10 # rest) = Some (soft, hard)"
proof -
  let ?row = "replicate (Suc i) 32 @ or_unlimited soft @ replicate (Suc j) 32 @ or_unlimited hard @ replicate (Suc k) 32 @ units"
  let ?l = "ascii_text ''Max open files'' @ ?row"
  have dark: "or_unlimited l \<noteq> []" "list_all (\<lambda>c. \<not> is_whitespace c) (or_unlimited l)" "10 \<notin> set (or_unlimited l)" for l
    using column_dark[of l] by (auto simp: list_all_iff)
  have line: "10 \<notin> set ?l" using dark(3) assms(2) by (auto simp: ascii_text_def)
  have "last ?l \<noteq> 13" using assms(3) by (cases "units = []") (auto simp: last_append dest: last_in_set)
  then have strip: "strip_return ?l = ?l" by (simp add: strip_return_def)
  have "text_lines (concat (map (\<lambda>l. l @ [10]) ls) @ ?l @ 10 # rest) = map strip_return ls @ ?l # text_lines rest"
    using text_lines_concat[of ls "?l @ 10 # rest"] text_lines_cons[OF line, of rest] assms(1) strip by (simp add: list_all_iff)
  moreover have "filter (\<lambda>l. row_rest l \<noteq> None) (map strip_return ls) = []"
    using assms(1) row_rest_strip by (fastforce simp: list_all_iff filter_empty_conv)
  ultimately have row: "map row_rest (filter (\<lambda>l. row_rest l \<noteq> None) (text_lines (concat (map (\<lambda>l. l @ [10]) ls) @ ?l @ 10 # rest)))
      = Some ?row # map row_rest (filter (\<lambda>l. row_rest l \<noteq> None) (text_lines rest))"
    by (simp only: filter_append list.map append_Nil filter.simps row_rest_row option.distinct if_True not_False_eq_True)
  have "split_whitespace ?row = [or_unlimited soft, or_unlimited hard] @ split_whitespace (replicate (Suc k) 32 @ units)"
    using split_whitespace_word[OF blanks(1)[of "Suc i"] dark(1,2)[of soft]]
      split_whitespace_word[OF blanks(1)[of "Suc j"] dark(1,2)[of hard], of "replicate (Suc k) 32 @ units"] blanks(2)
    by simp
  with row show ?thesis by (simp add: max_open_files_def limit_roundtrip blanks(2))
qed

theorem max_open_files_roundtrip_witness:
  "max_open_files (ascii_text ''Max processes 7'' @ 10 # ascii_text ''Max open files'' @ replicate 12 32 @ or_unlimited (Some 131072)
     @ replicate 15 32 @ or_unlimited None @ replicate 12 32 @ ascii_text ''files'' @ [10]) = Some (Some 131072, None)"
  using max_open_files_roundtrip[of "[ascii_text ''Max processes 7'']" "ascii_text ''files''" 11 "Some 131072" 14 None 11 "[]"]
  by (simp add: ascii_text_def row_rest_def numeral_eq_Suc)

end
