(* ===== verification/Log_Escape.thy ===== *)
theory Log_Escape
  imports Logfmt
begin

text \<open>
  \<^verbatim>\<open>escaped_bytes\<close> and \<^verbatim>\<open>peer_error\<close> of \<^verbatim>\<open>src/src/logfmt.rs\<close>: peer bytes as they reach a log line that is
  printed with \<^verbatim>\<open>Display\<close>. The quoting is that of \<^verbatim>\<open>Debug\<close> for \<^verbatim>\<open>str\<close>. The Unicode tables it consults
  are the parameter \<open>plain\<close>: the characters that are printable and do not extend the one before.
\<close>

section \<open>Quoting a string\<close>

fun code_point :: "bytes \<Rightarrow> nat" where
  "code_point [b] = unat b"
| "code_point [b, c] = unat (take_bit 5 b) * 64 + unat (take_bit 6 c)"
| "code_point [b, c, d] = (unat (take_bit 4 b) * 64 + unat (take_bit 6 c)) * 64 + unat (take_bit 6 d)"
| "code_point [b, c, d, e] =
     ((unat (take_bit 3 b) * 64 + unat (take_bit 6 c)) * 64 + unat (take_bit 6 d)) * 64 + unat (take_bit 6 e)"
| "code_point _ = 0"

definition hex_char :: "nat \<Rightarrow> byte" where
  "hex_char n = (if n < 10 then 0x30 + of_nat n else 0x57 + of_nat n)"

fun lower_hex :: "nat \<Rightarrow> bytes" where
  "lower_hex n = (if n < 16 then [hex_char n] else lower_hex (n div 16) @ [hex_char (n mod 16)])"

declare lower_hex.simps [simp del]

definition unicode_escape :: "nat \<Rightarrow> bytes" where
  "unicode_escape c = [0x5c, 0x75, 0x7b] @ lower_hex c @ [0x7d]"

text \<open>\<^verbatim>\<open>char::escape_debug\<close>, as \<^verbatim>\<open>str\<close> asks for it: the single quote is left as it is.\<close>

definition escape_char :: "(nat \<Rightarrow> bool) \<Rightarrow> bytes \<Rightarrow> bytes" where
  "escape_char plain ch =
     (let c = code_point ch
      in if c = 0 then [0x5c, 0x30]
         else if c = 9 then [0x5c, 0x74]
         else if c = 13 then [0x5c, 0x72]
         else if c = 10 then [0x5c, 0x6e]
         else if c = 0x22 then [0x5c, 0x22]
         else if c = 0x5c then [0x5c, 0x5c]
         else if plain c then ch
         else unicode_escape c)"

function escape_str :: "(nat \<Rightarrow> bool) \<Rightarrow> bytes \<Rightarrow> bytes" where
  "escape_str plain bs =
     (if bs = [] then []
      else escape_char plain (take (snd (utf8_next bs)) bs) @ escape_str plain (drop (snd (utf8_next bs)) bs))"
  by pat_completeness auto
termination
  by (relation "measure (length \<circ> snd)") (use utf8_next_pos in auto)

declare escape_str.simps [simp del]

definition debug_str :: "(nat \<Rightarrow> bool) \<Rightarrow> bytes \<Rightarrow> bytes" where
  "debug_str plain bs = 0x22 # escape_str plain bs @ [0x22]"

section \<open>Peer bytes\<close>

definition escaped_bytes :: "(nat \<Rightarrow> bool) \<Rightarrow> bytes \<Rightarrow> bytes" where
  "escaped_bytes plain token = debug_str plain (bounded_bytes token)"

text \<open>A connection error as \<^verbatim>\<open>quinn\<close> reports it: the two kinds of close with the peer's reason phrase, and the rest.\<close>

datatype 'r quinn_error = ConnectionClosedFor 'r bytes | ApplicationClosedFor 'r bytes | OtherQuinnError 'r

fun peer_error :: "(nat \<Rightarrow> bool) \<Rightarrow> 'r quinn_error \<Rightarrow> 'r quinn_error" where
  "peer_error plain (ConnectionClosedFor r reason) = ConnectionClosedFor r (escaped_bytes plain reason)"
| "peer_error plain (ApplicationClosedFor r reason) = ApplicationClosedFor r (escaped_bytes plain reason)"
| "peer_error plain (OtherQuinnError r) = OtherQuinnError r"

fun reason_of :: "'r quinn_error \<Rightarrow> bytes option" where
  "reason_of (ConnectionClosedFor _ reason) = Some reason"
| "reason_of (ApplicationClosedFor _ reason) = Some reason"
| "reason_of (OtherQuinnError _) = None"

section \<open>What is quoted stays quoted\<close>

text \<open>
  What the tables say of the characters a log depends on: of ASCII the printable ones are plain, the control
  characters, those of the second block (U+0080 to U+009F) among them, are not, and the replacement
  character is.
\<close>

definition ascii_plain :: "(nat \<Rightarrow> bool) \<Rightarrow> bool" where
  "ascii_plain plain \<longleftrightarrow> (\<forall>c < 160. plain c \<longleftrightarrow> 32 \<le> c \<and> c < 127) \<and> plain 0xfffd"

definition is_control :: "nat \<Rightarrow> bool" where
  "is_control c \<longleftrightarrow> c < 32 \<or> 127 \<le> c \<and> c < 160"

text \<open>The characters of a string, by their code points.\<close>

function chars :: "bytes \<Rightarrow> nat list" where
  "chars bs =
     (if bs = [] then [] else code_point (take (snd (utf8_next bs)) bs) # chars (drop (snd (utf8_next bs)) bs))"
  by pat_completeness auto
termination
  by (relation "measure length") (use utf8_next_pos in auto)

declare chars.simps [simp del]

lemma ascii_prefix:
  assumes "list_all (\<lambda>b. b < 0x80) x"
  shows "chars (x @ r) = map unat x @ chars r" "utf8_valid (x @ r) = utf8_valid r"
  using assms by (induction x) (simp_all add: chars.simps[of "_ # _"] utf8_valid.simps[of "_ # _"] char_width_def)

text \<open>A reader of quoted strings: what follows the first quote that no backslash takes away.\<close>

fun literal_rest :: "bytes \<Rightarrow> bytes option" where
  "literal_rest [] = None"
| "literal_rest [b] = (if b = 0x22 then Some [] else None)"
| "literal_rest (b # c # r) =
     (if b = 0x22 then Some (c # r) else if b = 0x5c then literal_rest r else literal_rest (c # r))"

lemma literal_rest_plain:
  "list_all (\<lambda>b. b \<noteq> 0x22 \<and> b \<noteq> 0x5c) x \<Longrightarrow> literal_rest (x @ r) = literal_rest r"
proof (induction x)
  case (Cons b x)
  then show ?case by (cases "x @ r") auto
qed simp

lemma literal_rest_escape: "literal_rest (0x5c # b # r) = literal_rest r"
  by simp

definition harmless :: "byte \<Rightarrow> bool" where
  "harmless b \<longleftrightarrow> 0x20 \<le> b \<and> b \<noteq> 0x7f"

lemma hex_char_facts: "n < 16 \<Longrightarrow> harmless (hex_char n) \<and> hex_char n \<noteq> 0x22 \<and> hex_char n \<noteq> 0x5c \<and> hex_char n < 0x80"
proof -
  have "list_all (\<lambda>n. harmless (hex_char n) \<and> hex_char n \<noteq> 0x22 \<and> hex_char n \<noteq> 0x5c \<and> hex_char n < 0x80) [0..<16]" by code_simp
  then show "n < 16 \<Longrightarrow> ?thesis" by (simp add: list_all_iff)
qed

lemma lower_hex_facts:
  "list_all (\<lambda>b. harmless b \<and> b \<noteq> 0x22 \<and> b \<noteq> 0x5c \<and> b < 0x80) (lower_hex n)"
proof (induction n rule: lower_hex.induct)
  case (1 n)
  then show ?case using hex_char_facts[of n] hex_char_facts[of "n mod 16"] by (subst lower_hex.simps) simp
qed

lemma lower_hex_length: "n < 16 ^ k \<Longrightarrow> 0 < k \<Longrightarrow> length (lower_hex n) \<le> k"
proof (induction n arbitrary: k rule: lower_hex.induct)
  case (1 n)
  show ?case
  proof (cases "n < 16")
    case True
    with 1(3) show ?thesis by (simp add: lower_hex.simps[of n])
  next
    case False
    with 1(2) have "k \<noteq> 1" by auto
    with 1(3) obtain j where j: "k = Suc j" "0 < j" by (cases k) auto
    with 1(2) have "n div 16 < 16 ^ j" by (simp add: less_mult_imp_div_less mult.commute)
    with 1(1)[OF False, of j] j False show ?thesis by (simp add: lower_hex.simps[of n])
  qed
qed

text \<open>A well-formed character: one ASCII byte, or two to four bytes none of which is ASCII.\<close>

definition well_formed :: "bytes \<Rightarrow> bool" where
  "well_formed ch \<longleftrightarrow> ch \<noteq> [] \<and> length ch \<le> 4 \<and> (if length ch = 1 then hd ch < 0x80 else list_all (\<lambda>b. 0x80 \<le> b) ch)"

lemma utf8_next_well_formed:
  assumes "fst (utf8_next bs)"
  shows "well_formed (take (snd (utf8_next bs)) bs)
    \<and> utf8_next (take (snd (utf8_next bs)) bs @ rest) = (True, length (take (snd (utf8_next bs)) bs))"
proof -
  have wide: "char_width b \<noteq> 1 \<Longrightarrow> 0x80 \<le> b" for b by (auto simp: char_width_def split: if_splits)
  have one: "char_width b = 1 \<Longrightarrow> b < 0x80" for b by (auto simp: char_width_def split: if_splits)
  have second: "second_ok b c \<Longrightarrow> 0x80 \<le> c" for b c
    by (auto simp: second_ok_def is_cont_def word_le_nat_alt split: if_splits)
  have cont: "is_cont c \<Longrightarrow> 0x80 \<le> c" for c by (simp add: is_cont_def)
  show ?thesis
    using assms
    by (cases bs) (auto simp: well_formed_def wide one cont intro: second split: list.splits if_splits)
qed

lemma escape_str_char:
  assumes "fst (utf8_next bs)"
  shows "escape_str plain (take (snd (utf8_next bs)) bs @ rest)
    = escape_char plain (take (snd (utf8_next bs)) bs) @ escape_str plain rest"
proof -
  define ch where "ch = take (snd (utf8_next bs)) bs"
  have "well_formed ch" "utf8_next (ch @ rest) = (True, length ch)"
    using utf8_next_well_formed[OF assms, of rest] by (simp_all add: ch_def)
  then show ?thesis unfolding ch_def[symmetric] by (subst escape_str.simps) (simp add: well_formed_def)
qed

lemma unicode_escape_facts:
  "list_all harmless (unicode_escape c)" "literal_rest (unicode_escape c @ r) = literal_rest r"
  "c < 16 ^ k \<Longrightarrow> 0 < k \<Longrightarrow> length (unicode_escape c) \<le> 4 + k"
proof -
  have h: "list_all harmless (lower_hex c)" "list_all (\<lambda>b. b \<noteq> 0x22 \<and> b \<noteq> 0x5c) (0x7b # lower_hex c @ [0x7d])"
    using lower_hex_facts[of c] by (auto simp: list_all_iff)
  from h(1) show "list_all harmless (unicode_escape c)" by (simp add: unicode_escape_def harmless_def)
  from literal_rest_plain[OF h(2), of r] show "literal_rest (unicode_escape c @ r) = literal_rest r"
    by (simp add: unicode_escape_def)
  show "c < 16 ^ k \<Longrightarrow> 0 < k \<Longrightarrow> length (unicode_escape c) \<le> 4 + k"
    using lower_hex_length[of c k] by (simp add: unicode_escape_def)
qed

lemma code_point_small:
  assumes "well_formed ch"
  shows "code_point ch < 16 ^ (2 * length ch)"
proof -
  have t: "unat (take_bit k (b :: byte)) < 2 ^ k" for k b by (simp add: unat_take_bit_mod)
  note bounds = t[of 3] t[of 4] t[of 5] t[of 6]
  have u: "unat (b :: byte) < 256" for b by (rule byte_less)
  consider b where "ch = [b]" | b c where "ch = [b, c]" | b c d where "ch = [b, c, d]" | b c d e where "ch = [b, c, d, e]"
    using assms by (auto simp: well_formed_def le_Suc_eq length_Suc_conv numeral_eq_Suc)
  then show ?thesis
  proof cases
    case (1 b)
    then show ?thesis using u[of b] by simp
  next
    case (2 b c)
    then show ?thesis using bounds(3)[of b] bounds(4)[of c] by simp
  next
    case (3 b c d)
    then show ?thesis using bounds(2)[of b] bounds(4)[of c] bounds(4)[of d] by simp
  next
    case (4 b c d e)
    then show ?thesis using bounds(1)[of b] bounds(4)[of c] bounds(4)[of d] bounds(4)[of e] by simp
  qed
qed

lemma plain_char_harmless:
  assumes "ascii_plain plain" "well_formed ch" "plain (code_point ch)" "code_point ch \<noteq> 0x22" "code_point ch \<noteq> 0x5c"
  shows "list_all (\<lambda>b. harmless b \<and> b \<noteq> 0x22 \<and> b \<noteq> 0x5c) ch"
proof (cases "length ch = 1")
  case True
  then obtain b where b: "ch = [b]" by (auto simp: length_Suc_conv)
  with assms(2) have "unat b < 128" by (simp add: well_formed_def word_less_nat_alt)
  with assms(1,3-5) b show ?thesis
    by (auto simp: ascii_plain_def harmless_def word_le_nat_alt)
next
  case False
  have "harmless b \<and> b \<noteq> 0x22 \<and> b \<noteq> 0x5c" if "0x80 \<le> b" for b :: byte
    using that by (auto simp: harmless_def word_le_nat_alt)
  with assms(2) False show ?thesis by (auto simp: well_formed_def list_all_iff)
qed

lemma escape_char_facts:
  assumes "ascii_plain plain" "well_formed ch"
  shows "list_all harmless (escape_char plain ch)" "literal_rest (escape_char plain ch @ r) = literal_rest r"
    "length (escape_char plain ch) \<le> 6 * length ch"
proof -
  have pos: "1 \<le> length ch" using assms(2) by (cases ch) (simp_all add: well_formed_def)
  have two: "list_all harmless [0x5c, b] \<and> literal_rest ([0x5c, b] @ r) = literal_rest r \<and> length [0x5c, b] \<le> 6 * length ch"
    if "harmless b" for b using pos that by (simp add: harmless_def)
  have "length (unicode_escape (code_point ch)) \<le> 4 + 2 * length ch"
    using pos by (intro unicode_escape_facts(3) code_point_small[OF assms(2)]) auto
  then have uni: "list_all harmless (unicode_escape (code_point ch))
    \<and> literal_rest (unicode_escape (code_point ch) @ r) = literal_rest r
    \<and> length (unicode_escape (code_point ch)) \<le> 6 * length ch"
    using unicode_escape_facts(1,2) pos by simp
  have pl: "list_all harmless ch \<and> literal_rest (ch @ r) = literal_rest r \<and> length ch \<le> 6 * length ch"
    if "plain (code_point ch)" "code_point ch \<noteq> 0x22" "code_point ch \<noteq> 0x5c"
    using plain_char_harmless[OF assms that] literal_rest_plain[of ch r] by (auto simp: list_all_iff)
  have "list_all harmless (escape_char plain ch) \<and> literal_rest (escape_char plain ch @ r) = literal_rest r
    \<and> length (escape_char plain ch) \<le> 6 * length ch"
    unfolding escape_char_def Let_def
    using uni pl two[of "0x30"] two[of "0x74"] two[of "0x72"] two[of "0x6e"] two[of "0x22"] two[of "0x5c"]
    by (simp only: split: if_split) (simp add: harmless_def)
  then show "list_all harmless (escape_char plain ch)" "literal_rest (escape_char plain ch @ r) = literal_rest r"
    "length (escape_char plain ch) \<le> 6 * length ch" by simp_all
qed

lemma escape_str_facts:
  assumes "ascii_plain plain" "utf8_valid bs"
  shows "list_all harmless (escape_str plain bs) \<and> literal_rest (escape_str plain bs @ r) = literal_rest r"
  using assms(2)
proof (induction bs rule: utf8_valid.induct)
  case (1 bs)
  show ?case
  proof (cases "bs = []")
    case False
    with 1(2) have v: "fst (utf8_next bs)" "utf8_valid (drop (snd (utf8_next bs)) bs)"
      by (simp_all add: utf8_valid.simps[of bs])
    note ch = escape_char_facts[OF assms(1) conjunct1[OF utf8_next_well_formed[OF v(1), of "[]"]]]
    from 1(1)[OF False v(2)] ch False show ?thesis by (subst (1 2) escape_str.simps) simp
  qed (simp add: escape_str.simps)
qed

text \<open>Character by character: what is quoted is text again, and none of its characters is a control character.\<close>

lemma harmless_ascii:
  assumes "list_all (\<lambda>b. harmless b \<and> b < 0x80) x"
  shows "list_all (\<lambda>b. b < 0x80) x" "list_all (\<lambda>c. \<not> is_control c) (map unat x)"
  using assms by (auto simp: list_all_iff harmless_def is_control_def word_le_nat_alt word_less_nat_alt word_unat_eq_iff)

lemma escape_char_chars:
  assumes "ascii_plain plain" "fst (utf8_next bs)" "utf8_valid r" "list_all (\<lambda>c. \<not> is_control c) (chars r)"
  shows "utf8_valid (escape_char plain (take (snd (utf8_next bs)) bs) @ r)
    \<and> list_all (\<lambda>c. \<not> is_control c) (chars (escape_char plain (take (snd (utf8_next bs)) bs) @ r))"
proof -
  define ch where "ch = take (snd (utf8_next bs)) bs"
  have w: "well_formed ch" "utf8_next (ch @ r) = (True, length ch)"
    using utf8_next_well_formed[OF assms(2), of r] by (simp_all add: ch_def)
  have ascii: "utf8_valid (x @ r) \<and> list_all (\<lambda>c. \<not> is_control c) (chars (x @ r))"
    if "list_all (\<lambda>b. harmless b \<and> b < 0x80) x" for x
    using harmless_ascii[OF that] ascii_prefix assms(3,4) by simp
  have uni: "list_all (\<lambda>b. harmless b \<and> b < 0x80) (unicode_escape c)" for c
    using lower_hex_facts[of c] by (auto simp: unicode_escape_def harmless_def list_all_iff)
  have two: "list_all (\<lambda>b. harmless b \<and> b < 0x80) [0x5c, b]" if "b \<in> {0x30, 0x74, 0x72, 0x6e, 0x22, 0x5c}" for b
    using that by (auto simp: harmless_def)
  have self: "utf8_valid (ch @ r) \<and> list_all (\<lambda>c. \<not> is_control c) (chars (ch @ r))" if "plain (code_point ch)"
  proof -
    have "\<not> is_control (code_point ch)" using that assms(1) by (auto simp: ascii_plain_def is_control_def)
    moreover have "ch \<noteq> []" using w(1) by (simp add: well_formed_def)
    ultimately show ?thesis using w(2) assms(3,4) by (simp add: chars.simps[of "ch @ r"] utf8_valid.simps[of "ch @ r"])
  qed
  show ?thesis
    unfolding ch_def[symmetric] escape_char_def Let_def
    using self ascii[OF uni[of "code_point ch"]] ascii[OF two]
    by (simp only: split: if_split) simp
qed

lemma escape_str_chars:
  assumes "ascii_plain plain" "utf8_valid bs" "utf8_valid r" "list_all (\<lambda>c. \<not> is_control c) (chars r)"
  shows "utf8_valid (escape_str plain bs @ r) \<and> list_all (\<lambda>c. \<not> is_control c) (chars (escape_str plain bs @ r))"
  using assms(2)
proof (induction bs rule: utf8_valid.induct)
  case (1 bs)
  show ?case
  proof (cases "bs = []")
    case False
    with 1(2) have v: "fst (utf8_next bs)" "utf8_valid (drop (snd (utf8_next bs)) bs)"
      by (simp_all add: utf8_valid.simps[of bs])
    from 1(1)[OF False v(2)] escape_char_chars[OF assms(1) v(1)] False show ?thesis
      by (subst (1 2) escape_str.simps) simp
  qed (use assms(3,4) in \<open>simp add: escape_str.simps\<close>)
qed

lemma escape_str_append: "utf8_valid x \<Longrightarrow> escape_str plain (x @ y) = escape_str plain x @ escape_str plain y"
proof (induction x rule: utf8_valid.induct)
  case (1 x)
  show ?case
  proof (cases "x = []")
    case False
    let ?n = "snd (utf8_next x)"
    from 1(2) False have v: "fst (utf8_next x)" "utf8_valid (drop ?n x)" by (simp_all add: utf8_valid.simps[of x])
    have "escape_str plain (x @ y) = escape_str plain (take ?n x @ drop ?n x @ y)" by (simp flip: append_assoc)
    also have "\<dots> = escape_char plain (take ?n x) @ escape_str plain (drop ?n x @ y)" by (rule escape_str_char[OF v(1)])
    finally show ?thesis using 1(1)[OF False v(2)] False escape_str.simps[of plain x] by simp
  qed (simp add: escape_str.simps)
qed

lemma escape_str_ascii:
  assumes "ascii_plain plain" "list_all (\<lambda>b. 0x20 \<le> b \<and> b < 0x7f \<and> b \<noteq> 0x22 \<and> b \<noteq> 0x5c) bs"
  shows "escape_str plain bs = bs"
  using assms(2)
proof (induction bs)
  case (Cons b bs)
  then have b: "32 \<le> unat b" "unat b < 127" "unat b \<noteq> 0x22" "unat b \<noteq> 0x5c"
    by (auto simp: word_le_nat_alt word_less_nat_alt word_unat_eq_iff)
  then have "plain (unat b)" using assms(1) by (simp add: ascii_plain_def)
  moreover have "char_width b = 1" using b by (simp add: char_width_def word_less_nat_alt)
  ultimately show ?case using Cons b by (subst escape_str.simps) (simp add: escape_char_def)
qed (simp add: escape_str.simps)

lemma escape_replacement: "ascii_plain plain \<Longrightarrow> escape_char plain REPLACEMENT = REPLACEMENT"
proof -
  have "code_point REPLACEMENT = 0xfffd" by (simp add: REPLACEMENT_def unat_take_bit_mod)
  then show "ascii_plain plain \<Longrightarrow> ?thesis" by (simp add: escape_char_def ascii_plain_def)
qed

lemma escape_lossy_length:
  assumes "ascii_plain plain"
  shows "length (escape_str plain (utf8_lossy bs)) \<le> 6 * length bs"
proof (induction bs rule: utf8_lossy.induct)
  case (1 bs)
  show ?case
  proof (cases "bs = []")
    case False
    let ?n = "snd (utf8_next bs)" and ?rest = "utf8_lossy (drop (snd (utf8_next bs)) bs)"
    have n: "0 < ?n" "?n \<le> length bs" using utf8_next_pos[OF False] by simp_all
    have r: "length (escape_str plain ?rest) \<le> 6 * (length bs - ?n)" using 1[OF False] by simp
    show ?thesis
    proof (cases "fst (utf8_next bs)")
      case True
      have "length (escape_char plain (take ?n bs)) \<le> 6 * ?n"
        using escape_char_facts(3)[OF assms conjunct1[OF utf8_next_well_formed[OF True, of "[]"]]] n by simp
      moreover have "escape_str plain (utf8_lossy bs) = escape_char plain (take ?n bs) @ escape_str plain ?rest"
        using escape_str_char[OF True, of plain ?rest] True False by (simp add: utf8_lossy.simps[of bs])
      ultimately show ?thesis using r n by simp
    next
      case bad: False
      have "utf8_next REPLACEMENT = (True, 3)" by code_simp
      then have "escape_str plain (REPLACEMENT @ ?rest) = REPLACEMENT @ escape_str plain ?rest"
        using escape_str_char[of REPLACEMENT plain ?rest] escape_replacement[OF assms] by (simp add: REPLACEMENT_def)
      then have "escape_str plain (utf8_lossy bs) = REPLACEMENT @ escape_str plain ?rest"
        using bad False by (simp add: utf8_lossy.simps[of bs])
      then show ?thesis using r n by (simp add: REPLACEMENT_def)
    qed
  qed (simp add: utf8_lossy.simps escape_str.simps)
qed

lemma truncation_plain:
  "list_all (\<lambda>b. 0x20 \<le> b \<and> b < 0x7f \<and> b \<noteq> 0x22 \<and> b \<noteq> 0x5c) (byte_string ''... <truncated from '' @ decimal n @ byte_string '' bytes>'')"
proof -
  have "list_all (\<lambda>b. (0x20 :: byte) \<le> b \<and> b < 0x7f \<and> b \<noteq> 0x22 \<and> b \<noteq> 0x5c) (decimal n)"
  proof (induction n rule: decimal.induct)
    case (1 n)
    have "list_all (\<lambda>k. (0x20 :: byte) \<le> 0x30 + of_nat k \<and> 0x30 + of_nat k < (0x7f :: byte)
        \<and> 0x30 + of_nat k \<noteq> (0x22 :: byte) \<and> 0x30 + of_nat k \<noteq> (0x5c :: byte)) [0..<10]" by code_simp
    then have "(0x20 :: byte) \<le> 0x30 + of_nat k \<and> 0x30 + of_nat k < (0x7f :: byte)
        \<and> 0x30 + of_nat k \<noteq> (0x22 :: byte) \<and> 0x30 + of_nat k \<noteq> (0x5c :: byte)" if "k < 10" for k
      using that by (simp add: list_all_iff)
    with 1 show ?case by (subst decimal.simps) simp
  qed
  moreover have "list_all (\<lambda>b. (0x20 :: byte) \<le> b \<and> b < 0x7f \<and> b \<noteq> 0x22 \<and> b \<noteq> 0x5c)
      (byte_string ''... <truncated from '' @ byte_string '' bytes>'')" by code_simp
  ultimately show ?thesis by simp
qed

lemma escaped_length:
  assumes "ascii_plain plain" "length token < 2 ^ 64"
  shows "length (escaped_bytes plain token) \<le> 241"
proof (cases "length token \<le> MAX_TOKEN")
  case True
  with escape_lossy_length[OF assms(1), of token] show ?thesis
    by (simp add: escaped_bytes_def debug_str_def bounded_bytes_def MAX_TOKEN_def)
next
  case False
  let ?head = "utf8_lossy (take MAX_TOKEN token)"
  have "escape_str plain (log_truncated ?head (length token))
      = escape_str plain ?head @ log_truncated [] (length token)"
    using escape_str_append[OF utf8_lossy_valid[of "take MAX_TOKEN token"]] escape_str_ascii[OF assms(1) truncation_plain]
    by (simp add: log_truncated_def)
  moreover have "length (escape_str plain ?head) \<le> 192"
    using escape_lossy_length[OF assms(1), of "take MAX_TOKEN token"] False by (simp add: MAX_TOKEN_def)
  ultimately show ?thesis
    using length_log_truncated[OF assms(2), of "[]"] False
    by (simp add: escaped_bytes_def debug_str_def bounded_bytes_def)
qed

section \<open>Properties\<close>

lemma escaped_bytes_quoted:
  assumes "ascii_plain plain"
  shows "list_all harmless (escaped_bytes plain token)
    \<and> (\<exists>body. escaped_bytes plain token = 0x22 # body \<and> literal_rest body = Some []
         \<and> utf8_valid body \<and> list_all (\<lambda>c. \<not> is_control c) (chars body))"
proof -
  have v: "utf8_valid (bounded_bytes token)" by (simp add: bounded_bytes_def utf8_lossy_valid valid_log_truncated)
  have quote: "utf8_valid [0x22]" "list_all (\<lambda>c. \<not> is_control c) (chars [0x22])"
    using ascii_prefix[of "[0x22]" "[]"] by (simp_all add: chars.simps[of "[]"] is_control_def)
  from escape_str_facts[OF assms v, of "[0x22]"] escape_str_chars[OF assms v quote] show ?thesis
    by (simp add: escaped_bytes_def debug_str_def harmless_def)
qed

text \<open>
  C31. A peer cannot write log lines of its own. Whatever bytes it puts in the reason phrase of a close, what
  the error carries to the log after \<^verbatim>\<open>peer_error\<close> is one quoted literal that ends at its own last byte,
  is text none of whose characters is a control character of either block -- no line break and no escape
  sequence, be it of one byte or of two -- and is at most 241 bytes long.
\<close>

theorem peer_error_contained:
  assumes "ascii_plain plain" "length reason < 2 ^ 64" "reason_of e = Some reason"
  shows "\<exists>body. reason_of (peer_error plain e) = Some (0x22 # body) \<and> literal_rest body = Some []
    \<and> list_all harmless body \<and> utf8_valid body \<and> list_all (\<lambda>c. \<not> is_control c) (chars body) \<and> length body < 241"
proof -
  from escaped_bytes_quoted[OF assms(1), of reason] obtain body where
    b: "escaped_bytes plain reason = 0x22 # body" "literal_rest body = Some []" "list_all harmless body"
    "utf8_valid body" "list_all (\<lambda>c. \<not> is_control c) (chars body)" by auto
  with escaped_length[OF assms(1,2)] assms(3) show ?thesis by (cases e) auto
qed

theorem peer_error_contained_witness:
  "\<exists>body. reason_of (peer_error (\<lambda>c. 32 \<le> c \<and> \<not> (127 \<le> c \<and> c < 160)) (ApplicationClosedFor () [0x0a, 0xc2, 0x9b])) = Some (0x22 # body)
     \<and> literal_rest body = Some [] \<and> list_all harmless body \<and> utf8_valid body
     \<and> list_all (\<lambda>c. \<not> is_control c) (chars body) \<and> length body < 241"
  by (rule peer_error_contained[where reason = "[0x0a, 0xc2, 0x9b]"]) (auto simp: ascii_plain_def)

end
