(* ===== verification/Fuzz_Codecs.thy ===== *)
theory Fuzz_Codecs
  imports Capsule Frame_Decoding Qpack
begin

text \<open>
  \<^verbatim>\<open>src/fuzz/fuzz_targets/\<close>: the targets \<^verbatim>\<open>datagram.rs\<close>, \<^verbatim>\<open>capsule.rs\<close>, \<^verbatim>\<open>frame.rs\<close> and \<^verbatim>\<open>qpack.rs\<close>. A target is
  a function of the fuzzer's input whose value says whether every assertion held; an early \<^verbatim>\<open>return\<close> is
  \<^const>\<open>True\<close>, a failed assertion, an \<^verbatim>\<open>expect\<close> on an error and a panic are \<^const>\<open>False\<close>. A target that runs a
  decoding loop has an optional value, and \<^const>\<open>None\<close> is a loop that does not end. What the fuzzer samples is
  proved here for every input.
\<close>

section \<open>Inputs\<close>

definition from_le_bytes :: "bytes \<Rightarrow> u64" where
  "from_le_bytes bs = be_fold 0 (rev bs)"

text \<open>The chunks the targets cut their input into: from the given length on, each one longer, up to sixteen.\<close>

function cut_chunks :: "nat \<Rightarrow> bytes \<Rightarrow> bytes list" where
  "cut_chunks n input =
     (if input = [] \<or> n = 0 then []
      else let k = min n (length input) in take k input # cut_chunks (n mod 16 + 1) (drop k input))"
  by pat_completeness auto
termination
  by (relation "measure (\<lambda>(n, input). length input)") auto

declare cut_chunks.simps [simp del]

section \<open>Datagrams\<close>

definition fuzz_datagram :: "bytes \<Rightarrow> bool" where
  "fuzz_datagram input =
     (case input of
        [] \<Rightarrow> True
      | mode # rest \<Rightarrow>
          if mode AND 1 = 0
          then (case (peek_varint rest, map_option (\<lambda>(v, buf). (v, length rest - length buf)) (take_varint rest)) of
                  (Some peeked, Some taken) \<Rightarrow> peeked = taken
                | (None, None) \<Rightarrow> True
                | _ \<Rightarrow> False)
             \<and> (case decode rest of
                  Inl _ \<Rightarrow> True
                | Inr d \<Rightarrow>
                    (case encode (quarter_stream_id d) (context_id d) (payload d) of
                       None \<Rightarrow> False
                     | Some w \<Rightarrow> decode w = Inr d))
          else if length rest < 16 then True
          else let q = from_le_bytes (take 8 rest) mod (MAX_QUARTER_STREAM_ID + 1);
                   c = from_le_bytes (take 8 (drop 8 rest)) mod (VARINT_MAX + 1);
                   p = drop 16 rest
               in case encode q c p of
                    None \<Rightarrow> False
                  | Some w \<Rightarrow> length w = encoded_len q c (length p)
                      \<and> (case decode w of
                           Inl _ \<Rightarrow> False
                         | Inr d \<Rightarrow> quarter_stream_id d = q \<and> context_id d = c \<and> payload d = p))"

lemma mod_max: "(x :: u64) mod (VARINT_MAX + 1) \<le> VARINT_MAX" "(x :: u64) mod (MAX_QUARTER_STREAM_ID + 1) \<le> MAX_QUARTER_STREAM_ID"
  by (simp_all add: VARINT_MAX_eq MAX_QUARTER_STREAM_ID_eq word_le_nat_alt unat_mod)

lemma decode_reencode:
  assumes "decode bs = Inr d"
  shows "\<exists>w. encode (quarter_stream_id d) (context_id d) (payload d) = Some w \<and> decode w = Inr d"
proof -
  have "quarter_stream_id d \<le> MAX_QUARTER_STREAM_ID" using decode_outcome[of bs] assms by simp
  moreover have "context_id d \<le> VARINT_MAX"
    using assms by (auto simp: decode_def question_mark_iffs take_varint_def split: if_splits option.splits dest: peek_varint_le_max)
  ultimately show ?thesis using datagram_roundtrip[of "quarter_stream_id d" "context_id d" "payload d"] by auto
qed

text \<open>
  No input fails the datagram target: \<^verbatim>\<open>peek_varint\<close> and \<^verbatim>\<open>take_varint\<close> agree on every buffer, whatever
  decodes is encoded to something that decodes to the same, minimal or not, and every legal datagram
  survives the trip in exactly the announced number of bytes.
\<close>

theorem fuzz_datagram_holds: "fuzz_datagram input"
proof (cases input)
  case (Cons mode rest)
  have "peek_varint rest = map_option (\<lambda>(v, buf). (v, length rest - length buf)) (take_varint rest)"
    using peek_varint_used[of rest] by (auto simp: take_varint_def split: option.splits)
  then have "case (peek_varint rest, map_option (\<lambda>(v, buf). (v, length rest - length buf)) (take_varint rest)) of
      (Some peeked, Some taken) \<Rightarrow> peeked = taken | (None, None) \<Rightarrow> True | _ \<Rightarrow> False"
    by (simp split: option.split)
  moreover have "case decode rest of Inl _ \<Rightarrow> True
    | Inr d \<Rightarrow> (case encode (quarter_stream_id d) (context_id d) (payload d) of None \<Rightarrow> False | Some w \<Rightarrow> decode w = Inr d)"
    using decode_reencode[of rest] by (auto split: sum.split)
  moreover have "case encode q c p of None \<Rightarrow> False
    | Some w \<Rightarrow> length w = encoded_len q c (length p)
        \<and> (case decode w of Inl _ \<Rightarrow> False | Inr d \<Rightarrow> quarter_stream_id d = q \<and> context_id d = c \<and> payload d = p)"
    if "q \<le> MAX_QUARTER_STREAM_ID" "c \<le> VARINT_MAX" for q c p
    using datagram_roundtrip[OF that, of p] by auto
  ultimately show ?thesis
    unfolding fuzz_datagram_def Cons Let_def by (simp only: list.case mod_max if_split) simp
qed (simp add: fuzz_datagram_def)

section \<open>Capsules\<close>

definition fuzz_capsule :: "bytes \<Rightarrow> bool option" where
  "fuzz_capsule input =
     (case input of
        [] \<Rightarrow> Some True
      | mode # rest \<Rightarrow>
          if mode AND 1 = 0
          then map_option (\<lambda>_. True)
            (feed_chunks next_capsule capsules_of capsule_push capsule_new (cut_chunks (1 + unat mode mod 16) rest))
          else if length rest < 8 then Some True
          else let c = from_le_bytes (take 8 rest) mod (VARINT_MAX + 1); p = drop 8 rest
               in case encode_datagram c p of
                    None \<Rightarrow> Some False
                  | Some encoded \<Rightarrow>
                      (let split = unat (drop_bit 1 mode) mod (length encoded + 1)
                       in case next_capsule (capsule_push capsule_new (take split encoded)) of
                            (d, Inr (Some _)) \<Rightarrow> Some (split = length encoded \<and> at_capsule_boundary d)
                          | (d, _) \<Rightarrow>
                              (case next_capsule (capsule_push d (drop split encoded)) of
                                 (d, Inr (Some (CapsuleDatagram c' p'))) \<Rightarrow>
                                   Some (c' = c \<and> p' = p
                                     \<and> (case next_capsule d of (d, r) \<Rightarrow> r = Inr None \<and> at_capsule_boundary d))
                               | _ \<Rightarrow> Some False)))"

lemma next_encoded:
  assumes "c \<le> VARINT_MAX" "varint_len c + length p \<le> unat MAX_DATAGRAM_CAPSULE_VALUE" "encode_datagram c p = Some w"
  shows "next_capsule (capsule_push capsule_new w) = (capsule_new, Inr (Some (CapsuleDatagram c p)))"
proof -
  have "varint_len c + length p \<le> unat VARINT_MAX"
    using assms(2) by (simp add: VARINT_MAX_eq MAX_DATAGRAM_CAPSULE_VALUE_eq)
  note n = this encode_datagram_bytes[OF assms(1) this]
  let ?n = "varint_len c + length p"
  have "next_capsule (capsule_push capsule_new w) = next_capsule ((capsule_push capsule_new w)\<lparr>buffer := enc_varint c @ p, cap_state := CapValue ?n\<rparr>)"
    using next_typed[of "capsule_push capsule_new w" CAPSULE_TYPE_DATAGRAM "of_nat ?n" "enc_varint c @ p"] assms n
      of_nat_le_VARINT_MAX[OF n(1)] unat_of_nat_u64[OF n(1)]
    by (simp add: capsule_new_def word_le_nat_alt CAPSULE_TYPE_DATAGRAM_def del: of_nat_add)
  also have "\<dots> = (capsule_new, Inr (Some (CapsuleDatagram c p)))"
    using assms(1) length_enc_varint[OF assms(1)] by (simp add: next_value[of _ ?n] capsule_new_def capsule_push_def)
  finally show ?thesis .
qed

lemma next_capsule_new: "next_capsule capsule_new = (capsule_new, Inr None)"
  by (rule next_header_wait) (simp_all add: capsule_new_def peek_varint_def)

text \<open>A capsule cut in two: the first part alone is a wait, unless it is all of it.\<close>

lemma next_split:
  assumes "next_capsule (capsule_push capsule_new w) = (capsule_new, Inr (Some x))" "w = a @ b"
    and "next_capsule (capsule_push capsule_new a) = (d, r)"
  shows "(b = [] \<and> r = Inr (Some x) \<and> d = capsule_new)
     \<or> (r = Inr None \<and> next_capsule (capsule_push d b) = (capsule_new, Inr (Some x)))"
proof -
  have w: "capsule_push (capsule_push capsule_new a) b = capsule_push capsule_new w"
    using assms(2) by (simp add: capsule_push_def)
  show ?thesis
  proof (cases "r = Inr None")
    case True
    with next_push[of "capsule_push capsule_new a" b] assms w show ?thesis by simp
  next
    case False
    then have "capsule_push d b = capsule_new" "r = Inr (Some x)"
      using next_push[of "capsule_push capsule_new a" b] assms w by auto
    moreover from this have "buffer d = []" "b = []"
      by (metis append_is_Nil_conv capsule_new_def capsule_decoder.select_convs(1) push_simps(1))+
    ultimately show ?thesis by (cases d) (simp add: capsule_push_def capsule_new_def)
  qed
qed

text \<open>
  No input of up to 64 KiB fails the capsule target, and it always returns: any bytes, in the target's
  chunks, are decoded to the end or to an error, and a DATAGRAM capsule cut in two anywhere is delivered
  whole, with nothing before its last byte arrived and nothing left over.
\<close>

theorem fuzz_capsule_holds:
  assumes "length input \<le> 65536"
  shows "fuzz_capsule input = Some True"
proof (cases input)
  case (Cons mode rest)
  show ?thesis
  proof (cases "mode AND 1 = 0 \<or> length rest < 8")
    case True
    then show ?thesis
      using cd.feed_chunks_returns[of capsule_push capsule_new "cut_chunks (1 + unat mode mod 16) rest"]
      by (auto simp: fuzz_capsule_def Cons)
  next
    case False
    let ?c = "from_le_bytes (take 8 rest) mod (VARINT_MAX + 1)" and ?p = "drop 8 rest"
    have c: "?c \<le> VARINT_MAX" by (rule mod_max)
    have "varint_len ?c \<le> 8" by (simp add: varint_len_def)
    then have p: "varint_len ?c + length ?p \<le> unat MAX_DATAGRAM_CAPSULE_VALUE"
      using assms False by (simp add: Cons MAX_DATAGRAM_CAPSULE_VALUE_eq)
    moreover have "varint_len ?c + length ?p \<le> unat VARINT_MAX" using p by (simp add: VARINT_MAX_eq MAX_DATAGRAM_CAPSULE_VALUE_eq)
    ultimately obtain w where w: "encode_datagram ?c ?p = Some w" using encode_datagram_bytes[OF c] by blast
    let ?k = "unat (drop_bit 1 mode) mod (length w + 1)"
    obtain d r where d: "next_capsule (capsule_push capsule_new (take ?k w)) = (d, r)" by fastforce
    have "?k < length w + 1" by (rule mod_less_divisor) simp
    then have k: "drop ?k w = [] \<longleftrightarrow> ?k = length w" unfolding drop_eq_Nil by linarith
    have b: "at_capsule_boundary capsule_new" by (simp add: at_capsule_boundary_def capsule_new_def)
    show ?thesis
      using False next_split[OF next_encoded[OF c p w] append_take_drop_id[symmetric] d] d k b
      by (auto simp: fuzz_capsule_def Cons w Let_def next_capsule_new)
  qed
qed (simp add: fuzz_capsule_def)

theorem fuzz_capsule_holds_witness: "fuzz_capsule (7 # replicate 20 0xff) = Some True"
  by (rule fuzz_capsule_holds) simp

section \<open>Frames\<close>

text \<open>One call of \<^verbatim>\<open>next_item\<close> and what the target does about a HEADERS frame.\<close>

definition promoting :: "bool \<Rightarrow> frame_decoder \<times> budget \<Rightarrow> (frame_decoder \<times> budget) \<times> (frame_error + item option)" where
  "promoting promote s =
     (case next_item s of
        ((d, held), Inr (Some (IFrame (FHeaders block)))) \<Rightarrow>
          ((if promote then connect_completed d else d, held), Inr (Some (IFrame (FHeaders block))))
      | r \<Rightarrow> r)"

text \<open>The loop over the chunks; \<^verbatim>\<open>push\<close> asserts that the chunk before is spent.\<close>

fun frame_loop :: "bool \<Rightarrow> frame_decoder \<times> budget \<Rightarrow> bytes list \<Rightarrow> bool option" where
  "frame_loop promote s [] = Some True"
| "frame_loop promote s (c # cs) =
     (if chunk (fst s) \<noteq> [] then Some False
      else case drain (promoting promote) (\<lambda>_. [()]) (frame_push_s s c) of
             None \<Rightarrow> None
           | Some (_, _, Some e) \<Rightarrow> Some (e \<noteq> Panic)
           | Some (_, s, None) \<Rightarrow> frame_loop promote s cs)"

definition fuzz_frame :: "bytes \<Rightarrow> bool option" where
  "fuzz_frame input =
     (case input of
        [] \<Rightarrow> Some True
      | control # rest \<Rightarrow>
          (let kind = (if control mod 3 = 0 then Control else if control mod 3 = 1 then Request else Tunnel);
               promote = (kind = Request \<and> control AND 0x80 \<noteq> 0)
           in frame_loop promote (frame_new kind, 0) (cut_chunks (1 + unat control mod 16) rest)))"

lemma weight_completed: "weight (connect_completed d, h) = weight (d, h)"
  by (simp add: weight_def connect_completed_def)

lemma promoting_cases:
  assumes "promoting promote s = (s', r)"
  obtains t where "next_item s = (t, r)" "weight s' = weight t" "chunk (fst s') = chunk (fst t)"
  using assms weight_completed
  by (fastforce simp: promoting_def connect_completed_def split: prod.splits sum.splits option.splits item.splits frame.splits if_splits)

interpretation pl: decoder_loop "promoting promote" "\<lambda>_. [()]" weight for promote
proof
  fix s s' x
  assume "promoting promote s = (s', Inr (Some x))"
  then show "weight s' < weight s" by (rule promoting_cases) (auto dest: fd.next_decreases)
qed

lemma frame_loop_holds: "chunk (fst s) = [] \<Longrightarrow> frame_loop promote s cs = Some True"
proof (induction promote s cs rule: frame_loop.induct)
  case (2 promote s c cs)
  obtain vs s' e where d: "drain (promoting promote) (\<lambda>_. [()]) (frame_push_s s c) = Some (vs, s', e)"
    using pl.drain_returns by (metis prod_cases3)
  obtain t where t: "promoting promote t = (s', case e of None \<Rightarrow> Inr None | Some e \<Rightarrow> Inl e)"
    using pl.drain_end[OF d] by blast
  show ?case
  proof (cases e)
    case None
    have "chunk (fst s') = []" using promoting_cases[OF t] fd.next_idle by (metis None consumed_def option.case(1))
    with 2 d None show ?thesis by simp
  next
    case (Some x)
    have "x \<noteq> Panic" using promoting_cases[OF t] next_item_no_panic by (metis Some option.case(2) snd_conv)
    with 2 d Some show ?thesis by simp
  qed
qed simp

text \<open>
  C40. No input fails the frame target, and it always returns: on every kind of stream, whatever the bytes and
  also when the stream is promoted to a tunnel in the middle of a chunk, the decoder never writes past its
  header, never asks for more before it has used what it has, and its loop ends.
\<close>

theorem fuzz_frame_holds: "fuzz_frame input = Some True"
  by (cases input) (simp_all add: fuzz_frame_def Let_def frame_loop_holds frame_new_def)

section \<open>Field sections\<close>

fun cut_fields :: "nat \<Rightarrow> bytes \<Rightarrow> (bytes \<times> bytes) list" where
  "cut_fields 0 cursor = []"
| "cut_fields (Suc k) cursor =
     (case cursor of
        name_len # value_len # tail \<Rightarrow>
          (let n = unat (name_len mod 24) + 1; v = unat (value_len mod 48)
           in if length tail < n then []
              else if length tail < n + v then []
              else (take n tail, take v (drop n tail)) # cut_fields k (drop (n + v) tail))
      | _ \<Rightarrow> [])"

text \<open>
  The first mode hands anything to the decoder, for a panic or a loop without end: it is a total function
  here. The second encodes fields and reads them back.
\<close>

definition fuzz_qpack :: "bytes \<Rightarrow> bool" where
  "fuzz_qpack input =
     (case input of
        [] \<Rightarrow> True
      | mode # rest \<Rightarrow>
          if mode AND 1 = 0 then True
          else let fs = cut_fields 64 rest
               in case qpack_decode (qpack_encode fs) (2 ^ 64 - 1) of
                    Inl _ \<Rightarrow> False
                  | Inr decoded \<Rightarrow> length decoded = length fs
                      \<and> list_all (\<lambda>(f, n, v). name f = n \<and> val f = v) (zip decoded fs))"

lemma cut_fields_small:
  "length (cut_fields k cursor) \<le> k \<and> list_all (\<lambda>(n, v). length n \<le> 24 \<and> length v \<le> 48) (cut_fields k cursor)"
proof (induction k cursor rule: cut_fields.induct)
  case (2 k cursor)
  have "unat (b mod 24) + 1 \<le> 24" "unat (b mod 48) \<le> 48" for b :: byte by (simp_all add: unat_mod Suc_leI)
  with 2 show ?case by (auto simp: Let_def split: list.splits)
qed simp

lemma cut_fields_total: "sum_list (map (field_size \<circ> as_field) (cut_fields k cursor)) \<le> 104 * k"
proof -
  have "\<forall>x \<in> set (cut_fields k cursor). (field_size \<circ> as_field) x \<le> 104"
    using cut_fields_small[of k cursor] by (auto simp: list_all_iff field_size_def as_field_def FIELD_OVERHEAD_def)
  then have "sum_list (map (field_size \<circ> as_field) (cut_fields k cursor)) \<le> 104 * length (cut_fields k cursor)"
    by (induction "cut_fields k cursor") (auto simp: sum_list_triv intro: order.trans[OF sum_list_mono[where g = "\<lambda>_. 104"]])
  also have "\<dots> \<le> 104 * k" using cut_fields_small[of k cursor] by simp
  finally show ?thesis .
qed

text \<open>No input fails the QPACK target: any fields it cuts are read back, in number, names and values.\<close>

theorem fuzz_qpack_holds: "fuzz_qpack input"
proof (cases input)
  case (Cons mode rest)
  have "qpack_decode (qpack_encode (cut_fields 64 rest)) (2 ^ 64 - 1) = Inr (map as_field (cut_fields 64 rest))"
    using cut_fields_total[of 64 rest] by (intro qpack_decode_encode) simp_all
  moreover have "list_all (\<lambda>(f, n, v). name f = n \<and> val f = v) (zip (map as_field fs) fs)" for fs
    by (induction fs) (auto simp: as_field_def)
  ultimately show ?thesis by (simp add: fuzz_qpack_def Cons Let_def)
qed (simp add: fuzz_qpack_def)

end
