(* ===== verification/Fuzz_Requests.thy ===== *)
theory Fuzz_Requests
  imports Frame Request Targets Auth "HOL-Library.Sublist"
begin

text \<open>
  \<^verbatim>\<open>src/fuzz/fuzz_targets/\<close>: the targets \<^verbatim>\<open>request.rs\<close>, \<^verbatim>\<open>authority.rs\<close> and \<^verbatim>\<open>auth.rs\<close>, as functions of the fuzzer's
  input whose value says whether every assertion held, and that they hold for every input. The percent
  decoding of \<^verbatim>\<open>parse_target\<close> is a parameter, as it is there.
\<close>

section \<open>Requests\<close>

definition FUZZ_NAMES :: "bytes list" where
  "FUZZ_NAMES = map byte_string ['':method'', '':scheme'', '':authority'', '':path'', '':protocol'', '':status'', ''host'',
     ''te'', ''connection'', ''content-length'', ''content-type'', ''proxy-authorization'']"

definition FUZZ_VALUES :: "bytes list" where
  "FUZZ_VALUES = map byte_string [''CONNECT'', ''GET'', ''https'', ''connect-udp'', ''example.com:443'', ''[2001:db8::1]:443'',
     ''/.well-known/masque/udp/example.com/53/'', ''/'', ''trailers'', '''']"

definition cut_token :: "bytes \<Rightarrow> byte \<Rightarrow> bytes list \<Rightarrow> (bytes \<times> bytes) option" where
  "cut_token input choice dictionary =
     (if unat choice < length dictionary then Some (dictionary ! unat choice, input)
      else case input of
        [] \<Rightarrow> None
      | len # rest \<Rightarrow>
          let n = unat len mod 40 in if length rest < n then None else Some (take n rest, drop n rest))"

fun cut_section :: "nat \<Rightarrow> bytes \<Rightarrow> qfield list" where
  "cut_section 0 input = []"
| "cut_section (Suc k) input =
     (case input of
        [] \<Rightarrow> []
      | selector # rest \<Rightarrow>
          (case cut_token rest (selector AND 0x0f) FUZZ_NAMES of
             None \<Rightarrow> []
           | Some (n, rest) \<Rightarrow>
               (case cut_token rest (drop_bit 4 selector) FUZZ_VALUES of
                  None \<Rightarrow> []
                | Some (v, rest) \<Rightarrow> \<lparr>name = n, val = v\<rparr> # cut_section k rest)))"

definition edge_whitespace :: "bytes \<Rightarrow> bool" where
  "edge_whitespace v \<longleftrightarrow> v \<noteq> [] \<and> (is_ows (hd v) \<or> is_ows (last v))"

definition check_field :: "bytes \<times> bytes \<Rightarrow> bool" where
  "check_field = (\<lambda>(n, v).
     \<not> starts_with_colon n \<and> field_name n \<noteq> None \<and> field_value_parse v \<noteq> None
     \<and> n \<noteq> byte_string ''connection'' \<and> (n = byte_string ''te'' \<longrightarrow> v = byte_string ''trailers'') \<and> \<not> edge_whitespace v)"

definition check_target :: "request \<Rightarrow> bool" where
  "check_target r \<longleftrightarrow>
     (if req_method r = Connect \<and> req_protocol r = None
      then req_scheme r = None \<and> req_path r = None \<and> req_query r = None \<and> req_authority r \<noteq> None
      else req_scheme r \<noteq> None \<and> req_authority r \<noteq> None \<and> req_path r \<noteq> None
        \<and> (case fields_get (req_fields r) (byte_string ''host'') of None \<Rightarrow> True | Some host \<Rightarrow> Some host = req_authority r))"

definition check_syntax :: "request \<Rightarrow> bool" where
  "check_syntax r \<longleftrightarrow>
     (case req_scheme r of None \<Rightarrow> True | Some s \<Rightarrow> s \<noteq> [] \<and> is_ascii_alphabetic (hd s))
     \<and> (case req_protocol r of None \<Rightarrow> True | Some p \<Rightarrow> token p \<noteq> None)
     \<and> (case req_authority r of None \<Rightarrow> True | Some a \<Rightarrow> a \<noteq> [] \<and> list_all (\<lambda>b. b < 0x80) a)
     \<and> (case req_path r of None \<Rightarrow> True
        | Some p \<Rightarrow> (p = byte_string ''*'' \<or> p \<noteq> [] \<and> hd p = 0x2f) \<and> 0x3f \<notin> set p)"

definition check_request :: "request \<Rightarrow> bool" where
  "check_request r \<longleftrightarrow>
     method_parse (method_as_str (req_method r)) = Some (req_method r)
     \<and> list_all check_field (req_fields r)
     \<and> length (filter (\<lambda>(n, v). n = byte_string ''host'') (req_fields r)) \<le> 1
     \<and> check_target r \<and> check_syntax r"

definition fuzz_request :: "bytes \<Rightarrow> bool" where
  "fuzz_request input =
     (case input of
        [] \<Rightarrow> True
      | mode # rest \<Rightarrow>
          if mode AND 1 = 0
          then (case qpack_decode rest (unat MAX_FIELD_SECTION_SIZE) of
                  Inl _ \<Rightarrow> True
                | Inr sect \<Rightarrow> (case build_request sect of Inl _ \<Rightarrow> True | Inr r \<Rightarrow> check_request r))
          else (case build_request (cut_section 64 rest) of Inl _ \<Rightarrow> True | Inr r \<Rightarrow> check_request r))"

lemma trimmed_edges: "\<not> edge_whitespace (trim_optional_whitespace v)"
proof -
  let ?w = "dropWhile is_ows v"
  obtain t where t: "?w = trim_optional_whitespace v @ t"
    unfolding trim_optional_whitespace_def using suffix_dropWhile[of is_ows "rev ?w"] by (metis rev_append rev_rev_ident suffix_def)
  have "\<not> is_ows (hd ?w)" if "?w \<noteq> []" using that by (rule hd_dropWhile)
  moreover have "\<not> is_ows (last (trim_optional_whitespace v))" if "trim_optional_whitespace v \<noteq> []"
    using that hd_dropWhile[of is_ows "rev ?w"] by (simp add: trim_optional_whitespace_def last_rev)
  ultimately show ?thesis using t by (auto simp: edge_whitespace_def)
qed

lemma check_fields_of:
  assumes "section_ok ps rs"
  shows "list_all check_field (field_list rs)"
proof -
  have "check_field (name f, trim_optional_whitespace (val f))" if "f \<in> set rs" for f
  proof -
    have "regular_field_ok f" using assms that by (simp add: section_ok_def list_all_iff)
    then have "field_name (name f) = Some (name f)" by (simp add: regular_field_ok_def field_name_iff)
    with \<open>regular_field_ok f\<close> section_ok_colon(2)[OF assms that] show ?thesis
      by (simp add: check_field_def trimmed_edges regular_field_ok_def field_value_parse_def)
  qed
  then show ?thesis by (simp add: list_all_iff field_list_def)
qed

lemma authority_ascii: "authority_ok a \<Longrightarrow> a \<noteq> [] \<and> list_all (\<lambda>b. b < 0x80) a"
  using literals_ascii(1) is_ascii_alphanumeric_ascii by (auto simp: authority_ok_def list_all_iff)

lemma target_shape:
  assumes "target_ok t ext path q"
  shows "(path = byte_string ''*'' \<or> path \<noteq> [] \<and> hd path = 0x2f) \<and> 0x3f \<notin> set path"
  using assms literals_ascii(3) by (auto simp: target_ok_def list_all_iff byte_string_def)

lemma check_syntax_of:
  assumes "plain_connect p r \<or> full_request p fs r"
  shows "check_syntax r"
  using assms
proof
  assume "plain_connect p r"
  then show ?thesis using authority_ascii by (auto simp: check_syntax_def plain_connect_def)
next
  assume f: "full_request p fs r"
  then obtain s t a path where "scheme_ok s" "req_scheme r = Some s" "target_ok t (p (byte_string '':protocol'') \<noteq> None) path (req_query r)"
    "req_path r = Some path" "names_authority p fs a" "req_authority r = Some a"
    by (auto simp: full_request_def)
  moreover have "req_protocol r = None \<or> (\<exists>x. req_protocol r = Some x \<and> token x = Some x)"
    using f by (auto simp: full_request_def split: option.splits)
  ultimately show ?thesis
    using target_shape[of t _ path "req_query r"] authority_ascii[of a]
    by (auto simp: check_syntax_def scheme_ok_def names_authority_def)
qed

lemma check_target_of:
  assumes "plain_connect p r \<or> full_request p (req_fields r) r"
  shows "check_target r"
  using assms by (auto simp: check_target_def plain_connect_def full_request_def names_authority_def split: option.splits)

lemma check_request_of:
  assumes "build_request sect = Inr r"
  shows "check_request r"
proof -
  obtain ps rs m where w: "section_ok ps rs" "req_fields r = field_list rs" "method_parse m = Some (req_method r)"
    "plain_connect (pseudo ps) r \<or> full_request (pseudo ps) (req_fields r) r"
    using assms unfolding build_request_eq well_formed_request_def by auto
  have "length (filter (\<lambda>(n, v). n = byte_string ''host'') (field_list rs)) = length (filter (\<lambda>f. name f = byte_string ''host'') rs)"
    by (induction rs) (auto simp: field_list_def)
  with w check_fields_of[OF w(1)] check_syntax_of[OF w(4)] check_target_of[OF w(4)] show ?thesis
    by (simp add: check_request_def section_ok_def method_parse_as_str)
qed

text \<open>
  No input fails the request target: whatever a peer's field section decodes to, and however the target's
  dictionary combines pseudo-header fields and values, a request that is built has the shape the rest of
  the server relies on.
\<close>

theorem fuzz_request_holds: "fuzz_request input"
  by (auto simp: fuzz_request_def check_request_of split: list.splits sum.splits)

section \<open>Targets\<close>

definition check_named :: "bytes \<Rightarrow> u16 \<Rightarrow> bool" where
  "check_named host p \<longleftrightarrow> host \<noteq> [] \<and> p \<noteq> 0 \<and> \<not> (0x5b \<in> set host \<or> 0x5d \<in> set host)"

definition fuzz_authority :: "(bytes \<Rightarrow> bytes) \<Rightarrow> bytes \<Rightarrow> bool" where
  "fuzz_authority pct input =
     (case input of
        [] \<Rightarrow> True
      | mode # rest \<Rightarrow>
          if \<not> utf8_valid rest then True
          else if mode AND 1 = 1
          then (case split_authority rest of
                  Inl _ \<Rightarrow> True
                | Inr (host, p) \<Rightarrow> check_named host p \<and> sublist host rest)
          else let (path, query) = (case position (\<lambda>b. b = 0x3f) rest of
                      Some mark \<Rightarrow> (take mark rest, Some (drop (mark + 1) rest))
                    | None \<Rightarrow> (rest, None));
                   path = (if mode AND 2 = 0 then path else WELL_KNOWN_PREFIX @ path)
               in case parse_target pct path query of
                    Inl _ \<Rightarrow> True
                  | Inr (host, p) \<Rightarrow> check_named host p)"

lemma check_authority:
  assumes "split_authority s = Inr (h, p)"
  shows "check_named h p \<and> sublist h s"
proof -
  obtain d where d: "split_host s = Inr (h, d)" "p \<noteq> 0"
    using assms by (auto simp: split_authority_def question_mark_iffs checked_port_iff split: if_splits)
  then have "s = [0x5b] @ h @ 0x5d # 0x3a # d \<or> s = [] @ h @ 0x3a # d" by (auto simp: split_host_iff)
  then have "sublist h s" unfolding sublist_def by blast
  with d show ?thesis by (simp add: check_named_def split_host_iff stray_bracket_def)
qed

lemma unbracket_nonempty: "host \<noteq> [] \<Longrightarrow> unbracket host \<noteq> []"
  by (auto simp: unbracket_def split: option.splits)

lemma check_parsed:
  assumes "parse_target pct path query = Inr (h, p)"
  shows "check_named h p"
proof -
  obtain rest where "(case split_on 0x2f rest of
      host # prt # more_segments \<Rightarrow>
        if more_segments \<noteq> [] then Inl ''too many path segments for the connect-udp template''
        else and_then (ok_or (from_utf8 (pct host)) ''target_host is not valid UTF-8'') (\<lambda>host.
          if host = [] then Inl ''empty target_host''
          else if stray_bracket (unbracket host) then Inl ''stray bracket in host''
          else and_then (ok_or (from_utf8 (pct prt)) ''target_port is not valid UTF-8'') (\<lambda>port.
            and_then (checked_port ''invalid target_port'' ''target_port must not be zero'' port) (\<lambda>port. Inr (unbracket host, port))))
    | _ \<Rightarrow> Inl ''missing target_port'') = Inr (h, p)"
    using assms by (auto simp only: parse_target_def question_mark_iffs Let_def split: if_splits)
  then obtain host where "host \<noteq> []" "h = unbracket host" "\<not> stray_bracket h" "p \<noteq> 0"
    by (auto simp: question_mark_iffs checked_port_iff split: if_splits list.splits)
  then show ?thesis using unbracket_nonempty by (simp add: check_named_def stray_bracket_def)
qed

text \<open>
  No input fails the target of the authority and of the path template, however percent-decoding decodes: a
  target that is accepted names a host without brackets and a port other than zero, and the host of an
  authority is part of it.
\<close>

theorem fuzz_authority_holds: "fuzz_authority pct input"
proof (cases input)
  case (Cons mode rest)
  have "case split_authority rest of Inl _ \<Rightarrow> True | Inr (host, p) \<Rightarrow> check_named host p \<and> sublist host rest"
    using check_authority[of rest] by (auto split: sum.split)
  moreover have "case parse_target pct path query of Inl _ \<Rightarrow> True | Inr (host, p) \<Rightarrow> check_named host p" for path query
    using check_parsed[of pct path query] by (auto split: sum.split)
  ultimately show ?thesis by (simp add: fuzz_authority_def Cons Let_def case_prod_beta)
qed (simp add: fuzz_authority_def)

section \<open>Credentials\<close>

definition MAX_SECRET :: nat where "MAX_SECRET = 32"
definition MAX_VALUES :: nat where "MAX_VALUES = 8"
definition MAX_BOUNDED :: nat where "MAX_BOUNDED = 256"

definition cut_secret :: "bytes \<Rightarrow> (bytes \<times> bytes) option" where
  "cut_secret input =
     (case input of
        [] \<Rightarrow> None
      | len # rest \<Rightarrow>
          let n = unat len mod (MAX_SECRET + 1)
          in if length rest < n then None
             else if \<not> utf8_valid (take n rest) then None
             else Some (take n rest, drop n rest))"

fun cut_users :: "nat \<Rightarrow> bytes \<Rightarrow> user list \<times> bytes" where
  "cut_users 0 input = ([], input)"
| "cut_users (Suc k) input =
     (case cut_secret input of
        None \<Rightarrow> ([], input)
      | Some (username, rest) \<Rightarrow>
          (case cut_secret rest of
             None \<Rightarrow> ([], input)
           | Some (password, rest) \<Rightarrow>
               (case cut_users k rest of (users, left) \<Rightarrow> (\<lparr>user_name = username, user_password = password\<rparr> # users, left))))"

fun quantum_word :: "u32 \<Rightarrow> bytes \<Rightarrow> nat \<Rightarrow> u32" where
  "quantum_word bits quantum 0 = bits"
| "quantum_word bits quantum (Suc k) =
     quantum_word (push_bit 8 bits OR (case quantum of [] \<Rightarrow> 0 | b # _ \<Rightarrow> ucast b)) (drop 1 quantum) k"

definition encode_quantum :: "bytes \<Rightarrow> bytes" where
  "encode_quantum quantum =
     (let bits = quantum_word 0 quantum 3; significant = length quantum + 1
      in map (\<lambda>index. alphabet ! unat (drop_bit (18 - 6 * index) bits AND 0x3f)) [0..<significant]
         @ replicate (4 - significant) 0x3d)"

function encode_base64 :: "bytes \<Rightarrow> bytes" where
  "encode_base64 input = (if input = [] then [] else encode_quantum (take 3 input) @ encode_base64 (drop 3 input))"
  by pat_completeness auto
termination
  by (relation "measure length") auto

declare encode_base64.simps [simp del]

function cut_values :: "fields \<Rightarrow> bytes \<Rightarrow> fields" where
  "cut_values fs input =
     (if MAX_VALUES \<le> length fs then fs
      else case input of
        selector # len # tail \<Rightarrow>
          let n = unat len mod 64
          in if length tail < n then fs
             else case field_value_parse (take n tail) of
               None \<Rightarrow> cut_values fs (drop n tail)
             | Some v \<Rightarrow> cut_values (fields_append fs (CREDENTIAL_FIELDS ! (unat selector mod length CREDENTIAL_FIELDS)) v) (drop n tail)
      | _ \<Rightarrow> fs)"
  by pat_completeness auto
termination
  by (relation "measure (\<lambda>(fs, input). length input)") auto

declare cut_values.simps [simp del]

definition round_trip :: "bytes \<Rightarrow> bool" where
  "round_trip input =
     (case fst (cut_users 1 input) of
        [] \<Rightarrow> True
      | x # xs \<Rightarrow>
          if 0x3a \<in> set (user_name x) then True
          else case field_value_parse (byte_string ''Basic '' @ encode_base64 (user_name x @ [0x3a] @ user_password x)) of
                 None \<Rightarrow> False
               | Some v \<Rightarrow> authenticate (x # xs) (fields_append [] (CREDENTIAL_FIELDS ! 0) v) = Inr (Some (user_name x)))"

definition check_verdict :: "user list \<Rightarrow> fields \<Rightarrow> denials + bytes option \<Rightarrow> bool" where
  "check_verdict users fs verdict \<longleftrightarrow>
     (case verdict of Inr (Some u) \<Rightarrow> list_ex (\<lambda>x. user_name x = u) users | _ \<Rightarrow> True)
     \<and> (users = [] \<longrightarrow> verdict = Inr None)
     \<and> (case verdict of
          Inr _ \<Rightarrow> True
        | Inl ds \<Rightarrow> denials_charged ds \<le> max (length fs) 1
            \<and> (length fs > MAX_CREDENTIAL_VALUES \<or> denials_charged ds \<le> MAX_CREDENTIAL_VALUES)
            \<and> list_all (\<lambda>c. case c of None \<Rightarrow> True | Some u \<Rightarrow> length u < MAX_BOUNDED) (claims ds))
     \<and> authenticate users fs = verdict"

definition fuzz_auth :: "bytes \<Rightarrow> bool" where
  "fuzz_auth input =
     (case input of
        [] \<Rightarrow> True
      | mode # rest \<Rightarrow>
          length (bounded_bytes rest) < MAX_BOUNDED
          \<and> (utf8_valid rest \<longrightarrow> length (bounded rest) < MAX_BOUNDED)
          \<and> (if mode AND 1 = 1 then round_trip rest
             else let (users, rest) = cut_users (unat (drop_bit 1 mode) mod 4) rest; fs = cut_values [] rest
                  in check_verdict users fs (authenticate users fs)))"

text \<open>The target's own encoder is Base64.\<close>

lemma masked_sextet: "(w :: u32) AND 0x3f = take_bit 6 w"
  by (simp add: take_bit_eq_mask mask_eq_exp_minus_1)

lemma encode_quantum_eq:
  "encode_quantum [a] = base64 [a]" "encode_quantum [a, b] = base64 [a, b]" "encode_quantum [a, b, c] = base64 [a, b, c]"
proof -
  have w: "push_bit 8 (push_bit 8 (ucast a :: u32) OR ucast b) OR ucast c = push_bit 16 (ucast a) OR push_bit 8 (ucast b) OR ucast c"
    "push_bit 8 (push_bit 8 (ucast a :: u32) OR ucast b) = push_bit 16 (ucast a) OR push_bit 8 (ucast b)"
    by (simp_all add: push_bit_or push_bit_push_bit or.assoc)
  show "encode_quantum [a] = base64 [a]" "encode_quantum [a, b] = base64 [a, b]" "encode_quantum [a, b, c] = base64 [a, b, c]"
    by (simp_all add: encode_quantum_def numeral_3_eq_3 upt_rec symbol_def masked_sextet Let_def push_bit_push_bit
        w[unfolded One_nat_def] or.assoc del: drop_bit_push_bit)
qed

lemma encode_base64_eq: "encode_base64 x = base64 x"
proof (induction x rule: base64.induct)
  case (4 a b c rest)
  then show ?case
    using encode_quantum_eq(3)[of a b c] by (subst encode_base64.simps) (simp add: Let_def numeral_3_eq_3)
qed (simp_all add: encode_base64.simps encode_quantum_eq del: base64.simps(2,3))

lemma base64_field_value: "is_field_value (base64 x)"
proof -
  have "list_all (\<lambda>i. 0x21 \<le> alphabet ! i \<and> alphabet ! i \<le> 0x7e) [0..<64]" by code_simp
  then have "0x21 \<le> alphabet ! i \<and> alphabet ! i \<le> 0x7e" if "i < 64" for i using that by (simp add: list_all_iff)
  then have "0x21 \<le> symbol w k \<and> symbol w k \<le> 0x7e" for w k by (simp add: symbol_def unat_take_bit_mod)
  then show ?thesis by (induction x rule: base64.induct) (simp_all add: is_field_value_def Let_def)
qed

lemma round_trip_holds: "round_trip input"
proof (cases "fst (cut_users 1 input)")
  case (Cons x xs)
  let ?v = "byte_string ''Basic '' @ base64 (user_name x @ 0x3a # user_password x)"
  have "is_field_value (byte_string ''Basic '')" by code_simp
  then have "field_value_parse ?v = Some ?v" using base64_field_value by (simp add: field_value_parse_def is_field_value_def)
  moreover have "credentials (fields_append [] (CREDENTIAL_FIELDS ! 0) v) = [v]" for v
  proof -
    have "eq_ignore_ascii_case (CREDENTIAL_FIELDS ! 0) (CREDENTIAL_FIELDS ! 0)"
      "\<not> eq_ignore_ascii_case (CREDENTIAL_FIELDS ! 0) (CREDENTIAL_FIELDS ! 1)" "length CREDENTIAL_FIELDS = 2" by code_simp+
    then show ?thesis by (simp add: credentials_def fields_append_def fields_get_all_def CREDENTIAL_FIELDS_def)
  qed
  ultimately show ?thesis
    unfolding round_trip_def Cons using basic_credentials_admit[of x "x # xs"] by (simp add: encode_base64_eq)
qed (simp add: round_trip_def)

lemma decode_quanta_length: "decode_quanta x = Some y \<Longrightarrow> length y \<le> length x"
proof (induction x arbitrary: y rule: decode_quanta.induct)
  case (1 a b c d rest)
  have "length q \<le> 3" if "decode_quantum p [a, b, c, d] = Some q" for p q
    using that by (auto simp: decode_quantum_def split: if_splits option.splits)
  with 1 show ?case by (fastforce simp: Let_def split: option.splits if_splits)
qed auto

lemma check_claims:
  assumes "check a v = Inl d" "length v < 2 ^ 64"
  shows "case denied_username d of None \<Rightarrow> True | Some u \<Rightarrow> length u < MAX_BOUNDED"
proof (cases d)
  case (Rejected u)
  obtain t dec i where "basic_token v = Inr t" "decode_base64 t = Some dec" "u = bounded_bytes (take i dec)"
    using assms(1) Rejected
    by (auto simp: check_def question_mark_iffs to_str_def from_utf8_def basic_token_def Let_def split: if_splits option.splits)
  moreover from this have "length t \<le> length v"
    using length_dropWhile_le[of "\<lambda>b :: byte. b = 0x20"]
    by (force simp: basic_token_def split_once_iff split: if_splits option.splits intro: le_SucI trans_le_add2)
  moreover have "length dec \<le> length t"
    using calculation(2) decode_quanta_length[of t dec] by (simp add: decode_base64_def split: if_splits)
  ultimately have "length u \<le> 143" using assms(2) log_token_bounded[of "take i dec"] by simp
  with Rejected show ?thesis by (simp add: MAX_BOUNDED_def)
qed simp_all

lemma authenticate_claims:
  assumes "authenticate_loop a ds vs = Inl e" "list_all (\<lambda>v. length v < 2 ^ 64) vs"
    and "case ds of None \<Rightarrow> True | Some ds \<Rightarrow> list_all (\<lambda>c. case c of None \<Rightarrow> True | Some u \<Rightarrow> length u < MAX_BOUNDED) (claims ds)"
  shows "list_all (\<lambda>c. case c of None \<Rightarrow> True | Some u \<Rightarrow> length u < MAX_BOUNDED) (claims e)"
  using assms
proof (induction a ds vs rule: authenticate_loop.induct)
  case (1 a ds)
  then show ?case by (auto simp: claims_def denials_from_def split: option.splits)
next
  case (2 a ds v vs)
  then obtain d where "check a v = Inl d" by (auto split: sum.splits)
  with 2 check_claims[of a v d] show ?case
    by (auto simp: claims_def denials_from_def denials_push_def split: option.splits)
qed

lemma credentials_length: "length (credentials fs) \<le> length fs"
proof -
  have "\<not> eq_ignore_ascii_case (byte_string ''proxy-authorization'') (byte_string ''authorization'')" by code_simp
  then have "\<not> (eq_ignore_ascii_case n (byte_string ''proxy-authorization'') \<and> eq_ignore_ascii_case n (byte_string ''authorization''))" for n
    by (auto simp: eq_ignore_ascii_case_def)
  then show ?thesis
    by (induction fs) (auto simp: credentials_def CREDENTIAL_FIELDS_def fields_get_all_def)
qed

lemma credentials_values: "list_all P (map snd fs) \<Longrightarrow> list_all P (credentials fs)"
  by (auto simp: credentials_def fields_get_all_def list_all_iff)

lemma cut_values_short: "list_all (\<lambda>v. length v < 64) (map snd fs) \<Longrightarrow> list_all (\<lambda>v. length v < 64) (map snd (cut_values fs input))"
proof (induction fs input rule: cut_values.induct)
  case (1 fs input)
  then show ?case
    by (subst cut_values.simps) (auto simp: fields_append_def field_value_parse_def Let_def split: list.splits if_splits option.splits)
qed

lemma check_verdict_holds:
  assumes "list_all (\<lambda>v. length v < 64) (map snd fs)"
  shows "check_verdict users fs (authenticate users fs)"
proof (cases "users = []")
  case True
  then show ?thesis by (simp add: check_verdict_def authenticate_def is_disabled_def)
next
  case False
  then have a: "authenticate users fs = authenticate_loop users None (credentials fs)" by (simp add: authenticate_def is_disabled_def)
  have short: "list_all (\<lambda>v. length v < 2 ^ 64) (credentials fs)"
    using credentials_values[OF assms] by (auto simp: list_all_iff)
  show ?thesis
  proof (cases "authenticate_loop users None (credentials fs)")
    case (Inr r)
    then show ?thesis
      using False a authenticate_loop_Inr[OF Inr] by (auto simp: check_verdict_def check_iff list_ex_iff)
  next
    case (Inl ds)
    have "MAX_CREDENTIAL_VALUES = 2" by code_simp
    then show ?thesis
      using False a Inl authenticate_loop_Inl[OF Inl] authenticate_claims[OF Inl short] credentials_length[of fs]
      by (auto simp: check_verdict_def)
  qed
qed

text \<open>
  No input fails the target of the credentials: a log token is bounded, a configured user's own credentials
  are accepted whatever name and password the fuzzer cuts, nobody is admitted who is not configured, no
  request is charged more failures than it offered values, and no unbounded name is kept.
\<close>

theorem fuzz_auth_holds:
  assumes "length input < 2 ^ 64"
  shows "fuzz_auth input"
proof (cases input)
  case (Cons mode rest)
  then have "length (bounded_bytes rest) < MAX_BOUNDED" "length (bounded rest) < MAX_BOUNDED"
    using assms log_token_bounded[of rest] by (simp_all add: MAX_BOUNDED_def)
  then show ?thesis
    using round_trip_holds[of rest] check_verdict_holds[OF cut_values_short[of "[]"]]
    by (simp add: fuzz_auth_def Cons Let_def case_prod_beta)
qed (simp add: fuzz_auth_def)

theorem fuzz_auth_holds_witness: "fuzz_auth (byte_string [CHR 0x01, CHR 0x01, CHR ''u'', CHR 0x01, CHR ''p''])"
  by (rule fuzz_auth_holds) (simp add: byte_string_def)

end
