(* ===== verification/Fuzz_Gate.thy ===== *)
theory Fuzz_Gate
  imports Gate_Safety Log_Escape
begin

text \<open>
  \<^verbatim>\<open>src/fuzz/fuzz_targets/gate.rs\<close> as a function of the fuzzer's input whose value says whether its assertions
  held. The keys of \<^verbatim>\<open>nameless_crypto\<close> are the parameter they are in the gate, the Unicode tables the one they
  are in the log. One assertion is left out, that a datagram whose connection ID has been changed no longer
  opens: it is about the cipher.
\<close>

section \<open>The target\<close>

definition FUZZ_LISTS :: "names list" where
  "FUZZ_LISTS = map (\<lambda>l. names_new (map byte_string l)) [[''localhost''], [''localhost'', ''other.example''], [''other.example'']]"

definition LOGGED_NAME_BOUND :: nat where "LOGGED_NAME_BOUND = 256"

definition judge_a_datagram :: "(nat \<Rightarrow> bool) \<Rightarrow> crypto \<Rightarrow> bytes \<Rightarrow> names \<Rightarrow> bool" where
  "judge_a_datagram plain crypto d ns =
     (let verdict = judge crypto d ns;
          long_header = (d \<noteq> [] \<and> d ! 0 AND LONG_HEADER_FORM \<noteq> 0);
          initial = (d \<noteq> [] \<and> d ! 0 AND LONG_PACKET_TYPE = 0);
          version = (if length d < 5 then None else Some (version_of d));
          passes = (\<not> long_header \<or> version = None \<or> version = Some 1 \<and> \<not> initial
            \<or> version = Some 1 \<and> initial \<and> length d < MIN_INITIAL_DATAGRAM)
      in (passes \<longrightarrow> verdict = Pass)
         \<and> (case version of
              None \<Rightarrow> True
            | Some named_version \<Rightarrow>
                long_header \<and> named_version \<noteq> 1 \<longrightarrow> verdict = Refuse (RefuseVersion named_version))
         \<and> (case verdict of
              Pass \<Rightarrow> True
            | Refuse (RefuseVersion refused) \<Rightarrow> Some refused = version \<and> refused \<noteq> 1
            | Refuse r \<Rightarrow>
                long_header \<and> initial \<and> version = Some 1 \<and> MIN_INITIAL_DATAGRAM \<le> length d
                \<and> (case r of
                     OtherName name \<Rightarrow> length (escaped_bytes plain name) < LOGGED_NAME_BOUND
                   | ShortConnectionId n \<Rightarrow> Some n = map_option unat (get_byte d 5) \<and> n < MIN_CLIENT_CONNECTION_ID
                   | _ \<Rightarrow> True)))"

definition fail_open_before_the_message_is_whole :: "bytes \<Rightarrow> first_flight \<Rightarrow> bool" where
  "fail_open_before_the_message_is_whole crypto flight =
     (if crypto = [] \<or> hd crypto \<noteq> CLIENT_HELLO then True
      else case rd_u24 (tl crypto) of
        None \<Rightarrow> flight = FlightTruncated
      | Some (declared, _) \<Rightarrow>
          let whole = declared + 4
          in if length crypto < whole then flight = FlightTruncated
             else flight \<noteq> FlightTruncated
               \<and> list_all (\<lambda>cut. whole \<le> cut \<or> first_flight_of (take cut crypto) = FlightTruncated) [4, whole div 2, whole - 1])"

definition read_a_first_flight :: "bytes \<Rightarrow> bool" where
  "read_a_first_flight crypto =
     (let flight = first_flight_of crypto
      in first_flight_of crypto = flight
         \<and> (case crypto of
              [] \<Rightarrow> flight = FlightTruncated
            | kind # _ \<Rightarrow> kind \<noteq> CLIENT_HELLO \<longrightarrow> flight = NotAClientHello)
         \<and> (case flight of FlightNamed name \<Rightarrow> length name + 4 \<le> length crypto | _ \<Rightarrow> True)
         \<and> fail_open_before_the_message_is_whole crypto flight)"

definition fuzz_gate :: "(nat \<Rightarrow> bool) \<Rightarrow> crypto \<Rightarrow> bytes \<Rightarrow> bool" where
  "fuzz_gate plain crypto input =
     (case input of
        [] \<Rightarrow> True
      | mode # rest \<Rightarrow>
          if mode AND 1 = 1 then read_a_first_flight rest
          else judge_a_datagram plain crypto rest (FUZZ_LISTS ! (unat (drop_bit 1 mode) mod length FUZZ_LISTS)))"

section \<open>It holds\<close>

lemma initial_parse_dcid:
  assumes "initial_parse d = Some h"
  shows "Some (snd (dcid h) - fst (dcid h)) = map_option unat (get_byte d 5)"
  using assms by (auto simp: initial_parse_def Let_def bind_eq_Some_conv guard_def DCID_LENGTH_OFFSET_def split: if_splits)

lemma judge_initial:
  assumes "judge crypto d ns = Refuse r" "\<And>v. r \<noteq> RefuseVersion v"
  shows "d \<noteq> [] \<and> d ! 0 AND LONG_HEADER_FORM \<noteq> 0 \<and> d ! 0 AND LONG_PACKET_TYPE = 0 \<and> 5 \<le> length d \<and> version_of d = 1
    \<and> MIN_INITIAL_DATAGRAM \<le> length d"
  using assms by (auto simp: judge_def QUIC_V1_def INITIAL_PACKET_TYPE_def split: if_splits)

lemma judge_short:
  assumes "judge crypto d ns = Refuse (ShortConnectionId n)"
  shows "Some n = map_option unat (get_byte d 5) \<and> n < MIN_CLIENT_CONNECTION_ID"
  using assms initial_parse_dcid[of d]
  by (auto simp: judge_def split: if_splits option.splits first_flight.splits)

lemma rd_take_prefix: "rd_take n bs = Some (x, rest) \<Longrightarrow> length x = n \<and> length x + length rest = length bs"
  by (auto simp: rd_take_def split: if_splits)

lemma rd_vector8_shrinks: "rd_vector8 bs = Some (x, rest) \<Longrightarrow> length x + length rest \<le> length bs"
  by (auto simp: rd_vector8_def bind_eq_Some_conv dest!: rd_take_prefix rd_byte_length)

lemma rd_vector16_shrinks: "rd_vector16 bs = Some (x, rest) \<Longrightarrow> length x + length rest \<le> length bs"
  by (auto simp: rd_vector16_def bind_eq_Some_conv dest!: rd_take_prefix rd_u16_length)

lemmas rd_shrinks = rd_take_prefix rd_vector8_shrinks rd_vector16_shrinks

lemma host_name_loop_length: "host_name_loop bs = Some n \<Longrightarrow> length n \<le> length bs"
proof (induction bs rule: host_name_loop.induct)
  case (1 bs)
  then show ?case
    by (subst (asm) (2) host_name_loop.simps)
      (fastforce split: if_splits option.splits dest: rd_byte_length rd_vector16_shrinks)
qed

lemma host_name_length: "host_name ext = Some n \<Longrightarrow> length n \<le> length ext"
  by (fastforce simp: host_name_def bind_eq_Some_conv dest: host_name_loop_length rd_vector16_shrinks)

lemma extension_loop_length: "extension_loop bs = Some n \<Longrightarrow> length n \<le> length bs"
proof (induction bs rule: extension_loop.induct)
  case (1 bs)
  then show ?case
    by (subst (asm) (2) extension_loop.simps)
      (fastforce split: if_splits option.splits dest: rd_u16_length rd_vector16_shrinks host_name_length)
qed

lemma server_name_length: "server_name body = Some n \<Longrightarrow> length n \<le> length body"
  by (fastforce simp: server_name_def bind_eq_Some_conv dest: rd_shrinks extension_loop_length)

text \<open>What is read off a ClientHello whose length is there, and what off one that is cut.\<close>

lemma first_flight_cons:
  "first_flight_of (CLIENT_HELLO # r) =
     (case rd_u24 r of
        None \<Rightarrow> FlightTruncated
      | Some (n, rest) \<Rightarrow>
          if length rest < n then FlightTruncated
          else case server_name (take n rest) of Some name \<Rightarrow> FlightNamed name | None \<Rightarrow> FlightAnonymous)"
  by (simp add: first_flight_of_def rd_take_def split: option.split)

lemma rd_u24_take: "rd_u24 r = Some (n, rest) \<Longrightarrow> rd_u24 (take k r) = (if k < 3 then None else Some (n, take (k - 3) rest))"
  by (auto simp: rd_u24_def rd_take_def bind_eq_Some_conv drop_take split: if_splits)

lemma rd_u24_length: "rd_u24 r = Some (n, rest) \<Longrightarrow> length r = length rest + 3"
  by (auto simp: rd_u24_def rd_take_def bind_eq_Some_conv split: if_splits)

lemma first_flight_cut:
  assumes "rd_u24 r = Some (n, rest)" "j < n + 4"
  shows "first_flight_of (take j (CLIENT_HELLO # r)) = FlightTruncated"
proof (cases j)
  case 0
  then show ?thesis by (simp add: first_flight_of_def rd_byte_def rd_take_def)
next
  case (Suc k)
  then have "k < 3 \<or> k - 3 < n" using assms(2) by linarith
  then show ?thesis using Suc by (auto simp: first_flight_cons rd_u24_take[OF assms(1)])
qed

text \<open>A name is no longer than the ClientHello it is in, whose length is a machine word.\<close>

lemma rd_u24_word: "rd_u24 bs = Some (n, rest) \<Longrightarrow> n < 2 ^ 64"
  using unsigned_less[where 'a = nat and 'b = 64] by (auto simp: rd_u24_def bind_eq_Some_conv)

lemma judge_other_name:
  assumes "judge crypto d ns = Refuse (OtherName name)"
  shows "length name < 2 ^ 64"
proof -
  from assms obtain st where "first_flight_of st = FlightNamed name"
    by (auto simp: judge_def split: if_splits option.splits first_flight.splits)
  then obtain r n rest where "rd_u24 r = Some (n, rest)" "server_name (take n rest) = Some name"
    by (auto simp: first_flight_of_def rd_take_def split: option.splits if_splits)
  with server_name_length[of "take n rest" name] rd_u24_word show ?thesis by fastforce
qed

lemma judge_a_datagram_holds:
  assumes "ascii_plain plain"
  shows "judge_a_datagram plain crypto d ns"
proof (cases "judge crypto d ns")
  case Pass
  then have "d = [] \<or> d ! 0 AND LONG_HEADER_FORM = 0 \<or> length d < 5 \<or> version_of d = 1"
    by (simp add: judge_def QUIC_V1_def split: if_splits)
  then show ?thesis unfolding judge_a_datagram_def Let_def Pass by auto
next
  case (Refuse r)
  then have open_form: "d \<noteq> []" "d ! 0 AND LONG_HEADER_FORM \<noteq> 0" "5 \<le> length d"
    by (simp_all add: judge_def split: if_splits)
  show ?thesis
  proof (cases "\<exists>v. r = RefuseVersion v")
    case True
    then obtain v where r: "r = RefuseVersion v" by blast
    then have "version_of d = v" "v \<noteq> 1"
      using Refuse by (auto simp: judge_def QUIC_V1_def split: if_splits option.splits first_flight.splits)
    then show ?thesis unfolding judge_a_datagram_def Let_def Refuse r using open_form by simp
  next
    case False
    have "length (escaped_bytes plain name) < 256" if "r = OtherName name" for name
      using escaped_length[OF assms judge_other_name[of crypto d ns name]] Refuse that by simp
    with False show ?thesis
      unfolding judge_a_datagram_def Let_def Refuse LOGGED_NAME_BOUND_def
      using judge_initial[OF Refuse] judge_short[of crypto d ns] Refuse
      by (cases r) simp_all
  qed
qed

lemma read_a_first_flight_holds: "read_a_first_flight crypto"
proof (cases crypto)
  case Nil
  then show ?thesis
    by (simp add: read_a_first_flight_def fail_open_before_the_message_is_whole_def first_flight_of_def rd_byte_def rd_take_def)
next
  case (Cons kind r)
  show ?thesis
  proof (cases "kind = CLIENT_HELLO")
    case False
    then show ?thesis
      by (simp add: Cons read_a_first_flight_def fail_open_before_the_message_is_whole_def first_flight_of_def)
  next
    case hello: True
    show ?thesis
    proof (cases "rd_u24 r")
      case None
      then show ?thesis
        by (simp add: Cons hello read_a_first_flight_def fail_open_before_the_message_is_whole_def first_flight_cons)
    next
      case (Some p)
      then obtain n rest where n: "rd_u24 r = Some (n, rest)" by (cases p) auto
      have "length name \<le> n" if "server_name (take n rest) = Some name" for name
        using server_name_length[OF that] by simp
      then have named_flight: "length name \<le> n" if "first_flight_of (CLIENT_HELLO # r) = FlightNamed name" for name
        using that by (simp add: first_flight_cons n split: if_splits option.splits)
      have truncated: "first_flight_of (CLIENT_HELLO # r) = FlightTruncated \<longleftrightarrow> length r + 1 < n + 4"
        using rd_u24_length[OF n] by (simp add: first_flight_cons n split: option.split)
      have "fail_open_before_the_message_is_whole (CLIENT_HELLO # r) (first_flight_of (CLIENT_HELLO # r))"
        using truncated first_flight_cut[OF n, of 4] first_flight_cut[OF n, of "(n + 4) div 2"] first_flight_cut[OF n, of "n + 4 - 1"]
        by (auto simp: fail_open_before_the_message_is_whole_def n Let_def not_le)
      moreover have "case first_flight_of (CLIENT_HELLO # r) of FlightNamed name \<Rightarrow> length name + 4 \<le> length (CLIENT_HELLO # r) | _ \<Rightarrow> True"
        using named_flight truncated by (cases "first_flight_of (CLIENT_HELLO # r)") auto
      ultimately show ?thesis unfolding Cons hello read_a_first_flight_def Let_def by simp
    qed
  qed
qed

text \<open>
  No input fails the gate target, whatever keys the gate derives: a datagram the endpoint answers nothing to
  passes, a long header of another version is refused as that version, anything else that is refused is an
  Initial packet of this version in a datagram of full size; a ClientHello is judged only when all of it is
  there, a cut one never is, a name is shorter than the bytes it came from, and a refused name takes less
  than 256 bytes of a log line.
\<close>

theorem fuzz_gate_holds:
  assumes "ascii_plain plain"
  shows "fuzz_gate plain crypto input"
  by (simp add: fuzz_gate_def read_a_first_flight_holds judge_a_datagram_holds[OF assms] split: list.split)

theorem fuzz_gate_holds_witness:
  "fuzz_gate (\<lambda>c. 32 \<le> c \<and> \<not> (127 \<le> c \<and> c < 160)) (\<lambda>_. None) (0 # 0xc0 # 0 # 0 # 0 # 2 # replicate 1300 0)"
  by (rule fuzz_gate_holds) (auto simp: ascii_plain_def)

end
