(* ===== verification/Spec2Isabelle.thy ===== *)
theory Spec2Isabelle
  imports Capsule Frame_Budget Frame_Rules Policy Request H3_Connection_Safety Exchange_Safety Request_Safety
    Udp_Safety Tcp_Relay Gate_Safety Congestion_Safety Resolver Connection_Loop Reload H3_Peer Process Diagnostics
    Log_Escape Fuzz_Codecs Fuzz_Requests Fuzz_Gate
begin

text \<open>
  \<^bold>\<open>A MASQUE proxy.\<close> \<^verbatim>\<open>volto\<close> (\<^verbatim>\<open>src/src/\<close>) is a proxy that speaks HTTP/3 over QUIC. A client opens a QUIC
  connection, authenticates with Basic credentials on a request, and asks for a TCP tunnel (\<^verbatim>\<open>CONNECT\<close>) or a
  UDP tunnel (\<^verbatim>\<open>connect-udp\<close>, RFC 9298); the proxy resolves the target, judges its addresses against a
  policy, connects, and carries bytes until either side ends. QUIC and TLS are libraries, everything above
  them is this program's, and that is what the theories model.

  \<^bold>\<open>How the parts work together.\<close> A datagram passes the SNI gate (\<^verbatim>\<open>gate.rs\<close>) before the QUIC library sees
  it. A new connection is admitted by the server (\<^verbatim>\<open>quic/mod.rs\<close>) against the roster (\<^verbatim>\<open>quic/roster.rs\<close>) and
  runs on the configuration then in force (\<^verbatim>\<open>config.rs\<close>, \<^verbatim>\<open>quic/reload.rs\<close>). Its HTTP/3 side
  (\<^verbatim>\<open>h3/connection.rs\<close>) opens three streams, serves those of the peer and routes datagrams; its loop
  (\<^verbatim>\<open>conn.rs\<close>) accepts requests. A request stream (\<^verbatim>\<open>h3/stream.rs\<close>) is cut into frames (\<^verbatim>\<open>h3/frame.rs\<close>), its
  field section decoded (\<^verbatim>\<open>h3/qpack.rs\<close>, \<^verbatim>\<open>h3/huffman.rs\<close>) and judged as a request; \<^verbatim>\<open>handle_request\<close> checks
  its credentials (\<^verbatim>\<open>auth.rs\<close>), its target (\<^verbatim>\<open>tunnel/\<close>, \<^verbatim>\<open>net.rs\<close>, \<^verbatim>\<open>policy.rs\<close>) and its quota, and starts a relay
  (\<^verbatim>\<open>tunnel/tcp.rs\<close>) or a session (\<^verbatim>\<open>tunnel/udp.rs\<close>, over \<^verbatim>\<open>capsule.rs\<close> and \<^verbatim>\<open>datagram.rs\<close>).

  \<^bold>\<open>The theories.\<close> Each opens with the file it models and how state and operations correspond; a definition
  has the name of the function it translates, a record that of the struct, a datatype that of the enum.
    \<^item> \<^emph>\<open>Shared.\<close> \<^verbatim>\<open>Prelude\<close>: machine types, byte order, the \<^verbatim>\<open>?\<close> operator. \<^verbatim>\<open>Utf8\<close>, \<^verbatim>\<open>Strings\<close>, \<^verbatim>\<open>Ip_Text\<close>: the
      parts of the standard library the sources call. \<^verbatim>\<open>Stream_Decoder\<close>: the interface of the incremental
      decoders. \<^verbatim>\<open>Runs\<close>: components driven by a sequence of operations, and their invariants.
    \<^item> \<^emph>\<open>Codecs.\<close> \<^verbatim>\<open>Datagram\<close> (\<^verbatim>\<open>datagram.rs\<close>), \<^verbatim>\<open>Capsule\<close> (\<^verbatim>\<open>capsule.rs\<close>), \<^verbatim>\<open>H3_Error\<close> (\<^verbatim>\<open>h3/error.rs\<close>), \<^verbatim>\<open>Frame\<close>,
      \<^verbatim>\<open>Frame_Decoding\<close>, \<^verbatim>\<open>Frame_Budget\<close>, \<^verbatim>\<open>Frame_Rules\<close>, \<^verbatim>\<open>Frame_Reader\<close> (\<^verbatim>\<open>h3/frame.rs\<close>), \<^verbatim>\<open>Huffman\<close>, \<^verbatim>\<open>Huffman_Code\<close>
      (\<^verbatim>\<open>h3/huffman.rs\<close>), \<^verbatim>\<open>Qpack\<close> (\<^verbatim>\<open>h3/qpack.rs\<close>).
    \<^item> \<^emph>\<open>Requests.\<close> \<^verbatim>\<open>Message\<close> (\<^verbatim>\<open>h3/message.rs\<close>), \<^verbatim>\<open>Request\<close>, \<^verbatim>\<open>Exchange\<close>, \<^verbatim>\<open>Exchange_Safety\<close> (\<^verbatim>\<open>h3/stream.rs\<close>), \<^verbatim>\<open>Auth\<close>
      (\<^verbatim>\<open>auth.rs\<close>), \<^verbatim>\<open>Targets\<close>, \<^verbatim>\<open>Proxy_Status\<close>, \<^verbatim>\<open>Quota\<close>, \<^verbatim>\<open>Tunnel_Context\<close> (\<^verbatim>\<open>tunnel/\<close>), \<^verbatim>\<open>Policy\<close> (\<^verbatim>\<open>policy.rs\<close>),
      \<^verbatim>\<open>Resolver\<close> (\<^verbatim>\<open>net.rs\<close>), \<^verbatim>\<open>Request_Handling\<close>, \<^verbatim>\<open>Request_Safety\<close> (\<^verbatim>\<open>conn.rs\<close> with both \<^verbatim>\<open>run\<close> functions up to
      where bytes flow).
    \<^item> \<^emph>\<open>Tunnels.\<close> \<^verbatim>\<open>Tcp_Relay\<close> (\<^verbatim>\<open>tunnel/tcp.rs\<close>), \<^verbatim>\<open>Udp_Session\<close>, \<^verbatim>\<open>Udp_Safety\<close> (\<^verbatim>\<open>tunnel/udp.rs\<close>).
    \<^item> \<^emph>\<open>Connections.\<close> \<^verbatim>\<open>H3_Connection\<close>, \<^verbatim>\<open>H3_Connection_Safety\<close>, \<^verbatim>\<open>H3_Peer\<close> (\<^verbatim>\<open>h3/connection.rs\<close>),
      \<^verbatim>\<open>Connection_Loop\<close> (\<^verbatim>\<open>conn.rs\<close>, \<^verbatim>\<open>h3api.rs\<close>), \<^verbatim>\<open>Congestion\<close>, \<^verbatim>\<open>Congestion_Safety\<close> (\<^verbatim>\<open>congestion.rs\<close>).
    \<^item> \<^emph>\<open>The server.\<close> \<^verbatim>\<open>Gate\<close>, \<^verbatim>\<open>Gate_Safety\<close> (\<^verbatim>\<open>gate.rs\<close>), \<^verbatim>\<open>Roster\<close> (\<^verbatim>\<open>quic/roster.rs\<close>), \<^verbatim>\<open>Config\<close>, \<^verbatim>\<open>Config_Safety\<close>
      (\<^verbatim>\<open>config.rs\<close>), \<^verbatim>\<open>Server\<close>, \<^verbatim>\<open>Server_Safety\<close> (\<^verbatim>\<open>quic/mod.rs\<close>, \<^verbatim>\<open>quic/transport.rs\<close>, \<^verbatim>\<open>quic/socket.rs\<close>, \<^verbatim>\<open>tls.rs\<close>),
      \<^verbatim>\<open>Reload\<close> (\<^verbatim>\<open>quic/reload.rs\<close>), \<^verbatim>\<open>Process\<close> (\<^verbatim>\<open>shutdown.rs\<close>, \<^verbatim>\<open>Server::run\<close>, \<^verbatim>\<open>main.rs\<close>), \<^verbatim>\<open>Diagnostics\<close>
      (\<^verbatim>\<open>max_open_files\<close> of \<^verbatim>\<open>net.rs\<close>, the report and the journal marks of \<^verbatim>\<open>main.rs\<close>), \<^verbatim>\<open>Logfmt\<close>, \<^verbatim>\<open>Log_Escape\<close>
      (\<^verbatim>\<open>logfmt.rs\<close>).
    \<^item> \<^emph>\<open>Fuzz targets.\<close> \<^verbatim>\<open>Fuzz_Codecs\<close>, \<^verbatim>\<open>Fuzz_Requests\<close>, \<^verbatim>\<open>Fuzz_Gate\<close> (\<^verbatim>\<open>src/fuzz/fuzz_targets/\<close>): the assertions of
      the targets as functions of the input, proved for every input.

  \<^bold>\<open>What is shown.\<close>
    \<^item> \<^emph>\<open>Codecs\<close>: encoders and decoders are inverse; a decoder accepts exactly a declarative grammar, reports
      the error the rules demand, and its result does not depend on how the transport cut the bytes; what
      it buffers is bounded, alone and summed over a connection.
    \<^item> \<^emph>\<open>Requests\<close>: a field section is a request exactly when it is well-formed; a tunnel is opened only for
      the authorised, only to permitted addresses, and only with a quota slot; whoever is refused has no
      effect on the outside; failures stay below their limit while a connection is open and pass it by less
      than one request's credentials; slots, counters and answers are accounted for on every path.
    \<^item> \<^emph>\<open>Tunnels\<close>: a relay refines two reliable channels and tells both sides the truth about its end;
      datagrams and capsules arrive as they were sent, as far as the budget for unanswered packets allows,
      and that budget bounds what targets that send nothing are sent, over all sessions.
    \<^item> \<^emph>\<open>Connections\<close>: one violation per connection and the first one told; critical streams unique;
      GOAWAY keeps its word; the loop of a connection ends as its branches say; the capped window.
    \<^item> \<^emph>\<open>The server\<close>: the gate judges a handshake that arrives whole by the name it asks for, lets one that
      spans several packets pass, and blinds what it refuses; who is admitted at the cap and at whose
      expense; a configuration that passes validation is one every component can run on; a reload takes
      effect as a whole, a renewed certificate included; the latch wakes every waiter, no connection is
      started after the signal, and the drain ends before the process stops waiting; of a request the log
      shows no secret, and of a close reason no control character.
    \<^item> \<^emph>\<open>Across components\<close>, below: what a deployment with a configuration free of warnings may rely on.

  \<^bold>\<open>Interfaces.\<close> Where components rely on one another, a locale states the contract and is interpreted on
  the model's definitions: \<^verbatim>\<open>varint_codec\<close> (\<^verbatim>\<open>Datagram\<close>), \<^verbatim>\<open>decoder_loop\<close> and \<^verbatim>\<open>chunk_decoder\<close>
  (\<^verbatim>\<open>Stream_Decoder\<close>; capsules, frames, the fuzz target's frames), \<^verbatim>\<open>shared_budget\<close> (\<^verbatim>\<open>Frame_Budget\<close>),
  \<^verbatim>\<open>operations\<close> and \<^verbatim>\<open>started_operations\<close> (\<^verbatim>\<open>Runs\<close>; roster, server, sessions, relays, resolver, controller,
  connection loop, peer side, latch, accept loop).

  \<^bold>\<open>Concurrency.\<close> Tasks of one runtime interleave at their waits: a step of the model is what one task does
  between two of them, with the branch of \<^verbatim>\<open>select!\<close> that was ready as an input, and statements hold for
  every sequence of steps. Where threads share memory without a wait in between -- the quota and its waiter,
  the swap of a configuration -- the step is one atomic action of the source.

  \<^bold>\<open>Termination.\<close> No definition has fuel. Loops are structural or have a measure, mostly the bytes left;
  the loops around the decoders are \<^verbatim>\<open>partial_function (option)\<close>, and that they return on every input is
  part of the interface (\<^verbatim>\<open>decoder_loop\<close>), proved from a weight each call lowers. Loops that wait are driven
  by a finite sequence of inputs, of any length.

  \<^bold>\<open>What is a parameter.\<close> The outside of a request is the record \<^verbatim>\<open>world\<close>: the resolver, connecting, binding,
  what addresses the host holds, what the client's flow control does to an answer, the text of an address.
  Reads and writes of streams carry their outcome. Parameters are also the Initial keys of the QUIC library
  (\<^verbatim>\<open>crypto\<close>), its BBR controller and round-trip estimate, percent-decoding (\<^verbatim>\<open>pct\<close>), \<^verbatim>\<open>getaddrinfo\<close>, whether a
  log filter is valid and a file exists, what the certificate and key files hold (\<^verbatim>\<open>certificates\<close>, and
  \<^verbatim>\<open>pki\<close>, which every reload reads anew), and the Unicode tables of \<^verbatim>\<open>Debug\<close> (\<^verbatim>\<open>plain\<close>), of which only what is
  documented of ASCII, the control characters and U+FFFD is assumed. Hypotheses about them are named where they are used, and witnesses
  show that they can hold.

  \<^bold>\<open>Ghost state.\<close> Where a property speaks of the past, a history is kept beside the state of the code and
  steers nothing: the generations a reload has applied (\<^verbatim>\<open>Reload\<close>), the attempts at authentication
  (\<^verbatim>\<open>Tunnel_Context\<close>), the sessions whose target has sent a packet (\<^verbatim>\<open>Udp_Safety\<close>).

  \<^bold>\<open>Simplified.\<close> A lookup, a connect and a bind of a request are answers of its \<^verbatim>\<open>world\<close> and leave no trace, so
  one that is made and ignored is not seen; a released lookup permit is free for the next lookup that is
  polled, where the semaphore hands it to the first that waits; admission at the cap is one step, where
  the source takes the roster's lock three times; the peer's stream credit is a constant of the run, any
  constant; what the library does when a stream half is dropped is not recorded.

  \<^bold>\<open>Not modelled.\<close> The TOML reader, QUIC, TLS and the runtime, which are libraries; the wording of log lines
  and error details, which nothing decides by; creating, binding and sizing sockets beyond the decisions
  the code takes about them, and the printing of the diagnostics report, which are calls of the operating
  system; that comparisons of secrets take constant time, which values do not show; that a changed
  connection ID no longer decrypts, which is about the cipher; unit and integration tests.
\<close>

section \<open>A connection of a configured server\<close>

text \<open>Through all turns of a connection its users and its policy are those of its configuration.\<close>

definition built_from :: "config \<Rightarrow> serving \<Rightarrow> bool" where
  "built_from cfg s \<longleftrightarrow> auth (ctx s) = cfg_users cfg \<and> ctx_policy (ctx s) = policy_new (cfg_security cfg)"

lemma built_from_turn: "built_from cfg s \<Longrightarrow> built_from cfg (handle_turn s x)"
proof (cases "outcome s = None")
  case running: True
  assume b: "built_from cfg s"
  note turn = handle_turn.simps[of s x] running b
  have keep: "auth (ctx (update_quota f s)) = auth (ctx s)" "ctx_policy (ctx (update_quota f s)) = ctx_policy (ctx s)" for f
    by (simp_all add: update_quota_def)
  show ?thesis
  proof (cases x)
    case (ShutdownFires w)
    with turn show ?thesis
      by (cases w) (auto simp: announce_goaway_def built_from_def Let_def)
  next
    case (RequestPass now offer)
    from running show ?thesis
      by (cases rule: request_pass_cases[where now = now and offer = offer])
        (use turn RequestPass keep in \<open>auto simp: built_from_def\<close>)
  next
    case (TaskAuthenticates u)
    with turn show ?thesis
      by (auto simp: built_from_def mark_authenticated_def gate_mark_def Let_def split: option.splits)
  next
    case TaskAcquires
    with turn keep show ?thesis by (auto simp: built_from_def split: option.splits)
  qed (use turn keep in \<open>auto simp: built_from_def\<close>)
qed (simp add: handle_turn.simps)

interpretation built: operations handle_turn "built_from cfg" for cfg
  by unfold_locales (rule built_from_turn)

lemma built_from_start: "built_from cfg (handle_start cfg peer g now credit)"
  by (simp add: built_from_def handle_start_def context_new_def context_settings_def Let_def)

text \<open>Addresses anyone may reach: outside every special-purpose prefix, in whatever form they are written.\<close>

definition public_address :: "ip_addr \<Rightarrow> bool" where
  "public_address a \<longleftrightarrow> registry_allows \<lparr>allow_private_networks = False, denied_ports = []\<rparr> (stands_for a)"

lemma registry_public: "\<not> allow_private_networks p \<Longrightarrow> allows_address p a = public_address a"
  by (cases "stands_for a") (simp_all add: allows_address_eq public_address_def)

lemma no_placeholders: "placeholders us = [] \<longleftrightarrow> (\<forall>u \<in> set us. user_password u \<noteq> EXAMPLE_PLACEHOLDER_PASSWORD)"
  by (auto simp: placeholders_def filter_empty_conv all_set_conv_all_nth)

lemma warn_if_none [simp]: "warn_if b w = [] \<longleftrightarrow> \<not> b"
  by (simp add: warn_if_def)

lemma quiet_config:
  assumes "warnings cs cfg = []"
  shows "cfg_users cfg \<noteq> []" "\<not> sec_allow_private_networks (cfg_security cfg)"
    "u \<in> set (cfg_users cfg) \<Longrightarrow> user_password u \<noteq> EXAMPLE_PLACEHOLDER_PASSWORD"
  using assms by (auto simp: warnings_def credential_warnings_def limit_warnings_def no_placeholders Let_def)

lemma literal_v4: "literal (dotted (octets a)) p = Some \<lparr>ip = V4 a, port = p\<rparr>"
  using parse_ip_v4[of "dotted (octets a)" a] by (simp add: literal_def)

text \<open>
  C4. What a deployment may rely on, from the bytes of a stream to the tunnel. Under a configuration that passes
  validation without a warning, and in whatever state a connection is, the bytes of a request stream, cut
  into reads anyhow, end in a tunnel only if their first frame that is not skipped is a HEADERS frame whose
  field section decodes to a well-formed request, and that request presents the name and the password of a
  configured user, not the password of the example; the target is then outside every special-purpose
  prefix, its port is not denied, and a host written as an IPv4 address is that address, whatever the
  resolver says.
\<close>

theorem hardened_deployment:
  assumes "validate_config env_filter is_file cfg = Inr ()" "warnings cs cfg = []"
    and "handle_request (with_resolver dns e) i (sh, used) (ctx (foldl handle_turn (handle_start cfg peer g now credit) turns)) reads
      = (g', c', st', reads', d)" "d = TcpTunnel host prt t \<or> d = UdpTunnel host prt t"
  shows "\<exists>block sect req. case_prod block_of (stream_run (frame_reader_new Request, used) reads) = Returned (Inr block)
    \<and> qpack_decode block (unat MAX_FIELD_SECTION_SIZE) = Inr sect \<and> well_formed_request sect req
    \<and> (\<exists>v u. v \<in> set (credentials (req_fields req)) \<and> u \<in> set (cfg_users cfg) \<and> presents v (user_name u) (user_password u)
        \<and> user_password u \<noteq> [] \<and> user_password u \<noteq> EXAMPLE_PLACEHOLDER_PASSWORD)
    \<and> public_address (ip t) \<and> prt \<notin> set (sec_denied_ports (cfg_security cfg))
    \<and> (\<forall>a. if host = dotted (octets a) then t = \<lparr>ip = V4 a, port = prt\<rparr> else True)"
proof -
  let ?s = "foldl handle_turn (handle_start cfg peer g now credit) turns" and ?e = "with_resolver dns e"
  from handle_request_tunnel[OF assms(3,4)] obtain req sh1 st sh' reads1 where
    res: "resolve (sh, used) resolver_new reads (response_write ?e) = (sh1, st, reads1, Returned (Inr req))"
    and srv: "serve_request ?e req i (fst sh1) (ctx ?s) st = (sh', c', st', d)" by blast
  obtain block sect where decoded: "case_prod block_of (stream_run (frame_reader_new Request, used) reads) = Returned (Inr block)"
    "qpack_decode block (unat MAX_FIELD_SECTION_SIZE) = Inr sect" "well_formed_request sect req"
    by (rule resolved_request[OF res])
  have "built_from cfg ?s" by (rule built.inv_run[OF built_from_start])
  then have b: "auth (ctx ?s) = cfg_users cfg" "ctx_policy (ctx ?s) = policy_new (cfg_security cfg)" by (simp_all add: built_from_def)
  note quiet = quiet_config[OF assms(2)]
  note f = tunnel_facts[OF srv assms(4)]
  then obtain v u where u: "v \<in> set (credentials (req_fields req))" "u \<in> set (cfg_users cfg)" "presents v (user_name u) (user_password u)"
    using b quiet(1) by (auto simp: authorised_def)
  have "user_ok u" using assms(1) u(2) by (auto simp: validate_config_ok config_ok_def list_all_iff)
  moreover have p: "permitted ?e (ctx ?s) host prt t" using f by blast
  moreover have "public_address (ip t)" "prt \<notin> set (sec_denied_ports (cfg_security cfg))"
    using p b quiet(2) registry_public[of "policy_new (cfg_security cfg)"]
    by (auto simp: permitted_def allows_port_def policy_new_def)
  moreover have "t = \<lparr>ip = V4 a, port = prt\<rparr>" if "host = dotted (octets a)" for a
    using p that with_resolver_literal[OF literal_v4] by (auto simp: permitted_def)
  ultimately have "(\<exists>v u. v \<in> set (credentials (req_fields req)) \<and> u \<in> set (cfg_users cfg) \<and> presents v (user_name u) (user_password u)
        \<and> user_password u \<noteq> [] \<and> user_password u \<noteq> EXAMPLE_PLACEHOLDER_PASSWORD)
    \<and> public_address (ip t) \<and> prt \<notin> set (sec_denied_ports (cfg_security cfg))
    \<and> (\<forall>a. if host = dotted (octets a) then t = \<lparr>ip = V4 a, port = prt\<rparr> else True)"
    using u quiet(3) by (auto simp: user_ok_def)
  with decoded show ?thesis by blast
qed

text \<open>The example of a configuration, with a client that asks for an address.\<close>

definition sample_credentials :: fields where
  "sample_credentials = [(byte_string ''proxy-authorization'', byte_string ''Basic YWw6cDp3'')]"

definition sample_literal :: request where
  "sample_literal = (request_new Connect)\<lparr>req_authority := Some (byte_string ''8.8.8.8:443''), req_fields := sample_credentials\<rparr>"

definition no_certificates :: "unit certificates" where
  "no_certificates = \<lparr>cert_load = (\<lambda>_. None), cert_parses = (\<lambda>_. False), cert_verifies = (\<lambda>_ _. False)\<rparr>"

lemma sample_config_quiet: "warnings no_certificates sample_config = []"
proof -
  have "byte_string ''p:w'' \<noteq> EXAMPLE_PLACEHOLDER_PASSWORD" by code_simp
  then show ?thesis
    by (simp add: warnings_def credential_warnings_def sni_warnings_def limit_warnings_def transport_warnings_def
        no_placeholders no_certificates_def sample_config_def limits_default_def security_default_def log_default_def
        config_constants DEFAULT_ALPN_def Let_def)
qed

lemma sample_literal_tunnel:
  "snd (snd (snd (serve_request (with_resolver (\<lambda>_ _. NoReply) sample_world) sample_literal i sh
     (ctx (handle_start sample_config True False 0 8)) st)))
   = TcpTunnel (byte_string ''8.8.8.8'') 443 \<lparr>ip = V4 0x08080808, port = 443\<rparr>"
proof -
  have "connection_specific_field sample_literal = None" "credential_values sample_credentials \<le> MAX_CREDENTIAL_VALUES"
    "authenticate [\<lparr>user_name = byte_string ''al'', user_password = byte_string ''p:w''\<rparr>] sample_credentials = Inr (Some (byte_string ''al''))"
    "allows_address \<lparr>allow_private_networks = False, denied_ports = [25]\<rparr> (V4 0x08080808)"
    by code_simp+
  moreover have "split_authority (byte_string ''8.8.8.8:443'') = Inr (byte_string ''8.8.8.8'', 443)"
    by (simp add: split_authority_def split_host_def strip_prefix_def rsplit_once_def split_once_def stray_bracket_def
        checked_port_def is_port_def parse_u16_def byte_string_def is_ascii_digit_def)
  moreover have "admit_target (\<lambda>a. False) 443 (Inr [\<lparr>ip = V4 0x08080808, port = 443\<rparr>]) [] c st w = (c, st, Some [\<lparr>ip = V4 0x08080808, port = 443\<rparr>])"
    if "ctx_policy c = \<lparr>allow_private_networks = False, denied_ports = [25]\<rparr>" "ip_family c = PreferIpv4" for c st w
    using that \<open>allows_address _ _\<close>
    by (simp add: admit_target_def allows_port_def prefer_family_def allowed_addresses_def is_the_proxys_own_def Let_def)
  moreover have "lookup (with_resolver (\<lambda>_ _. NoReply) sample_world) (byte_string ''8.8.8.8'') 443 = Inr [\<lparr>ip = V4 0x08080808, port = 443\<rparr>]"
  proof -
    have "dotted (octets 0x08080808) = byte_string ''8.8.8.8''" by code_simp
    then show ?thesis using with_resolver_literal[OF literal_v4[of "0x08080808"]] by simp
  qed
  moreover have "(with_resolver (\<lambda>_ _. NoReply) sample_world)\<lparr>lookup := lookup sample_world\<rparr> = sample_world"
    by (simp add: with_resolver_def sample_world_def)
  ultimately show ?thesis
    by (simp add: serve_request_def authorise_def handle_start_def context_settings_def policy_new_def sample_config_def
        limits_default_def security_default_def config_constants context_new_def Let_def with_resolver_def
        mark_authenticated_def gate_mark_def acquire_def quota_new_def run_route_def route_of_def sample_literal_def request_new_def
        tcp_run_def sample_world_def connect_any_def respond_200 landed_def)
qed

definition sample_fields :: "(bytes \<times> bytes) list" where
  "sample_fields = [(byte_string '':method'', byte_string ''CONNECT''), (byte_string '':authority'', byte_string ''8.8.8.8:443''),
     (byte_string ''proxy-authorization'', byte_string ''Basic YWw6cDp3'')]"

lemma sample_fields_request: "build_request (map as_field sample_fields) = Inr sample_literal"
  by code_simp

lemma sample_resolved:
  "\<exists>used st reads'. resolve (shared_default, 0) resolver_new [Chunk (wire_frame_bytes (HEADERS, qpack_encode sample_fields))] w
     = ((shared_default, used), st, reads', Returned (Inr sample_literal))"
proof -
  have "sum_list (map (field_size \<circ> as_field) sample_fields) = 164"
    by (simp add: sample_fields_def as_field_def field_size_def FIELD_OVERHEAD_def byte_string_def)
  with qpack_encode_length[of sample_fields] have "length (qpack_encode sample_fields) \<le> unat MAX_BUFFERED_FRAME"
    "sum_list (map (field_size \<circ> as_field) sample_fields) \<le> unat MAX_FIELD_SECTION_SIZE"
    "unat MAX_BUFFERED_FRAME \<le> HEADERS_BUFFER_BUDGET"
    by (simp_all add: MAX_BUFFERED_FRAME_def MAX_FIELD_SECTION_SIZE_def HEADERS_BUFFER_BUDGET_def)
  with request_received[of "[wire_frame_bytes (HEADERS, qpack_encode sample_fields)]" "[]" sample_fields "[]" 0 shared_default "[]" w]
    sample_fields_request
  show ?thesis by (auto split: prod.splits)
qed

lemma sample_handled:
  "\<exists>g' c' st' reads'. handle_request (with_resolver (\<lambda>_ _. NoReply) sample_world) 0 (shared_default, 0)
      (ctx (foldl handle_turn (handle_start sample_config True False 0 8) []))
      [Chunk (wire_frame_bytes (HEADERS, qpack_encode sample_fields))]
    = (g', c', st', reads', TcpTunnel (byte_string ''8.8.8.8'') 443 \<lparr>ip = V4 0x08080808, port = 443\<rparr>)"
proof -
  let ?e = "with_resolver (\<lambda>_ _. NoReply) sample_world" and ?c = "ctx (handle_start sample_config True False 0 8)"
  obtain used st reads' where r: "resolve (shared_default, 0) resolver_new
      [Chunk (wire_frame_bytes (HEADERS, qpack_encode sample_fields))] (response_write ?e)
    = ((shared_default, used), st, reads', Returned (Inr sample_literal))"
    using sample_resolved by blast
  obtain sh' c' st' d where "serve_request ?e sample_literal 0 shared_default ?c st = (sh', c', st', d)"
    by (cases "serve_request ?e sample_literal 0 shared_default ?c st")
  with sample_literal_tunnel[of 0 shared_default st] r show ?thesis by (simp add: handle_request_def)
qed

theorem hardened_deployment_witness:
  "public_address (V4 0x08080808) \<and> (443 :: u16) \<notin> set (sec_denied_ports (cfg_security sample_config))"
proof -
  have "validate_config (\<lambda>_. False) (\<lambda>_. True) sample_config = Inr ()" by (simp add: validate_config_ok sample_config_ok)
  with sample_handled show ?thesis
    using hardened_deployment[of "\<lambda>_. False" "\<lambda>_. True" sample_config no_certificates] sample_config_quiet by fastforce
qed

end
